(* ===== verification/Egg_Prelude.thy ===== *)
theory Egg_Prelude
  imports Main "HOL-Library.Word" "HOL-Library.Sublist"
begin

text \<open>
  Shared vocabulary of the development: the outcome type that stands for Rust's
  \<open>Result\<close> together with panics, the state-passing iterators that stand for
  \<open>iter().map(..).collect()\<close> under an \<open>FnMut\<close> closure and for loops with
  \<open>?\<close>, the index lookup of an \<open>IndexSet\<close>, and decimal printing.
\<close>

named_theorems outcome_simps
  \<comment> \<open>inversion of successful monadic steps\<close>

named_theorems frame_intros
  \<comment> \<open>the arena only grows: one fact per operation\<close>

section \<open>Outcomes\<close>

text \<open>
  \<open>Ok\<close> and \<open>Err\<close> are Rust's \<open>Result\<close>; \<open>Panic\<close> stands for every way a
  call does not return: \<open>panic!\<close>, \<open>unwrap\<close> of \<open>None\<close>, an index out of range, an
  exhausted stack.
\<close>

datatype ('e, 'a) outcome = Ok 'a | Err 'e | Panic

fun bind_o :: "('e, 'a) outcome \<Rightarrow> ('a \<Rightarrow> ('e, 'b) outcome) \<Rightarrow> ('e, 'b) outcome" where
  "bind_o (Ok a) f = f a"
| "bind_o (Err e) f = Err e"
| "bind_o Panic f = Panic"

lemma bind_o_cong [fundef_cong]:
  "m = m' \<Longrightarrow> (\<And>a. m' = Ok a \<Longrightarrow> f a = f' a) \<Longrightarrow> bind_o m f = bind_o m' f'"
  by (cases m') auto

lemma bind_o_eq_Ok [outcome_simps]:
  "bind_o m f = Ok b \<longleftrightarrow> (\<exists>a. m = Ok a \<and> f a = Ok b)"
  by (cases m) auto

lemma bind_o_assoc: "bind_o (bind_o m f) g = bind_o m (\<lambda>a. bind_o (f a) g)"
  by (cases m) auto

definition opt_o :: "('e, 'a) outcome \<Rightarrow> 'a option \<Rightarrow> ('e, 'a) outcome" where
  "opt_o e x = (case x of None \<Rightarrow> e | Some a \<Rightarrow> Ok a)"

lemma opt_o_simps [simp]: "opt_o e None = e" "opt_o e (Some a) = Ok a"
  by (simp_all add: opt_o_def)

lemma opt_o_Panic_Ok [outcome_simps]: "opt_o Panic x = Ok a \<longleftrightarrow> x = Some a"
  by (cases x) auto

lemma opt_o_Err_Ok [outcome_simps]: "opt_o (Err e) x = Ok a \<longleftrightarrow> x = Some a"
  by (cases x) auto

definition guard_o :: "('e, unit) outcome \<Rightarrow> bool \<Rightarrow> ('e, unit) outcome" where
  "guard_o e b = (if b then Ok () else e)"

lemma guard_o_simps [simp]: "guard_o e True = Ok ()" "guard_o e False = e"
  by (simp_all add: guard_o_def)

lemma guard_o_Panic_Ok [outcome_simps]: "guard_o Panic b = Ok u \<longleftrightarrow> b"
  by (cases b) auto

lemma guard_o_Err_Ok [outcome_simps]: "guard_o (Err e) b = Ok u \<longleftrightarrow> b"
  by (cases b) auto

lemma case_option_eq_Ok [outcome_simps]:
  "(case x of None \<Rightarrow> Err e | Some a \<Rightarrow> f a) = Ok b \<longleftrightarrow> (\<exists>a. x = Some a \<and> f a = Ok b)"
  "(case x of None \<Rightarrow> Panic | Some a \<Rightarrow> f a) = Ok b \<longleftrightarrow> (\<exists>a. x = Some a \<and> f a = Ok b)"
  by (auto split: option.splits)

section \<open>Iterators under a stateful closure\<close>

text \<open>
  \<open>map_st f xs s\<close> is \<open>xs.into_iter().map(|x| f(x)).collect()\<close> where the closure
  \<open>f\<close> reads and writes the state \<open>s\<close>.
\<close>

fun map_st :: "('a \<Rightarrow> 's \<Rightarrow> 'b \<times> 's) \<Rightarrow> 'a list \<Rightarrow> 's \<Rightarrow> 'b list \<times> 's" where
  "map_st f [] s = ([], s)"
| "map_st f (x # xs) s =
     (let (y, s1) = f x s; (ys, s2) = map_st f xs s1 in (y # ys, s2))"

lemma map_st_cong [fundef_cong]:
  "xs = ys \<Longrightarrow> s = s' \<Longrightarrow> (\<And>x s. x \<in> set ys \<Longrightarrow> f x s = g x s)
     \<Longrightarrow> map_st f xs s = map_st g ys s'"
proof (induction ys arbitrary: xs s s')
  case (Cons y ys)
  then show ?case by (simp split: prod.split)
qed simp

lemma map_st_length: "length (fst (map_st f xs s)) = length xs"
proof (induction xs arbitrary: s)
  case (Cons x xs)
  show ?case
    using Cons.IH [of "snd (f x s)"] by (simp add: Let_def case_prod_unfold)
qed simp

lemma map_st_pure: "(\<And>x s. x \<in> set xs \<Longrightarrow> f x s = (g x, s)) \<Longrightarrow> map_st f xs s = (map g xs, s)"
  by (induction xs arbitrary: s) auto

lemma map_st_append:
  "map_st f (xs @ ys) s =
     (let (as, s1) = map_st f xs s; (bs, s2) = map_st f ys s1 in (as @ bs, s2))"
  by (induction xs arbitrary: s) (auto simp: Let_def split: prod.split)

text \<open>The same with a closure that can fail: a loop whose body uses \<open>?\<close>.\<close>

fun map_out :: "('a \<Rightarrow> 's \<Rightarrow> ('e, 'b \<times> 's) outcome) \<Rightarrow> 'a list \<Rightarrow> 's \<Rightarrow> ('e, 'b list \<times> 's) outcome"
where
  "map_out f [] s = Ok ([], s)"
| "map_out f (x # xs) s =
     bind_o (f x s) (\<lambda>(y, s1). bind_o (map_out f xs s1) (\<lambda>(ys, s2). Ok (y # ys, s2)))"

lemma map_out_cong [fundef_cong]:
  "xs = ys \<Longrightarrow> s = s' \<Longrightarrow> (\<And>x s. x \<in> set ys \<Longrightarrow> f x s = g x s)
     \<Longrightarrow> map_out f xs s = map_out g ys s'"
proof (induction ys arbitrary: xs s s')
  case (Cons y ys)
  have "\<And>s. map_out f ys s = map_out g ys s"
    using Cons.IH [OF refl refl] Cons.prems(3) by auto
  then show ?case using Cons.prems by simp
qed simp

lemma map_out_length: "map_out f xs s = Ok (ys, s') \<Longrightarrow> length ys = length xs"
  by (induction xs arbitrary: s ys) (auto simp: bind_o_eq_Ok)

lemma map_out_pure_at:
  "(\<And>x. x \<in> set xs \<Longrightarrow> f x s = Ok (g x, s)) \<Longrightarrow> map_out f xs s = Ok (map g xs, s)"
  by (induction xs) auto

text \<open>
  A fallible loop keeps an invariant, extends the state, and establishes for each element
  a relation that later extensions keep.
\<close>

lemma map_out_invariant:
  assumes "map_out f xs s = Ok (ys, s')" "I s"
    and "\<And>x s y s'. x \<in> set xs \<Longrightarrow> I s \<Longrightarrow> f x s = Ok (y, s') \<Longrightarrow> I s' \<and> le s s' \<and> P x y s'"
    and "\<And>s. le s s" "\<And>a b c. le a b \<Longrightarrow> le b c \<Longrightarrow> le a c"
    and "\<And>x y s s'. I s \<Longrightarrow> I s' \<Longrightarrow> le s s' \<Longrightarrow> P x y s \<Longrightarrow> P x y s'"
  shows "I s' \<and> le s s' \<and> list_all2 (\<lambda>x y. P x y s') xs ys"
  using assms(1,2,3)
proof (induction xs arbitrary: s ys)
  case Nil
  then show ?case using assms(4) by simp
next
  case (Cons x xs)
  from Cons.prems(1) obtain y s1 zs where
    1: "f x s = Ok (y, s1)" "map_out f xs s1 = Ok (zs, s')" "ys = y # zs"
    by (auto simp: bind_o_eq_Ok)
  have 2: "I s1" "le s s1" "P x y s1" using Cons.prems(2,3) 1(1) by auto
  have 3: "I s'" "le s1 s'" "list_all2 (\<lambda>x y. P x y s') xs zs"
    using Cons.IH [OF 1(2) 2(1)] Cons.prems(3) by auto
  have "P x y s'" using assms(6) [OF 2(1) 3(1,2) 2(3)] .
  with 1 2 3 assms(5) show ?case by auto
qed

fun fold_out :: "('a \<Rightarrow> 's \<Rightarrow> ('e, 's) outcome) \<Rightarrow> 'a list \<Rightarrow> 's \<Rightarrow> ('e, 's) outcome" where
  "fold_out f [] s = Ok s"
| "fold_out f (x # xs) s = bind_o (f x s) (fold_out f xs)"

lemma fold_out_cong [fundef_cong]:
  "xs = ys \<Longrightarrow> s = s' \<Longrightarrow> (\<And>x s. x \<in> set ys \<Longrightarrow> f x s = g x s)
     \<Longrightarrow> fold_out f xs s = fold_out g ys s'"
proof (induction ys arbitrary: xs s s')
  case (Cons y ys)
  have "fold_out f ys = fold_out g ys"
    using Cons.IH [OF refl refl] Cons.prems(3) by (intro ext) auto
  then show ?case using Cons.prems by simp
qed simp

text \<open>An invariant kept by every step of a fallible loop holds after it.\<close>

lemma fold_out_invariant:
  assumes "fold_out f xs s = Ok s'" and "I s"
    and "\<And>x s s'. x \<in> set xs \<Longrightarrow> I s \<Longrightarrow> f x s = Ok s' \<Longrightarrow> I s'"
  shows "I s'"
  using assms
proof (induction xs arbitrary: s)
  case (Cons x xs)
  then obtain s1 where "f x s = Ok s1" "fold_out f xs s1 = Ok s'"
    by (auto simp: bind_o_eq_Ok)
  with Cons show ?case by (metis list.set_intros)
qed simp

lemma fold_st_invariant:
  assumes "I s" and "\<And>x s. x \<in> set xs \<Longrightarrow> I s \<Longrightarrow> I (f x s)"
  shows "I (fold f xs s)"
  using assms by (induction xs arbitrary: s) auto

section \<open>Index lookup\<close>

text \<open>\<open>IndexSet::get_index_of\<close>: the position of the first equal element.\<close>

fun index_of :: "'a \<Rightarrow> 'a list \<Rightarrow> nat option" where
  "index_of x [] = None"
| "index_of x (y # ys) = (if x = y then Some 0 else map_option Suc (index_of x ys))"

lemma index_of_None [simp]: "index_of x xs = None \<longleftrightarrow> x \<notin> set xs"
  by (induction xs) auto

lemma index_of_Some: "index_of x xs = Some i \<Longrightarrow> i < length xs \<and> xs ! i = x"
  by (induction xs arbitrary: i) (auto split: if_splits)

lemma index_of_nth: "distinct xs \<Longrightarrow> i < length xs \<Longrightarrow> index_of (xs ! i) xs = Some i"
proof (induction xs arbitrary: i)
  case (Cons y ys)
  then show ?case by (cases i) auto
qed simp

lemma nth_prefix: "prefix xs ys \<Longrightarrow> i < length xs \<Longrightarrow> ys ! i = xs ! i"
  by (auto simp: prefix_def nth_append)

lemma prefix_length: "prefix xs ys \<Longrightarrow> length xs \<le> length ys"
  by (auto simp: prefix_def)

section \<open>Strings\<close>

text \<open>
  Rust strings are UTF-8; a \<open>string\<close> here is their list of bytes. A byte
  \<open>10xxxxxx\<close> continues a character, every other byte starts one.
\<close>

definition is_continuation :: "char \<Rightarrow> bool" where
  "is_continuation c = (of_char c div (64::nat) = 2)"

definition char_count :: "string \<Rightarrow> nat" where
  "char_count s = length (filter (\<lambda>c. \<not> is_continuation c) s)"

definition newline :: char where
  "newline = CHR 0x0A"

definition digit_char :: "nat \<Rightarrow> char" where
  "digit_char d = char_of (48 + d)"

fun nat_to_string :: "nat \<Rightarrow> string" where
  "nat_to_string n =
     (if n < 10 then [digit_char n] else nat_to_string (n div 10) @ [digit_char (n mod 10)])"

declare nat_to_string.simps [simp del]

definition int_to_string :: "int \<Rightarrow> string" where
  "int_to_string i = (if i < 0 then CHR ''-'' # nat_to_string (nat (- i)) else nat_to_string (nat i))"

fun join :: "string \<Rightarrow> string list \<Rightarrow> string" where
  "join sep [] = []"
| "join sep [x] = x"
| "join sep (x # y # ys) = x @ sep @ join sep (y # ys)"

lemma nat_to_string_ne [simp]: "nat_to_string n \<noteq> []"
  by (subst nat_to_string.simps) simp

text \<open>Decimal printing is injective: it is inverted by reading the digits back.\<close>

definition read_nat :: "string \<Rightarrow> nat" where
  "read_nat s = foldl (\<lambda>n c. 10 * n + (of_char c - 48)) 0 s"

lemma read_digit: "d < 10 \<Longrightarrow> of_char (digit_char d) - (48::nat) = d"
  by (simp add: digit_char_def)

lemma read_nat_to_string: "read_nat (nat_to_string n) = n"
proof (induction n rule: nat_to_string.induct)
  case (1 n)
  show ?case
  proof (cases "n < 10")
    case True
    then show ?thesis
      by (subst nat_to_string.simps) (simp add: read_nat_def read_digit)
  next
    case False
    with 1 have "read_nat (nat_to_string (n div 10)) = n div 10" by simp
    with False show ?thesis
      by (subst nat_to_string.simps) (simp add: read_nat_def read_digit)
  qed
qed

lemma nat_to_string_inject [simp]: "nat_to_string m = nat_to_string n \<longleftrightarrow> m = n"
  by (metis read_nat_to_string)

end
