(* ===== verification/Union_Find.thy ===== *)
theory Union_Find
  imports Egg_Prelude
begin

text \<open>
  \<open>union-find/src/lib.rs\<close>: the single-threaded union-find with union by
  minimum id and path halving. The structure is the vector \<open>parents\<close>; ids are
  their indices. A loop over parents need not end on an arbitrary vector, so
  \<open>uf_find_loop\<close> and \<open>uf_find_naive_loop\<close> are \<open>option\<close>-valued
  (\<open>None\<close>: an index out of range, or no end); on every vector the operations can
  build they return, which is part of what is proved.
\<close>

section \<open>The operations\<close>

record uf =
  parents :: "nat list"

definition uf_new :: uf where
  "uf_new = \<lparr>parents = []\<rparr>"

definition uf_reset :: "uf \<Rightarrow> uf" where
  "uf_reset u = u\<lparr>parents := [0..<length (parents u)]\<rparr>"

definition uf_reserve :: "uf \<Rightarrow> nat \<Rightarrow> uf" where
  "uf_reserve u v =
     (if length (parents u) \<le> v
      then u\<lparr>parents := parents u @ [length (parents u)..<Suc v]\<rparr> else u)"

partial_function (option) uf_find_loop :: "nat list \<Rightarrow> nat \<Rightarrow> (nat list \<times> nat) option" where
  "uf_find_loop ps cur =
     (if length ps \<le> cur then None
      else if cur = ps ! cur then Some (ps, cur)
      else if length ps \<le> ps ! cur then None
      else uf_find_loop (ps[cur := ps ! (ps ! cur)]) (ps ! (ps ! cur)))"

definition uf_find :: "uf \<Rightarrow> nat \<Rightarrow> (uf \<times> nat) option" where
  "uf_find u i =
     (let u1 = uf_reserve u i
      in map_option (\<lambda>(ps, r). (u1\<lparr>parents := ps\<rparr>, r)) (uf_find_loop (parents u1) i))"

partial_function (option) uf_find_naive_loop :: "nat list \<Rightarrow> nat \<Rightarrow> nat option" where
  "uf_find_naive_loop ps cur =
     (if length ps \<le> cur then None
      else if cur = ps ! cur then Some cur
      else uf_find_naive_loop ps (ps ! cur))"

definition uf_find_naive :: "uf \<Rightarrow> nat \<Rightarrow> nat option" where
  "uf_find_naive u i =
     (if length (parents u) \<le> i then Some i else uf_find_naive_loop (parents u) i)"

definition uf_union :: "uf \<Rightarrow> nat \<Rightarrow> nat \<Rightarrow> (uf \<times> nat \<times> nat) option" where
  "uf_union u a b =
     (let u1 = uf_reserve (uf_reserve u a) b in
      case uf_find u1 a of None \<Rightarrow> None | Some (u2, ra) \<Rightarrow>
      case uf_find u2 b of None \<Rightarrow> None | Some (u3, rb) \<Rightarrow>
      if ra \<noteq> rb then
        (let parent = min ra rb; child = max ra rb
         in Some (u3\<lparr>parents := (parents u3)[child := parent]\<rparr>, parent, child))
      else Some (u3, ra, ra))"

section \<open>Representatives\<close>

text \<open>
  The invariant behind union by minimum: a parent is never larger than its child.
  It makes the parent chain of every id end, at the specified representative
  \<open>root\<close>; an id the vector has not reached yet is its own representative.
\<close>

definition uf_inv :: "uf \<Rightarrow> bool" where
  "uf_inv u \<longleftrightarrow> (\<forall>i < length (parents u). parents u ! i \<le> i)"

function root :: "nat list \<Rightarrow> nat \<Rightarrow> nat" where
  "root ps i = (if i < length ps \<and> ps ! i < i then root ps (ps ! i) else i)"
  by pat_completeness auto
termination
  by (relation "measure (\<lambda>(ps, i). i)") auto

declare root.simps [simp del]

definition uf_rep :: "uf \<Rightarrow> nat \<Rightarrow> nat" where
  "uf_rep u i = root (parents u) i"

lemma uf_inv_new [simp]: "uf_inv uf_new"
  by (simp add: uf_inv_def uf_new_def)

lemma root_le: "root ps i \<le> i"
proof (induction ps i rule: root.induct)
  case (1 ps i)
  then show ?case by (subst root.simps) force
qed

lemma root_self: "ps ! i = i \<Longrightarrow> root ps i = i"
  by (subst root.simps) simp

lemma root_out: "length ps \<le> i \<Longrightarrow> root ps i = i"
  by (subst root.simps) simp

lemma root_step: "i < length ps \<Longrightarrow> ps ! i \<le> i \<Longrightarrow> root ps (ps ! i) = root ps i"
  by (cases "ps ! i = i") (auto simp: root.simps [of ps i])

lemma root_fixed:
  assumes "\<forall>i < length ps. ps ! i \<le> i" and "root ps i < length ps"
  shows "ps ! root ps i = root ps i"
  using assms
proof (induction ps i rule: root.induct)
  case (1 ps i)
  show ?case
  proof (cases "i < length ps \<and> ps ! i < i")
    case True
    with 1 show ?thesis by (simp add: root.simps [of ps i])
  next
    case False
    then have "root ps i = i" by (subst root.simps) (rule if_not_P)
    with False 1 show ?thesis by (metis le_neq_implies_less)
  qed
qed

lemma root_idem: "\<forall>i < length ps. ps ! i \<le> i \<Longrightarrow> root ps (root ps i) = root ps i"
  by (metis leI root_fixed root_out root_self)

lemma root_less: "i < length ps \<Longrightarrow> root ps i < length ps"
  using root_le [of ps i] by simp

lemma root_append_id: "root (ps @ [length ps..<n]) i = root ps i"
proof (induction ps i rule: root.induct)
  case (1 ps i)
  show ?case
  proof (cases "i < length ps")
    case True
    with 1 show ?thesis
      by (cases "ps ! i < i") (simp_all add: root.simps [of _ i] nth_append)
  next
    case False
    then show ?thesis
      by (cases "i < n") (auto simp: root.simps [of _ i] nth_append)
  qed
qed

text \<open>
  Redirecting one id \<open>c\<close> to a smaller \<open>p\<close> changes exactly the representatives
  that pass through \<open>c\<close>; both path halving and union are instances.
\<close>

lemma root_redirect_same:
  assumes inv: "\<forall>i < length ps. ps ! i \<le> i" and "c < length ps" "p \<le> c" "root ps p = root ps c"
    and "p = c \<Longrightarrow> ps ! c = c"
  shows "root (ps[c := p]) i = root ps i"
proof (induction i rule: less_induct)
  case (less i)
  show ?case
  proof (cases "i = c")
    case True
    show ?thesis
    proof (cases "p = c")
      case True
      with assms \<open>i = c\<close> show ?thesis by (simp add: root_self)
    next
      case False
      with assms True have "root (ps[c := p]) i = root (ps[c := p]) p"
        by (subst root.simps) simp
      with less assms True False show ?thesis by simp
    qed
  next
    case False
    with less show ?thesis by (simp add: root.simps [of _ i])
  qed
qed

lemma root_redirect_root:
  assumes inv: "\<forall>i < length ps. ps ! i \<le> i" and "c < length ps" "p < c"
    and "root ps c = c" "root ps p = p"
  shows "root (ps[c := p]) i = (if root ps i = c then p else root ps i)"
proof (induction i rule: less_induct)
  case (less i)
  show ?case
  proof (cases "i = c")
    case True
    with assms have "root (ps[c := p]) i = root (ps[c := p]) p"
      by (subst root.simps) simp
    with less [of p] assms True show ?thesis by simp
  next
    case False
    have c: "ps ! c = c" using assms root_fixed [of ps c] by simp
    with less False show ?thesis by (simp add: root.simps [of _ i])
  qed
qed

section \<open>Correctness of the operations\<close>

lemma uf_inv_reserve: "uf_inv u \<Longrightarrow> uf_inv (uf_reserve u v)"
  by (auto simp: uf_inv_def uf_reserve_def nth_append)

lemma uf_rep_reserve [simp]: "uf_rep (uf_reserve u v) i = uf_rep u i"
  by (simp add: uf_rep_def uf_reserve_def root_append_id del: upt_Suc)

lemma uf_reserve_length: "length (parents (uf_reserve u v)) = max (length (parents u)) (Suc v)"
  by (auto simp: uf_reserve_def)

lemma uf_reset_rep: "uf_rep (uf_reset u) i = i"
  by (simp add: uf_rep_def uf_reset_def root.simps)

lemma uf_find_loop_correct:
  assumes "\<forall>i < length ps. ps ! i \<le> i" and "cur < length ps"
  shows "\<exists>ps'. uf_find_loop ps cur = Some (ps', root ps cur) \<and> length ps' = length ps
     \<and> (\<forall>i < length ps. ps' ! i \<le> i) \<and> (\<forall>i. root ps' i = root ps i)"
  using assms
proof (induction cur arbitrary: ps rule: less_induct)
  case (less cur)
  let ?p = "ps ! cur" and ?g = "ps ! (ps ! cur)"
  show ?case
  proof (cases "?p = cur")
    case True
    with less.prems show ?thesis
      by (auto simp: uf_find_loop.simps root_self)
  next
    case False
    with less.prems have p: "?p < cur" by (simp add: order_le_neq_trans)
    then have pl: "?p < length ps" using less.prems by simp
    with less.prems have g: "?g \<le> ?p" by blast
    then have gc: "?g \<le> cur" using p by simp
    let ?ps = "ps[cur := ?g]"
    have inv: "\<forall>i < length ?ps. ?ps ! i \<le> i"
      using less.prems gc by (auto simp: nth_list_update)
    have "root ps ?g = root ps cur"
      using less.prems p pl g by (metis root_step less_imp_le_nat)
    then have same: "\<And>i. root ?ps i = root ps i"
      using root_redirect_same [of ps cur ?g] less.prems p g by auto
    have "uf_find_loop ps cur = uf_find_loop ?ps ?g"
      using less.prems False pl by (subst uf_find_loop.simps) auto
    with less.IH [of ?g ?ps] inv p g pl same \<open>root ps ?g = root ps cur\<close> show ?thesis
      by auto
  qed
qed

lemma uf_find_correct:
  assumes "uf_inv u"
  shows "\<exists>u'. uf_find u i = Some (u', uf_rep u i) \<and> uf_inv u' \<and> (\<forall>j. uf_rep u' j = uf_rep u j)
     \<and> length (parents u') = max (length (parents u)) (Suc i)"
proof -
  let ?u = "uf_reserve u i"
  have "\<forall>j < length (parents ?u). parents ?u ! j \<le> j" "i < length (parents ?u)"
    using uf_inv_reserve [OF assms, of i] by (auto simp: uf_inv_def uf_reserve_length)
  from uf_find_loop_correct [OF this] obtain ps where
    "uf_find_loop (parents ?u) i = Some (ps, uf_rep ?u i)" "length ps = length (parents ?u)"
    "\<forall>j < length ps. ps ! j \<le> j" "\<forall>j. root ps j = uf_rep ?u j"
    unfolding uf_rep_def by metis
  then show ?thesis
    by (auto simp: uf_find_def Let_def uf_inv_def uf_reserve_length uf_rep_def [of "_\<lparr>parents := _\<rparr>"])
qed

lemma uf_find_naive_loop_correct:
  "\<forall>i < length ps. ps ! i \<le> i \<Longrightarrow> cur < length ps \<Longrightarrow> uf_find_naive_loop ps cur = Some (root ps cur)"
proof (induction cur rule: less_induct)
  case (less cur)
  show ?case
  proof (cases "ps ! cur = cur")
    case True
    with less.prems show ?thesis by (simp add: uf_find_naive_loop.simps root_self)
  next
    case False
    with less.prems have "ps ! cur < cur" by (simp add: order_le_neq_trans)
    with less False show ?thesis
      by (simp add: uf_find_naive_loop.simps [of ps cur] root_step)
  qed
qed

lemma uf_find_naive_correct: "uf_inv u \<Longrightarrow> uf_find_naive u i = Some (uf_rep u i)"
  by (auto simp: uf_find_naive_def uf_rep_def uf_inv_def root_out uf_find_naive_loop_correct)

lemma uf_union_correct:
  assumes inv: "uf_inv u"
    and ra_def: "ra = uf_rep u a" and rb_def: "rb = uf_rep u b"
  shows "\<exists>u'. uf_union u a b = Some (u', min ra rb, max ra rb) \<and> uf_inv u'
     \<and> (\<forall>i. uf_rep u' i = (if uf_rep u i \<in> {ra, rb} then min ra rb else uf_rep u i))"
proof -
  let ?u1 = "uf_reserve (uf_reserve u a) b"
  have i1: "uf_inv ?u1" by (simp add: inv uf_inv_reserve)
  from uf_find_correct [OF this, of a] obtain u2 where
    u2: "uf_find ?u1 a = Some (u2, ra)" "uf_inv u2" "\<And>j. uf_rep u2 j = uf_rep u j"
      "length (parents u2) > a"
    by (auto simp: ra_def)
  from uf_find_correct [OF u2(2), of b] obtain u3 where
    u3: "uf_find u2 b = Some (u3, rb)" "uf_inv u3" "\<And>j. uf_rep u3 j = uf_rep u j"
      "length (parents u3) > b" "length (parents u3) > a"
    using u2 by (auto simp: rb_def)
  let ?p = "min ra rb" and ?c = "max ra rb"
  have I: "\<forall>i < length (parents u3). parents u3 ! i \<le> i" using u3(2) by (simp add: uf_inv_def)
  have r: "root (parents u3) j = uf_rep u j" for j using u3(3) by (simp add: uf_rep_def)
  have bound: "?c < length (parents u3)"
    using u3(4,5) root_le [of "parents u3" a] root_le [of "parents u3" b]
    by (simp add: r ra_def rb_def)
  show ?thesis
  proof (cases "ra = rb")
    case True
    with u2 u3 show ?thesis by (auto simp: uf_union_def)
  next
    case False
    let ?u = "u3\<lparr>parents := (parents u3)[?c := ?p]\<rparr>"
    have pc: "?p < ?c" using False by auto
    have idem: "root (parents u3) ra = ra" "root (parents u3) rb = rb"
      using root_idem [OF I] by (simp_all add: r ra_def rb_def)
    have fx: "root (parents u3) ?c = ?c" "root (parents u3) ?p = ?p"
      using idem by (auto simp: max_def min_def)
    have "(parents u3)[?c := ?p] ! i \<le> i" if "i < length (parents u3)" for i
      using I pc that by (cases "i = ?c") simp_all
    then have "uf_inv ?u" by (simp add: uf_inv_def)
    moreover have "uf_rep ?u i = (if uf_rep u i \<in> {ra, rb} then ?p else uf_rep u i)" for i
      using root_redirect_root [OF I bound pc fx, of i] False
      unfolding uf_rep_def [of ?u] by (auto simp: r max_def min_def)
    ultimately show ?thesis using False u2 u3 by (auto simp: uf_union_def Let_def)
  qed
qed

section \<open>Runs of unions: the equivalence closure\<close>

text \<open>
  What the clients of a union-find rely on: every id has a representative, and a
  merge joins exactly two classes. Under these laws the representatives after any
  sequence of merges decide the equivalence closure of the merged pairs.
\<close>

locale merge_structure =
  fixes inv :: "'u \<Rightarrow> bool" and rep :: "'u \<Rightarrow> 'a \<Rightarrow> 'a"
    and merge :: "'u \<Rightarrow> 'a \<Rightarrow> 'a \<Rightarrow> 'u option"
  assumes merge_total: "inv u \<Longrightarrow> \<exists>u'. merge u a b = Some u'"
    and merge_inv: "inv u \<Longrightarrow> merge u a b = Some u' \<Longrightarrow> inv u'"
    and merge_rep: "inv u \<Longrightarrow> merge u a b = Some u' \<Longrightarrow>
      rep u' x = rep u' y \<longleftrightarrow> rep u x = rep u y
        \<or> rep u x = rep u a \<and> rep u b = rep u y \<or> rep u x = rep u b \<and> rep u a = rep u y"
begin

fun merges :: "'u \<Rightarrow> ('a \<times> 'a) list \<Rightarrow> 'u option" where
  "merges u [] = Some u"
| "merges u ((a, b) # ps) = (case merge u a b of None \<Rightarrow> None | Some u' \<Rightarrow> merges u' ps)"

lemma merge_closure:
  assumes "inv u" "merge u a b = Some u'" "\<And>x y. rep u x = rep u y \<longleftrightarrow> equivclp R x y"
  shows "rep u' x = rep u' y \<longleftrightarrow> equivclp (\<lambda>x y. R x y \<or> x = a \<and> y = b) x y"
    (is "_ \<longleftrightarrow> equivclp ?S x y")
proof
  have mono: "equivclp R x y \<Longrightarrow> equivclp ?S x y" for x y
  proof (induction rule: equivclp_induct)
    case (step y z)
    from step.hyps(2) have "?S y z \<or> ?S z y" by blast
    with step.IH show ?case by (rule equivclp_into_equivclp)
  qed simp
  have ab: "equivclp ?S a b" by (simp add: r_into_equivclp)
  assume "rep u' x = rep u' y"
  with merge_rep [OF assms(1,2), of x y]
  consider "equivclp R x y" | "equivclp R x a" "equivclp R b y" | "equivclp R x b" "equivclp R a y"
    by (auto simp: assms(3))
  then show "equivclp ?S x y"
  proof cases
    case 1
    then show ?thesis by (rule mono)
  next
    case 2
    with ab show ?thesis by (blast intro: mono equivclp_trans)
  next
    case 3
    with ab [THEN equivclp_sym] show ?thesis by (blast intro: mono equivclp_trans)
  qed
next
  assume "equivclp ?S x y"
  then show "rep u' x = rep u' y"
  proof (induction rule: equivclp_induct)
    case (step y z)
    then have "rep u' y = rep u' z"
      using merge_rep [OF assms(1,2), of y z] by (auto simp: assms(3))
    with step.IH show ?case by simp
  qed simp
qed

lemma merges_closure:
  assumes "inv u" "\<And>x y. rep u x = rep u y \<longleftrightarrow> equivclp R x y"
  shows "\<exists>u'. merges u ps = Some u' \<and> inv u' \<and>
    (\<forall>x y. rep u' x = rep u' y \<longleftrightarrow> equivclp (\<lambda>x y. R x y \<or> (x, y) \<in> set ps) x y)"
  using assms
proof (induction ps arbitrary: u R)
  case (Cons p ps)
  obtain a b where p: "p = (a, b)" by force
  obtain u1 where u1: "merge u a b = Some u1" "inv u1"
    using merge_total merge_inv Cons.prems(1) by blast
  from Cons.IH [OF u1(2) merge_closure [OF Cons.prems(1) u1(1) Cons.prems(2)]]
  show ?case by (simp add: p u1(1) disj_assoc)
qed simp

end

definition uf_merge :: "uf \<Rightarrow> nat \<Rightarrow> nat \<Rightarrow> uf option" where
  "uf_merge u a b = map_option fst (uf_union u a b)"

interpretation ufm: merge_structure uf_inv uf_rep uf_merge
proof
  fix u a b
  assume "uf_inv u"
  then show "\<exists>u'. uf_merge u a b = Some u'"
    using uf_union_correct [OF _ refl refl, of u a b] by (auto simp: uf_merge_def)
next
  fix u a b u'
  assume "uf_inv u" "uf_merge u a b = Some u'"
  then show "uf_inv u'"
    using uf_union_correct [OF _ refl refl, of u a b] by (auto simp: uf_merge_def)
next
  fix u a b u' x y
  assume "uf_inv u" "uf_merge u a b = Some u'"
  then have "\<forall>i. uf_rep u' i = (if uf_rep u i \<in> {uf_rep u a, uf_rep u b}
      then min (uf_rep u a) (uf_rep u b) else uf_rep u i)"
    using uf_union_correct [OF _ refl refl, of u a b] by (auto simp: uf_merge_def)
  then show "uf_rep u' x = uf_rep u' y \<longleftrightarrow> uf_rep u x = uf_rep u y
        \<or> uf_rep u x = uf_rep u a \<and> uf_rep u b = uf_rep u y
        \<or> uf_rep u x = uf_rep u b \<and> uf_rep u a = uf_rep u y"
    by (auto simp: min_def split: if_splits)
qed

text \<open>A run of unions from the empty structure, keeping only the structure.\<close>

fun uf_unions :: "uf \<Rightarrow> (nat \<times> nat) list \<Rightarrow> uf option" where
  "uf_unions u [] = Some u"
| "uf_unions u ((a, b) # ps) =
     (case uf_union u a b of None \<Rightarrow> None | Some (u', _, _) \<Rightarrow> uf_unions u' ps)"

lemma uf_unions_merges: "uf_unions u ps = ufm.merges u ps"
  by (induction ps arbitrary: u) (auto simp: uf_merge_def split: option.splits)

lemma uf_rep_new: "uf_rep uf_new i = i"
  by (simp add: uf_rep_def uf_new_def root_out)

section \<open>Properties\<close>

lemma uf_run:
  "\<exists>u. uf_unions uf_new ps = Some u \<and> uf_inv u
     \<and> (\<forall>x y. uf_rep u x = uf_rep u y \<longleftrightarrow> equivclp (\<lambda>a b. (a, b) \<in> set ps) x y)"
proof -
  have "equivclp (\<lambda>a b. False) x y \<longleftrightarrow> x = y" for x y :: nat
  proof
    assume "equivclp (\<lambda>a b. False) x y"
    then show "x = y" by (induction rule: equivclp_induct) auto
  qed simp
  then have "\<And>x y. uf_rep uf_new x = uf_rep uf_new y \<longleftrightarrow> equivclp (\<lambda>a b. False) x y"
    by (simp add: uf_rep_new)
  from ufm.merges_closure [OF uf_inv_new this, of ps] show ?thesis
    by (simp add: uf_unions_merges)
qed

lemma uf_rep_idem: "uf_inv u \<Longrightarrow> uf_rep u (uf_rep u i) = uf_rep u i"
  by (simp add: uf_rep_def uf_inv_def root_idem)

lemma uf_rep_least:
  assumes "uf_inv u" "\<And>x y. uf_rep u x = uf_rep u y \<longleftrightarrow> R x y"
  shows "uf_rep u i = (LEAST j. R i j)"
proof (rule Least_equality [symmetric])
  show "R i (uf_rep u i)" using assms uf_rep_idem by metis
  show "R i j \<Longrightarrow> uf_rep u i \<le> j" for j using assms(2) root_le by (metis uf_rep_def)
qed

text \<open>
  C32: after any sequence of unions from the empty structure, every query returns and
  yields the least id of the equivalence class the unions generate. \<open>find\<close> (with path
  halving and growth of the vector) and \<open>find_naive\<close> agree, and \<open>find\<close> changes no
  later answer.
\<close>

theorem union_find_least_of_class:
  "\<exists>u. uf_unions uf_new ps = Some u \<and>
     (\<forall>i. uf_find_naive u i = Some (LEAST j. equivclp (\<lambda>a b. (a, b) \<in> set ps) i j)) \<and>
     (\<forall>i. \<exists>u'. uf_find u i = Some (u', LEAST j. equivclp (\<lambda>a b. (a, b) \<in> set ps) i j)
        \<and> (\<forall>j. uf_find_naive u' j = uf_find_naive u j))"
proof -
  obtain u where u: "uf_unions uf_new ps = Some u" "uf_inv u"
    "\<And>x y. uf_rep u x = uf_rep u y \<longleftrightarrow> equivclp (\<lambda>a b. (a, b) \<in> set ps) x y"
    using uf_run by blast
  have "\<exists>u'. uf_find u i = Some (u', uf_rep u i) \<and> (\<forall>j. uf_find_naive u' j = uf_find_naive u j)" for i
    using uf_find_correct [OF u(2), of i] u(2) by (auto simp: uf_find_naive_correct)
  then show ?thesis
    using u(1,2) uf_rep_least [OF u(2,3)] by (auto simp: uf_find_naive_correct)
qed

text \<open>
  C33: \<open>union\<close> returns the smaller representative as parent and the larger as child, and
  afterwards exactly the ids of the two merged classes answer with the parent.
\<close>

theorem union_merges_two_classes:
  assumes "uf_inv u" "uf_find_naive u a = Some ra" "uf_find_naive u b = Some rb"
  shows "\<exists>u'. uf_union u a b = Some (u', min ra rb, max ra rb) \<and> uf_inv u'
     \<and> (\<forall>i. uf_find_naive u' i = (if uf_find_naive u i \<in> {Some ra, Some rb}
           then Some (min ra rb) else uf_find_naive u i))"
proof -
  have r: "ra = uf_rep u a" "rb = uf_rep u b" using assms by (auto simp: uf_find_naive_correct)
  from uf_union_correct [OF assms(1) r] obtain u' where
    "uf_union u a b = Some (u', min ra rb, max ra rb)" "uf_inv u'"
    "\<forall>i. uf_rep u' i = (if uf_rep u i \<in> {ra, rb} then min ra rb else uf_rep u i)" by blast
  then show ?thesis using assms(1) by (auto simp: uf_find_naive_correct)
qed

theorem union_merges_two_classes_witness:
  "\<exists>u'. uf_union \<lparr>parents = [0, 1, 1]\<rparr> 2 0 = Some (u', min 1 0, max 1 0) \<and> uf_inv u'
     \<and> (\<forall>i. uf_find_naive u' i = (if uf_find_naive \<lparr>parents = [0, 1, 1]\<rparr> i \<in> {Some 1, Some 0}
           then Some (min 1 0) else uf_find_naive \<lparr>parents = [0, 1, 1]\<rparr> i))"
proof (rule union_merges_two_classes)
  show "uf_inv \<lparr>parents = [0, 1, 1]\<rparr>" by (simp add: uf_inv_def nth_Cons split: nat.split)
  show "uf_find_naive \<lparr>parents = [0, 1, 1]\<rparr> 2 = Some 1"
    by (simp add: uf_find_naive_def uf_find_naive_loop.simps [of _ 2]
        uf_find_naive_loop.simps [of _ "Suc 0"])
  show "uf_find_naive \<lparr>parents = [0, 1, 1]\<rparr> 0 = Some 0"
    by (simp add: uf_find_naive_def uf_find_naive_loop.simps [of _ 0])
qed

end
