(* ===== verification/Generic_Ast.thy ===== *)
theory Generic_Ast
  imports Egg_Prelude
begin

text \<open>
  \<open>egglog-ast/src/generic_ast.rs\<close>, \<open>span.rs\<close> and the traversals of
  \<open>generic_ast_helpers.rs\<close>: literals, spans, expressions, facts, actions and
  rules over a head type and a leaf type. A traversal takes an \<open>FnMut\<close> closure;
  here the closure is a function that threads an explicit state, and each traversal
  calls it in the order in which the Rust expression is evaluated.
\<close>

section \<open>Data\<close>

text \<open>
  \<open>Int\<close> is \<open>i64\<close>, kept as a 64-bit word. \<open>Float\<close> holds the bits of the
  \<open>f64\<close>; the identification of zeros and NaNs by the third-party \<open>OrderedFloat\<close>
  is not modelled, so floats are compared as bits.
\<close>

type_synonym i64 = "64 word"
type_synonym u32 = "32 word"
type_synonym u64 = "64 word"

datatype literal = LInt i64 | LFloat "64 word" | LString string | LBool bool | LUnit

record src_file =
  src_name :: "string option"
  src_contents :: string

record egglog_span =
  span_file :: src_file
  span_i :: nat
  span_j :: nat

record rust_span =
  rust_file :: string
  rust_line :: u32
  rust_column :: u32

datatype span = Span_Panic | Span_Egglog egglog_span | Span_Rust rust_span

datatype ('h, 'l) expr =
    EVar span 'l
  | ECall span 'h "('h, 'l) expr list"
  | ELit span literal

datatype ('h, 'l) fact = FEq span "('h, 'l) expr" "('h, 'l) expr" | FFact "('h, 'l) expr"

datatype change = Delete | Subsume

datatype ('h, 'l) action =
    ALet span 'l "('h, 'l) expr"
  | ASet span 'h "('h, 'l) expr list" "('h, 'l) expr"
  | AChange span change 'h "('h, 'l) expr list"
  | AUnion span "('h, 'l) expr" "('h, 'l) expr"
  | APanic span string
  | AExpr span "('h, 'l) expr"

type_synonym ('h, 'l) actions = "('h, 'l) action list"

record ('h, 'l) rule =
  rule_span :: span
  rule_head :: "('h, 'l) actions"
  rule_body :: "('h, 'l) fact list"
  rule_name :: string
  rule_ruleset :: string
  rule_unsafe_seminaive :: bool
  rule_naive :: bool
  rule_no_decomp :: bool

section \<open>Conversions from and to literals\<close>

text \<open>\<open>From<Literal>\<close> panics on a literal of another kind (\<open>None\<close>).\<close>

fun lit_to_i64 :: "literal \<Rightarrow> i64 option" where
  "lit_to_i64 (LInt i) = Some i"
| "lit_to_i64 _ = None"

fun lit_to_f64 :: "literal \<Rightarrow> 64 word option" where
  "lit_to_f64 (LFloat x) = Some x"
| "lit_to_f64 _ = None"

fun lit_to_string_val :: "literal \<Rightarrow> string option" where
  "lit_to_string_val (LString s) = Some s"
| "lit_to_string_val _ = None"

section \<open>Source locations\<close>

text \<open>
  \<open>get_location\<close> walks the characters with their byte offsets and stops at the
  given offset; a continuation byte is not a character of its own.
\<close>

fun get_location_loop :: "string \<Rightarrow> nat \<Rightarrow> nat \<Rightarrow> nat \<Rightarrow> nat \<Rightarrow> nat \<times> nat" where
  "get_location_loop [] i offset line col = (line, col)"
| "get_location_loop (c # cs) i offset line col =
     (if is_continuation c then get_location_loop cs (Suc i) offset line col
      else if i = offset then (line, col)
      else if c = newline then get_location_loop cs (Suc i) offset (Suc line) 1
      else get_location_loop cs (Suc i) offset line (Suc col))"

definition get_location :: "src_file \<Rightarrow> nat \<Rightarrow> nat \<times> nat" where
  "get_location f offset = get_location_loop (src_contents f) 0 offset 1 1"

text \<open>\<open>Span::string\<close>: the quoted source text; the other spans panic.\<close>

fun span_string :: "span \<Rightarrow> string option" where
  "span_string Span_Panic = None"
| "span_string (Span_Rust _) = None"
| "span_string (Span_Egglog s) =
     (if span_i s \<le> span_j s \<and> span_j s \<le> length (src_contents (span_file s))
      then Some (take (span_j s - span_i s) (drop (span_i s) (src_contents (span_file s))))
      else None)"

section \<open>Expressions\<close>

fun expr_span :: "('h, 'l) expr \<Rightarrow> span" where
  "expr_span (ELit sp _) = sp"
| "expr_span (EVar sp _) = sp"
| "expr_span (ECall sp _ _) = sp"

definition expr_is_var :: "('h, 'l) expr \<Rightarrow> bool" where
  "expr_is_var e = (case e of EVar _ _ \<Rightarrow> True | _ \<Rightarrow> False)"

fun expr_get_var :: "('h, 'l) expr \<Rightarrow> 'l option" where
  "expr_get_var (EVar _ v) = Some v"
| "expr_get_var _ = None"

fun expr_children :: "('h, 'l) expr \<Rightarrow> ('h, 'l) expr list" where
  "expr_children (ECall _ _ cs) = cs"
| "expr_children _ = []"

lemma expr_children_size: "c \<in> set (expr_children e) \<Longrightarrow> size c < size e"
  by (cases e) (auto simp: less_Suc_eq_le size_list_estimation')

lemma args_size [termination_simp]: "c \<in> set cs \<Longrightarrow> size c < Suc (size_list size cs)"
  by (simp add: less_Suc_eq_le size_list_estimation')

text \<open>\<open>walk\<close>: \<open>pre\<close> before the children, \<open>post\<close> after them.\<close>

function expr_walk ::
    "(('h, 'l) expr \<Rightarrow> 's \<Rightarrow> 's) \<Rightarrow> (('h, 'l) expr \<Rightarrow> 's \<Rightarrow> 's) \<Rightarrow> ('h, 'l) expr \<Rightarrow> 's \<Rightarrow> 's" where
  "expr_walk pre post e s =
     post e (fold (\<lambda>c s. expr_walk pre post c s) (expr_children e) (pre e s))"
  by pat_completeness auto
termination
  by (relation "measure (\<lambda>(pre, post, e, s). size e)") (auto dest: expr_children_size)

declare expr_walk.simps [simp del]

definition expr_ast_size :: "('h, 'l) expr \<Rightarrow> nat" where
  "expr_ast_size e = expr_walk (\<lambda>_ n. n + 1) (\<lambda>_ n. n) e 0"

text \<open>\<open>fold\<close>: results of the children first, then the node.\<close>

function expr_fold ::
    "(('h, 'l) expr \<Rightarrow> 'o list \<Rightarrow> 's \<Rightarrow> 'o \<times> 's) \<Rightarrow> ('h, 'l) expr \<Rightarrow> 's \<Rightarrow> 'o \<times> 's" where
  "expr_fold f e s =
     (let (ts, s1) = map_st (\<lambda>c s. expr_fold f c s) (expr_children e) s in f e ts s1)"
  by pat_completeness auto
termination
  by (relation "measure (\<lambda>(f, e, s). size e)") (auto dest: expr_children_size)

declare expr_fold.simps [simp del]

text \<open>\<open>find\<close>: the first node in pre-order on which the closure answers.\<close>

fun first_some :: "('a \<Rightarrow> 'b option) \<Rightarrow> 'a list \<Rightarrow> 'b option" where
  "first_some f [] = None"
| "first_some f (x # xs) = (case f x of Some r \<Rightarrow> Some r | None \<Rightarrow> first_some f xs)"

lemma first_some_cong [fundef_cong]:
  "xs = ys \<Longrightarrow> (\<And>x. x \<in> set ys \<Longrightarrow> f x = g x) \<Longrightarrow> first_some f xs = first_some g ys"
  by (induction ys arbitrary: xs) (auto split: option.splits)

function expr_find :: "(('h, 'l) expr \<Rightarrow> 'o option) \<Rightarrow> ('h, 'l) expr \<Rightarrow> 'o option" where
  "expr_find f e =
     (case f e of Some r \<Rightarrow> Some r
      | None \<Rightarrow> first_some (\<lambda>c. expr_find f c) (expr_children e))"
  by pat_completeness auto
termination
  by (relation "measure (\<lambda>(f, e). size e)") (auto dest: expr_children_size)

declare expr_find.simps [simp del]

text \<open>\<open>visit_exprs\<close>: bottom-up rewriting, the closure sees rebuilt nodes.\<close>

fun expr_visit ::
    "(('h, 'l) expr \<Rightarrow> 's \<Rightarrow> ('h, 'l) expr \<times> 's) \<Rightarrow> ('h, 'l) expr \<Rightarrow> 's \<Rightarrow> ('h, 'l) expr \<times> 's" where
  "expr_visit f (ELit sp l) s = f (ELit sp l) s"
| "expr_visit f (EVar sp v) s = f (EVar sp v) s"
| "expr_visit f (ECall sp op cs) s =
     (let (cs', s1) = map_st (\<lambda>c s. expr_visit f c s) cs s in f (ECall sp op cs') s1)"

text \<open>The closure of the three \<open>visit_vars\<close> methods: report variables, change nothing.\<close>

fun report_var :: "(span \<Rightarrow> 'l \<Rightarrow> 's \<Rightarrow> 's) \<Rightarrow> ('h, 'l) expr \<Rightarrow> 's \<Rightarrow> ('h, 'l) expr \<times> 's" where
  "report_var f (EVar sp v) s = (EVar sp v, f sp v s)"
| "report_var f e s = (e, s)"

definition expr_visit_vars :: "(span \<Rightarrow> 'l \<Rightarrow> 's \<Rightarrow> 's) \<Rightarrow> ('h, 'l) expr \<Rightarrow> 's \<Rightarrow> 's" where
  "expr_visit_vars f e s = snd (expr_visit (report_var f) e s)"

text \<open>\<open>subst\<close>: the children are substituted before the head is mapped.\<close>

fun expr_subst ::
    "(span \<Rightarrow> 'l \<Rightarrow> 's \<Rightarrow> ('h2, 'l2) expr \<times> 's) \<Rightarrow> ('h \<Rightarrow> 's \<Rightarrow> 'h2 \<times> 's)
     \<Rightarrow> ('h, 'l) expr \<Rightarrow> 's \<Rightarrow> ('h2, 'l2) expr \<times> 's" where
  "expr_subst fl fh (ELit sp l) s = (ELit sp l, s)"
| "expr_subst fl fh (EVar sp v) s = fl sp v s"
| "expr_subst fl fh (ECall sp op cs) s =
     (let (cs', s1) = map_st (\<lambda>c s. expr_subst fl fh c s) cs s; (op', s2) = fh op s1
      in (ECall sp op' cs', s2))"

definition expr_subst_leaf ::
    "(span \<Rightarrow> 'l \<Rightarrow> 's \<Rightarrow> ('h, 'l2) expr \<times> 's) \<Rightarrow> ('h, 'l) expr \<Rightarrow> 's \<Rightarrow> ('h, 'l2) expr \<times> 's" where
  "expr_subst_leaf fl = expr_subst fl (\<lambda>h s. (h, s))"

fun expr_map_symbols ::
    "('h \<Rightarrow> 's \<Rightarrow> 'h2 \<times> 's) \<Rightarrow> ('l \<Rightarrow> 's \<Rightarrow> 'l2 \<times> 's) \<Rightarrow> ('h, 'l) expr \<Rightarrow> 's \<Rightarrow> ('h2, 'l2) expr \<times> 's"
where
  "expr_map_symbols fh fl (ELit sp l) s = (ELit sp l, s)"
| "expr_map_symbols fh fl (EVar sp v) s = (let (v', s1) = fl v s in (EVar sp v', s1))"
| "expr_map_symbols fh fl (ECall sp op cs) s =
     (let (cs', s1) = map_st (\<lambda>c s. expr_map_symbols fh fl c s) cs s; (op', s2) = fh op s1
      in (ECall sp op' cs', s2))"

text \<open>\<open>make_unresolved\<close>: heads and leaves become their printed names.\<close>

definition expr_make_unresolved ::
    "('h \<Rightarrow> string) \<Rightarrow> ('l \<Rightarrow> string) \<Rightarrow> ('h, 'l) expr \<Rightarrow> (string, string) expr" where
  "expr_make_unresolved sh sl e = fst (expr_map_symbols (\<lambda>h s. (sh h, s)) (\<lambda>l s. (sl l, s)) e ())"

fun expr_vars :: "('h, 'l) expr \<Rightarrow> 'l list" where
  "expr_vars (ELit _ _) = []"
| "expr_vars (EVar _ v) = [v]"
| "expr_vars (ECall _ _ cs) = concat (map (\<lambda>c. expr_vars c) cs)"

section \<open>Facts\<close>

fun fact_visit_exprs ::
    "(('h, 'l) expr \<Rightarrow> 's \<Rightarrow> ('h, 'l) expr \<times> 's) \<Rightarrow> ('h, 'l) fact \<Rightarrow> 's \<Rightarrow> ('h, 'l) fact \<times> 's" where
  "fact_visit_exprs f (FEq sp a b) s =
     (let (a', s1) = expr_visit f a s; (b', s2) = expr_visit f b s1 in (FEq sp a' b', s2))"
| "fact_visit_exprs f (FFact e) s = (let (e', s1) = expr_visit f e s in (FFact e', s1))"

definition fact_visit_vars :: "(span \<Rightarrow> 'l \<Rightarrow> 's \<Rightarrow> 's) \<Rightarrow> ('h, 'l) fact \<Rightarrow> 's \<Rightarrow> 's" where
  "fact_visit_vars f x s = snd (fact_visit_exprs (report_var f) x s)"

fun fact_map_exprs ::
    "(('h, 'l) expr \<Rightarrow> 's \<Rightarrow> ('h2, 'l2) expr \<times> 's) \<Rightarrow> ('h, 'l) fact \<Rightarrow> 's \<Rightarrow> ('h2, 'l2) fact \<times> 's" where
  "fact_map_exprs f (FEq sp a b) s =
     (let (a', s1) = f a s; (b', s2) = f b s1 in (FEq sp a' b', s2))"
| "fact_map_exprs f (FFact e) s = (let (e', s1) = f e s in (FFact e', s1))"

definition fact_subst ::
    "(span \<Rightarrow> 'l \<Rightarrow> 's \<Rightarrow> ('h2, 'l2) expr \<times> 's) \<Rightarrow> ('h \<Rightarrow> 's \<Rightarrow> 'h2 \<times> 's)
     \<Rightarrow> ('h, 'l) fact \<Rightarrow> 's \<Rightarrow> ('h2, 'l2) fact \<times> 's" where
  "fact_subst fl fh = fact_map_exprs (expr_subst fl fh)"

fun fact_map_symbols ::
    "('h \<Rightarrow> 's \<Rightarrow> 'h2 \<times> 's) \<Rightarrow> ('l \<Rightarrow> 's \<Rightarrow> 'l2 \<times> 's) \<Rightarrow> ('h, 'l) fact \<Rightarrow> 's \<Rightarrow> ('h2, 'l2) fact \<times> 's"
where
  "fact_map_symbols fh fl (FEq sp a b) s =
     (let (a', s1) = expr_map_symbols fh fl a s; (b', s2) = expr_map_symbols fh fl b s1
      in (FEq sp a' b', s2))"
| "fact_map_symbols fh fl (FFact e) s =
     (let (e', s1) = expr_map_symbols fh fl e s in (FFact e', s1))"

definition fact_make_unresolved ::
    "('h \<Rightarrow> string) \<Rightarrow> ('l \<Rightarrow> string) \<Rightarrow> ('h, 'l) fact \<Rightarrow> (string, string) fact" where
  "fact_make_unresolved sh sl x = fst (fact_map_symbols (\<lambda>h s. (sh h, s)) (\<lambda>l s. (sl l, s)) x ())"

section \<open>Actions\<close>

fun action_visit_exprs ::
    "(('h, 'l) expr \<Rightarrow> 's \<Rightarrow> ('h, 'l) expr \<times> 's) \<Rightarrow> ('h, 'l) action \<Rightarrow> 's \<Rightarrow> ('h, 'l) action \<times> 's"
where
  "action_visit_exprs f (ALet sp l e) s = (let (e', s1) = expr_visit f e s in (ALet sp l e', s1))"
| "action_visit_exprs f (ASet sp h args e) s =
     (let (args', s1) = map_st (expr_visit f) args s; (e', s2) = expr_visit f e s1
      in (ASet sp h args' e', s2))"
| "action_visit_exprs f (AChange sp c h args) s =
     (let (args', s1) = map_st (expr_visit f) args s in (AChange sp c h args', s1))"
| "action_visit_exprs f (AUnion sp a b) s =
     (let (a', s1) = expr_visit f a s; (b', s2) = expr_visit f b s1 in (AUnion sp a' b', s2))"
| "action_visit_exprs f (APanic sp msg) s = (APanic sp msg, s)"
| "action_visit_exprs f (AExpr sp e) s = (let (e', s1) = expr_visit f e s in (AExpr sp e', s1))"

fun action_visit_vars :: "(span \<Rightarrow> 'l \<Rightarrow> 's \<Rightarrow> 's) \<Rightarrow> ('h, 'l) action \<Rightarrow> 's \<Rightarrow> 's" where
  "action_visit_vars f (ALet sp l e) s = snd (action_visit_exprs (report_var f) (ALet sp l e) (f sp l s))"
| "action_visit_vars f a s = snd (action_visit_exprs (report_var f) a s)"

text \<open>\<open>map_exprs\<close> of a \<open>set\<close> applies the closure to the value before the keys.\<close>

fun action_map_exprs ::
    "(('h, 'l) expr \<Rightarrow> 's \<Rightarrow> ('h, 'l) expr \<times> 's) \<Rightarrow> ('h, 'l) action \<Rightarrow> 's \<Rightarrow> ('h, 'l) action \<times> 's"
where
  "action_map_exprs f (ALet sp l e) s = (let (e', s1) = f e s in (ALet sp l e', s1))"
| "action_map_exprs f (ASet sp h args e) s =
     (let (e', s1) = f e s; (args', s2) = map_st f args s1 in (ASet sp h args' e', s2))"
| "action_map_exprs f (AChange sp c h args) s =
     (let (args', s1) = map_st f args s in (AChange sp c h args', s1))"
| "action_map_exprs f (AUnion sp a b) s =
     (let (a', s1) = f a s; (b', s2) = f b s1 in (AUnion sp a' b', s2))"
| "action_map_exprs f (APanic sp msg) s = (APanic sp msg, s)"
| "action_map_exprs f (AExpr sp e) s = (let (e', s1) = f e s in (AExpr sp e', s1))"

definition action_subst ::
    "(span \<Rightarrow> 'l \<Rightarrow> 's \<Rightarrow> ('h, 'l) expr \<times> 's) \<Rightarrow> ('h, 'l) action \<Rightarrow> 's \<Rightarrow> ('h, 'l) action \<times> 's" where
  "action_subst fl = action_map_exprs (expr_subst_leaf fl)"

text \<open>\<open>map_def_use\<close>: the flag tells a binding occurrence from a use.\<close>

definition use_var :: "('l \<Rightarrow> bool \<Rightarrow> 's \<Rightarrow> 'l \<times> 's) \<Rightarrow> span \<Rightarrow> 'l \<Rightarrow> 's \<Rightarrow> ('h, 'l) expr \<times> 's" where
  "use_var fvar sp v s = (let (v', s1) = fvar v False s in (EVar sp v', s1))"

fun action_map_def_use ::
    "('l \<Rightarrow> bool \<Rightarrow> 's \<Rightarrow> 'l \<times> 's) \<Rightarrow> ('h, 'l) action \<Rightarrow> 's \<Rightarrow> ('h, 'l) action \<times> 's" where
  "action_map_def_use fvar (ALet sp l e) s =
     (let (l', s1) = fvar l True s; (e', s2) = expr_subst_leaf (use_var fvar) e s1
      in (ALet sp l' e', s2))"
| "action_map_def_use fvar (ASet sp h args e) s =
     (let (args', s1) = map_st (expr_subst_leaf (use_var fvar)) args s;
          (e', s2) = expr_subst_leaf (use_var fvar) e s1
      in (ASet sp h args' e', s2))"
| "action_map_def_use fvar (AChange sp c h args) s =
     (let (args', s1) = map_st (expr_subst_leaf (use_var fvar)) args s in (AChange sp c h args', s1))"
| "action_map_def_use fvar (AUnion sp a b) s =
     (let (a', s1) = expr_subst_leaf (use_var fvar) a s;
          (b', s2) = expr_subst_leaf (use_var fvar) b s1
      in (AUnion sp a' b', s2))"
| "action_map_def_use fvar (APanic sp msg) s = (APanic sp msg, s)"
| "action_map_def_use fvar (AExpr sp e) s =
     (let (e', s1) = expr_subst_leaf (use_var fvar) e s in (AExpr sp e', s1))"

fun action_map_symbols ::
    "('h \<Rightarrow> 's \<Rightarrow> 'h2 \<times> 's) \<Rightarrow> ('l \<Rightarrow> 's \<Rightarrow> 'l2 \<times> 's)
     \<Rightarrow> ('h, 'l) action \<Rightarrow> 's \<Rightarrow> ('h2, 'l2) action \<times> 's" where
  "action_map_symbols fh fl (ALet sp l e) s =
     (let (l', s1) = fl l s; (e', s2) = expr_map_symbols fh fl e s1 in (ALet sp l' e', s2))"
| "action_map_symbols fh fl (ASet sp h args e) s =
     (let (args', s1) = map_st (expr_map_symbols fh fl) args s; (h', s2) = fh h s1;
          (e', s3) = expr_map_symbols fh fl e s2
      in (ASet sp h' args' e', s3))"
| "action_map_symbols fh fl (AChange sp c h args) s =
     (let (args', s1) = map_st (expr_map_symbols fh fl) args s; (h', s2) = fh h s1
      in (AChange sp c h' args', s2))"
| "action_map_symbols fh fl (AUnion sp a b) s =
     (let (a', s1) = expr_map_symbols fh fl a s; (b', s2) = expr_map_symbols fh fl b s1
      in (AUnion sp a' b', s2))"
| "action_map_symbols fh fl (APanic sp msg) s = (APanic sp msg, s)"
| "action_map_symbols fh fl (AExpr sp e) s =
     (let (e', s1) = expr_map_symbols fh fl e s in (AExpr sp e', s1))"

definition action_make_unresolved ::
    "('h \<Rightarrow> string) \<Rightarrow> ('l \<Rightarrow> string) \<Rightarrow> ('h, 'l) action \<Rightarrow> (string, string) action" where
  "action_make_unresolved sh sl a =
     fst (action_map_symbols (\<lambda>h s. (sh h, s)) (\<lambda>l s. (sl l, s)) a ())"

section \<open>Action lists and rules\<close>

definition actions_visit_vars :: "(span \<Rightarrow> 'l \<Rightarrow> 's \<Rightarrow> 's) \<Rightarrow> ('h, 'l) actions \<Rightarrow> 's \<Rightarrow> 's" where
  "actions_visit_vars f acts s = fold (action_visit_vars f) acts s"

definition actions_visit_exprs ::
    "(('h, 'l) expr \<Rightarrow> 's \<Rightarrow> ('h, 'l) expr \<times> 's) \<Rightarrow> ('h, 'l) actions \<Rightarrow> 's \<Rightarrow> ('h, 'l) actions \<times> 's"
where
  "actions_visit_exprs f acts s = map_st (action_visit_exprs f) acts s"

definition actions_visit_actions ::
    "(('h, 'l) action \<Rightarrow> 's \<Rightarrow> ('h, 'l) action \<times> 's) \<Rightarrow> ('h, 'l) actions \<Rightarrow> 's \<Rightarrow> ('h, 'l) actions \<times> 's"
where
  "actions_visit_actions f acts s = map_st f acts s"

definition actions_map_symbols ::
    "('h \<Rightarrow> 's \<Rightarrow> 'h2 \<times> 's) \<Rightarrow> ('l \<Rightarrow> 's \<Rightarrow> 'l2 \<times> 's)
     \<Rightarrow> ('h, 'l) actions \<Rightarrow> 's \<Rightarrow> ('h2, 'l2) actions \<times> 's" where
  "actions_map_symbols fh fl acts s = map_st (action_map_symbols fh fl) acts s"

definition actions_make_unresolved ::
    "('h \<Rightarrow> string) \<Rightarrow> ('l \<Rightarrow> string) \<Rightarrow> ('h, 'l) actions \<Rightarrow> (string, string) actions" where
  "actions_make_unresolved sh sl acts =
     fst (actions_map_symbols (\<lambda>h s. (sh h, s)) (\<lambda>l s. (sl l, s)) acts ())"

text \<open>In a rule the head is traversed before the body.\<close>

definition rule_visit_exprs ::
    "(('h, 'l) expr \<Rightarrow> 's \<Rightarrow> ('h, 'l) expr \<times> 's) \<Rightarrow> ('h, 'l) rule \<Rightarrow> 's \<Rightarrow> ('h, 'l) rule \<times> 's" where
  "rule_visit_exprs f r s =
     (let (hd', s1) = actions_visit_exprs f (rule_head r) s;
          (body', s2) = map_st (fact_visit_exprs f) (rule_body r) s1
      in (r\<lparr>rule_head := hd', rule_body := body'\<rparr>, s2))"

definition rule_visit_actions ::
    "(('h, 'l) action \<Rightarrow> 's \<Rightarrow> ('h, 'l) action \<times> 's) \<Rightarrow> ('h, 'l) rule \<Rightarrow> 's \<Rightarrow> ('h, 'l) rule \<times> 's"
where
  "rule_visit_actions f r s =
     (let (hd', s1) = actions_visit_actions f (rule_head r) s in (r\<lparr>rule_head := hd'\<rparr>, s1))"

definition rule_map_symbols ::
    "('h \<Rightarrow> 's \<Rightarrow> 'h2 \<times> 's) \<Rightarrow> ('l \<Rightarrow> 's \<Rightarrow> 'l2 \<times> 's) \<Rightarrow> ('h, 'l) rule \<Rightarrow> 's \<Rightarrow> ('h2, 'l2) rule \<times> 's"
where
  "rule_map_symbols fh fl r s =
     (let (hd', s1) = actions_map_symbols fh fl (rule_head r) s;
          (body', s2) = map_st (fact_map_symbols fh fl) (rule_body r) s1
      in (\<lparr>rule_span = rule_span r, rule_head = hd', rule_body = body', rule_name = rule_name r,
           rule_ruleset = rule_ruleset r, rule_unsafe_seminaive = rule_unsafe_seminaive r,
           rule_naive = rule_naive r, rule_no_decomp = rule_no_decomp r\<rparr>, s2))"

definition rule_make_unresolved ::
    "('h \<Rightarrow> string) \<Rightarrow> ('l \<Rightarrow> string) \<Rightarrow> ('h, 'l) rule \<Rightarrow> (string, string) rule" where
  "rule_make_unresolved sh sl r =
     fst (rule_map_symbols (\<lambda>h s. (sh h, s)) (\<lambda>l s. (sl l, s)) r ())"

end
