(* ===== verification/Ast_Traversal.thy ===== *)
theory Ast_Traversal
  imports Generic_Ast
begin

text \<open>
  What the traversals of \<open>Generic_Ast\<close> visit, and in which order. The reference
  orders are plain lists (pre-order, post-order, variable occurrences from left to
  right); each traversal is shown to be a fold over one of them, so that a client can
  reason about lists instead of nested closures.
\<close>

section \<open>Reference orders\<close>

fun preorder :: "('h, 'l) expr \<Rightarrow> ('h, 'l) expr list" where
  "preorder (ELit sp l) = [ELit sp l]"
| "preorder (EVar sp v) = [EVar sp v]"
| "preorder (ECall sp h cs) = ECall sp h cs # concat (map (\<lambda>c. preorder c) cs)"

fun postorder :: "('h, 'l) expr \<Rightarrow> ('h, 'l) expr list" where
  "postorder (ELit sp l) = [ELit sp l]"
| "postorder (EVar sp v) = [EVar sp v]"
| "postorder (ECall sp h cs) = concat (map (\<lambda>c. postorder c) cs) @ [ECall sp h cs]"

fun var_occs :: "('h, 'l) expr \<Rightarrow> (span \<times> 'l) list" where
  "var_occs (ELit _ _) = []"
| "var_occs (EVar sp v) = [(sp, v)]"
| "var_occs (ECall _ _ cs) = concat (map (\<lambda>c. var_occs c) cs)"

fun fact_var_occs :: "('h, 'l) fact \<Rightarrow> (span \<times> 'l) list" where
  "fact_var_occs (FEq _ a b) = var_occs a @ var_occs b"
| "fact_var_occs (FFact e) = var_occs e"

fun action_var_occs :: "('h, 'l) action \<Rightarrow> (span \<times> 'l) list" where
  "action_var_occs (ALet sp l e) = (sp, l) # var_occs e"
| "action_var_occs (ASet _ _ args e) = concat (map var_occs args) @ var_occs e"
| "action_var_occs (AChange _ _ _ args) = concat (map var_occs args)"
| "action_var_occs (AUnion _ a b) = var_occs a @ var_occs b"
| "action_var_occs (APanic _ _) = []"
| "action_var_occs (AExpr _ e) = var_occs e"

lemma expr_vars_occs: "expr_vars e = map snd (var_occs e)"
proof (induction e)
  case (ECall sp h cs)
  then show ?case by (simp add: map_concat comp_def cong: map_cong)
qed simp_all

section \<open>Walking and folding\<close>

lemma fold_cong_elem: "(\<And>x s. x \<in> set xs \<Longrightarrow> f x s = g x s) \<Longrightarrow> fold f xs s = fold g xs s"
  by (induction xs arbitrary: s) auto

lemma fold_concat_map: "fold f (concat (map g xs)) s = fold (\<lambda>x. fold f (g x)) xs s"
  by (induction xs arbitrary: s) auto

lemma expr_walk_pre: "expr_walk pre (\<lambda>_ s. s) e s = fold pre (preorder e) s"
proof (induction e arbitrary: s)
  case (ECall sp h cs)
  have "fold (\<lambda>c. expr_walk pre (\<lambda>_ s. s) c) cs t = fold (\<lambda>c. fold pre (preorder c)) cs t" for t
    by (rule fold_cong_elem) (simp add: ECall)
  then show ?case by (simp add: expr_walk.simps [of _ _ "ECall _ _ _"] fold_concat_map)
qed (simp_all add: expr_walk.simps)

lemma expr_walk_post: "expr_walk (\<lambda>_ s. s) post e s = fold post (postorder e) s"
proof (induction e arbitrary: s)
  case (ECall sp h cs)
  have "fold (\<lambda>c. expr_walk (\<lambda>_ s. s) post c) cs t = fold (\<lambda>c. fold post (postorder c)) cs t" for t
    by (rule fold_cong_elem) (simp add: ECall)
  then show ?case by (simp add: expr_walk.simps [of _ _ "ECall _ _ _"] fold_concat_map)
qed (simp_all add: expr_walk.simps)

lemma expr_ast_size_preorder: "expr_ast_size e = length (preorder e)"
proof -
  have "fold (\<lambda>_ n. n + 1) xs n = length xs + n" for xs :: "('a, 'b) expr list" and n :: nat
    by (induction xs arbitrary: n) auto
  then show ?thesis by (simp add: expr_ast_size_def expr_walk_pre)
qed

lemma first_some_append:
  "first_some f (xs @ ys) = (case first_some f xs of Some r \<Rightarrow> Some r | None \<Rightarrow> first_some f ys)"
  by (induction xs) (auto split: option.splits)

lemma first_some_concat:
  "first_some f (concat (map g xs)) = first_some (\<lambda>x. first_some f (g x)) xs"
  by (induction xs) (auto simp: first_some_append split: option.splits)

lemma expr_find_preorder: "expr_find f e = first_some f (preorder e)"
proof (induction e)
  case (ECall sp h cs)
  then have "first_some (\<lambda>c. expr_find f c) cs = first_some f (concat (map preorder cs))"
    unfolding first_some_concat by (intro first_some_cong) auto
  then show ?case
    by (simp add: expr_find.simps [of _ "ECall _ _ _"] split: option.splits)
qed (auto simp: expr_find.simps split: option.splits)

section \<open>Visiting variables\<close>

lemma map_st_effect:
  "(\<And>x s. x \<in> set xs \<Longrightarrow> f x s = (x, g x s)) \<Longrightarrow> map_st f xs s = (xs, fold g xs s)"
  by (induction xs arbitrary: s) auto

definition report_all :: "(span \<Rightarrow> 'l \<Rightarrow> 's \<Rightarrow> 's) \<Rightarrow> (span \<times> 'l) list \<Rightarrow> 's \<Rightarrow> 's" where
  "report_all f = fold (\<lambda>(sp, v). f sp v)"

lemma report_all_simps [simp]:
  "report_all f [] s = s"
  "report_all f ((sp, v) # xs) s = report_all f xs (f sp v s)"
  "report_all f (xs @ ys) s = report_all f ys (report_all f xs s)"
  by (simp_all add: report_all_def)

lemma report_all_concat: "report_all f (concat (map g xs)) s = fold (\<lambda>x. report_all f (g x)) xs s"
  by (induction xs arbitrary: s) auto

lemma expr_visit_report: "expr_visit (report_var f) e s = (e, report_all f (var_occs e) s)"
proof (induction e arbitrary: s)
  case (ECall sp h cs)
  have "map_st (expr_visit (report_var f)) cs t = (cs, fold (\<lambda>c. report_all f (var_occs c)) cs t)" for t
    by (rule map_st_effect) (simp add: ECall)
  then show ?case by (simp add: report_all_concat)
qed simp_all

lemma map_st_visit_report:
  "map_st (expr_visit (report_var f)) es s = (es, report_all f (concat (map var_occs es)) s)"
  using map_st_effect [of es "expr_visit (report_var f)" "\<lambda>e. report_all f (var_occs e)" s]
  by (simp add: expr_visit_report report_all_concat)

lemma expr_visit_vars_occs: "expr_visit_vars f e s = report_all f (var_occs e) s"
  by (simp add: expr_visit_vars_def expr_visit_report)

lemma fact_visit_report: "fact_visit_exprs (report_var f) x s = (x, report_all f (fact_var_occs x) s)"
  by (cases x) (simp_all add: expr_visit_report)

lemma action_visit_vars_occs: "action_visit_vars f a s = report_all f (action_var_occs a) s"
  by (cases a) (simp_all add: expr_visit_report map_st_visit_report)

section \<open>Substitution and renaming\<close>

text \<open>Stateless closures, the case of most callers.\<close>

definition pure2 :: "('a \<Rightarrow> 'b \<Rightarrow> 'c) \<Rightarrow> 'a \<Rightarrow> 'b \<Rightarrow> 's \<Rightarrow> 'c \<times> 's" where
  "pure2 f a b s = (f a b, s)"

definition pure1 :: "('a \<Rightarrow> 'c) \<Rightarrow> 'a \<Rightarrow> 's \<Rightarrow> 'c \<times> 's" where
  "pure1 f a s = (f a, s)"

fun tree_subst :: "(span \<Rightarrow> 'l \<Rightarrow> ('h2, 'l2) expr) \<Rightarrow> ('h \<Rightarrow> 'h2) \<Rightarrow> ('h, 'l) expr \<Rightarrow> ('h2, 'l2) expr" where
  "tree_subst fl fh (ELit sp l) = ELit sp l"
| "tree_subst fl fh (EVar sp v) = fl sp v"
| "tree_subst fl fh (ECall sp h cs) = ECall sp (fh h) (map (\<lambda>c. tree_subst fl fh c) cs)"

lemma expr_subst_pure: "expr_subst (pure2 fl) (pure1 fh) e s = (tree_subst fl fh e, s)"
proof (induction e arbitrary: s)
  case (ECall sp h cs)
  have m: "map_st (\<lambda>c s. expr_subst (pure2 fl) (pure1 fh) c s) cs s = (map (tree_subst fl fh) cs, s)"
    by (rule map_st_pure) (simp add: ECall)
  show ?case unfolding expr_subst.simps m by (simp add: pure1_def)
qed (simp_all add: pure2_def)

lemma tree_subst_compose:
  "tree_subst gl gh (tree_subst fl fh e) = tree_subst (\<lambda>sp v. tree_subst gl gh (fl sp v)) (gh \<circ> fh) e"
  by (induction e) auto

lemma tree_subst_ident: "tree_subst (\<lambda>sp v. EVar sp v) (\<lambda>h. h) e = e"
  by (induction e) (auto intro: map_idI)

lemma tree_subst_agree:
  "(\<And>sp v. (sp, v) \<in> set (var_occs e) \<Longrightarrow> fl sp v = gl sp v) \<Longrightarrow> tree_subst fl fh e = tree_subst gl fh e"
  by (induction e) auto

lemma map_symbols_subst:
  "expr_map_symbols fh fl e s = expr_subst (\<lambda>sp v s. let (v', s1) = fl v s in (EVar sp v', s1)) fh e s"
proof (induction e arbitrary: s)
  case (ECall sp h cs)
  then have "map_st (\<lambda>c s. expr_map_symbols fh fl c s) cs s =
      map_st (\<lambda>c s. expr_subst (\<lambda>sp v s. let (v', s1) = fl v s in (EVar sp v', s1)) fh c s) cs s" for s
    by (intro map_st_cong) auto
  then show ?case by simp
qed simp_all

lemma rename_leaf_pure:
  "(\<lambda>sp v s. let (v', s1) = (sl v, s) in (EVar sp v', s1)) = pure2 (\<lambda>sp v. EVar sp (sl v))"
  by (simp add: pure2_def fun_eq_iff)

lemma rename_head_pure: "(\<lambda>h s. (sh h, s)) = pure1 sh"
  by (simp add: pure1_def fun_eq_iff)

lemma make_unresolved_tree:
  "expr_make_unresolved sh sl e = tree_subst (\<lambda>sp v. EVar sp (sl v)) sh e"
  unfolding expr_make_unresolved_def map_symbols_subst rename_leaf_pure
  unfolding rename_head_pure [of sh] expr_subst_pure by simp

lemma make_unresolved_idem:
  "expr_make_unresolved (\<lambda>h. h) (\<lambda>l. l) (expr_make_unresolved sh sl e) = expr_make_unresolved sh sl e"
  by (simp add: make_unresolved_tree tree_subst_compose comp_def)

lemma make_unresolved_vars: "expr_vars (expr_make_unresolved sh sl e) = map sl (expr_vars e)"
  unfolding make_unresolved_tree by (induction e) (auto simp: map_concat intro: arg_cong [where f = concat])

lemma tree_subst_occs:
  "set (var_occs (tree_subst fl fh e)) = (\<Union>(sp, v) \<in> set (var_occs e). set (var_occs (fl sp v)))"
  by (induction e) auto

text \<open>A rewriting closure that changes no node changes no expression.\<close>

lemma expr_visit_ident: "(\<And>e s. f e s = (e, s)) \<Longrightarrow> expr_visit f e s = (e, s)"
proof (induction e arbitrary: s)
  case (ECall sp h cs)
  have m: "map_st (\<lambda>c s. expr_visit f c s) cs s = (map (\<lambda>c. c) cs, s)"
    by (intro map_st_pure ECall.IH) (auto simp: ECall.prems)
  show ?case unfolding expr_visit.simps m by (simp add: ECall.prems)
qed simp_all

section \<open>Properties\<close>

text \<open>
  The traversals of expressions agree on one order. \<open>walk\<close> calls \<open>pre\<close> on the nodes
  in preorder and \<open>post\<close> in postorder, \<open>ast_size\<close> counts the preorder nodes, and
  \<open>find\<close> returns the first hit of the preorder.
\<close>

theorem expr_traversal_order:
  "expr_walk pre (\<lambda>_ s. s) e s = fold pre (preorder e) s
   \<and> expr_walk (\<lambda>_ s. s) post e s = fold post (postorder e) s
   \<and> expr_ast_size e = length (preorder e)
   \<and> expr_find f e = first_some f (preorder e)"
  by (simp add: expr_walk_pre expr_walk_post expr_ast_size_preorder expr_find_preorder)

text \<open>
  Here \<open>visit_vars\<close> of an action reports every variable occurrence once, in source order,
  with its span; the variable a \<open>let\<close> binds is reported before its right-hand side.
\<close>

theorem action_visit_vars_order:
  "action_visit_vars f a s = report_all f (action_var_occs a) s"
  by (rule action_visit_vars_occs)

text \<open>
  Substitutions compose: running \<open>subst\<close> twice with stateless closures is one
  \<open>subst\<close> whose leaf closure substitutes into the first result; the identity closures
  change nothing.
\<close>

theorem expr_subst_composition:
  "fst (expr_subst (pure2 gl) (pure1 gh) (fst (expr_subst (pure2 fl) (pure1 fh) e s)) t)
     = fst (expr_subst (pure2 (\<lambda>sp v. tree_subst gl gh (fl sp v))) (pure1 (gh \<circ> fh)) e s)
   \<and> expr_subst (pure2 (\<lambda>sp v. EVar sp v)) (pure1 (\<lambda>h. h)) e s = (e, s)"
  by (simp add: expr_subst_pure tree_subst_compose tree_subst_ident)

lemma tree_subst_size:
  "expr_ast_size (tree_subst (\<lambda>sp v. EVar sp (fl v)) fh e) = expr_ast_size e"
  unfolding expr_ast_size_preorder
  by (induction e) (auto simp: length_concat comp_def intro: arg_cong [where f = sum_list])

text \<open>
  Here \<open>make_unresolved\<close> keeps the shape: the variables are the printed variables in
  order, the size is the same, and a second application changes nothing.
\<close>

theorem make_unresolved_keeps_shape:
  "expr_vars (expr_make_unresolved sh sl e) = map sl (expr_vars e)
   \<and> expr_ast_size (expr_make_unresolved sh sl e) = expr_ast_size e
   \<and> expr_make_unresolved (\<lambda>h. h) (\<lambda>l. l) (expr_make_unresolved sh sl e) = expr_make_unresolved sh sl e"
proof (intro conjI)
  show "expr_vars (expr_make_unresolved sh sl e) = map sl (expr_vars e)" by (rule make_unresolved_vars)
  show "expr_ast_size (expr_make_unresolved sh sl e) = expr_ast_size e"
    by (simp add: make_unresolved_tree tree_subst_size)
qed (rule make_unresolved_idem)

end
