(* ===== verification/Symbol_Gen.thy ===== *)
theory Symbol_Gen
  imports Egg_Prelude
begin

text \<open>
  \<open>SymbolGen\<close> of \<open>src/util.rs\<close>: fresh names from a per-hint counter. The names of
  one generator are distinct as long as no hint ends in a digit; with such a hint the
  suffix of one name can be read as part of another's hint, and two calls can return
  the same name.
\<close>

section \<open>The generator\<close>

record symbol_gen =
  hint_to_count :: "string \<rightharpoonup> nat"
  reserved_string :: string
  leave_off_zero :: bool

definition sg_new :: "string \<Rightarrow> symbol_gen" where
  "sg_new r = \<lparr>hint_to_count = Map.empty, reserved_string = r, leave_off_zero = True\<rparr>"

definition sg_include_zero :: "bool \<Rightarrow> symbol_gen \<Rightarrow> symbol_gen" where
  "sg_include_zero b g = g\<lparr>leave_off_zero := \<not> b\<rparr>"

text \<open>\<open>has_been_used\<close> asks whether the counter map is non-empty.\<close>

definition sg_has_been_used :: "symbol_gen \<Rightarrow> bool" where
  "sg_has_been_used g \<longleftrightarrow> dom (hint_to_count g) \<noteq> {}"

definition sg_is_reserved :: "symbol_gen \<Rightarrow> string \<Rightarrow> bool" where
  "sg_is_reserved g s \<longleftrightarrow> reserved_string g \<noteq> [] \<and> prefix (reserved_string g) s"

definition count_suffix :: "bool \<Rightarrow> nat \<Rightarrow> string" where
  "count_suffix off n = (if off \<and> n = 0 then [] else nat_to_string n)"

definition sg_fresh :: "string \<Rightarrow> symbol_gen \<Rightarrow> string \<times> symbol_gen" where
  "sg_fresh hint g =
     (let n = (case hint_to_count g hint of None \<Rightarrow> 0 | Some n \<Rightarrow> n)
      in (reserved_string g @ hint @ count_suffix (leave_off_zero g) n,
          g\<lparr>hint_to_count := (hint_to_count g)(hint \<mapsto> Suc n)\<rparr>))"

section \<open>Which calls return which names\<close>

definition sg_count :: "symbol_gen \<Rightarrow> string \<Rightarrow> nat" where
  "sg_count g h = (case hint_to_count g h of None \<Rightarrow> 0 | Some n \<Rightarrow> n)"

definition sg_name :: "symbol_gen \<Rightarrow> string \<Rightarrow> nat \<Rightarrow> string" where
  "sg_name g h n = reserved_string g @ h @ count_suffix (leave_off_zero g) n"

lemma sg_fresh_name: "fst (sg_fresh h g) = sg_name g h (sg_count g h)"
  by (simp add: sg_fresh_def sg_name_def sg_count_def Let_def)

lemma sg_fresh_count:
  "sg_count (snd (sg_fresh h g)) k = (if k = h then Suc (sg_count g h) else sg_count g k)"
  by (simp add: sg_fresh_def sg_count_def Let_def)

lemma sg_fresh_frame: "sg_name (snd (sg_fresh h g)) = sg_name g"
  by (simp add: sg_fresh_def sg_name_def Let_def fun_eq_iff)

lemma sg_fresh_reserved:
  "reserved_string g \<noteq> [] \<Longrightarrow> sg_is_reserved g (fst (sg_fresh h g))"
  by (simp add: sg_fresh_name sg_name_def sg_is_reserved_def)

definition is_digit :: "char \<Rightarrow> bool" where
  "is_digit c \<longleftrightarrow> of_char c \<in> {48::nat..57}"

definition plain_hint :: "string \<Rightarrow> bool" where
  "plain_hint h \<longleftrightarrow> h = [] \<or> \<not> is_digit (last h)"

lemma digit_char_is_digit: "d < 10 \<Longrightarrow> is_digit (digit_char d)"
  by (auto simp: is_digit_def digit_char_def)

lemma nat_to_string_digits: "list_all is_digit (nat_to_string n)"
proof (induction n rule: nat_to_string.induct)
  case (1 n)
  then show ?case
    by (cases "n < 10") (auto simp: nat_to_string.simps [of n] digit_char_is_digit)
qed

lemma count_suffix_digits: "list_all is_digit (count_suffix off n)"
  by (simp add: count_suffix_def nat_to_string_digits)

lemma count_suffix_inject [simp]: "count_suffix off m = count_suffix off n \<longleftrightarrow> m = n"
  by (auto simp: count_suffix_def dest: sym)

lemma strip_digits: "plain_hint h \<Longrightarrow> list_all is_digit s \<Longrightarrow> dropWhile is_digit (rev (h @ s)) = rev h"
proof -
  assume "plain_hint h" "list_all is_digit s"
  then have "dropWhile is_digit (rev h) = rev h"
    by (cases h rule: rev_cases) (auto simp: plain_hint_def)
  moreover have "dropWhile is_digit (rev s @ rev h) = dropWhile is_digit (rev h)"
    using \<open>list_all is_digit s\<close> by (intro dropWhile_append2) (simp add: list_all_iff)
  ultimately show ?thesis by simp
qed

lemma sg_name_inject:
  assumes "plain_hint h" "plain_hint k" "sg_name g h m = sg_name g k n"
  shows "h = k \<and> m = n"
proof -
  let ?s = "count_suffix (leave_off_zero g)"
  from assms(3) have eq: "h @ ?s m = k @ ?s n" by (simp add: sg_name_def)
  have "rev h = rev k"
    using strip_digits [OF assms(1) count_suffix_digits] strip_digits [OF assms(2) count_suffix_digits]
    by (metis eq)
  with eq show ?thesis by simp
qed

lemma fresh_run:
  "map_st sg_fresh hs g = (ns, g') \<Longrightarrow>
    \<exists>cs. length cs = length hs \<and> ns = map2 (sg_name g) hs cs \<and> distinct (zip hs cs)
       \<and> (\<forall>(h, c) \<in> set (zip hs cs). sg_count g h \<le> c)"
proof (induction hs arbitrary: g ns)
  case (Cons h hs)
  let ?g = "snd (sg_fresh h g)"
  obtain ms g2 where ms: "map_st sg_fresh hs ?g = (ms, g2)" by force
  with Cons.prems have ns: "ns = sg_name g h (sg_count g h) # ms" and "g2 = g'"
    by (auto simp: Let_def case_prod_unfold sg_fresh_name)
  from Cons.IH [OF ms [unfolded \<open>g2 = g'\<close>]] obtain cs where
    cs: "length cs = length hs" "ms = map2 (sg_name g) hs cs" "distinct (zip hs cs)"
      "\<forall>(k, c) \<in> set (zip hs cs). sg_count ?g k \<le> c"
    by (auto simp: sg_fresh_frame)
  have "(h, sg_count g h) \<notin> set (zip hs cs)"
    using cs(4) by (auto simp: sg_fresh_count)
  moreover have "\<forall>(k, c) \<in> set (zip hs cs). sg_count g k \<le> c"
    using cs(4) by (auto simp: sg_fresh_count split: if_splits)
  ultimately show ?case
    using cs ns by (intro exI [of _ "sg_count g h # cs"]) auto
qed simp

lemma fresh_run_distinct:
  assumes "map_st sg_fresh hs g = (ns, g')" "list_all plain_hint hs"
  shows "distinct ns"
proof -
  from fresh_run [OF assms(1)] obtain cs where
    cs: "length cs = length hs" "ns = map2 (sg_name g) hs cs" "distinct (zip hs cs)" by blast
  have "inj_on (\<lambda>(h, c). sg_name g h c) (set (zip hs cs))"
  proof (rule inj_onI, clarify)
    fix h c k d
    assume "(h, c) \<in> set (zip hs cs)" "(k, d) \<in> set (zip hs cs)" "sg_name g h c = sg_name g k d"
    moreover from this have "plain_hint h" "plain_hint k"
      using assms(2) by (auto simp: list_all_iff dest: set_zip_leftD)
    ultimately show "h = k \<and> c = d" using sg_name_inject by blast
  qed
  with cs show ?thesis by (simp add: distinct_map)
qed

section \<open>Properties\<close>

text \<open>
  C37: a generator never hands out the same name twice, whatever hints it is given in
  whatever order, as long as no hint ends in a decimal digit.
\<close>

theorem fresh_names_distinct:
  assumes "list_all plain_hint hs"
  shows "distinct (fst (map_st sg_fresh hs g))"
proof -
  obtain ns g' where "map_st sg_fresh hs g = (ns, g')" by force
  with fresh_run_distinct [OF this assms] show ?thesis by simp
qed

theorem fresh_names_distinct_witness:
  "distinct (fst (map_st sg_fresh [''v'', ''rw'', ''v'', ''v''] (sg_new ''@'')))"
  by (rule fresh_names_distinct) (simp add: plain_hint_def is_digit_def)


end
