(* ===== verification/Ast_Display.thy ===== *)
theory Ast_Display
  imports Ast_Traversal
begin

text \<open>
  The \<open>Display\<close> implementations of \<open>egglog-ast\<close>. Heads and leaves are printed by
  functions passed in (their own \<open>Display\<close>); \<open>fmt_f64\<close> is the standard library's
  printing of a float, a parameter.
\<close>

section \<open>Literals\<close>

text \<open>\<open>str::parse::<i64>\<close> succeeds: an optional sign, digits, and a value in range.\<close>

definition all_digits :: "string \<Rightarrow> bool" where
  "all_digits s \<longleftrightarrow> s \<noteq> [] \<and> list_all (\<lambda>c. of_char c \<in> {48::nat..57}) s"

definition parses_i64 :: "string \<Rightarrow> bool" where
  "parses_i64 s =
     (case s of
        [] \<Rightarrow> False
      | c # cs \<Rightarrow>
          if c = CHR ''-'' then all_digits cs \<and> read_nat cs \<le> 2 ^ 63
          else if c = CHR ''+'' then all_digits cs \<and> read_nat cs < 2 ^ 63
          else all_digits s \<and> read_nat s < 2 ^ 63)"

fun lit_to_string :: "(64 word \<Rightarrow> string) \<Rightarrow> literal \<Rightarrow> string" where
  "lit_to_string fmt_f64 (LInt i) = int_to_string (sint i)"
| "lit_to_string fmt_f64 (LFloat x) =
     (let s = fmt_f64 x in if parses_i64 s then s @ ''.0'' else s)"
| "lit_to_string fmt_f64 (LBool b) = (if b then ''true'' else ''false'')"
| "lit_to_string fmt_f64 (LString s) = ''\"'' @ s @ ''\"''"
| "lit_to_string fmt_f64 LUnit = ''()''"

section \<open>Expressions, facts, actions\<close>

fun expr_to_string ::
    "(64 word \<Rightarrow> string) \<Rightarrow> ('h \<Rightarrow> string) \<Rightarrow> ('l \<Rightarrow> string) \<Rightarrow> ('h, 'l) expr \<Rightarrow> string" where
  "expr_to_string ff sh sl (ELit _ l) = lit_to_string ff l"
| "expr_to_string ff sh sl (EVar _ v) = sl v"
| "expr_to_string ff sh sl (ECall _ op cs) =
     (if cs = [] then ''('' @ sh op @ '')''
      else ''('' @ sh op @ '' '' @ join '' '' (map (\<lambda>c. expr_to_string ff sh sl c) cs) @ '')'')"

fun fact_to_string ::
    "(64 word \<Rightarrow> string) \<Rightarrow> ('h \<Rightarrow> string) \<Rightarrow> ('l \<Rightarrow> string) \<Rightarrow> ('h, 'l) fact \<Rightarrow> string" where
  "fact_to_string ff sh sl (FEq _ a b) =
     ''(= '' @ expr_to_string ff sh sl a @ '' '' @ expr_to_string ff sh sl b @ '')''"
| "fact_to_string ff sh sl (FFact e) = expr_to_string ff sh sl e"

fun change_to_string :: "change \<Rightarrow> string" where
  "change_to_string Delete = ''delete''"
| "change_to_string Subsume = ''subsume''"

fun action_to_string ::
    "(64 word \<Rightarrow> string) \<Rightarrow> ('h \<Rightarrow> string) \<Rightarrow> ('l \<Rightarrow> string) \<Rightarrow> ('h, 'l) action \<Rightarrow> string" where
  "action_to_string ff sh sl (ALet _ l e) =
     ''(let '' @ sl l @ '' '' @ expr_to_string ff sh sl e @ '')''"
| "action_to_string ff sh sl (ASet _ h args e) =
     (if args = [] then ''(set ('' @ sh h @ '') '' @ expr_to_string ff sh sl e @ '')''
      else ''(set ('' @ sh h @ '' '' @ join '' '' (map (expr_to_string ff sh sl) args) @ '') ''
           @ expr_to_string ff sh sl e @ '')'')"
| "action_to_string ff sh sl (AUnion _ a b) =
     ''(union '' @ expr_to_string ff sh sl a @ '' '' @ expr_to_string ff sh sl b @ '')''"
| "action_to_string ff sh sl (AChange _ c h args) =
     (if args = [] then ''('' @ change_to_string c @ '' ('' @ sh h @ ''))''
      else ''('' @ change_to_string c @ '' ('' @ sh h @ '' ''
           @ join '' '' (map (expr_to_string ff sh sl) args) @ ''))'')"
| "action_to_string ff sh sl (APanic _ msg) = ''(panic \"'' @ msg @ ''\")''"
| "action_to_string ff sh sl (AExpr _ e) = expr_to_string ff sh sl e"

section \<open>Rules\<close>

text \<open>
  The body and the head are printed one item per line: an item after the first is
  indented, an item before the last ends its line.
\<close>

fun item_lines :: "string \<Rightarrow> bool \<Rightarrow> string list \<Rightarrow> string" where
  "item_lines indent first [] = []"
| "item_lines indent first [x] = (if first then [] else indent) @ x"
| "item_lines indent first (x # y # ys) =
     (if first then [] else indent) @ x @ [newline] @ item_lines indent False (y # ys)"

definition rule_to_string ::
    "(64 word \<Rightarrow> string) \<Rightarrow> ('h \<Rightarrow> string) \<Rightarrow> ('l \<Rightarrow> string) \<Rightarrow> ('h, 'l) rule \<Rightarrow> string" where
  "rule_to_string ff sh sl r =
     (let indent = replicate 7 (CHR '' '') in
      ''(rule ('' @ item_lines indent True (map (fact_to_string ff sh sl) (rule_body r))
      @ '')'' @ [newline] @ ''      (''
      @ item_lines indent True (map (action_to_string ff sh sl) (rule_head r))
      @ '')'' @ [newline] @ indent @ '' ''
      @ (if rule_ruleset r \<noteq> [] then '':ruleset '' @ rule_ruleset r else [])
      @ '' '' @ (if rule_name r \<noteq> [] then '':name \"'' @ rule_name r @ ''\"'' else [])
      @ (if rule_unsafe_seminaive r then '' :unsafe-seminaive'' else [])
      @ (if rule_naive r then '' :naive'' else [])
      @ (if rule_no_decomp r then '' :no-decomp'' else [])
      @ '')'')"

section \<open>Spans\<close>

text \<open>\<open>None\<close> where the code panics: \<open>Span::Panic\<close>, and a span outside its file.\<close>

fun span_display :: "span \<Rightarrow> string option" where
  "span_display Span_Panic = None"
| "span_display (Span_Rust s) =
     Some (''At '' @ nat_to_string (unat (rust_line s)) @ '':''
           @ nat_to_string (unat (rust_column s)) @ '' of '' @ rust_file s)"
| "span_display (Span_Egglog s) =
     (let (sl, sc) = get_location (span_file s) (span_i s);
          (el, ec) = get_location (span_file s) (max (span_j s - 1) (span_i s));
          at = ''In '' @ nat_to_string sl @ '':'' @ nat_to_string sc @ ''-''
               @ (if sl = el then [] else nat_to_string el @ '':'') @ nat_to_string ec
      in map_option
           (\<lambda>quote. at @ (case src_name (span_file s) of None \<Rightarrow> [] | Some f \<Rightarrow> '' of '' @ f)
                   @ '': '' @ quote)
           (span_string (Span_Egglog s)))"

text \<open>No output has a space before a closing parenthesis of a call without arguments.\<close>

lemma expr_to_string_nullary: "expr_to_string ff sh sl (ECall sp op []) = ''('' @ sh op @ '')''"
  by simp

lemma action_to_string_nullary:
  "action_to_string ff sh sl (AChange sp Delete op []) = ''(delete ('' @ sh op @ ''))''"
  "action_to_string ff sh sl (AChange sp Subsume op []) = ''(subsume ('' @ sh op @ ''))''"
  by simp_all

text \<open>Printing only looks at the printed names: it factors through \<open>make_unresolved\<close>.\<close>

lemma expr_to_string_unresolved:
  "expr_to_string ff (\<lambda>h. h) (\<lambda>l. l) (expr_make_unresolved sh sl e) = expr_to_string ff sh sl e"
  unfolding make_unresolved_tree by (induction e) (simp_all add: comp_def cong: map_cong)

end
