(* ===== verification/Term_Dag.thy ===== *)
theory Term_Dag
  imports Ast_Traversal
begin

text \<open>
  \<open>src/termdag.rs\<close>: the hash-consing arena of terms. \<open>IndexSet<Term>\<close> is the list of
  its nodes in insertion order, a term id is an index into it. A lookup that unwraps
  \<open>None\<close> is \<open>None\<close> here. The specification side reads an id as the tree it
  denotes (\<open>tree\<close>).
\<close>

section \<open>The arena\<close>

datatype dterm = TLit literal | TVar string | TApp string "nat list"

record termdag =
  nodes :: "dterm list"

definition dag_empty :: termdag where
  "dag_empty = \<lparr>nodes = []\<rparr>"

definition dag_size :: "termdag \<Rightarrow> nat" where
  "dag_size d = length (nodes d)"

definition dag_lookup :: "termdag \<Rightarrow> dterm \<Rightarrow> nat option" where
  "dag_lookup d t = index_of t (nodes d)"

definition dag_get :: "termdag \<Rightarrow> nat \<Rightarrow> dterm option" where
  "dag_get d i = (if i < length (nodes d) then Some (nodes d ! i) else None)"

definition add_node :: "dterm \<Rightarrow> termdag \<Rightarrow> nat \<times> termdag" where
  "add_node t d =
     (case index_of t (nodes d) of
        Some i \<Rightarrow> (i, d)
      | None \<Rightarrow> (length (nodes d), d\<lparr>nodes := nodes d @ [t]\<rparr>))"

definition dag_app :: "string \<Rightarrow> nat list \<Rightarrow> termdag \<Rightarrow> nat \<times> termdag" where
  "dag_app f cs d = add_node (TApp f cs) d"

definition dag_lit :: "literal \<Rightarrow> termdag \<Rightarrow> nat \<times> termdag" where
  "dag_lit l d = add_node (TLit l) d"

definition dag_var :: "string \<Rightarrow> termdag \<Rightarrow> nat \<times> termdag" where
  "dag_var v d = add_node (TVar v) d"

text \<open>Every subexpression is inserted, children before their parent.\<close>

fun expr_to_term :: "(string, string) expr \<Rightarrow> termdag \<Rightarrow> nat \<times> termdag" where
  "expr_to_term (ELit sp l) d = add_node (TLit l) d"
| "expr_to_term (EVar sp v) d = add_node (TVar v) d"
| "expr_to_term (ECall sp op args) d =
     (let (ids, d1) = map_st (\<lambda>a d. expr_to_term a d) args d in add_node (TApp op ids) d1)"

text \<open>
  The way back recurses through ids. On an arena with a cycle the Rust recursion does
  not end; the fuel counts the nested calls, and \<open>dag_size\<close> of them are enough on a
  well-formed arena because ids decrease towards the children.
\<close>

fun term_to_expr_fuel :: "nat \<Rightarrow> termdag \<Rightarrow> nat \<Rightarrow> span \<Rightarrow> (unit, (string, string) expr) outcome" where
  "term_to_expr_fuel 0 d i sp = Panic"
| "term_to_expr_fuel (Suc n) d i sp =
     (case dag_get d i of
        None \<Rightarrow> Panic
      | Some (TLit l) \<Rightarrow> Ok (ELit sp l)
      | Some (TVar v) \<Rightarrow> Ok (EVar sp v)
      | Some (TApp op args) \<Rightarrow>
          bind_o (map_out (\<lambda>a u. bind_o (term_to_expr_fuel n d a sp) (\<lambda>e. Ok (e, u))) args ())
            (\<lambda>(es, u). Ok (ECall sp op es)))"

definition term_to_expr :: "termdag \<Rightarrow> nat \<Rightarrow> span \<Rightarrow> (unit, (string, string) expr) outcome" where
  "term_to_expr d i sp = term_to_expr_fuel (dag_size d) d i sp"

section \<open>Terms as trees\<close>

datatype tm = GLit literal | GVar string | GApp string "tm list"

fun kids :: "dterm \<Rightarrow> nat list" where
  "kids (TApp _ cs) = cs"
| "kids _ = []"

text \<open>
  A well-formed arena holds each node once and every node after its children, the order
  in which they are inserted.
\<close>

definition wf_dag :: "termdag \<Rightarrow> bool" where
  "wf_dag d \<longleftrightarrow> distinct (nodes d) \<and>
     (\<forall>i < length (nodes d). \<forall>c \<in> set (kids (nodes d ! i)). c < i)"

definition dag_le :: "termdag \<Rightarrow> termdag \<Rightarrow> bool" where
  "dag_le d d' \<longleftrightarrow> prefix (nodes d) (nodes d')"

function tree :: "termdag \<Rightarrow> nat \<Rightarrow> tm" where
  "tree d i =
     (if i < length (nodes d) then
        (case nodes d ! i of
           TLit l \<Rightarrow> GLit l
         | TVar v \<Rightarrow> GVar v
         | TApp f cs \<Rightarrow> GApp f (map (\<lambda>c. if c < i then tree d c else GVar []) cs))
      else GVar [])"
  by pat_completeness auto
termination
  by (relation "measure (\<lambda>(d, i). i)") auto

declare tree.simps [simp del]

fun strip :: "(string, string) expr \<Rightarrow> tm" where
  "strip (ELit _ l) = GLit l"
| "strip (EVar _ v) = GVar v"
| "strip (ECall _ f args) = GApp f (map (\<lambda>a. strip a) args)"

fun respan :: "span \<Rightarrow> ('h, 'l) expr \<Rightarrow> ('h, 'l) expr" where
  "respan sp (ELit _ l) = ELit sp l"
| "respan sp (EVar _ v) = EVar sp v"
| "respan sp (ECall _ f args) = ECall sp f (map (\<lambda>a. respan sp a) args)"

fun tree_expr :: "span \<Rightarrow> tm \<Rightarrow> (string, string) expr" where
  "tree_expr sp (GLit l) = ELit sp l"
| "tree_expr sp (GVar v) = EVar sp v"
| "tree_expr sp (GApp f ts) = ECall sp f (map (\<lambda>t. tree_expr sp t) ts)"

lemma tree_expr_strip: "tree_expr sp (strip e) = respan sp e"
  by (induction e) auto

lemma strip_respan: "strip (respan sp e) = strip e"
  by (induction e) auto

lemma wf_dag_empty [simp]: "wf_dag dag_empty"
  by (simp add: wf_dag_def dag_empty_def)

lemma wf_kids: "wf_dag d \<Longrightarrow> i < length (nodes d) \<Longrightarrow> nodes d ! i = TApp f cs \<Longrightarrow> c \<in> set cs \<Longrightarrow> c < i"
  by (force simp: wf_dag_def)

lemma dag_get_Some [simp]: "dag_get d i = Some t \<longleftrightarrow> i < length (nodes d) \<and> nodes d ! i = t"
  by (simp add: dag_get_def)

lemma dag_get_None: "dag_get d i = None \<longleftrightarrow> length (nodes d) \<le> i"
  by (simp add: dag_get_def not_less)

lemma dag_le_refl [simp]: "dag_le d d"
  by (simp add: dag_le_def)

lemma dag_le_trans: "dag_le a b \<Longrightarrow> dag_le b c \<Longrightarrow> dag_le a c"
  by (auto simp: dag_le_def)

lemma dag_le_length: "dag_le d d' \<Longrightarrow> length (nodes d) \<le> length (nodes d')"
  by (simp add: dag_le_def prefix_length)

lemma dag_le_nth: "dag_le d d' \<Longrightarrow> i < length (nodes d) \<Longrightarrow> nodes d' ! i = nodes d ! i"
  by (simp add: dag_le_def nth_prefix)

lemma tree_lit: "i < length (nodes d) \<Longrightarrow> nodes d ! i = TLit l \<Longrightarrow> tree d i = GLit l"
  by (simp add: tree.simps)

lemma tree_var: "i < length (nodes d) \<Longrightarrow> nodes d ! i = TVar v \<Longrightarrow> tree d i = GVar v"
  by (simp add: tree.simps)

lemma tree_app:
  "wf_dag d \<Longrightarrow> i < length (nodes d) \<Longrightarrow> nodes d ! i = TApp f cs \<Longrightarrow> tree d i = GApp f (map (tree d) cs)"
  by (auto simp: tree.simps [of d i] dest: wf_kids)

lemmas tree_node = tree_lit tree_var tree_app

lemma tree_le:
  assumes "wf_dag d" "dag_le d d'"
  shows "i < length (nodes d) \<Longrightarrow> tree d' i = tree d i"
proof (induction i rule: less_induct)
  case (less i)
  have i': "i < length (nodes d')" using less.prems dag_le_length [OF assms(2)] by simp
  have n: "nodes d' ! i = nodes d ! i" using dag_le_nth [OF assms(2) less.prems] .
  show ?case
  proof (cases "nodes d ! i")
    case (TApp f cs)
    have "c < i \<and> tree d' c = tree d c" if "c \<in> set cs" for c
      using wf_kids [OF assms(1) less.prems TApp that] less by simp
    with TApp n i' less.prems show ?thesis by (simp add: tree.simps [of _ i])
  qed (use n i' less.prems in \<open>simp_all add: tree.simps [of _ i]\<close>)
qed

text \<open>Hash-consing: an id is determined by the tree it denotes (maximal sharing).\<close>

lemma map_inj_on_elems: "map f xs = map g ys \<Longrightarrow> (\<And>x y. x \<in> set xs \<Longrightarrow> y \<in> set ys \<Longrightarrow> f x = g y \<Longrightarrow> x = y) \<Longrightarrow> xs = ys"
proof (induction xs arbitrary: ys)
  case (Cons x xs)
  then show ?case by (cases ys) auto
qed simp

lemma tree_inj:
  assumes "wf_dag d"
  shows "i < length (nodes d) \<Longrightarrow> j < length (nodes d) \<Longrightarrow> tree d i = tree d j \<Longrightarrow> i = j"
proof (induction i arbitrary: j rule: less_induct)
  case (less i)
  have "nodes d ! i = nodes d ! j"
  proof (cases "nodes d ! i")
    case (TApp f cs)
    with less.prems assms obtain ds where j: "nodes d ! j = TApp f ds"
      and eq: "map (tree d) cs = map (tree d) ds"
      by (cases "nodes d ! j") (auto simp: tree_node)
    have "cs = ds"
    proof (rule map_inj_on_elems [OF eq])
      fix c c'
      assume "c \<in> set cs" "c' \<in> set ds" "tree d c = tree d c'"
      moreover from this have "c < i" "c' < j"
        using wf_kids [OF assms] TApp j less.prems by blast+
      ultimately show "c = c'" using less by simp
    qed
    with TApp j show ?thesis by simp
  qed (use less.prems assms in \<open>cases "nodes d ! j"; auto simp: tree_node\<close>)+
  with less.prems assms show ?case by (simp add: wf_dag_def nth_eq_iff_index_eq)
qed

section \<open>Insertion\<close>

lemma add_node_spec:
  assumes "wf_dag d" "\<forall>c \<in> set (kids t). c < length (nodes d)" "add_node t d = (i, d')"
  shows "wf_dag d' \<and> dag_le d d' \<and> i < length (nodes d') \<and> nodes d' ! i = t"
proof (cases "index_of t (nodes d)")
  case None
  with assms have d': "d' = d\<lparr>nodes := nodes d @ [t]\<rparr>" "i = length (nodes d)"
    by (auto simp: add_node_def)
  have "distinct (nodes d')" using assms(1) None d' by (simp add: wf_dag_def)
  moreover have "c < j" if "j < length (nodes d')" "c \<in> set (kids (nodes d' ! j))" for j c
  proof (cases "j < length (nodes d)")
    case True
    with that(2) d' have "c \<in> set (kids (nodes d ! j))" by (simp add: nth_append)
    with True assms(1) show ?thesis by (simp add: wf_dag_def)
  next
    case False
    with that(1) d' have "j = length (nodes d)" by simp
    with that(2) d' assms(2) show ?thesis by simp
  qed
  ultimately have "wf_dag d'" by (simp add: wf_dag_def)
  with d' show ?thesis by (simp add: dag_le_def)
next
  case (Some k)
  with assms index_of_Some [OF Some] show ?thesis by (simp add: add_node_def)
qed

lemma add_node_present:
  "wf_dag d \<Longrightarrow> i < length (nodes d) \<Longrightarrow> add_node (nodes d ! i) d = (i, d)"
  by (simp add: add_node_def index_of_nth wf_dag_def)

lemma dag_app_spec:
  assumes "wf_dag d" "\<forall>c \<in> set cs. c < length (nodes d)" "dag_app f cs d = (i, d')"
  shows "wf_dag d' \<and> dag_le d d' \<and> i < length (nodes d') \<and> tree d' i = GApp f (map (tree d) cs)"
proof -
  from add_node_spec [of d "TApp f cs" i d'] assms
  have *: "wf_dag d'" "dag_le d d'" "i < length (nodes d')" "nodes d' ! i = TApp f cs"
    by (auto simp: dag_app_def)
  then have "tree d' i = GApp f (map (tree d') cs)" by (simp add: tree_app)
  also have "map (tree d') cs = map (tree d) cs"
    using tree_le [OF assms(1) *(2)] assms(2) by simp
  finally show ?thesis using * by simp
qed

lemma dag_lit_spec:
  "wf_dag d \<Longrightarrow> dag_lit l d = (i, d') \<Longrightarrow>
     wf_dag d' \<and> dag_le d d' \<and> i < length (nodes d') \<and> tree d' i = GLit l"
  using add_node_spec [of d "TLit l" i d'] by (auto simp: dag_lit_def tree_lit)

lemma dag_var_spec:
  "wf_dag d \<Longrightarrow> dag_var v d = (i, d') \<Longrightarrow>
     wf_dag d' \<and> dag_le d d' \<and> i < length (nodes d') \<and> tree d' i = GVar v"
  using add_node_spec [of d "TVar v" i d'] by (auto simp: dag_var_def tree_var)

lemma trees_le:
  "wf_dag d \<Longrightarrow> dag_le d d' \<Longrightarrow> \<forall>c \<in> set cs. c < length (nodes d) \<Longrightarrow> map (tree d') cs = map (tree d) cs"
  by (rule map_cong) (auto intro: tree_le)

text \<open>
  A stateful loop that inserts one term per element: each element's tree is the one it
  asks for, whatever the others inserted.
\<close>

lemma map_st_dag_spec:
  assumes "\<And>x d i d'. x \<in> set xs \<Longrightarrow> wf_dag d \<Longrightarrow> f x d = (i, d') \<Longrightarrow>
      wf_dag d' \<and> dag_le d d' \<and> i < length (nodes d') \<and> tree d' i = g x"
    and "wf_dag d" "map_st f xs d = (ids, d')"
  shows "wf_dag d' \<and> dag_le d d' \<and> (\<forall>i \<in> set ids. i < length (nodes d')) \<and> map (tree d') ids = map g xs"
  using assms
proof (induction xs arbitrary: d ids d')
  case (Cons x xs)
  obtain i d1 where 1: "f x d = (i, d1)" by force
  obtain is' d2 where 2: "map_st f xs d1 = (is', d2)" by force
  from Cons.prems(3) 1 2 have eq: "ids = i # is'" "d' = d2" by auto
  have a: "wf_dag d1" "dag_le d d1" "i < length (nodes d1)" "tree d1 i = g x"
    using Cons.prems(1) [OF _ Cons.prems(2) 1] by auto
  have b: "wf_dag d2" "dag_le d1 d2" "\<forall>i \<in> set is'. i < length (nodes d2)" "map (tree d2) is' = map g xs"
    using Cons.IH [OF _ a(1) 2] Cons.prems(1) by auto
  have "tree d2 i = g x" using tree_le [OF a(1) b(2) a(3)] a(4) by simp
  moreover have "i < length (nodes d2)" using a(3) dag_le_length [OF b(2)] by simp
  ultimately show ?case using eq b a(2) dag_le_trans by auto
qed auto

lemma expr_to_term_spec:
  "wf_dag d \<Longrightarrow> expr_to_term e d = (i, d') \<Longrightarrow>
     wf_dag d' \<and> dag_le d d' \<and> i < length (nodes d') \<and> tree d' i = strip e"
proof (induction e arbitrary: d i d')
  case (ECall sp f args)
  obtain ids d1 where 1: "map_st (\<lambda>a d. expr_to_term a d) args d = (ids, d1)" by force
  have 2: "wf_dag d1" "dag_le d d1" "\<forall>i \<in> set ids. i < length (nodes d1)"
    "map (tree d1) ids = map strip args"
    using map_st_dag_spec [OF _ ECall.prems(1) 1] ECall.IH by auto
  have "dag_app f ids d1 = (i, d')" using ECall.prems(2) 1 by (simp add: dag_app_def)
  from dag_app_spec [OF 2(1,3) this] 2 show ?case by (auto intro: dag_le_trans)
qed (auto simp: dag_lit_def [symmetric] dag_var_def [symmetric] dest: dag_lit_spec dag_var_spec)

text \<open>Inserting a tree that is already there finds its id and leaves the arena alone.\<close>

lemma expr_to_term_present:
  "wf_dag d \<Longrightarrow> i < length (nodes d) \<Longrightarrow> tree d i = strip e \<Longrightarrow> expr_to_term e d = (i, d)"
proof (induction e arbitrary: i)
  case (ECall sp f args)
  from ECall.prems obtain cs where cs: "nodes d ! i = TApp f cs" "map (tree d) cs = map strip args"
    by (cases "nodes d ! i") (auto simp: tree_node)
  have lt: "\<forall>c \<in> set cs. c < length (nodes d)"
    using wf_kids [OF ECall.prems(1,2) cs(1)] ECall.prems(2) by fastforce
  have "map_st (\<lambda>a d. expr_to_term a d) args d = (cs, d)"
    using cs(2) lt ECall.IH
  proof (induction args arbitrary: cs)
    case (Cons a args)
    then obtain c cs' where c: "cs = c # cs'" "tree d c = strip a" "map (tree d) cs' = map strip args"
      by auto
    have "expr_to_term a d = (c, d)" using Cons.prems c ECall.prems(1) by simp
    moreover have "map_st expr_to_term args d = (cs', d)"
      using Cons.IH [OF c(3)] Cons.prems c(1) by simp
    ultimately show ?case using c(1) by simp
  qed simp
  with add_node_present [OF ECall.prems(1,2)] cs(1) show ?case by simp
next
  case (EVar sp v)
  then have "nodes d ! i = TVar v" by (cases "nodes d ! i") (auto simp: tree_node)
  with add_node_present [OF EVar(1,2)] show ?case by simp
next
  case (ELit sp l)
  then have "nodes d ! i = TLit l" by (cases "nodes d ! i") (auto simp: tree_node)
  with add_node_present [OF ELit(1,2)] show ?case by simp
qed

lemma term_to_expr_fuel_spec:
  "wf_dag d \<Longrightarrow> i < length (nodes d) \<Longrightarrow> i < n \<Longrightarrow> term_to_expr_fuel n d i sp = Ok (tree_expr sp (tree d i))"
proof (induction n arbitrary: i)
  case (Suc n)
  show ?case
  proof (cases "nodes d ! i")
    case (TApp f cs)
    have "term_to_expr_fuel n d c sp = Ok (tree_expr sp (tree d c))" if "c \<in> set cs" for c
      using wf_kids [OF Suc.prems(1,2) TApp that] Suc by simp
    then have "map_out (\<lambda>a u. bind_o (term_to_expr_fuel n d a sp) (\<lambda>e. Ok (e, u))) cs () =
        Ok (map (\<lambda>c. tree_expr sp (tree d c)) cs, ())"
      by (intro map_out_pure_at) simp
    with TApp Suc.prems show ?thesis by (simp add: dag_get_def tree_app)
  qed (use Suc.prems in \<open>simp_all add: dag_get_def tree_node\<close>)
qed simp

lemma term_to_expr_spec:
  "wf_dag d \<Longrightarrow> i < length (nodes d) \<Longrightarrow> term_to_expr d i sp = Ok (tree_expr sp (tree d i))"
  by (simp add: term_to_expr_def dag_size_def term_to_expr_fuel_spec)

section \<open>Properties\<close>

text \<open>
  C34: inserting an expression and reading it back returns the expression with every
  span replaced; the store stays well formed, keeps its old nodes under their ids, and
  inserting the same expression again finds the same id and adds nothing.
\<close>

theorem expr_term_roundtrip:
  assumes "wf_dag d" "expr_to_term e d = (i, d')"
  shows "term_to_expr d' i sp = Ok (respan sp e) \<and> wf_dag d' \<and> dag_le d d'
     \<and> expr_to_term e d' = (i, d')"
proof -
  have *: "wf_dag d'" "dag_le d d'" "i < length (nodes d')" "tree d' i = strip e"
    using expr_to_term_spec [OF assms] by auto
  then show ?thesis
    using term_to_expr_spec [OF *(1,3), of sp] expr_to_term_present [OF *(1,3,4)]
    by (simp add: tree_expr_strip)
qed

abbreviation (input) sample_expr :: "(string, string) expr" where
  "sample_expr \<equiv> ECall Span_Panic ''f'' [EVar Span_Panic ''x'', EVar Span_Panic ''x'']"

theorem expr_term_roundtrip_witness:
  "term_to_expr \<lparr>nodes = [TVar ''x'', TApp ''f'' [0, 0]]\<rparr> 1 Span_Panic = Ok (respan Span_Panic sample_expr)
   \<and> wf_dag \<lparr>nodes = [TVar ''x'', TApp ''f'' [0, 0]]\<rparr>
   \<and> dag_le dag_empty \<lparr>nodes = [TVar ''x'', TApp ''f'' [0, 0]]\<rparr>
   \<and> expr_to_term sample_expr \<lparr>nodes = [TVar ''x'', TApp ''f'' [0, 0]]\<rparr>
       = (1, \<lparr>nodes = [TVar ''x'', TApp ''f'' [0, 0]]\<rparr>)"
  by (rule expr_term_roundtrip [of dag_empty])
    (simp_all add: dag_empty_def add_node_def Let_def wf_dag_empty [unfolded dag_empty_def])

text \<open>
  C35: sharing is maximal: two ids of a well-formed store that stand for the same tree
  are equal, and two expressions inserted one after the other get the same id exactly
  when they are equal up to spans.
\<close>

theorem maximal_sharing:
  assumes "wf_dag d" "expr_to_term e d = (i, d1)" "expr_to_term e' d1 = (j, d2)"
  shows "i = j \<longleftrightarrow> respan sp e = respan sp e'"
proof -
  have 1: "wf_dag d1" "i < length (nodes d1)" "tree d1 i = strip e"
    using expr_to_term_spec [OF assms(1,2)] by auto
  have 2: "wf_dag d2" "dag_le d1 d2" "j < length (nodes d2)" "tree d2 j = strip e'"
    using expr_to_term_spec [OF 1(1) assms(3)] by auto
  have i: "i < length (nodes d2)" "tree d2 i = strip e"
    using 1(2,3) dag_le_length [OF 2(2)] tree_le [OF 1(1) 2(2) 1(2)] by auto
  have "i = j \<longleftrightarrow> strip e = strip e'" using tree_inj [OF 2(1) i(1) 2(3)] i(2) 2(4) by auto
  also have "\<dots> \<longleftrightarrow> respan sp e = respan sp e'"
  proof
    assume "strip e = strip e'"
    then show "respan sp e = respan sp e'" by (metis tree_expr_strip)
  next
    assume "respan sp e = respan sp e'"
    then show "strip e = strip e'" by (metis strip_respan)
  qed
  finally show ?thesis .
qed

theorem maximal_sharing_witness:
  "(0::nat) = 1 \<longleftrightarrow> respan Span_Panic (EVar Span_Panic ''x'' :: (string, string) expr)
      = respan Span_Panic (EVar Span_Panic ''y'')"
  by (rule maximal_sharing [of dag_empty _ _ "\<lparr>nodes = [TVar ''x'']\<rparr>" _ _
        "\<lparr>nodes = [TVar ''x'', TVar ''y'']\<rparr>"])
    (simp_all add: dag_empty_def add_node_def Let_def wf_dag_empty [unfolded dag_empty_def])

end
