(* ===== verification/Term_Print.thy ===== *)
theory Term_Print
  imports Term_Dag Ast_Display Symbol_Gen
begin

text \<open>
  The printers of \<open>src/termdag.rs\<close>: \<open>to_string\<close>, a loop over an explicit stack that
  copies the text of a subterm it has already printed, and the pretty printer that binds
  large shared subterms with \<open>let\<close>. The reference for both is the recursive printer
  of trees.
\<close>

section \<open>The reference printer\<close>

fun tm_to_string :: "(64 word \<Rightarrow> string) \<Rightarrow> tm \<Rightarrow> string" where
  "tm_to_string ff (GLit l) = lit_to_string ff l"
| "tm_to_string ff (GVar v) = v"
| "tm_to_string ff (GApp f ts) =
     ''('' @ f @ concat (map (\<lambda>t. '' '' @ tm_to_string ff t) ts) @ '')''"

lemma join_space: "xs \<noteq> [] \<Longrightarrow> '' '' @ join '' '' xs = concat (map (\<lambda>x. '' '' @ x) xs)"
proof (induction xs rule: join.induct [of _ "'' ''"])
  case (3 sep x y ys)
  then show ?case by simp
qed simp_all

lemma tm_to_string_strip: "tm_to_string ff (strip e) = expr_to_string ff (\<lambda>h. h) (\<lambda>l. l) e"
proof (induction e)
  case (ECall sp f args)
  have "concat (map (\<lambda>t. '' '' @ tm_to_string ff (strip t)) args) =
      concat (map (\<lambda>x. '' '' @ x) (map (expr_to_string ff (\<lambda>h. h) (\<lambda>l. l)) args))"
    by (simp add: comp_def ECall cong: map_cong)
  then show ?case
    using join_space [of "map (expr_to_string ff (\<lambda>h. h) (\<lambda>l. l)) args"]
    by (cases "args = []") (simp_all add: comp_def)
qed simp_all

section \<open>The stack printer\<close>

text \<open>
  A stack entry is a term id, whether a space goes before it, and for the second visit
  of an application the offset at which its text starts. \<open>None\<close> is a panic on an
  unknown id, or no end.
\<close>

partial_function (option) to_string_loop ::
    "(64 word \<Rightarrow> string) \<Rightarrow> termdag \<Rightarrow> (nat \<times> bool \<times> nat option) list \<Rightarrow> string
     \<Rightarrow> (nat \<rightharpoonup> nat \<times> nat) \<Rightarrow> string option" where
  "to_string_loop ff d stack result ranges =
     (case stack of
        [] \<Rightarrow> Some result
      | (i, space_before, start_index) # rest \<Rightarrow>
          (let r1 = (if space_before then result @ '' '' else result) in
           case ranges i of
             Some (a, b) \<Rightarrow> to_string_loop ff d rest (r1 @ take (b - a) (drop a r1)) ranges
           | None \<Rightarrow>
               (case dag_get d i of
                  None \<Rightarrow> None
                | Some (TApp f cs) \<Rightarrow>
                    (case start_index of
                       Some st \<Rightarrow>
                         to_string_loop ff d rest (r1 @ '')'') (ranges(i \<mapsto> (st, length (r1 @ '')''))))
                     | None \<Rightarrow>
                         to_string_loop ff d
                           (map (\<lambda>c. (c, True, None)) cs @ (i, False, Some (length r1)) # rest)
                           (r1 @ ''('' @ f) ranges)
                | Some (TLit l) \<Rightarrow>
                    to_string_loop ff d rest (r1 @ lit_to_string ff l)
                      (ranges(i \<mapsto> (length r1, length (r1 @ lit_to_string ff l))))
                | Some (TVar v) \<Rightarrow>
                    to_string_loop ff d rest (r1 @ v) (ranges(i \<mapsto> (length r1, length (r1 @ v)))))))"

definition dag_to_string :: "(64 word \<Rightarrow> string) \<Rightarrow> termdag \<Rightarrow> nat \<Rightarrow> string option" where
  "dag_to_string ff d i = to_string_loop ff d [(i, False, None)] [] Map.empty"

definition ranges_ok :: "(64 word \<Rightarrow> string) \<Rightarrow> termdag \<Rightarrow> string \<Rightarrow> (nat \<rightharpoonup> nat \<times> nat) \<Rightarrow> bool" where
  "ranges_ok ff d r R \<longleftrightarrow>
     (\<forall>k a b. R k = Some (a, b) \<longrightarrow>
        b \<le> length r \<and> take (b - a) (drop a r) = tm_to_string ff (tree d k))"

lemma ranges_ok_append: "ranges_ok ff d r R \<Longrightarrow> ranges_ok ff d (r @ s) R"
  unfolding ranges_ok_def by (force simp: take_drop min_def)

lemma ranges_ok_add:
  "ranges_ok ff d r R \<Longrightarrow> s = tm_to_string ff (tree d k) \<Longrightarrow>
     ranges_ok ff d (r @ s) (R(k \<mapsto> (length r, length r + length s)))"
  using ranges_ok_append [of ff d r R s] by (simp add: ranges_ok_def)

text \<open>One turn of the loop, by the kind of the entry on top.\<close>

lemma loop_done: "to_string_loop ff d [] r R = Some r"
  by (subst to_string_loop.simps) simp

lemma loop_copy:
  "R i = Some (a, b) \<Longrightarrow> r1 = (if sp then r @ '' '' else r) \<Longrightarrow>
   to_string_loop ff d ((i, sp, st) # rest) r R =
     to_string_loop ff d rest (r1 @ take (b - a) (drop a r1)) R"
  by (subst to_string_loop.simps) (simp add: Let_def)

lemma loop_lit:
  "R i = None \<Longrightarrow> dag_get d i = Some (TLit l) \<Longrightarrow> r1 = (if sp then r @ '' '' else r) \<Longrightarrow>
   to_string_loop ff d ((i, sp, st) # rest) r R =
     to_string_loop ff d rest (r1 @ lit_to_string ff l)
       (R(i \<mapsto> (length r1, length r1 + length (lit_to_string ff l))))"
  by (subst to_string_loop.simps) (simp add: Let_def del: dag_get_Some)

lemma loop_var:
  "R i = None \<Longrightarrow> dag_get d i = Some (TVar v) \<Longrightarrow> r1 = (if sp then r @ '' '' else r) \<Longrightarrow>
   to_string_loop ff d ((i, sp, st) # rest) r R =
     to_string_loop ff d rest (r1 @ v) (R(i \<mapsto> (length r1, length r1 + length v)))"
  by (subst to_string_loop.simps) (simp add: Let_def del: dag_get_Some)

lemma loop_open:
  "R i = None \<Longrightarrow> dag_get d i = Some (TApp f cs) \<Longrightarrow> r1 = (if sp then r @ '' '' else r) \<Longrightarrow>
   to_string_loop ff d ((i, sp, None) # rest) r R =
     to_string_loop ff d (map (\<lambda>c. (c, True, None)) cs @ (i, False, Some (length r1)) # rest)
       (r1 @ ''('' @ f) R"
  by (subst to_string_loop.simps) (simp add: Let_def del: dag_get_Some)

lemma loop_close:
  "R i = None \<Longrightarrow> dag_get d i = Some (TApp f cs) \<Longrightarrow>
   to_string_loop ff d ((i, False, Some a) # rest) r R =
     to_string_loop ff d rest (r @ '')'') (R(i \<mapsto> (a, Suc (length r))))"
  by (subst to_string_loop.simps) (simp add: Let_def del: dag_get_Some)

text \<open>Processing one stack entry prints its term and touches no id above it.\<close>

definition prints :: "(64 word \<Rightarrow> string) \<Rightarrow> termdag \<Rightarrow> nat \<Rightarrow> bool" where
  "prints ff d i \<longleftrightarrow>
     (\<forall>sp rest r R. ranges_ok ff d r R \<longrightarrow>
        (\<exists>R'. to_string_loop ff d ((i, sp, None) # rest) r R =
              to_string_loop ff d rest
                (r @ (if sp then '' '' else []) @ tm_to_string ff (tree d i)) R'
            \<and> ranges_ok ff d (r @ (if sp then '' '' else []) @ tm_to_string ff (tree d i)) R'
            \<and> (\<forall>k > i. R' k = R k)))"

lemma printsD:
  assumes "prints ff d i" "ranges_ok ff d r R"
  obtains R' where
    "to_string_loop ff d ((i, sp, None) # rest) r R =
       to_string_loop ff d rest (r @ (if sp then '' '' else []) @ tm_to_string ff (tree d i)) R'"
    "ranges_ok ff d (r @ (if sp then '' '' else []) @ tm_to_string ff (tree d i)) R'"
    "\<forall>k > i. R' k = R k"
  using assms unfolding prints_def by blast

lemma prints_children:
  assumes "\<forall>c \<in> set cs. c < i \<and> prints ff d c" "ranges_ok ff d r R"
  shows "\<exists>R'. to_string_loop ff d (map (\<lambda>c. (c, True, None)) cs @ rest) r R =
       to_string_loop ff d rest (r @ concat (map (\<lambda>c. '' '' @ tm_to_string ff (tree d c)) cs)) R'
     \<and> ranges_ok ff d (r @ concat (map (\<lambda>c. '' '' @ tm_to_string ff (tree d c)) cs)) R'
     \<and> (\<forall>k \<ge> i. R' k = R k)"
  using assms
proof (induction cs arbitrary: r R)
  case (Cons c cs)
  from Cons.prems(1) have c: "prints ff d c" "c < i" by auto
  from printsD [OF c(1) Cons.prems(2), of True "map (\<lambda>c. (c, True, None)) cs @ rest"]
  obtain R1 where R1:
    "to_string_loop ff d ((c, True, None) # map (\<lambda>c. (c, True, None)) cs @ rest) r R =
     to_string_loop ff d (map (\<lambda>c. (c, True, None)) cs @ rest) (r @ '' '' @ tm_to_string ff (tree d c)) R1"
    "ranges_ok ff d (r @ '' '' @ tm_to_string ff (tree d c)) R1" "\<forall>k > c. R1 k = R k"
    by auto
  from Cons.IH [OF _ R1(2)] Cons.prems(1) obtain R2 where R2:
    "to_string_loop ff d (map (\<lambda>c. (c, True, None)) cs @ rest) (r @ '' '' @ tm_to_string ff (tree d c)) R1 =
     to_string_loop ff d rest ((r @ '' '' @ tm_to_string ff (tree d c)) @
       concat (map (\<lambda>c. '' '' @ tm_to_string ff (tree d c)) cs)) R2"
    "ranges_ok ff d ((r @ '' '' @ tm_to_string ff (tree d c)) @
       concat (map (\<lambda>c. '' '' @ tm_to_string ff (tree d c)) cs)) R2"
    "\<forall>k \<ge> i. R2 k = R1 k" by auto
  have "\<forall>k \<ge> i. R2 k = R k" using R2(3) R1(3) c(2) by simp
  with R1(1) R2(1,2) show ?case by (intro exI [of _ R2]) simp
qed auto

lemma prints_step:
  assumes "wf_dag d" "i < length (nodes d)" "\<And>c. c < i \<Longrightarrow> prints ff d c"
  shows "prints ff d i"
  unfolding prints_def
proof (intro allI impI)
  fix sp rest r R
  assume ok: "ranges_ok ff d r R"
  define r1 where "r1 = (if sp then r @ '' '' else r)"
  have ok1: "ranges_ok ff d r1 R" using ok ranges_ok_append by (simp add: r1_def)
  let ?P = "tm_to_string ff (tree d i)"
  let ?R = "R(i \<mapsto> (length r1, length r1 + length ?P))"
  have main: "\<exists>R'. to_string_loop ff d ((i, sp, None) # rest) r R = to_string_loop ff d rest (r1 @ ?P) R'
      \<and> ranges_ok ff d (r1 @ ?P) R' \<and> (\<forall>k > i. R' k = R k)"
  proof (cases "R i")
    case (Some p)
    then have R: "R i = Some (fst p, snd p)" by simp
    with ok1 have P: "take (snd p - fst p) (drop (fst p) r1) = ?P" unfolding ranges_ok_def by blast
    from loop_copy [where R = R and i = i, OF R r1_def, of ff d None rest] P ranges_ok_append [OF ok1, of ?P]
    show ?thesis by (intro exI [of _ R]) simp
  next
    case None
    have node: "dag_get d i = Some (nodes d ! i)" using assms(2) by simp
    have okR: "ranges_ok ff d (r1 @ ?P) ?R" by (rule ranges_ok_add [OF ok1 refl])
    have frame: "\<forall>k > i. ?R k = R k" by simp
    show ?thesis
    proof (cases "nodes d ! i")
      case (TLit l)
      then have P: "?P = lit_to_string ff l" using assms(2) by (simp add: tree_lit)
      from loop_lit [where R = R and i = i, OF None node [unfolded TLit] r1_def, of ff None rest] okR frame
      show ?thesis unfolding P by blast
    next
      case (TVar v)
      then have P: "?P = v" using assms(2) by (simp add: tree_var)
      from loop_var [where R = R and i = i, OF None node [unfolded TVar] r1_def, of ff None rest] okR frame
      show ?thesis unfolding P by blast
    next
      case (TApp f cs)
      let ?body = "concat (map (\<lambda>c. '' '' @ tm_to_string ff (tree d c)) cs)"
      have P: "?P = ''('' @ f @ ?body @ '')''"
        using TApp assms(1,2) by (simp add: tree_app comp_def)
      have "\<forall>c \<in> set cs. c < i \<and> prints ff d c"
        using wf_kids [OF assms(1,2) TApp] assms(3) by blast
      from prints_children [OF this ranges_ok_append [OF ok1, of "''('' @ f"],
          of "(i, False, Some (length r1)) # rest"]
      obtain R1 where R1:
        "to_string_loop ff d (map (\<lambda>c. (c, True, None)) cs @ (i, False, Some (length r1)) # rest)
            (r1 @ ''('' @ f) R =
         to_string_loop ff d ((i, False, Some (length r1)) # rest) ((r1 @ ''('' @ f) @ ?body) R1"
        "ranges_ok ff d ((r1 @ ''('' @ f) @ ?body) R1" "\<forall>k \<ge> i. R1 k = R k" by blast
      from R1(3) None have "R1 i = None" by simp
      note close = loop_close [where R = R1 and i = i, OF this node [unfolded TApp], of ff "length r1" rest]
      let ?R1 = "R1(i \<mapsto> (length r1, length r1 + length ?P))"
      have r2: "((r1 @ ''('' @ f) @ ?body) @ '')'' = r1 @ ?P"
        "Suc (length ((r1 @ ''('' @ f) @ ?body)) = length r1 + length ?P" by (simp_all add: P)
      have "ranges_ok ff d (r1 @ ?P) R1"
        using ranges_ok_append [OF R1(2), of "'')''"] unfolding r2 .
      then have "ranges_ok ff d (r1 @ ?P) ?R1" by (simp add: ranges_ok_def)
      moreover have "to_string_loop ff d ((i, sp, None) # rest) r R = to_string_loop ff d rest (r1 @ ?P) ?R1"
        unfolding loop_open [where R = R and i = i, OF None node [unfolded TApp] r1_def] R1(1) close r2 ..
      moreover have "\<forall>k > i. ?R1 k = R k" using R1(3) by simp
      ultimately show ?thesis by blast
    qed
  qed
  have eq: "r @ (if sp then '' '' else []) @ ?P = r1 @ ?P" by (simp add: r1_def)
  show "\<exists>R'. to_string_loop ff d ((i, sp, None) # rest) r R =
          to_string_loop ff d rest (r @ (if sp then '' '' else []) @ ?P) R'
        \<and> ranges_ok ff d (r @ (if sp then '' '' else []) @ ?P) R' \<and> (\<forall>k > i. R' k = R k)"
    unfolding eq by (rule main)
qed

lemma prints_all: "wf_dag d \<Longrightarrow> i < length (nodes d) \<Longrightarrow> prints ff d i"
proof (induction i rule: less_induct)
  case (less i)
  show ?case
  proof (rule prints_step [OF less.prems])
    fix c assume "c < i"
    with less show "prints ff d c" by simp
  qed
qed

lemma dag_to_string_spec:
  assumes "wf_dag d" "i < length (nodes d)"
  shows "dag_to_string ff d i = Some (tm_to_string ff (tree d i))"
proof -
  have "ranges_ok ff d [] Map.empty" by (simp add: ranges_ok_def)
  from printsD [OF prints_all [OF assms] this, of False "[]"] obtain R where
    "to_string_loop ff d [(i, False, None)] [] Map.empty =
     to_string_loop ff d [] (tm_to_string ff (tree d i)) R" by auto
  then show ?thesis by (simp add: dag_to_string_def loop_done)
qed

section \<open>Properties\<close>



end
