(* ===== verification/Term_Pretty.thy ===== *)
theory Term_Pretty
  imports Term_Print
begin

text \<open>
  The \<open>let\<close>-binding pretty printer of \<open>src/termdag.rs\<close>: reference counts and sizes
  of the terms below a root, the recursive renderer with its width limit, and the text
  of the bindings. Recursion through ids carries fuel, as in \<open>Term_Dag\<close>.
\<close>

section \<open>Constants and layout helpers\<close>

definition MAX_PRETTY_LINE_WIDTH :: nat where "MAX_PRETTY_LINE_WIDTH = 80"
definition PRETTY_INDENT_STEP :: nat where "PRETTY_INDENT_STEP = 2"
definition MIN_SHARED_TERM_SIZE :: nat where "MIN_SHARED_TERM_SIZE = 4"

record rendered =
  inline :: string
  pretty :: string

definition rendered_symbol :: "string \<Rightarrow> rendered" where
  "rendered_symbol s = \<lparr>inline = s, pretty = s\<rparr>"

definition is_multiline :: "rendered \<Rightarrow> bool" where
  "is_multiline r \<longleftrightarrow> newline \<in> set (pretty r)"

text \<open>\<open>trim_end\<close> drops trailing white space (the ASCII white space characters).\<close>

definition is_space :: "char \<Rightarrow> bool" where
  "is_space c \<longleftrightarrow> of_char c \<in> {9::nat, 10, 11, 12, 13, 32}"

definition trim_end :: "string \<Rightarrow> string" where
  "trim_end s = rev (dropWhile is_space (rev s))"

text \<open>
  \<open>lines\<close> splits at line feeds, drops one carriage return at the end of each line and
  has no last empty line.
\<close>

definition drop_cr :: "string \<Rightarrow> string" where
  "drop_cr s = (if s \<noteq> [] \<and> last s = CHR 0x0D then butlast s else s)"

fun str_lines_acc :: "string \<Rightarrow> string \<Rightarrow> string list" where
  "str_lines_acc acc [] = (if acc = [] then [] else [rev acc])"
| "str_lines_acc acc (c # cs) =
     (if c = newline then drop_cr (rev acc) # str_lines_acc [] cs else str_lines_acc (c # acc) cs)"

definition str_lines :: "string \<Rightarrow> string list" where
  "str_lines s = str_lines_acc [] s"

section \<open>Reference counts and sizes\<close>

fun compute_term_size :: "nat \<Rightarrow> termdag \<Rightarrow> nat \<Rightarrow> (nat \<rightharpoonup> nat) \<Rightarrow> (unit, nat \<times> (nat \<rightharpoonup> nat)) outcome"
where
  "compute_term_size 0 d i sizes = Panic"
| "compute_term_size (Suc n) d i sizes =
     (case sizes i of
        Some s \<Rightarrow> Ok (s, sizes)
      | None \<Rightarrow>
          (case dag_get d i of
             None \<Rightarrow> Panic
           | Some (TApp f cs) \<Rightarrow>
               bind_o (map_out (\<lambda>c m. compute_term_size n d c m) cs sizes)
                 (\<lambda>(ss, m). Ok (1 + sum_list ss, m(i \<mapsto> 1 + sum_list ss)))
           | Some (TLit l) \<Rightarrow> Ok (1, sizes(i \<mapsto> 1))
           | Some (TVar v) \<Rightarrow> Ok (1, sizes(i \<mapsto> 1))))"

fun collect_ref_counts ::
    "nat \<Rightarrow> termdag \<Rightarrow> nat \<Rightarrow> (nat \<rightharpoonup> nat) \<times> nat set \<Rightarrow> (unit, (nat \<rightharpoonup> nat) \<times> nat set) outcome" where
  "collect_ref_counts 0 d i st = Panic"
| "collect_ref_counts (Suc n) d i (counts, visited) =
     (let counts' = counts(i \<mapsto> (case counts i of None \<Rightarrow> 1 | Some k \<Rightarrow> Suc k)) in
      if i \<in> visited then Ok (counts', visited)
      else
        (case dag_get d i of
           None \<Rightarrow> Panic
         | Some (TApp f cs) \<Rightarrow>
             fold_out (\<lambda>c st. collect_ref_counts n d c st) cs (counts', insert i visited)
         | Some (TLit l) \<Rightarrow> Ok (counts', insert i visited)
         | Some (TVar v) \<Rightarrow> Ok (counts', insert i visited)))"

definition collect_term_stats ::
    "termdag \<Rightarrow> nat \<Rightarrow> (unit, (nat \<rightharpoonup> nat) \<times> (nat \<rightharpoonup> nat)) outcome" where
  "collect_term_stats d i =
     bind_o (collect_ref_counts (Suc (dag_size d)) d i (Map.empty, {}))
       (\<lambda>(counts, visited). bind_o (compute_term_size (Suc (dag_size d)) d i Map.empty)
         (\<lambda>(s, sizes). Ok (counts, sizes)))"

section \<open>The renderer\<close>

text \<open>The mutable part of \<open>TermRenderContext\<close>; counts, sizes and hints do not change.\<close>

record render_ctx =
  rc_fresh :: symbol_gen
  rc_bindings :: "nat \<rightharpoonup> string"
  rc_buf :: string

definition push_binding :: "string \<Rightarrow> string \<Rightarrow> string \<Rightarrow> string" where
  "push_binding buf name body =
     (let trimmed = trim_end body in
      if trimmed = [] then buf @ ''(let '' @ name @ '')'' @ [newline]
      else if newline \<in> set trimmed then
        buf @ ''(let '' @ name @ [newline]
        @ join [newline] (map (\<lambda>l. replicate PRETTY_INDENT_STEP (CHR '' '') @ l) (str_lines trimmed))
        @ '')'' @ [newline]
      else buf @ ''(let '' @ name @ '' '' @ trimmed @ '')'' @ [newline])"

text \<open>One rendered application, from its rendered children.\<close>

definition render_app :: "string \<Rightarrow> rendered list \<Rightarrow> nat \<Rightarrow> rendered" where
  "render_app name cs indent =
     (let inl = ''('' @ name @ concat (map (\<lambda>c. '' '' @ inline c) cs) @ '')'';
          exceeds = MAX_PRETTY_LINE_WIDTH < indent + char_count inl
      in \<lparr>inline = inl,
          pretty =
            (if exceeds \<or> list_ex is_multiline cs then
               (if cs = [] then ''('' @ name @ '')''
                else ''('' @ name
                     @ concat (map (\<lambda>c. [newline]
                         @ replicate (indent + PRETTY_INDENT_STEP) (CHR '' '') @ pretty c) cs)
                     @ '')'')
             else inl)\<rparr>)"

definition should_bind :: "(nat \<rightharpoonup> nat) \<Rightarrow> (nat \<rightharpoonup> nat) \<Rightarrow> nat \<Rightarrow> bool \<Rightarrow> bool" where
  "should_bind counts sizes i allow \<longleftrightarrow>
     allow \<and> 1 < (case counts i of None \<Rightarrow> 1 | Some k \<Rightarrow> k)
     \<and> MIN_SHARED_TERM_SIZE \<le> (case sizes i of None \<Rightarrow> 1 | Some s \<Rightarrow> s)"

definition finish_render ::
    "(nat \<rightharpoonup> nat) \<Rightarrow> (nat \<rightharpoonup> nat) \<Rightarrow> (string \<Rightarrow> string) \<Rightarrow> nat \<Rightarrow> bool \<Rightarrow> string \<Rightarrow> rendered
     \<Rightarrow> render_ctx \<Rightarrow> rendered \<times> render_ctx" where
  "finish_render counts sizes hint i allow con r ctx =
     (if should_bind counts sizes i allow then
        (let (name, g) = sg_fresh (hint con) (rc_fresh ctx)
         in (rendered_symbol name,
             ctx\<lparr>rc_fresh := g, rc_buf := push_binding (rc_buf ctx) name (pretty r),
                 rc_bindings := (rc_bindings ctx)(i \<mapsto> name)\<rparr>))
      else (r, ctx))"

fun render_term ::
    "nat \<Rightarrow> (64 word \<Rightarrow> string) \<Rightarrow> termdag \<Rightarrow> (nat \<rightharpoonup> nat) \<Rightarrow> (nat \<rightharpoonup> nat) \<Rightarrow> (string \<Rightarrow> string)
     \<Rightarrow> nat \<Rightarrow> bool \<Rightarrow> nat \<Rightarrow> render_ctx \<Rightarrow> (unit, rendered \<times> render_ctx) outcome" where
  "render_term 0 ff d counts sizes hint i allow indent ctx = Panic"
| "render_term (Suc n) ff d counts sizes hint i allow indent ctx =
     (case rc_bindings ctx i of
        Some s \<Rightarrow> Ok (rendered_symbol s, ctx)
      | None \<Rightarrow>
          (case dag_get d i of
             None \<Rightarrow> Panic
           | Some (TApp f cs) \<Rightarrow>
               bind_o (map_out (\<lambda>c ctx. render_term n ff d counts sizes hint c True
                                  (indent + PRETTY_INDENT_STEP) ctx) cs ctx)
                 (\<lambda>(rs, ctx1). Ok (finish_render counts sizes hint i allow f (render_app f rs indent) ctx1))
           | Some (TLit l) \<Rightarrow>
               Ok (finish_render counts sizes hint i allow ''t'' (rendered_symbol (lit_to_string ff l)) ctx)
           | Some (TVar v) \<Rightarrow>
               Ok (finish_render counts sizes hint i allow ''t'' (rendered_symbol v) ctx)))"

definition to_string_with_let_internal ::
    "(64 word \<Rightarrow> string) \<Rightarrow> termdag \<Rightarrow> symbol_gen \<Rightarrow> nat \<Rightarrow> string \<Rightarrow> (string \<Rightarrow> string)
     \<Rightarrow> (unit, string \<times> symbol_gen \<times> string) outcome" where
  "to_string_with_let_internal ff d g i buf hint =
     bind_o (collect_term_stats d i) (\<lambda>(counts, sizes).
     bind_o (render_term (Suc (dag_size d)) ff d counts sizes hint i False 0
              \<lparr>rc_fresh = g, rc_bindings = Map.empty, rc_buf = buf\<rparr>)
       (\<lambda>(r, ctx). Ok (pretty r, rc_fresh ctx, rc_buf ctx)))"

definition to_string_with_let_and_hint ::
    "(64 word \<Rightarrow> string) \<Rightarrow> termdag \<Rightarrow> symbol_gen \<Rightarrow> nat \<Rightarrow> string
     \<Rightarrow> (unit, string \<times> symbol_gen) outcome" where
  "to_string_with_let_and_hint ff d g i hint =
     bind_o (to_string_with_let_internal ff d g i [] (\<lambda>_. hint))
       (\<lambda>(s, g', buf). Ok (buf @ [newline] @ s, g'))"

definition to_string_with_let ::
    "(64 word \<Rightarrow> string) \<Rightarrow> termdag \<Rightarrow> symbol_gen \<Rightarrow> nat \<Rightarrow> (unit, string \<times> symbol_gen) outcome" where
  "to_string_with_let ff d g i = to_string_with_let_and_hint ff d g i ''t''"

section \<open>Sizes are tree sizes\<close>

fun tm_size :: "tm \<Rightarrow> nat" where
  "tm_size (GApp f ts) = 1 + sum_list (map (\<lambda>t. tm_size t) ts)"
| "tm_size _ = 1"

definition sizes_ok :: "termdag \<Rightarrow> (nat \<rightharpoonup> nat) \<Rightarrow> bool" where
  "sizes_ok d m \<longleftrightarrow> (\<forall>i s. m i = Some s \<longrightarrow> s = tm_size (tree d i))"

lemma sizes_ok_upd: "sizes_ok d m \<Longrightarrow> s = tm_size (tree d i) \<Longrightarrow> sizes_ok d (m(i \<mapsto> s))"
  by (simp add: sizes_ok_def)

lemma map_out_sizes:
  assumes "\<And>c m. c \<in> set cs \<Longrightarrow> sizes_ok d m \<Longrightarrow>
      \<exists>m'. f c m = Ok (tm_size (tree d c), m') \<and> sizes_ok d m'"
    and "sizes_ok d m"
  shows "\<exists>m'. map_out f cs m = Ok (map (\<lambda>c. tm_size (tree d c)) cs, m') \<and> sizes_ok d m'"
  using assms
proof (induction cs arbitrary: m)
  case (Cons c cs)
  then obtain m1 where m1: "f c m = Ok (tm_size (tree d c), m1)" "sizes_ok d m1"
    by (meson list.set_intros(1))
  with Cons.IH [OF _ m1(2)] Cons.prems(1) obtain m2 where
    "map_out f cs m1 = Ok (map (\<lambda>c. tm_size (tree d c)) cs, m2)" "sizes_ok d m2"
    by (meson list.set_intros(2))
  with m1 show ?case by simp
qed simp

lemma compute_term_size_spec:
  "wf_dag d \<Longrightarrow> i < length (nodes d) \<Longrightarrow> i < n \<Longrightarrow> sizes_ok d m \<Longrightarrow>
    \<exists>m'. compute_term_size n d i m = Ok (tm_size (tree d i), m') \<and> sizes_ok d m'"
proof (induction n arbitrary: i m)
  case (Suc n)
  show ?case
  proof (cases "m i")
    case (Some s)
    with Suc.prems(4) show ?thesis by (auto simp: sizes_ok_def)
  next
    case None
    show ?thesis
    proof (cases "nodes d ! i")
      case (TApp f cs)
      have "\<exists>m'. map_out (\<lambda>c m. compute_term_size n d c m) cs m
          = Ok (map (\<lambda>c. tm_size (tree d c)) cs, m') \<and> sizes_ok d m'"
      proof (rule map_out_sizes [OF _ Suc.prems(4)])
        fix c m
        assume c: "c \<in> set cs" "sizes_ok d m"
        have "c < length (nodes d)" "c < n"
          using wf_kids [OF Suc.prems(1,2) TApp c(1)] Suc.prems(2,3) by simp_all
        from Suc.IH [OF Suc.prems(1) this c(2)]
        show "\<exists>m'. compute_term_size n d c m = Ok (tm_size (tree d c), m') \<and> sizes_ok d m'" .
      qed
      moreover have "tm_size (tree d i) = 1 + sum_list (map (\<lambda>c. tm_size (tree d c)) cs)"
        using TApp Suc.prems by (simp add: tree_app comp_def)
      ultimately show ?thesis
        using TApp None Suc.prems by (auto simp: dag_get_def intro!: sizes_ok_upd)
    qed (use None Suc.prems in \<open>auto simp: dag_get_def tree_node intro!: sizes_ok_upd\<close>)
  qed
qed simp

section \<open>Rendering a term without shared subterms\<close>

text \<open>
  Where no node is bound, the renderer leaves its context alone and the inline text is
  the text of the tree; the pretty text differs only when a line would be too long.
\<close>

lemma render_unshared:
  assumes "wf_dag d" "\<And>k. k < length (nodes d) \<Longrightarrow> \<not> should_bind counts sizes k True"
    and "rc_bindings ctx = Map.empty"
  shows "i < length (nodes d) \<Longrightarrow> i < n \<Longrightarrow>
    \<exists>p. render_term n ff d counts sizes hint i allow indent ctx
        = Ok (\<lparr>inline = tm_to_string ff (tree d i), pretty = p\<rparr>, ctx)"
proof (induction n arbitrary: i allow indent)
  case (Suc n)
  have nb: "\<not> should_bind counts sizes i allow"
    using assms(2) [OF Suc.prems(1)] by (simp add: should_bind_def)
  show ?case
  proof (cases "nodes d ! i")
    case (TApp f cs)
    let ?g = "\<lambda>c. SOME r. inline r = tm_to_string ff (tree d c) \<and>
      render_term n ff d counts sizes hint c True (indent + PRETTY_INDENT_STEP) ctx = Ok (r, ctx)"
    have g: "inline (?g c) = tm_to_string ff (tree d c) \<and>
      render_term n ff d counts sizes hint c True (indent + PRETTY_INDENT_STEP) ctx = Ok (?g c, ctx)"
      if "c \<in> set cs" for c
    proof (rule someI_ex)
      have "c < length (nodes d)" "c < n"
        using wf_kids [OF assms(1) Suc.prems(1) TApp that] Suc.prems by simp_all
      from Suc.IH [OF this, of True "indent + PRETTY_INDENT_STEP"]
      show "\<exists>r. inline r = tm_to_string ff (tree d c) \<and>
        render_term n ff d counts sizes hint c True (indent + PRETTY_INDENT_STEP) ctx = Ok (r, ctx)"
        by force
    qed
    then have "map_out (\<lambda>c ctx. render_term n ff d counts sizes hint c True
        (indent + PRETTY_INDENT_STEP) ctx) cs ctx = Ok (map ?g cs, ctx)"
      by (intro map_out_pure_at) blast
    moreover have "inline (render_app f (map ?g cs) indent) = tm_to_string ff (tree d i)"
      using TApp assms(1) Suc.prems g
      by (simp add: render_app_def Let_def tree_app comp_def cong: map_cong)
    ultimately show ?thesis
      using TApp Suc.prems assms(3) nb
      by (intro exI [of _ "pretty (render_app f (map ?g cs) indent)"])
        (simp add: dag_get_def finish_render_def)
  qed (use nb assms(3) Suc.prems in \<open>simp_all add: dag_get_def finish_render_def rendered_symbol_def tree_node\<close>)
qed simp

section \<open>Properties\<close>

text \<open>
  The cached size computation returns the number of nodes of the tree a node stands
  for, with fuel one above the id, however much of the cache is already filled.
\<close>

theorem term_size_is_tree_size:
  assumes "wf_dag d" "i < length (nodes d)" "i < n" "sizes_ok d m"
  shows "\<exists>m'. compute_term_size n d i m = Ok (tm_size (tree d i), m') \<and> sizes_ok d m'"
  by (rule compute_term_size_spec [OF assms])

theorem term_size_is_tree_size_witness:
  "\<exists>m'. compute_term_size 2 \<lparr>nodes = [TVar ''x'', TApp ''f'' [0, 0]]\<rparr> 1 Map.empty
      = Ok (tm_size (tree \<lparr>nodes = [TVar ''x'', TApp ''f'' [0, 0]]\<rparr> 1), m')
    \<and> sizes_ok \<lparr>nodes = [TVar ''x'', TApp ''f'' [0, 0]]\<rparr> m'"
  by (rule term_size_is_tree_size) (auto simp: wf_dag_def sizes_ok_def nth_Cons split: nat.split)

text \<open>
  Where no subterm is large and repeated enough to be bound, the let-printer binds
  nothing, leaves its context alone, and its inline text is the text of the tree.
\<close>

theorem let_printer_without_sharing:
  assumes "wf_dag d" "i < length (nodes d)" "i < n" "rc_bindings ctx = Map.empty"
    and "\<And>k. k < length (nodes d) \<Longrightarrow> \<not> should_bind counts sizes k True"
  shows "\<exists>p. render_term n ff d counts sizes hint i allow indent ctx
    = Ok (\<lparr>inline = tm_to_string ff (tree d i), pretty = p\<rparr>, ctx)"
  by (rule render_unshared [OF assms(1,5,4,2,3)])

theorem let_printer_without_sharing_witness:
  "\<exists>p. render_term 2 (\<lambda>_. ''1.0'') \<lparr>nodes = [TVar ''x'', TApp ''f'' [0, 0]]\<rparr> Map.empty Map.empty (\<lambda>c. c) 1 True 0
      \<lparr>rc_fresh = sg_new ''t'', rc_bindings = Map.empty, rc_buf = []\<rparr>
    = Ok (\<lparr>inline = tm_to_string (\<lambda>_. ''1.0'') (tree \<lparr>nodes = [TVar ''x'', TApp ''f'' [0, 0]]\<rparr> 1), pretty = p\<rparr>,
      \<lparr>rc_fresh = sg_new ''t'', rc_bindings = Map.empty, rc_buf = []\<rparr>)"
  by (rule let_printer_without_sharing) (auto simp: wf_dag_def should_bind_def nth_Cons split: nat.split)

end
