(* ===== verification/Resolved_Ast.thy ===== *)
theory Resolved_Ast
  imports Ast_Traversal Symbol_Gen
begin

text \<open>
  The resolved program: sorts and function types (\<open>src/typechecking.rs\<close>), resolved
  calls and variables (\<open>src/core.rs\<close>, \<open>src/ast/expr.rs\<close>), declarations, schedules
  and normalized commands with their traversals (\<open>src/ast/mod.rs\<close>).
\<close>

section \<open>Sorts, function types, calls, variables\<close>

text \<open>An \<open>ArcSort\<close> is asked for its name and whether it is an equality sort.\<close>

record sort =
  sort_name :: string
  sort_is_eq :: bool

datatype function_subtype = Constructor | Custom

record func_type =
  ft_name :: string
  ft_subtype :: function_subtype
  ft_input :: "sort list"
  ft_output :: sort
  ft_extra_outputs :: "sort list"

definition ft_outputs :: "func_type \<Rightarrow> sort list" where
  "ft_outputs f = ft_output f # ft_extra_outputs f"

definition ft_num_outputs :: "func_type \<Rightarrow> nat" where
  "ft_num_outputs f = 1 + length (ft_extra_outputs f)"

definition ft_is_tuple_output :: "func_type \<Rightarrow> bool" where
  "ft_is_tuple_output f \<longleftrightarrow> ft_extra_outputs f \<noteq> []"

text \<open>Equality of function types looks at sort names only.\<close>

definition ft_eq :: "func_type \<Rightarrow> func_type \<Rightarrow> bool" where
  "ft_eq a b \<longleftrightarrow>
     (if ft_name a = ft_name b \<and> ft_subtype a = ft_subtype b
         \<and> ft_num_outputs a = ft_num_outputs b
         \<and> list_all (\<lambda>(x, y). sort_name x = sort_name y) (zip (ft_outputs a) (ft_outputs b))
      then (if length (ft_input a) \<noteq> length (ft_input b) then False
            else list_all (\<lambda>(x, y). sort_name x = sort_name y) (zip (ft_input a) (ft_input b)))
      else False)"

text \<open>
  A specialized primitive: the registration (its name and the entry points per context)
  and the concrete sorts it was resolved at.
\<close>

record prim =
  prim_name :: string
  prim_ids :: "nat option list"
  prim_input :: "sort list"
  prim_output :: sort

definition prim_eq :: "prim \<Rightarrow> prim \<Rightarrow> bool" where
  "prim_eq a b \<longleftrightarrow>
     prim_ids a = prim_ids b \<and> sort_name (prim_output a) = sort_name (prim_output b)
     \<and> length (prim_input a) = length (prim_input b)
     \<and> list_all (\<lambda>(x, y). sort_name x = sort_name y) (zip (prim_input a) (prim_input b))"

datatype resolved_call = RFunc func_type | RPrim prim | RValues "sort list"

fun rcall_eq :: "resolved_call \<Rightarrow> resolved_call \<Rightarrow> bool" where
  "rcall_eq (RFunc a) (RFunc b) = ft_eq a b"
| "rcall_eq (RPrim a) (RPrim b) = prim_eq a b"
| "rcall_eq (RValues a) (RValues b) =
     (length a = length b \<and> list_all (\<lambda>(x, y). sort_name x = sort_name y) (zip a b))"
| "rcall_eq _ _ = False"

fun rcall_name :: "resolved_call \<Rightarrow> string" where
  "rcall_name (RFunc f) = ft_name f"
| "rcall_name (RPrim p) = prim_name p"
| "rcall_name (RValues _) = ''values''"

text \<open>\<open>None\<close>: indexing the empty sort list of a \<open>values\<close> panics.\<close>

fun rcall_output :: "resolved_call \<Rightarrow> sort option" where
  "rcall_output (RFunc f) = Some (ft_output f)"
| "rcall_output (RPrim p) = Some (prim_output p)"
| "rcall_output (RValues ss) = (case ss of [] \<Rightarrow> None | s # _ \<Rightarrow> Some s)"

fun rcall_view_types :: "resolved_call \<Rightarrow> sort list" where
  "rcall_view_types (RFunc f) = ft_input f @ [ft_output f]"
| "rcall_view_types (RPrim p) = prim_input p"
| "rcall_view_types (RValues ss) = ss"

fun rcall_is_values :: "resolved_call \<Rightarrow> bool" where
  "rcall_is_values (RValues _) = True"
| "rcall_is_values _ = False"

fun rcall_tuple_output_arity :: "resolved_call \<Rightarrow> nat option" where
  "rcall_tuple_output_arity (RFunc f) = (if ft_is_tuple_output f then Some (ft_num_outputs f) else None)"
| "rcall_tuple_output_arity _ = None"

record resolved_var =
  rv_name :: string
  rv_sort :: sort
  rv_is_global_ref :: bool

definition rvar_eq :: "resolved_var \<Rightarrow> resolved_var \<Rightarrow> bool" where
  "rvar_eq a b \<longleftrightarrow> rv_name a = rv_name b \<and> sort_name (rv_sort a) = sort_name (rv_sort b)"

type_synonym rexpr = "(resolved_call, resolved_var) expr"
type_synonym rfact = "(resolved_call, resolved_var) fact"
type_synonym raction = "(resolved_call, resolved_var) action"
type_synonym rrule = "(resolved_call, resolved_var) rule"

fun lit_sort :: "literal \<Rightarrow> sort" where
  "lit_sort (LInt _) = \<lparr>sort_name = ''i64'', sort_is_eq = False\<rparr>"
| "lit_sort (LFloat _) = \<lparr>sort_name = ''f64'', sort_is_eq = False\<rparr>"
| "lit_sort (LString _) = \<lparr>sort_name = ''String'', sort_is_eq = False\<rparr>"
| "lit_sort (LBool _) = \<lparr>sort_name = ''bool'', sort_is_eq = False\<rparr>"
| "lit_sort LUnit = \<lparr>sort_name = ''Unit'', sort_is_eq = False\<rparr>"

fun rexpr_output_type :: "rexpr \<Rightarrow> sort option" where
  "rexpr_output_type (ELit _ l) = Some (lit_sort l)"
| "rexpr_output_type (EVar _ v) = Some (rv_sort v)"
| "rexpr_output_type (ECall _ h _) = rcall_output h"

fun rexpr_get_global_var :: "rexpr \<Rightarrow> resolved_var option" where
  "rexpr_get_global_var (EVar _ v) = (if rv_is_global_ref v then Some v else None)"
| "rexpr_get_global_var _ = None"

text \<open>\<open>FreshGen<ResolvedCall, ResolvedVar>\<close>: a fresh variable of the call's output sort.\<close>

definition sg_fresh_var :: "resolved_call \<Rightarrow> symbol_gen \<Rightarrow> (resolved_var \<times> symbol_gen) option" where
  "sg_fresh_var h g =
     (let (n, g') = sg_fresh (rcall_name h) g in
      map_option (\<lambda>s. (\<lparr>rv_name = n, rv_sort = s, rv_is_global_ref = False\<rparr>, g')) (rcall_output h))"

section \<open>Declarations and schedules\<close>

datatype function_impl = Default_Impl | Displaced_Union_Find "string option" "string option"

definition impl_is_uf :: "function_impl \<Rightarrow> bool" where
  "impl_is_uf k = (case k of Displaced_Union_Find _ _ \<Rightarrow> True | Default_Impl \<Rightarrow> False)"

record schema =
  sch_input :: "string list"
  sch_output :: string
  sch_extra_outputs :: "string list"

definition schema_new :: "string list \<Rightarrow> string \<Rightarrow> schema" where
  "schema_new i out = \<lparr>sch_input = i, sch_output = out, sch_extra_outputs = []\<rparr>"

fun schema_new_tuple :: "string list \<Rightarrow> string list \<Rightarrow> schema option" where
  "schema_new_tuple i [] = None"
| "schema_new_tuple i (x # xs) = Some \<lparr>sch_input = i, sch_output = x, sch_extra_outputs = xs\<rparr>"

definition schema_outputs :: "schema \<Rightarrow> string list" where
  "schema_outputs s = sch_output s # sch_extra_outputs s"

definition schema_num_outputs :: "schema \<Rightarrow> nat" where
  "schema_num_outputs s = 1 + length (sch_extra_outputs s)"

definition schema_is_tuple_output :: "schema \<Rightarrow> bool" where
  "schema_is_tuple_output s \<longleftrightarrow> sch_extra_outputs s \<noteq> []"

record ('h, 'l) function_decl =
  fd_name :: string
  fd_subtype :: function_subtype
  fd_impl_kind :: function_impl
  fd_schema :: schema
  fd_resolved_schema :: 'h
  fd_merge :: "('h, 'l) expr option"
  fd_cost :: "u64 option"
  fd_unextractable :: bool
  fd_internal_hidden :: bool
  fd_internal_let :: bool
  fd_span :: span
  fd_term_constructor :: "string option"

definition decl_function ::
    "span \<Rightarrow> string \<Rightarrow> schema \<Rightarrow> (string, string) expr option \<Rightarrow> function_impl
     \<Rightarrow> (string, string) function_decl" where
  "decl_function sp name sch merge impl =
     \<lparr>fd_name = name, fd_subtype = Custom, fd_impl_kind = impl, fd_schema = sch,
      fd_resolved_schema = [], fd_merge = merge, fd_cost = None, fd_unextractable = True,
      fd_internal_hidden = False, fd_internal_let = False, fd_span = sp, fd_term_constructor = None\<rparr>"

definition decl_constructor ::
    "span \<Rightarrow> string \<Rightarrow> schema \<Rightarrow> u64 option \<Rightarrow> bool \<Rightarrow> bool \<Rightarrow> (string, string) function_decl" where
  "decl_constructor sp name sch cost unext hidden =
     \<lparr>fd_name = name, fd_subtype = Constructor, fd_impl_kind = Default_Impl, fd_schema = sch,
      fd_resolved_schema = [], fd_merge = None, fd_cost = cost, fd_unextractable = unext,
      fd_internal_hidden = hidden, fd_internal_let = False, fd_span = sp, fd_term_constructor = None\<rparr>"

definition opt_visit :: "('a \<Rightarrow> 's \<Rightarrow> 'b \<times> 's) \<Rightarrow> 'a option \<Rightarrow> 's \<Rightarrow> 'b option \<times> 's" where
  "opt_visit f x s = (case x of None \<Rightarrow> (None, s) | Some a \<Rightarrow> (let (b, s1) = f a s in (Some b, s1)))"

definition decl_visit_exprs ::
    "(('h, 'l) expr \<Rightarrow> 's \<Rightarrow> ('h, 'l) expr \<times> 's) \<Rightarrow> ('h, 'l) function_decl \<Rightarrow> 's
     \<Rightarrow> ('h, 'l) function_decl \<times> 's" where
  "decl_visit_exprs f fd s =
     (let (m, s1) = opt_visit (expr_visit f) (fd_merge fd) s in (fd\<lparr>fd_merge := m\<rparr>, s1))"

record ('h, 'l) run_config =
  rc_ruleset :: string
  rc_until :: "('h, 'l) fact list option"

datatype ('h, 'l) schedule =
    Saturate span "('h, 'l) schedule"
  | Repeat span nat "('h, 'l) schedule"
  | Run span "('h, 'l) run_config"
  | Sequence span "('h, 'l) schedule list"

definition run_config_visit_exprs ::
    "(('h, 'l) expr \<Rightarrow> 's \<Rightarrow> ('h, 'l) expr \<times> 's) \<Rightarrow> ('h, 'l) run_config \<Rightarrow> 's \<Rightarrow> ('h, 'l) run_config \<times> 's"
where
  "run_config_visit_exprs f rc s =
     (let (u, s1) = opt_visit (map_st (fact_visit_exprs f)) (rc_until rc) s in (rc\<lparr>rc_until := u\<rparr>, s1))"

fun schedule_visit_queries ::
    "(('h, 'l) fact list \<Rightarrow> 's \<Rightarrow> ('h, 'l) fact list \<times> 's) \<Rightarrow> ('h, 'l) schedule \<Rightarrow> 's
     \<Rightarrow> ('h, 'l) schedule \<times> 's" where
  "schedule_visit_queries f (Saturate sp x) s =
     (let (x', s1) = schedule_visit_queries f x s in (Saturate sp x', s1))"
| "schedule_visit_queries f (Repeat sp n x) s =
     (let (x', s1) = schedule_visit_queries f x s in (Repeat sp n x', s1))"
| "schedule_visit_queries f (Run sp rc) s =
     (let (u, s1) = opt_visit f (rc_until rc) s in (Run sp (rc\<lparr>rc_until := u\<rparr>), s1))"
| "schedule_visit_queries f (Sequence sp xs) s =
     (let (xs', s1) = map_st (\<lambda>x s. schedule_visit_queries f x s) xs s in (Sequence sp xs', s1))"

text \<open>
  \<open>flatten_sequences\<close>: nested sequences are spliced into their parent; a sequence of
  one schedule becomes that schedule.
\<close>

fun splice :: "('h, 'l) schedule \<Rightarrow> ('h, 'l) schedule list" where
  "splice (Sequence _ xs) = xs"
| "splice x = [x]"

fun flatten_sequences :: "('h, 'l) schedule \<Rightarrow> ('h, 'l) schedule" where
  "flatten_sequences (Saturate sp x) = Saturate sp (flatten_sequences x)"
| "flatten_sequences (Repeat sp n x) = Repeat sp n (flatten_sequences x)"
| "flatten_sequences (Run sp rc) = Run sp rc"
| "flatten_sequences (Sequence sp xs) =
     (let flat = concat (map (\<lambda>x. splice (flatten_sequences x)) xs)
      in (case flat of [x] \<Rightarrow> x | _ \<Rightarrow> Sequence sp flat))"

fun schedule_visit_exprs ::
    "(('h, 'l) expr \<Rightarrow> 's \<Rightarrow> ('h, 'l) expr \<times> 's) \<Rightarrow> ('h, 'l) schedule \<Rightarrow> 's \<Rightarrow> ('h, 'l) schedule \<times> 's"
where
  "schedule_visit_exprs f (Saturate sp x) s =
     (let (x', s1) = schedule_visit_exprs f x s in (Saturate sp x', s1))"
| "schedule_visit_exprs f (Repeat sp n x) s =
     (let (x', s1) = schedule_visit_exprs f x s in (Repeat sp n x', s1))"
| "schedule_visit_exprs f (Run sp rc) s =
     (let (rc', s1) = run_config_visit_exprs f rc s in (Run sp rc', s1))"
| "schedule_visit_exprs f (Sequence sp xs) s =
     (let (xs', s1) = map_st (\<lambda>x s. schedule_visit_exprs f x s) xs s in (Sequence sp xs', s1))"

section \<open>Normalized commands\<close>

datatype print_function_mode = Print_Default | Print_CSV

datatype ('h, 'l) ncommand =
    NSort span string "(string \<times> (string, string) expr list) option" "string option"
      "string option" "(string \<times> string \<times> string) option" bool
  | NFunction "('h, 'l) function_decl"
  | NAddRuleset span string
  | NUnstableCombinedRuleset span string "string list"
  | NNormRule "('h, 'l) rule"
  | NCoreAction "('h, 'l) action"
  | NExtract span "('h, 'l) expr" "('h, 'l) expr"
  | NRunSchedule "('h, 'l) schedule"
  | NPrintOverallStatistics span "string option"
  | NCheck span "('h, 'l) fact list"
  | NPrintFunction span string "nat option" "string option" print_function_mode
  | NProveExists span 'h
  | NPrintSize span "string option"
  | NOutput span string "('h, 'l) expr list"
  | NPush nat
  | NPop span nat
  | NFail span "('h, 'l) ncommand"
  | NInput span string string
  | NUserDefined span string "(string, string) expr list"

type_synonym rncommand = "(resolved_call, resolved_var) ncommand"

fun ncommand_visit_queries ::
    "(('h, 'l) fact list \<Rightarrow> 's \<Rightarrow> ('h, 'l) fact list \<times> 's) \<Rightarrow> ('h, 'l) ncommand \<Rightarrow> 's
     \<Rightarrow> ('h, 'l) ncommand \<times> 's" where
  "ncommand_visit_queries f (NCheck sp q) s = (let (q', s1) = f q s in (NCheck sp q', s1))"
| "ncommand_visit_queries f (NNormRule r) s =
     (let (b, s1) = f (rule_body r) s in (NNormRule (r\<lparr>rule_body := b\<rparr>), s1))"
| "ncommand_visit_queries f (NRunSchedule x) s =
     (let (x', s1) = schedule_visit_queries f x s in (NRunSchedule x', s1))"
| "ncommand_visit_queries f (NFail sp c) s =
     (let (c', s1) = ncommand_visit_queries f c s in (NFail sp c', s1))"
| "ncommand_visit_queries f c s = (c, s)"

text \<open>
  \<open>visit_exprs\<close> rewrites every expression bottom-up, with one exception the code has:
  the expressions of an \<open>output\<close> command are passed to the closure as they are,
  without visiting their subexpressions.
\<close>

fun ncommand_visit_exprs ::
    "(('h, 'l) expr \<Rightarrow> 's \<Rightarrow> ('h, 'l) expr \<times> 's) \<Rightarrow> ('h, 'l) ncommand \<Rightarrow> 's \<Rightarrow> ('h, 'l) ncommand \<times> 's"
where
  "ncommand_visit_exprs f (NFunction fd) s =
     (let (fd', s1) = decl_visit_exprs f fd s in (NFunction fd', s1))"
| "ncommand_visit_exprs f (NNormRule r) s =
     (let (r', s1) = rule_visit_exprs f r s in (NNormRule r', s1))"
| "ncommand_visit_exprs f (NRunSchedule x) s =
     (let (x', s1) = schedule_visit_exprs f x s in (NRunSchedule x', s1))"
| "ncommand_visit_exprs f (NCoreAction a) s =
     (let (a', s1) = action_visit_exprs f a s in (NCoreAction a', s1))"
| "ncommand_visit_exprs f (NExtract sp e v) s =
     (let (e', s1) = expr_visit f e s; (v', s2) = expr_visit f v s1 in (NExtract sp e' v', s2))"
| "ncommand_visit_exprs f (NCheck sp fs) s =
     (let (fs', s1) = map_st (fact_visit_exprs f) fs s in (NCheck sp fs', s1))"
| "ncommand_visit_exprs f (NOutput sp file es) s =
     (let (es', s1) = map_st f es s in (NOutput sp file es', s1))"
| "ncommand_visit_exprs f (NFail sp c) s =
     (let (c', s1) = ncommand_visit_exprs f c s in (NFail sp c', s1))"
| "ncommand_visit_exprs f c s = (c, s)"

end
