(* ===== verification/Proof_Eval.thy ===== *)
theory Proof_Eval
  imports Resolved_Ast Term_Dag
begin

text \<open>
  \<open>src/proofs/proof_checker.rs\<close>, first half: evaluating resolved expressions and actions
  to terms and to the equalities they establish. Every function is given the validators
  of the primitives (\<open>PrimitiveValidator\<close>, closures held by the registered primitives):
  \<open>V p = None\<close> where \<open>p\<close> has no validator; \<open>v d args = None\<close> where the validator panics.
\<close>

section \<open>Propositions and errors\<close>

record propn =
  p_lhs :: nat
  p_rhs :: nat

definition mk_prop :: "nat \<Rightarrow> nat \<Rightarrow> propn" where
  "mk_prop l r = \<lparr>p_lhs = l, p_rhs = r\<rparr>"

lemma mk_prop_sel [simp]: "p_lhs (mk_prop l r) = l" "p_rhs (mk_prop l r) = r"
  by (simp_all add: mk_prop_def)

lemma mk_prop_eta [simp]: "mk_prop (p_lhs p) (p_rhs p) = p"
  by (simp add: mk_prop_def)

lemma mk_prop_inject [simp]: "mk_prop a b = mk_prop c d \<longleftrightarrow> a = c \<and> b = d"
  by (auto simp: mk_prop_def)

text \<open>
  The error kinds with their ids and names; the rendered terms some of them carry for
  display are left out.
\<close>

datatype check_error =
    TermMismatch nat nat nat nat nat
  | TransitivityMismatch nat nat nat
  | CongruenceBaseNotApp nat
  | CongruenceChildIndexOutOfBounds nat nat nat
  | CongruenceChildMismatch nat nat nat nat
  | CongruenceResultMismatch nat nat nat
  | CongruenceLhsMismatch nat
  | RulePremiseCountMismatch nat string nat nat
  | UnboundVariable string string
  | FunctionFactMismatch string nat nat nat
  | EqualityFactMismatch string nat nat nat nat
  | FactMismatch string nat nat
  | RuleHeadMismatch string nat nat
  | PrimitiveValidatorFailed string
  | PrimitiveNoValidator string
  | RuleNotFound string
  | FunctionNotFound string
  | InvalidFiat nat nat nat
  | MergeFnFunctionMismatch nat string string
  | MergeFnEmptyArgs nat string
  | MergeFnInputMismatch nat
  | MergeFnNotApp nat nat nat
  | MergeFnResultMismatch nat nat nat
  | MergeFnNotReflexive nat string nat nat
  | DuplicateRuleName string

type_synonym validator = "termdag \<Rightarrow> nat list \<Rightarrow> (nat option \<times> termdag) option"
type_synonym validators = "prim \<Rightarrow> validator option"
type_synonym bindings = "string \<rightharpoonup> nat"

section \<open>Reflexive equalities of the subterms\<close>

text \<open>
  The recursion goes down the term; ids of children are smaller, so fuel one above the
  id is enough. Running out of fuel stands for the stack overflow of a cyclic term.
\<close>

fun add_subterm_refl :: "nat \<Rightarrow> termdag \<Rightarrow> nat \<Rightarrow> propn set \<Rightarrow> ('e, propn set) outcome" where
  "add_subterm_refl 0 d i P = Panic"
| "add_subterm_refl (Suc n) d i P =
     (case dag_get d i of
        None \<Rightarrow> Panic
      | Some (TApp f cs) \<Rightarrow> fold_out (\<lambda>c P. add_subterm_refl n d c P) cs (insert (mk_prop i i) P)
      | Some _ \<Rightarrow> Ok (insert (mk_prop i i) P))"

definition add_subterm_reflexive_equalities ::
    "nat \<Rightarrow> termdag \<Rightarrow> propn set \<Rightarrow> ('e, propn set) outcome" where
  "add_subterm_reflexive_equalities i d P = add_subterm_refl (Suc (dag_size d)) d i P"

section \<open>Expressions\<close>

text \<open>The validator call: a panic, a failed validation, or the id of the result.\<close>

definition run_validator ::
    "validator \<Rightarrow> prim \<Rightarrow> nat list \<Rightarrow> termdag \<Rightarrow> (check_error, nat \<times> termdag) outcome" where
  "run_validator v p args d =
     (case v d args of
        None \<Rightarrow> Panic
      | Some (None, d1) \<Rightarrow> Err (PrimitiveValidatorFailed (prim_name p))
      | Some (Some i, d1) \<Rightarrow> Ok (i, d1))"

definition finish_eval ::
    "nat \<Rightarrow> propn set \<Rightarrow> termdag \<Rightarrow> (check_error, (nat \<times> propn set) \<times> termdag) outcome" where
  "finish_eval i P d = bind_o (add_subterm_reflexive_equalities i d P) (\<lambda>P1. Ok ((i, P1), d))"

fun eval_props ::
    "validators \<Rightarrow> string \<Rightarrow> rexpr \<Rightarrow> bindings \<Rightarrow> termdag
     \<Rightarrow> (check_error, (nat \<times> propn set) \<times> termdag) outcome" where
  "eval_props V rname (ELit sp l) sub d = (let (i, d1) = dag_lit l d in finish_eval i {} d1)"
| "eval_props V rname (EVar sp v) sub d =
     bind_o (opt_o (Err (UnboundVariable rname (rv_name v))) (sub (rv_name v)))
       (\<lambda>i. finish_eval i {} d)"
| "eval_props V rname (ECall sp h args) sub d =
     (case h of
        RValues ss \<Rightarrow> Panic
      | RFunc f \<Rightarrow>
          bind_o (map_out (\<lambda>a d. eval_props V rname a sub d) args d)
            (\<lambda>(rs, d1). let (i, d2) = dag_app (ft_name f) (map fst rs) d1
                         in finish_eval i (\<Union> (set (map snd rs))) d2)
      | RPrim p \<Rightarrow>
          bind_o (map_out (\<lambda>a d. eval_props V rname a sub d) args d)
            (\<lambda>(rs, d1). bind_o (opt_o Panic (V p))
            (\<lambda>v. bind_o (run_validator v p (map fst rs) d1)
            (\<lambda>(i, d2). finish_eval i (\<Union> (set (map snd rs))) d2))))"

section \<open>Actions\<close>

record action_context =
  ac_bindings :: bindings
  ac_props :: "propn set"

fun process_action ::
    "validators \<Rightarrow> string \<Rightarrow> raction \<Rightarrow> action_context \<times> termdag
     \<Rightarrow> (check_error, action_context \<times> termdag) outcome" where
  "process_action V rname (ALet sp v e) (c, d) =
     bind_o (eval_props V rname e (ac_bindings c) d) (\<lambda>((i, P), d1).
       Ok (c\<lparr>ac_bindings := (ac_bindings c)(rv_name v \<mapsto> i), ac_props := ac_props c \<union> P\<rparr>, d1))"
| "process_action V rname (AUnion sp l r) (c, d) =
     bind_o (eval_props V rname l (ac_bindings c) d) (\<lambda>((i, P), d1).
     bind_o (eval_props V rname r (ac_bindings c) d1) (\<lambda>((j, Q), d2).
       Ok (c\<lparr>ac_props := insert (mk_prop j i) (insert (mk_prop i j) (ac_props c \<union> P \<union> Q))\<rparr>, d2)))"
| "process_action V rname (ASet sp f args rhs) (c, d) =
     bind_o (eval_props V rname (ECall Span_Panic f (args @ [rhs])) (ac_bindings c) d) (\<lambda>((i, P), d1).
       Ok (c\<lparr>ac_props := ac_props c \<union> P\<rparr>, d1))"
| "process_action V rname (AExpr sp e) (c, d) =
     bind_o (eval_props V rname e (ac_bindings c) d) (\<lambda>((i, P), d1).
       Ok (c\<lparr>ac_props := ac_props c \<union> P\<rparr>, d1))"
| "process_action V rname (APanic sp m) (c, d) = Ok (c, d)"
| "process_action V rname (AChange sp k f args) (c, d) = Ok (c, d)"

definition process_actions ::
    "validators \<Rightarrow> string \<Rightarrow> bindings \<Rightarrow> raction list \<Rightarrow> termdag
     \<Rightarrow> (check_error, action_context \<times> termdag) outcome" where
  "process_actions V rname b as d =
     fold_out (process_action V rname) as (\<lparr>ac_bindings = b, ac_props = {}\<rparr>, d)"

section \<open>Globals and merge functions\<close>

fun core_action :: "rncommand \<Rightarrow> raction option" where
  "core_action (NCoreAction a) = Some a"
| "core_action _ = None"

definition gather_global_actions :: "rncommand list \<Rightarrow> raction list" where
  "gather_global_actions prog = List.map_filter core_action prog"

definition gather_globals ::
    "validators \<Rightarrow> rncommand list \<Rightarrow> termdag \<Rightarrow> (check_error, bindings \<times> termdag) outcome" where
  "gather_globals V prog d =
     bind_o (process_actions V ''global_action'' Map.empty (gather_global_actions prog) d)
       (\<lambda>(c, d1). Ok (ac_bindings c, d1))"

fun named_function :: "string \<Rightarrow> rncommand \<Rightarrow> (resolved_call, resolved_var) function_decl option" where
  "named_function name (NFunction fd) = (if fd_name fd = name then Some fd else None)"
| "named_function name _ = None"

definition run_merge ::
    "validators \<Rightarrow> termdag \<Rightarrow> string \<Rightarrow> rncommand list \<Rightarrow> nat \<Rightarrow> nat
     \<Rightarrow> (check_error, (nat \<times> propn set) \<times> termdag) outcome" where
  "run_merge V d fname prog old new =
     bind_o (opt_o (Err (FunctionNotFound fname)) (first_some (named_function fname) prog)) (\<lambda>fd.
     bind_o (opt_o (Err (FunctionNotFound fname)) (fd_merge fd)) (\<lambda>e.
       eval_props V ''merge_function'' e [''old'' \<mapsto> old, ''new'' \<mapsto> new] d))"

end
