(* ===== verification/Proof_Format.thy ===== *)
theory Proof_Format
  imports Proof_Eval Term_Pretty "HOL-Library.Sublist"
begin

text \<open>
  \<open>src/proofs/proof_format.rs\<close>: raw proofs as they are extracted from the e-graph, the
  proof store, the conversion that recovers propositions and rule substitutions, and
  the term a proof is printed as. Recursion over ids of proofs and terms is given fuel;
  the fuel used is one more than the number of nodes, and running out of it is the
  \<open>Panic\<close> of an exhausted stack.
\<close>

section \<open>Raw proofs\<close>

datatype raw_proof =
    RawFiat nat nat
  | RawRule string "nat list" nat nat
  | RawMergeFn string nat nat nat
  | RawTrans nat nat
  | RawSym nat
  | RawCongr nat nat nat

record raw_store =
  rs_dag :: termdag
  rs_store :: "raw_proof list"
  rs_term_to_proof :: "nat \<rightharpoonup> nat"
  rs_proof_to_term :: "nat \<rightharpoonup> nat"

definition parse_string :: "termdag \<Rightarrow> nat \<Rightarrow> ('e, string) outcome" where
  "parse_string d i = (case dag_get d i of Some (TLit (LString s)) \<Rightarrow> Ok s | _ \<Rightarrow> Panic)"

definition parse_index :: "termdag \<Rightarrow> nat \<Rightarrow> ('e, nat) outcome" where
  "parse_index d i =
     (case dag_get d i of Some (TLit (LInt n)) \<Rightarrow> (if 0 \<le> sint n then Ok (nat (sint n)) else Panic)
      | _ \<Rightarrow> Panic)"

definition raw_add_proof :: "raw_proof \<Rightarrow> raw_store \<Rightarrow> nat \<times> raw_store" where
  "raw_add_proof p s =
     (case index_of p (rs_store s) of
        Some i \<Rightarrow> (i, s)
      | None \<Rightarrow> (length (rs_store s), s\<lparr>rs_store := rs_store s @ [p]\<rparr>))"

definition unwrap_ast :: "termdag \<Rightarrow> nat \<Rightarrow> ('e, nat) outcome" where
  "unwrap_ast d i = (case dag_get d i of Some (TApp f [a]) \<Rightarrow> Ok a | _ \<Rightarrow> Panic)"

text \<open>
  \<open>parse_proof\<close> (the cache), \<open>parse_proof_inner\<close> (the constructors, told apart by a
  substring of the head, in the order of the code's tests) and \<open>parse_proof_list\<close>.
\<close>

definition remember_parsed :: "nat \<Rightarrow> nat \<times> raw_store \<Rightarrow> nat \<times> raw_store" where
  "remember_parsed t = (\<lambda>(p, s).
     (p, s\<lparr>rs_term_to_proof := (rs_term_to_proof s)(t \<mapsto> p),
            rs_proof_to_term := (rs_proof_to_term s)(p \<mapsto> t)\<rparr>))"

function (sequential) parse_proof :: "nat \<Rightarrow> nat \<Rightarrow> raw_store \<Rightarrow> ('e, nat \<times> raw_store) outcome"
  and parse_proof_inner :: "nat \<Rightarrow> nat \<Rightarrow> raw_store \<Rightarrow> ('e, nat \<times> raw_store) outcome"
  and parse_proof_list :: "nat \<Rightarrow> nat \<Rightarrow> raw_store \<Rightarrow> ('e, nat list \<times> raw_store) outcome" where
  "parse_proof 0 t s = Panic"
| "parse_proof (Suc n) t s =
     (case rs_term_to_proof s t of
        Some p \<Rightarrow> Ok (p, s)
      | None \<Rightarrow> bind_o (parse_proof_inner n t s) (\<lambda>r. Ok (remember_parsed t r)))"
| "parse_proof_inner 0 t s = Panic"
| "parse_proof_inner (Suc n) t s =
     (case dag_get (rs_dag s) t of
        Some (TApp h args) \<Rightarrow>
          if sublist ''Fiat'' h then
            (case args of [a, b] \<Rightarrow> Ok (raw_add_proof (RawFiat a b) s) | _ \<Rightarrow> Panic)
          else if sublist ''Rule'' h then
            (case args of [a, b, l, r] \<Rightarrow>
               bind_o (parse_string (rs_dag s) a) (\<lambda>name.
               bind_o (parse_proof_list n b s) (\<lambda>(ps, s1).
                 Ok (raw_add_proof (RawRule name ps l r) s1)))
             | _ \<Rightarrow> Panic)
          else if sublist ''Merge'' h then
            (case args of [a, b, c, t'] \<Rightarrow>
               bind_o (parse_string (rs_dag s) a) (\<lambda>name.
               bind_o (parse_proof n b s) (\<lambda>(old, s1).
               bind_o (parse_proof n c s1) (\<lambda>(new, s2).
                 Ok (raw_add_proof (RawMergeFn name old new t') s2))))
             | _ \<Rightarrow> Panic)
          else if sublist ''Trans'' h then
            (case args of [a, b] \<Rightarrow>
               bind_o (parse_proof n a s) (\<lambda>(l, s1).
               bind_o (parse_proof n b s1) (\<lambda>(r, s2). Ok (raw_add_proof (RawTrans l r) s2)))
             | _ \<Rightarrow> Panic)
          else if sublist ''Sym'' h then
            (case args of [a] \<Rightarrow>
               bind_o (parse_proof n a s) (\<lambda>(p, s1). Ok (raw_add_proof (RawSym p) s1))
             | _ \<Rightarrow> Panic)
          else if sublist ''Congr'' h then
            (case args of [a, b, c] \<Rightarrow>
               bind_o (parse_proof n a s) (\<lambda>(p, s1).
               bind_o (parse_index (rs_dag s1) b) (\<lambda>k.
               bind_o (parse_proof n c s1) (\<lambda>(q, s2). Ok (raw_add_proof (RawCongr p k q) s2))))
             | _ \<Rightarrow> Panic)
          else Panic
      | _ \<Rightarrow> Panic)"
| "parse_proof_list 0 t s = Panic"
| "parse_proof_list (Suc n) t s =
     (case dag_get (rs_dag s) t of
        Some (TApp h args) \<Rightarrow>
          if sublist ''PNil'' h then (case args of [] \<Rightarrow> Ok ([], s) | _ \<Rightarrow> Panic)
          else if sublist ''PCons'' h then
            (case args of [a, b] \<Rightarrow>
               bind_o (parse_proof n a s) (\<lambda>(p, s1).
               bind_o (parse_proof_list n b s1) (\<lambda>(ps, s2). Ok (p # ps, s2)))
             | _ \<Rightarrow> Panic)
          else Panic
      | _ \<Rightarrow> Panic)"
  by pat_completeness auto
termination
  by (relation "measure (\<lambda>x. case x of Inl (n, _) \<Rightarrow> n | Inr (Inl (n, _)) \<Rightarrow> n | Inr (Inr (n, _)) \<Rightarrow> n)") auto

text \<open>A proof and its term alternate, so twice the number of nodes bounds the depth.\<close>

definition raw_from_extracted :: "termdag \<Rightarrow> nat \<Rightarrow> ('e, raw_store \<times> nat) outcome" where
  "raw_from_extracted d t =
     bind_o (parse_proof (2 * Suc (dag_size d)) t
              \<lparr>rs_dag = d, rs_store = [], rs_term_to_proof = Map.empty, rs_proof_to_term = Map.empty\<rparr>)
       (\<lambda>(p, s). Ok (s, p))"

section \<open>The proof store\<close>

text \<open>
  The substitution of a rule step is a hash map; it is kept as an association list, in
  the order its entries are iterated in.
\<close>

datatype justification =
    JFiat
  | JRule string "nat list" "(string \<times> nat) list"
  | JMergeFn string nat nat
  | JTrans nat nat
  | JSym nat
  | JCongr nat nat nat

text \<open>The proofs a justification refers to.\<close>

fun just_children :: "justification \<Rightarrow> nat list" where
  "just_children JFiat = []"
| "just_children (JRule name pids sub) = pids"
| "just_children (JMergeFn f old new) = [old, new]"
| "just_children (JTrans a b) = [a, b]"
| "just_children (JSym a) = [a]"
| "just_children (JCongr a k b) = [a, b]"

record proof_node =
  pf_prop :: propn
  pf_just :: justification

record proof_store =
  ps_dag :: termdag
  ps_ids :: "raw_proof \<rightharpoonup> nat"
  ps_proofs :: "proof_node list"

text \<open>A store whose proofs refer to earlier proofs only.\<close>

definition acyclic_proofs :: "proof_node list \<Rightarrow> bool" where
  "acyclic_proofs ps \<longleftrightarrow> (\<forall>i < length ps. \<forall>j \<in> set (just_children (pf_just (ps ! i))). j < i)"

definition pf_lhs :: "proof_node \<Rightarrow> nat" where
  "pf_lhs p = p_lhs (pf_prop p)"

definition pf_rhs :: "proof_node \<Rightarrow> nat" where
  "pf_rhs p = p_rhs (pf_prop p)"

definition mk_proof :: "nat \<Rightarrow> nat \<Rightarrow> justification \<Rightarrow> proof_node" where
  "mk_proof l r j = \<lparr>pf_prop = mk_prop l r, pf_just = j\<rparr>"

definition ps_get :: "proof_store \<Rightarrow> nat \<Rightarrow> ('e, proof_node) outcome" where
  "ps_get s i = (if i < length (ps_proofs s) then Ok (ps_proofs s ! i) else Panic)"

definition ps_push :: "proof_node \<Rightarrow> proof_store \<Rightarrow> nat \<times> proof_store" where
  "ps_push p s = (length (ps_proofs s), s\<lparr>ps_proofs := ps_proofs s @ [p]\<rparr>)"

definition replace_term_child ::
    "nat \<Rightarrow> nat \<Rightarrow> nat \<Rightarrow> proof_store \<Rightarrow> ('e, nat \<times> proof_store) outcome" where
  "replace_term_child t k new s =
     (case dag_get (ps_dag s) t of
        Some (TApp f args) \<Rightarrow>
          (if k < length args then
             (let (i, d) = dag_app f (args[k := new]) (ps_dag s) in Ok (i, s\<lparr>ps_dag := d\<rparr>))
           else Panic)
      | _ \<Rightarrow> Panic)"

section \<open>Recovering the substitution of a rule step\<close>

definition add_to_subst :: "string \<Rightarrow> nat \<Rightarrow> (string \<times> nat) list \<Rightarrow> ('e, (string \<times> nat) list) outcome" where
  "add_to_subst v t sub =
     (case map_of sub v of
        None \<Rightarrow> Ok (sub @ [(v, t)])
      | Some t' \<Rightarrow> (if t' = t then Ok sub else Panic))"

function (sequential) unify_expr ::
    "termdag \<Rightarrow> rexpr \<Rightarrow> nat \<Rightarrow> (string \<times> nat) list \<Rightarrow> ('e, (string \<times> nat) list) outcome" where
  "unify_expr d (ELit sp l) t sub = Ok sub"
| "unify_expr d (EVar sp v) t sub = add_to_subst (rv_name v) t sub"
| "unify_expr d (ECall sp h args) t sub =
     (case h of
        RPrim p \<Rightarrow> Ok sub
      | _ \<Rightarrow>
          (case dag_get d t of
             Some (TApp f cs) \<Rightarrow>
               if f \<noteq> rcall_name h then Panic
               else if length cs \<noteq> length args then Panic
               else fold_out (\<lambda>(a, c) sub. unify_expr d a c sub) (zip args cs) sub
           | _ \<Rightarrow> Panic))"
  by pat_completeness auto
termination
  by (relation "measure (\<lambda>(d, e, t, sub). size e)") (auto intro: args_size dest: set_zip_leftD)

definition unify_eq ::
    "termdag \<Rightarrow> rexpr \<Rightarrow> rexpr \<Rightarrow> proof_node \<Rightarrow> (string \<times> nat) list \<Rightarrow> ('e, (string \<times> nat) list) outcome" where
  "unify_eq d l r p sub =
     bind_o (unify_expr d l (pf_lhs p) sub) (\<lambda>sub1. unify_expr d r (pf_rhs p) sub1)"

text \<open>
  A premise \<open>(= (f args) v)\<close> of a function binds \<open>v\<close> to the last child of the proved
  term, then the arguments to the others; every other premise is unified with the sides
  of the equality its proof proves.
\<close>

definition unify_fact ::
    "proof_store \<Rightarrow> rfact \<Rightarrow> nat \<Rightarrow> (string \<times> nat) list \<Rightarrow> ('e, (string \<times> nat) list) outcome" where
  "unify_fact s x i sub =
     bind_o (ps_get s i) (\<lambda>p.
       (case x of
          FEq sp l r \<Rightarrow>
            (case (l, r) of
               (ECall sp2 (RFunc f) args, EVar sp3 v) \<Rightarrow>
                 if ft_subtype f = Custom then
                   (case dag_get (ps_dag s) (pf_rhs p) of
                      Some (TApp h cs) \<Rightarrow>
                        if h \<noteq> ft_name f then Panic
                        else if length cs \<noteq> length args + 1 then Panic
                        else bind_o (add_to_subst (rv_name v) (last cs) sub) (\<lambda>sub1.
                          fold_out (\<lambda>(a, c) sub. unify_expr (ps_dag s) a c sub) (zip args cs) sub1)
                    | _ \<Rightarrow> Panic)
                 else unify_eq (ps_dag s) l r p sub
             | _ \<Rightarrow> unify_eq (ps_dag s) l r p sub)
        | FFact e \<Rightarrow> unify_expr (ps_dag s) e (pf_rhs p) sub))"

fun named_rule :: "string \<Rightarrow> rncommand \<Rightarrow> rrule option" where
  "named_rule name (NNormRule r) = (if rule_name r = name then Some r else None)"
| "named_rule name _ = None"

definition compute_rule_substitution ::
    "rncommand list \<Rightarrow> string \<Rightarrow> nat list \<Rightarrow> proof_store \<Rightarrow> ('e, (string \<times> nat) list) outcome" where
  "compute_rule_substitution prog name premises s =
     bind_o (opt_o Panic (first_some (named_rule name) prog)) (\<lambda>r.
       if length (rule_body r) \<noteq> length premises then Panic
       else fold_out (\<lambda>(x, i) sub. unify_fact s x i sub) (zip (rule_body r) premises) [])"

section \<open>Converting raw proofs\<close>

definition remember_proof :: "raw_proof \<Rightarrow> proof_node \<times> proof_store \<Rightarrow> nat \<times> proof_store" where
  "remember_proof raw = (\<lambda>(p, s).
     (let (i, s1) = ps_push p s in (i, s1\<lparr>ps_ids := (ps_ids s1)(raw \<mapsto> i)\<rparr>)))"

fun convert_raw_proof ::
    "nat \<Rightarrow> rncommand list \<Rightarrow> bindings \<Rightarrow> raw_store \<Rightarrow> nat \<Rightarrow> proof_store \<Rightarrow> ('e, nat \<times> proof_store) outcome"
where
  "convert_raw_proof 0 prog globals rs q s = Panic"
| "convert_raw_proof (Suc n) prog globals rs q s =
     (if length (rs_store rs) \<le> q then Panic
      else case ps_ids s (rs_store rs ! q) of
        Some i \<Rightarrow> Ok (i, s)
      | None \<Rightarrow>
          bind_o
            (case rs_store rs ! q of
               RawFiat l r \<Rightarrow>
                 bind_o (unwrap_ast (rs_dag rs) l) (\<lambda>l'. bind_o (unwrap_ast (rs_dag rs) r) (\<lambda>r'.
                   Ok (mk_proof l' r' JFiat, s)))
             | RawRule name premises l r \<Rightarrow>
                 bind_o (map_out (\<lambda>q s. convert_raw_proof n prog globals rs q s) premises s) (\<lambda>(ps, s1).
                 bind_o (compute_rule_substitution prog name ps s1) (\<lambda>sub.
                 bind_o (unwrap_ast (rs_dag rs) l) (\<lambda>l'. bind_o (unwrap_ast (rs_dag rs) r) (\<lambda>r'.
                   Ok (mk_proof l' r' (JRule name ps (filter (\<lambda>(v, _). globals v = None) sub)), s1)))))
             | RawMergeFn fname old new t \<Rightarrow>
                 bind_o (convert_raw_proof n prog globals rs old s) (\<lambda>(o', s1).
                 bind_o (convert_raw_proof n prog globals rs new s1) (\<lambda>(n', s2).
                 bind_o (unwrap_ast (rs_dag rs) t) (\<lambda>t'.
                   Ok (mk_proof t' t' (JMergeFn fname o' n'), s2))))
             | RawTrans a b \<Rightarrow>
                 bind_o (convert_raw_proof n prog globals rs a s) (\<lambda>(i, s1).
                 bind_o (convert_raw_proof n prog globals rs b s1) (\<lambda>(j, s2).
                 bind_o (ps_get s2 i) (\<lambda>pi. bind_o (ps_get s2 j) (\<lambda>pj.
                   if pf_rhs pi \<noteq> pf_lhs pj then Panic
                   else Ok (mk_proof (pf_lhs pi) (pf_rhs pj) (JTrans i j), s2)))))
             | RawSym a \<Rightarrow>
                 bind_o (convert_raw_proof n prog globals rs a s) (\<lambda>(i, s1).
                 bind_o (ps_get s1 i) (\<lambda>pi. Ok (mk_proof (pf_rhs pi) (pf_lhs pi) (JSym i), s1)))
             | RawCongr a k b \<Rightarrow>
                 bind_o (convert_raw_proof n prog globals rs a s) (\<lambda>(i, s1).
                 bind_o (convert_raw_proof n prog globals rs b s1) (\<lambda>(j, s2).
                 bind_o (ps_get s2 i) (\<lambda>pi. bind_o (ps_get s2 j) (\<lambda>pj.
                 bind_o (replace_term_child (pf_rhs pi) k (pf_rhs pj) s2) (\<lambda>(t, s3).
                   Ok (mk_proof (pf_lhs pi) t (JCongr i k j), s3)))))))
            (\<lambda>r. Ok (remember_proof (rs_store rs ! q) r)))"

text \<open>
  \<open>from_raw\<close> starts from the extracted terms, evaluates the globals and converts the
  proof. A raw proof's children have smaller ids, which bounds the recursion.
\<close>

definition ps_from_raw ::
    "validators \<Rightarrow> rncommand list \<Rightarrow> raw_store \<Rightarrow> nat \<Rightarrow> (check_error, proof_store \<times> nat) outcome" where
  "ps_from_raw V prog rs q =
     (case gather_globals V prog (rs_dag rs) of
        Ok (globals, d) \<Rightarrow>
          bind_o (convert_raw_proof (Suc (length (rs_store rs))) prog globals rs q
                   \<lparr>ps_dag = d, ps_ids = Map.empty, ps_proofs = []\<rparr>) (\<lambda>(i, s). Ok (s, i))
      | _ \<Rightarrow> Panic)"

definition proof_store_from_term ::
    "validators \<Rightarrow> termdag \<Rightarrow> nat \<Rightarrow> rncommand list \<Rightarrow> (check_error, proof_store \<times> nat) outcome" where
  "proof_store_from_term V d t prog =
     bind_o (raw_from_extracted d t) (\<lambda>(rs, q). ps_from_raw V prog rs q)"

section \<open>Printing\<close>

definition make_equality :: "nat \<Rightarrow> nat \<Rightarrow> termdag \<Rightarrow> nat \<times> termdag" where
  "make_equality l r d = dag_app ''='' [l, r] d"

definition dag_tree1 :: "string \<Rightarrow> nat list \<Rightarrow> (nat \<rightharpoonup> nat) \<Rightarrow> termdag
    \<Rightarrow> ('e, nat \<times> termdag \<times> (nat \<rightharpoonup> nat)) outcome" where
  "dag_tree1 f cs c d = (let (t, d1) = dag_app f cs d in Ok (t, d1, c))"

fun proof_to_term ::
    "nat \<Rightarrow> proof_store \<Rightarrow> nat \<Rightarrow> termdag \<times> (nat \<rightharpoonup> nat)
     \<Rightarrow> ('e, nat \<times> termdag \<times> (nat \<rightharpoonup> nat)) outcome" where
  "proof_to_term 0 s i dc = Panic"
| "proof_to_term (Suc n) s i (d, c) =
     (case c i of
        Some t \<Rightarrow> Ok (t, d, c)
      | None \<Rightarrow>
          bind_o (ps_get s i) (\<lambda>p.
          bind_o
            (let (eq, d1) = make_equality (pf_lhs p) (pf_rhs p) d in
             case pf_just p of
               JFiat \<Rightarrow> dag_tree1 ''Fiat'' [eq] c d1
             | JRule name premises sub \<Rightarrow>
                 (let (nl, d2) = dag_lit (LString name) d1; (nt, d3) = dag_app ''name'' [nl] d2 in
                  bind_o (map_out (\<lambda>q dc. proof_to_term n s q dc) premises (d3, c)) (\<lambda>(ts, d4, c4).
                  let (pt, d5) = dag_app ''premises'' ts d4;
                      (ss, d6) = map_st (\<lambda>(v, t) d. dag_app v [t] d) sub d5;
                      (st, d7) = dag_app ''substitution'' ss d6
                  in dag_tree1 ''Rule'' [eq, nt, pt, st] c4 d7))
             | JMergeFn f old new \<Rightarrow>
                 bind_o (proof_to_term n s old (d1, c)) (\<lambda>(ot, d2, c2).
                 bind_o (proof_to_term n s new (d2, c2)) (\<lambda>(nt, d3, c3).
                 let (ft, d4) = dag_var f d3 in dag_tree1 ''Merge'' [eq, ft, ot, nt] c3 d4))
             | JTrans a b \<Rightarrow>
                 bind_o (proof_to_term n s a (d1, c)) (\<lambda>(at, d2, c2).
                 bind_o (proof_to_term n s b (d2, c2)) (\<lambda>(bt, d3, c3).
                 dag_tree1 ''Trans'' [eq, at, bt] c3 d3))
             | JSym a \<Rightarrow>
                 bind_o (proof_to_term n s a (d1, c)) (\<lambda>(at, d2, c2). dag_tree1 ''Sym'' [eq, at] c2 d2)
             | JCongr a k b \<Rightarrow>
                 bind_o (proof_to_term n s a (d1, c)) (\<lambda>(at, d2, c2).
                 bind_o (proof_to_term n s b (d2, c2)) (\<lambda>(bt, d3, c3).
                 let (kt, d4) = dag_lit (LInt (word_of_nat k)) d3
                 in dag_tree1 ''Congr'' [eq, at, bt, kt] c3 d4)))
            (\<lambda>(t, d', c'). Ok (t, d', c'(i \<mapsto> t)))))"

definition proof_name_hint :: "string \<Rightarrow> string" where
  "proof_name_hint con =
     (if con = ''='' then ''prop''
      else if con \<in> {''Fiat'', ''Rule'', ''Merge'', ''Trans'', ''Sym'', ''Congr''} then ''prf''
      else ''t'')"

definition print_to_buffer ::
    "(64 word \<Rightarrow> string) \<Rightarrow> proof_store \<Rightarrow> symbol_gen \<Rightarrow> nat \<Rightarrow> string
     \<Rightarrow> (unit, string \<times> symbol_gen \<times> string) outcome" where
  "print_to_buffer ff s g i buf =
     bind_o (proof_to_term (Suc (length (ps_proofs s))) s i (ps_dag s, Map.empty)) (\<lambda>(t, d, c).
       to_string_with_let_internal ff d g t buf proof_name_hint)"

definition proof_to_string :: "(64 word \<Rightarrow> string) \<Rightarrow> proof_store \<Rightarrow> nat \<Rightarrow> (unit, string) outcome" where
  "proof_to_string ff s i =
     bind_o (print_to_buffer ff s (sg_include_zero True (sg_new [])) i [])
       (\<lambda>(res, g, buf). Ok (buf @ res))"

end
