(* ===== verification/Proof_Checker.thy ===== *)
theory Proof_Checker
  imports Proof_Format
begin

text \<open>
  \<open>src/proofs/proof_checker.rs\<close>, second half: checking a proof of the store against a
  program. The checker threads the store (its term DAG grows while expressions are
  evaluated) and a context with a cache of checked proofs. One definition per
  justification takes the propositions of the checked children; \<open>check_proof_ctx\<close> is the
  recursion, with fuel (a store whose proofs refer to each other in a cycle exhausts the
  stack).
\<close>

section \<open>The context\<close>

record check_ctx =
  ck_equalities :: "propn set"
  ck_bindings :: bindings
  ck_checked :: "nat \<rightharpoonup> propn"

type_synonym check_state = "proof_store \<times> check_ctx"

fun command_rule :: "('h, 'l) ncommand \<Rightarrow> ('h, 'l) rule option" where
  "command_rule (NNormRule r) = Some r"
| "command_rule _ = None"

fun duplicate_name :: "string list \<Rightarrow> string list \<Rightarrow> string option" where
  "duplicate_name seen [] = None"
| "duplicate_name seen (x # xs) = (if x \<in> set seen then Some x else duplicate_name (x # seen) xs)"

definition check_ctx_new ::
    "validators \<Rightarrow> rncommand list \<Rightarrow> termdag \<Rightarrow> (check_error, check_ctx \<times> termdag) outcome" where
  "check_ctx_new V prog d =
     (case duplicate_name [] (map rule_name (List.map_filter command_rule prog)) of
        Some name \<Rightarrow> Err (DuplicateRuleName name)
      | None \<Rightarrow>
          bind_o (process_actions V ''global_actions'' Map.empty (gather_global_actions prog) d)
            (\<lambda>(c, d1). Ok (\<lparr>ck_equalities = ac_props c, ck_bindings = ac_bindings c,
                            ck_checked = Map.empty\<rparr>, d1)))"

definition in_globals :: "check_ctx \<Rightarrow> nat \<Rightarrow> nat \<Rightarrow> bool" where
  "in_globals c l r \<longleftrightarrow> mk_prop l r \<in> ck_equalities c"

section \<open>Facts\<close>

text \<open>The evaluation used for rule bodies: it rejects calls of custom functions.\<close>

fun eval_term ::
    "validators \<Rightarrow> string \<Rightarrow> rexpr \<Rightarrow> bindings \<Rightarrow> termdag \<Rightarrow> (check_error, nat \<times> termdag) outcome" where
  "eval_term V rname (ELit sp l) sub d = Ok (dag_lit l d)"
| "eval_term V rname (EVar sp v) sub d =
     bind_o (opt_o (Err (UnboundVariable rname (rv_name v))) (sub (rv_name v))) (\<lambda>i. Ok (i, d))"
| "eval_term V rname (ECall sp h args) sub d =
     bind_o (map_out (\<lambda>a d. eval_term V rname a sub d) args d) (\<lambda>(is, d1).
       (case h of
          RPrim p \<Rightarrow>
            (case V p of
               Some v \<Rightarrow> run_validator v p is d1
             | None \<Rightarrow> Err (PrimitiveNoValidator (prim_name p)))
        | RFunc f \<Rightarrow>
            (case ft_subtype f of
               Constructor \<Rightarrow> Ok (dag_app (ft_name f) is d1)
             | Custom \<Rightarrow> Panic)
        | RValues ss \<Rightarrow> Panic))"

definition check_equality_fact ::
    "validators \<Rightarrow> string \<Rightarrow> rexpr \<Rightarrow> rexpr \<Rightarrow> propn \<Rightarrow> bindings \<Rightarrow> termdag \<Rightarrow> (check_error, termdag) outcome"
where
  "check_equality_fact V rname l r p sub d =
     bind_o (eval_term V rname l sub d) (\<lambda>(i, d1).
     bind_o (eval_term V rname r sub d1) (\<lambda>(j, d2).
       if i \<noteq> p_lhs p \<or> j \<noteq> p_rhs p then Err (EqualityFactMismatch rname i j (p_lhs p) (p_rhs p))
       else Ok d2))"

definition check_function_fact ::
    "validators \<Rightarrow> string \<Rightarrow> string \<Rightarrow> rexpr list \<Rightarrow> string \<Rightarrow> propn \<Rightarrow> bindings \<Rightarrow> termdag
     \<Rightarrow> (check_error, termdag) outcome" where
  "check_function_fact V rname f args v p sub d =
     bind_o (opt_o (Err (UnboundVariable rname v)) (sub v)) (\<lambda>vt.
     bind_o (map_out (\<lambda>a d. eval_term V rname a sub d) args d) (\<lambda>(is, d1).
       (let (t, d2) = dag_app f (is @ [vt]) d1 in
        if p_lhs p \<noteq> t \<or> p_rhs p \<noteq> t then Err (FunctionFactMismatch rname t (p_lhs p) (p_rhs p))
        else Ok d2)))"

definition check_fact ::
    "validators \<Rightarrow> rfact \<Rightarrow> propn \<Rightarrow> bindings \<Rightarrow> string \<Rightarrow> termdag \<Rightarrow> (check_error, termdag) outcome" where
  "check_fact V x p sub rname d =
     (case x of
        FEq sp l r \<Rightarrow>
          (case (l, r) of
             (ECall sp2 (RFunc f) args, EVar sp3 v) \<Rightarrow>
               if ft_subtype f = Custom
               then check_function_fact V rname (ft_name f) args (rv_name v) p sub d
               else check_equality_fact V rname l r p sub d
           | _ \<Rightarrow> check_equality_fact V rname l r p sub d)
      | FFact e \<Rightarrow>
          bind_o (eval_term V rname e sub d) (\<lambda>(i, d1).
            if i \<noteq> p_rhs p then Err (FactMismatch rname (p_rhs p) i) else Ok d1))"

definition check_rule_produces ::
    "validators \<Rightarrow> rrule \<Rightarrow> bindings \<Rightarrow> propn \<Rightarrow> string \<Rightarrow> termdag \<Rightarrow> (check_error, termdag) outcome" where
  "check_rule_produces V r sub claimed rname d =
     bind_o (process_actions V rname sub (rule_head r) d) (\<lambda>(c, d1).
       if claimed \<in> ac_props c then Ok d1
       else Err (RuleHeadMismatch rname (p_lhs claimed) (p_rhs claimed)))"

section \<open>One step per justification\<close>

definition check_fiat :: "nat \<Rightarrow> proof_node \<Rightarrow> check_state \<Rightarrow> (check_error, propn \<times> check_state) outcome" where
  "check_fiat i p = (\<lambda>(s, c).
     bind_o (opt_o Panic (dag_get (ps_dag s) (pf_lhs p))) (\<lambda>t.
       if (case t of TLit _ \<Rightarrow> True | _ \<Rightarrow> False) \<and> pf_lhs p = pf_rhs p \<or> in_globals c (pf_lhs p) (pf_rhs p)
       then Ok (mk_prop (pf_lhs p) (pf_rhs p), (s, c))
       else Err (InvalidFiat i (pf_lhs p) (pf_rhs p))))"

definition check_rule ::
    "validators \<Rightarrow> rrule \<Rightarrow> string \<Rightarrow> (string \<times> nat) list \<Rightarrow> proof_node \<Rightarrow> propn list \<Rightarrow> check_state
     \<Rightarrow> (check_error, propn \<times> check_state) outcome" where
  "check_rule V r rname sub p props = (\<lambda>(s, c).
     let all = ck_bindings c ++ map_of sub in
     bind_o (fold_out (\<lambda>(x, q) d. check_fact V x q all rname d) (zip (rule_body r) props) (ps_dag s)) (\<lambda>d1.
     bind_o (check_rule_produces V r all (pf_prop p) rname d1) (\<lambda>d2.
       Ok (mk_prop (pf_lhs p) (pf_rhs p), (s\<lparr>ps_dag := d2\<rparr>, c)))))"

definition check_merge_views ::
    "nat \<Rightarrow> nat \<Rightarrow> nat \<Rightarrow> termdag \<Rightarrow> (check_error, nat \<times> nat \<times> string \<times> nat list) outcome" where
  "check_merge_views i old new d =
     bind_o (opt_o Panic (dag_get d old)) (\<lambda>told.
     bind_o (opt_o Panic (dag_get d new)) (\<lambda>tnew.
       (case (told, tnew) of
          (TApp f as, TApp g bs) \<Rightarrow>
            if f \<noteq> g then Err (MergeFnFunctionMismatch i f g)
            else if as = [] then Err (MergeFnEmptyArgs i ''old'')
            else if bs = [] then Err (MergeFnEmptyArgs i ''new'')
            else if length (butlast as) \<noteq> length bs - 1
                \<or> list_ex (\<lambda>(a, b). a \<noteq> b) (zip (butlast as) (butlast bs))
            then Err (MergeFnInputMismatch i)
            else Ok (last as, last bs, f, butlast as)
        | _ \<Rightarrow> Err (MergeFnNotApp i old new))))"

definition check_merge ::
    "validators \<Rightarrow> rncommand list \<Rightarrow> nat \<Rightarrow> string \<Rightarrow> proof_node \<Rightarrow> propn \<Rightarrow> propn \<Rightarrow> check_state
     \<Rightarrow> (check_error, propn \<times> check_state) outcome" where
  "check_merge V prog i fname p old new = (\<lambda>(s, c).
     bind_o (guard_o (Err (MergeFnNotReflexive i ''old'' (p_lhs old) (p_rhs old))) (p_lhs old = p_rhs old)) (\<lambda>_.
     bind_o (guard_o (Err (MergeFnNotReflexive i ''new'' (p_lhs new) (p_rhs new))) (p_lhs new = p_rhs new)) (\<lambda>_.
     bind_o (check_merge_views i (p_rhs old) (p_rhs new) (ps_dag s)) (\<lambda>(ot, nt, f, ins).
     bind_o (run_merge V (ps_dag s) fname prog ot nt) (\<lambda>((m, P), d1).
       (let (v, d2) = dag_app f (ins @ [m]) d1 in
        if mk_prop (pf_lhs p) (pf_rhs p) \<in> insert (mk_prop v v) P
        then Ok (mk_prop (pf_lhs p) (pf_rhs p), (s\<lparr>ps_dag := d2\<rparr>, c))
        else Err (MergeFnResultMismatch i (pf_lhs p) (pf_rhs p))))))))"

definition check_trans ::
    "nat \<Rightarrow> proof_node \<Rightarrow> propn \<Rightarrow> propn \<Rightarrow> check_state \<Rightarrow> (check_error, propn \<times> check_state) outcome" where
  "check_trans i p l r st =
     (if p_rhs l \<noteq> p_lhs r then Err (TransitivityMismatch i (p_rhs l) (p_lhs r))
      else if pf_lhs p \<noteq> p_lhs l \<or> pf_rhs p \<noteq> p_rhs r
      then Err (TermMismatch i (pf_lhs p) (pf_rhs p) (p_lhs l) (p_rhs r))
      else Ok (mk_prop (pf_lhs p) (pf_rhs p), st))"

definition check_sym ::
    "nat \<Rightarrow> proof_node \<Rightarrow> propn \<Rightarrow> check_state \<Rightarrow> (check_error, propn \<times> check_state) outcome" where
  "check_sym i p q st =
     (if pf_lhs p \<noteq> p_rhs q \<or> pf_rhs p \<noteq> p_lhs q
      then Err (TermMismatch i (pf_lhs p) (pf_rhs p) (p_rhs q) (p_lhs q))
      else Ok (mk_prop (pf_lhs p) (pf_rhs p), st))"

definition check_congr ::
    "nat \<Rightarrow> nat \<Rightarrow> proof_node \<Rightarrow> propn \<Rightarrow> propn \<Rightarrow> check_state
     \<Rightarrow> (check_error, propn \<times> check_state) outcome" where
  "check_congr i k p b q = (\<lambda>(s, c).
     bind_o (opt_o Panic (dag_get (ps_dag s) (p_rhs b))) (\<lambda>t.
       (case t of
          TApp f cs \<Rightarrow>
            if length cs \<le> k then Err (CongruenceChildIndexOutOfBounds i k (length cs))
            else if cs ! k \<noteq> p_lhs q then Err (CongruenceChildMismatch i (p_lhs q) (cs ! k) k)
            else (let (e, d1) = dag_app f (cs[k := p_rhs q]) (ps_dag s) in
              if pf_rhs p \<noteq> e then Err (CongruenceResultMismatch i (pf_rhs p) e)
              else if pf_lhs p \<noteq> p_lhs b then Err (CongruenceLhsMismatch i)
              else Ok (mk_prop (pf_lhs p) (pf_rhs p), (s\<lparr>ps_dag := d1\<rparr>, c)))
        | _ \<Rightarrow> Err (CongruenceBaseNotApp i))))"

section \<open>The recursion\<close>

definition cache_proof :: "nat \<Rightarrow> propn \<times> check_state \<Rightarrow> propn \<times> check_state" where
  "cache_proof i = (\<lambda>(p, s, c). (p, s, c\<lparr>ck_checked := (ck_checked c)(i \<mapsto> p)\<rparr>))"

text \<open>One call, given what the recursive calls do.\<close>

definition check_step ::
    "(nat \<Rightarrow> check_state \<Rightarrow> (check_error, propn \<times> check_state) outcome)
     \<Rightarrow> validators \<Rightarrow> rncommand list \<Rightarrow> nat \<Rightarrow> check_state \<Rightarrow> (check_error, propn \<times> check_state) outcome"
where
  "check_step rec V prog i st =
     (case ck_checked (snd st) i of
        Some p \<Rightarrow> Ok (p, st)
      | None \<Rightarrow>
          bind_o (ps_get (fst st) i) (\<lambda>p.
          bind_o
            (case pf_just p of
               JFiat \<Rightarrow> check_fiat i p st
             | JRule name premises sub \<Rightarrow>
                 bind_o (opt_o (Err (RuleNotFound name)) (first_some (named_rule name) prog)) (\<lambda>r.
                 bind_o (guard_o (Err (RulePremiseCountMismatch i name (length (rule_body r)) (length premises)))
                          (length (rule_body r) = length premises)) (\<lambda>_.
                 bind_o (map_out (\<lambda>q st. rec q st) premises st) (\<lambda>(props, st1).
                   check_rule V r name sub p props st1)))
             | JMergeFn f old new \<Rightarrow>
                 bind_o (rec old st) (\<lambda>(po, st1).
                 bind_o (rec new st1) (\<lambda>(pn, st2).
                   check_merge V prog i f p po pn st2))
             | JTrans a b \<Rightarrow>
                 bind_o (rec a st) (\<lambda>(pa, st1).
                 bind_o (rec b st1) (\<lambda>(pb, st2). check_trans i p pa pb st2))
             | JSym a \<Rightarrow>
                 bind_o (rec a st) (\<lambda>(pa, st1). check_sym i p pa st1)
             | JCongr a k b \<Rightarrow>
                 bind_o (rec a st) (\<lambda>(pa, st1).
                 bind_o (rec b st1) (\<lambda>(pb, st2). check_congr i k p pa pb st2)))
            (\<lambda>r. Ok (cache_proof i r))))"

primrec check_proof_ctx ::
    "nat \<Rightarrow> validators \<Rightarrow> rncommand list \<Rightarrow> nat \<Rightarrow> check_state \<Rightarrow> (check_error, propn \<times> check_state) outcome"
where
  "check_proof_ctx 0 V prog i st = Panic"
| "check_proof_ctx (Suc n) V prog i st = check_step (\<lambda>i st. check_proof_ctx n V prog i st) V prog i st"

definition check_proof ::
    "nat \<Rightarrow> validators \<Rightarrow> rncommand list \<Rightarrow> nat \<Rightarrow> proof_store \<Rightarrow> (check_error, propn \<times> proof_store) outcome"
where
  "check_proof n V prog i s =
     bind_o (check_ctx_new V prog (ps_dag s)) (\<lambda>(c, d).
     bind_o (check_proof_ctx n V prog i (s\<lparr>ps_dag := d\<rparr>, c)) (\<lambda>(p, s1, c1). Ok (p, s1)))"

end
