(* ===== verification/Proof_Semantics.thy ===== *)
theory Proof_Semantics
  imports Proof_Eval
begin

text \<open>
  What the evaluation of \<open>Proof_Eval\<close> computes, stated on trees instead of ids: the value
  of an expression, the equalities an expression and a list of actions establish. The
  locale \<open>validator_contract\<close> is what the evaluation relies on from the validators of
  the primitives; inside it the evaluation on the shared term store is shown to compute
  the tree semantics.
\<close>

section \<open>Semantics on trees\<close>

type_synonym prim_sem = "prim \<Rightarrow> tm list \<Rightarrow> tm option"
type_synonym tenv = "string \<rightharpoonup> tm"

fun subterms :: "tm \<Rightarrow> tm set" where
  "subterms (GApp f ts) = insert (GApp f ts) (\<Union>t \<in> set ts. subterms t)"
| "subterms t = {t}"

lemma subterms_refl [simp]: "t \<in> subterms t"
  by (cases t) auto

definition refl_of :: "tm \<Rightarrow> (tm \<times> tm) set" where
  "refl_of t = (\<lambda>s. (s, s)) ` subterms t"

fun sem_expr :: "prim_sem \<Rightarrow> tenv \<Rightarrow> rexpr \<Rightarrow> tm option" where
  "sem_expr S env (ELit sp l) = Some (GLit l)"
| "sem_expr S env (EVar sp v) = env (rv_name v)"
| "sem_expr S env (ECall sp h args) =
     (case those (map (\<lambda>a. sem_expr S env a) args) of
        None \<Rightarrow> None
      | Some ts \<Rightarrow>
          (case h of
             RFunc f \<Rightarrow> Some (GApp (ft_name f) ts)
           | RPrim p \<Rightarrow> S p ts
           | RValues ss \<Rightarrow> None))"

text \<open>An expression makes the value of each of its subexpressions equal to itself, with all subterms.\<close>

definition expr_refl :: "prim_sem \<Rightarrow> tenv \<Rightarrow> rexpr \<Rightarrow> (tm \<times> tm) set" where
  "expr_refl S env e = (\<Union>x \<in> set (preorder e). case sem_expr S env x of None \<Rightarrow> {} | Some t \<Rightarrow> refl_of t)"

fun sem_action :: "prim_sem \<Rightarrow> raction \<Rightarrow> tenv \<times> (tm \<times> tm) set \<Rightarrow> (tenv \<times> (tm \<times> tm) set) option" where
  "sem_action S (ALet sp v e) (env, Q) =
     map_option (\<lambda>t. (env(rv_name v \<mapsto> t), Q \<union> expr_refl S env e)) (sem_expr S env e)"
| "sem_action S (AUnion sp l r) (env, Q) =
     (case (sem_expr S env l, sem_expr S env r) of
        (Some s, Some t) \<Rightarrow> Some (env, Q \<union> expr_refl S env l \<union> expr_refl S env r \<union> {(s, t), (t, s)})
      | _ \<Rightarrow> None)"
| "sem_action S (ASet sp f args rhs) (env, Q) =
     map_option (\<lambda>_. (env, Q \<union> expr_refl S env (ECall sp f (args @ [rhs]))))
       (sem_expr S env (ECall sp f (args @ [rhs])))"
| "sem_action S (AExpr sp e) (env, Q) =
     map_option (\<lambda>_. (env, Q \<union> expr_refl S env e)) (sem_expr S env e)"
| "sem_action S (APanic sp m) st = Some st"
| "sem_action S (AChange sp k f args) st = Some st"

fun sem_actions :: "prim_sem \<Rightarrow> raction list \<Rightarrow> tenv \<times> (tm \<times> tm) set \<Rightarrow> (tenv \<times> (tm \<times> tm) set) option" where
  "sem_actions S [] st = Some st"
| "sem_actions S (a # as) st = (case sem_action S a st of None \<Rightarrow> None | Some st' \<Rightarrow> sem_actions S as st')"

lemma those_list_all2:
  "list_all2 (\<lambda>x y. f x = Some (g y)) xs ys \<Longrightarrow> those (map f xs) = Some (map g ys)"
  by (induction xs ys rule: list_all2_induct) auto

section \<open>Ids and trees\<close>

definition props_in :: "termdag \<Rightarrow> propn set \<Rightarrow> bool" where
  "props_in d P \<longleftrightarrow> (\<forall>p \<in> P. p_lhs p < length (nodes d) \<and> p_rhs p < length (nodes d))"

definition tprop :: "termdag \<Rightarrow> propn \<Rightarrow> tm \<times> tm" where
  "tprop d p = (tree d (p_lhs p), tree d (p_rhs p))"

definition env_in :: "termdag \<Rightarrow> bindings \<Rightarrow> bool" where
  "env_in d b \<longleftrightarrow> (\<forall>v i. b v = Some i \<longrightarrow> i < length (nodes d))"

definition tenv_of :: "termdag \<Rightarrow> bindings \<Rightarrow> tenv" where
  "tenv_of d b = (\<lambda>v. map_option (tree d) (b v))"

lemma tprop_mk [simp]: "tprop d (mk_prop i j) = (tree d i, tree d j)"
  by (simp add: tprop_def)

lemma props_in_simps [simp]:
  "props_in d {}"
  "props_in d (insert p P) \<longleftrightarrow> p_lhs p < length (nodes d) \<and> p_rhs p < length (nodes d) \<and> props_in d P"
  "props_in d (P \<union> Q) \<longleftrightarrow> props_in d P \<and> props_in d Q"
  by (auto simp: props_in_def)

lemma props_in_Union: "props_in d (\<Union> A) \<longleftrightarrow> (\<forall>P \<in> A. props_in d P)"
  by (auto simp: props_in_def)

lemma props_in_le: "dag_le d d' \<Longrightarrow> props_in d P \<Longrightarrow> props_in d' P"
  by (meson dag_le_length order_less_le_trans props_in_def)

lemma tprop_le:
  "wf_dag d \<Longrightarrow> dag_le d d' \<Longrightarrow> p_lhs p < length (nodes d) \<Longrightarrow> p_rhs p < length (nodes d)
     \<Longrightarrow> tprop d' p = tprop d p"
  unfolding tprop_def by (simp only: tree_le [of d d'])

lemma tprops_le: "wf_dag d \<Longrightarrow> dag_le d d' \<Longrightarrow> props_in d P \<Longrightarrow> tprop d' ` P = tprop d ` P"
  unfolding props_in_def by (rule image_cong [OF refl]) (blast intro: tprop_le)

lemma env_in_le: "dag_le d d' \<Longrightarrow> env_in d b \<Longrightarrow> env_in d' b"
  by (meson dag_le_length order_less_le_trans env_in_def)

lemma tenv_le: "wf_dag d \<Longrightarrow> dag_le d d' \<Longrightarrow> env_in d b \<Longrightarrow> tenv_of d' b = tenv_of d b"
  unfolding tenv_of_def env_in_def
  by (rule ext, rule option.map_cong [OF refl]) (blast intro: tree_le)

lemma env_in_upd: "env_in d b \<Longrightarrow> i < length (nodes d) \<Longrightarrow> env_in d (b(v \<mapsto> i))"
  by (simp add: env_in_def)

lemma tenv_of_upd [simp]: "tenv_of d (b(v \<mapsto> i)) = (tenv_of d b)(v \<mapsto> tree d i)"
  by (auto simp: tenv_of_def)

lemma tprop_mem:
  "wf_dag d \<Longrightarrow> props_in d P \<Longrightarrow> p_lhs p < length (nodes d) \<Longrightarrow> p_rhs p < length (nodes d)
     \<Longrightarrow> p \<in> P \<longleftrightarrow> tprop d p \<in> tprop d ` P"
proof
  assume *: "wf_dag d" "props_in d P" "p_lhs p < length (nodes d)" "p_rhs p < length (nodes d)"
    "tprop d p \<in> tprop d ` P"
  then obtain q where q: "q \<in> P" "tprop d p = tprop d q" by blast
  with * have "p_lhs p = p_lhs q" "p_rhs p = p_rhs q"
    by (auto simp: tprop_def props_in_def intro: tree_inj [of d])
  then have "p = q" by (metis mk_prop_eta)
  with q show "p \<in> P" by simp
qed simp

section \<open>Reflexive equalities\<close>

lemma fold_refl:
  assumes "\<And>c P. c \<in> set cs \<Longrightarrow> props_in d P \<Longrightarrow>
      \<exists>P'. f c P = Ok P' \<and> props_in d P' \<and> tprop d ` P' = tprop d ` P \<union> refl_of (tree d c)"
    and "props_in d P"
  shows "\<exists>P'. fold_out f cs P = Ok P' \<and> props_in d P'
    \<and> tprop d ` P' = tprop d ` P \<union> (\<Union>c \<in> set cs. refl_of (tree d c))"
  using assms
proof (induction cs arbitrary: P)
  case (Cons c cs)
  obtain P1 where 1: "f c P = Ok P1" "props_in d P1" "tprop d ` P1 = tprop d ` P \<union> refl_of (tree d c)"
    using Cons.prems by (meson list.set_intros(1))
  obtain P2 where "fold_out f cs P1 = Ok P2" "props_in d P2"
    "tprop d ` P2 = tprop d ` P1 \<union> (\<Union>c \<in> set cs. refl_of (tree d c))"
    using Cons.IH [OF Cons.prems(1) 1(2)] by auto
  with 1 show ?case by auto
qed simp

lemma add_subterm_refl_spec:
  "wf_dag d \<Longrightarrow> i < length (nodes d) \<Longrightarrow> i < n \<Longrightarrow> props_in d P \<Longrightarrow>
    \<exists>P'. add_subterm_refl n d i P = (Ok P' :: ('e, propn set) outcome) \<and> props_in d P' \<and> tprop d ` P' = tprop d ` P \<union> refl_of (tree d i)"
proof (induction n arbitrary: i P)
  case (Suc n)
  show ?case
  proof (cases "nodes d ! i")
    case (TApp f cs)
    have "\<exists>P'. fold_out (add_subterm_refl n d) cs (insert (mk_prop i i) P)
        = (Ok P' :: ('e, propn set) outcome) \<and> props_in d P' \<and> tprop d ` P' = tprop d ` (insert (mk_prop i i) P) \<union> (\<Union>c \<in> set cs. refl_of (tree d c))"
    proof (rule fold_refl)
      fix c P
      assume c: "c \<in> set cs" and "props_in d P"
      then show "\<exists>P'. add_subterm_refl n d c P = (Ok P' :: ('e, propn set) outcome) \<and> props_in d P'
          \<and> tprop d ` P' = tprop d ` P \<union> refl_of (tree d c)"
        using Suc.IH Suc.prems wf_kids [OF Suc.prems(1,2) TApp c] by simp
    qed (use Suc.prems in simp)
    moreover have "refl_of (tree d i) = insert (tree d i, tree d i) (\<Union>c \<in> set cs. refl_of (tree d c))"
      using TApp Suc.prems by (simp add: tree_app refl_of_def image_UN)
    ultimately show ?thesis
      using TApp Suc.prems by (simp add: dag_get_def)
  qed (use Suc.prems in \<open>simp_all add: dag_get_def tree_node refl_of_def\<close>)
qed simp

lemma finish_eval_spec:
  assumes "wf_dag d" "i < length (nodes d)" "props_in d P" "finish_eval i P d = Ok ((j, P'), d')"
  shows "j = i \<and> d' = d \<and> props_in d P' \<and> tprop d ` P' = tprop d ` P \<union> refl_of (tree d i)"
proof -
  have "i < Suc (dag_size d)" using assms(2) by (simp add: dag_size_def)
  from add_subterm_refl_spec [OF assms(1,2) this assms(3)] obtain P1 where
    "add_subterm_refl (Suc (dag_size d)) d i P = (Ok P1 :: (check_error, propn set) outcome)"
    "props_in d P1" "tprop d ` P1 = tprop d ` P \<union> refl_of (tree d i)" by blast
  with assms(4) show ?thesis
    by (simp add: finish_eval_def add_subterm_reflexive_equalities_def)
qed

section \<open>The contract of the validators\<close>

text \<open>
  A validator that returns an id has computed the primitive: the id stands for the value
  of the primitive's meaning on the argument trees, and the store has only grown.
\<close>

locale validator_contract =
  fixes V :: validators and S :: prim_sem
  assumes validator_sound:
    "V p = Some v \<Longrightarrow> wf_dag d \<Longrightarrow> \<forall>a \<in> set args. a < length (nodes d) \<Longrightarrow> v d args = Some (Some i, d')
      \<Longrightarrow> wf_dag d' \<and> dag_le d d' \<and> i < length (nodes d') \<and> S p (map (tree d) args) = Some (tree d' i)"
begin

lemma run_validator_spec:
  assumes "V p = Some v" "wf_dag d" "\<forall>a \<in> set args. a < length (nodes d)"
    and "run_validator v p args d = Ok (i, d')"
  shows "wf_dag d' \<and> dag_le d d' \<and> i < length (nodes d') \<and> S p (map (tree d) args) = Some (tree d' i)"
proof -
  have "v d args = Some (Some i, d')"
    using assms(4) by (auto simp: run_validator_def split: option.splits)
  with validator_sound assms show ?thesis by blast
qed

definition eval_ok :: "bindings \<Rightarrow> rexpr \<Rightarrow> nat \<times> propn set \<Rightarrow> termdag \<Rightarrow> bool" where
  "eval_ok b e r d \<longleftrightarrow> env_in d b \<and> fst r < length (nodes d) \<and> props_in d (snd r)
     \<and> sem_expr S (tenv_of d b) e = Some (tree d (fst r))
     \<and> tprop d ` snd r = expr_refl S (tenv_of d b) e"

lemma eval_ok_le: "wf_dag d \<Longrightarrow> dag_le d d' \<Longrightarrow> eval_ok b e r d \<Longrightarrow> eval_ok b e r d'"
  unfolding eval_ok_def
  using dag_le_length [of d d'] tenv_le [of d d' b] tprops_le [of d d' "snd r"] tree_le [of d d' "fst r"]
  by (auto intro: env_in_le props_in_le)

lemma expr_refl_call:
  assumes "sem_expr S env (ECall sp h args) = Some t"
  shows "expr_refl S env (ECall sp h args) = refl_of t \<union> (\<Union>a \<in> set args. expr_refl S env a)"
  using assms by (auto simp: expr_refl_def)

lemma eval_args:
  assumes step: "\<And>a d r d'. a \<in> set args \<Longrightarrow> wf_dag d \<Longrightarrow> env_in d b \<Longrightarrow> eval_props V rn a b d = Ok (r, d')
      \<Longrightarrow> wf_dag d' \<and> dag_le d d' \<and> eval_ok b a r d'"
    and "wf_dag d" "env_in d b" "map_out (\<lambda>a d. eval_props V rn a b d) args d = Ok (rs, d')"
  shows "wf_dag d' \<and> env_in d' b \<and> dag_le d d'
    \<and> (\<forall>i \<in> set (map fst rs). i < length (nodes d')) \<and> props_in d' (\<Union> (set (map snd rs)))
    \<and> those (map (sem_expr S (tenv_of d' b)) args) = Some (map (tree d') (map fst rs))
    \<and> tprop d' ` (\<Union> (set (map snd rs))) = (\<Union>a \<in> set args. expr_refl S (tenv_of d' b) a)"
proof -
  have inv: "(wf_dag d' \<and> env_in d' b) \<and> dag_le d d' \<and> list_all2 (\<lambda>a r. eval_ok b a r d') args rs"
  proof (rule map_out_invariant [where I = "\<lambda>d. wf_dag d \<and> env_in d b" and le = dag_le
        and P = "\<lambda>a r d. eval_ok b a r d", OF assms(4)])
    show "\<And>x s y s'. x \<in> set args \<Longrightarrow> wf_dag s \<and> env_in s b \<Longrightarrow> eval_props V rn x b s = Ok (y, s') \<Longrightarrow>
        (wf_dag s' \<and> env_in s' b) \<and> dag_le s s' \<and> eval_ok b x y s'"
      using step env_in_le by blast
  qed (use assms in \<open>auto intro: dag_le_trans eval_ok_le\<close>)
  then have all: "list_all2 (\<lambda>a r. eval_ok b a r d') args rs" by simp
  then have "list_all2 (\<lambda>a r. sem_expr S (tenv_of d' b) a = Some ((tree d' \<circ> fst) r)) args rs"
    by (rule list_all2_mono) (simp add: eval_ok_def)
  from those_list_all2 [OF this]
  have t: "those (map (sem_expr S (tenv_of d' b)) args) = Some (map (tree d') (map fst rs))" by simp
  have u: "(\<Union>r \<in> set rs. tprop d' ` snd r) = (\<Union>a \<in> set args. expr_refl S (tenv_of d' b) a)"
    using all by (induction args rs rule: list_all2_induct) (auto simp: eval_ok_def)
  have "\<forall>r \<in> set rs. fst r < length (nodes d') \<and> props_in d' (snd r)"
    using all by (induction args rs rule: list_all2_induct) (auto simp: eval_ok_def)
  with inv t u show ?thesis by (auto simp: props_in_Union image_UN)
qed

lemma eval_call:
  assumes d1: "wf_dag d1" "env_in d1 b" "dag_le d d1"
    and args: "props_in d1 P" "those (map (sem_expr S (tenv_of d1 b)) args) = Some ts"
      "tprop d1 ` P = (\<Union>a \<in> set args. expr_refl S (tenv_of d1 b) a)"
    and call: "wf_dag d2" "dag_le d1 d2" "i < length (nodes d2)"
      "(case h of RFunc f \<Rightarrow> Some (GApp (ft_name f) ts) | RPrim p \<Rightarrow> S p ts | RValues ss \<Rightarrow> None) = Some (tree d2 i)"
    and fin: "finish_eval i P d2 = Ok (r, d')"
  shows "wf_dag d' \<and> dag_le d d' \<and> eval_ok b (ECall sp h args) r d'"
proof -
  have P: "props_in d2 P" using args(1) call(2) by (rule props_in_le [rotated])
  have env: "tenv_of d2 b = tenv_of d1 b" using tenv_le d1 call by blast
  obtain j P' where r: "r = (j, P')" by force
  from finish_eval_spec [OF call(1,3) P fin [unfolded r]]
  have f: "j = i" "d' = d2" "props_in d2 P'" "tprop d2 ` P' = tprop d2 ` P \<union> refl_of (tree d2 i)" by auto
  have sem: "sem_expr S (tenv_of d2 b) (ECall sp h args) = Some (tree d2 i)"
    using args(2) call(4) env by simp
  have "tprop d2 ` P' = expr_refl S (tenv_of d2 b) (ECall sp h args)"
    using f(4) tprops_le [OF d1(1) call(2) args(1)] args(3) env expr_refl_call [OF sem] by auto
  with f r sem call d1 show ?thesis
    by (auto simp: eval_ok_def intro: dag_le_trans env_in_le)
qed

end

section \<open>Evaluation computes the semantics\<close>

context validator_contract
begin

lemma eval_leaf:
  assumes "wf_dag d" "dag_le d0 d" "env_in d b" "i < length (nodes d)" "finish_eval i {} d = Ok (r, d')"
    and "sem_expr S (tenv_of d b) e = Some (tree d i)" "preorder e = [e]"
  shows "wf_dag d' \<and> dag_le d0 d' \<and> eval_ok b e r d'"
proof -
  obtain j P where r: "r = (j, P)" by force
  from finish_eval_spec [OF assms(1,4) _ assms(5) [unfolded r]]
  show ?thesis using assms r by (simp add: eval_ok_def expr_refl_def)
qed

lemma eval_props_spec:
  "wf_dag d \<Longrightarrow> env_in d b \<Longrightarrow> eval_props V rn e b d = Ok (r, d')
     \<Longrightarrow> wf_dag d' \<and> dag_le d d' \<and> eval_ok b e r d'"
proof (induction e arbitrary: d r d')
  case (ELit sp l)
  obtain i d1 where 1: "dag_lit l d = (i, d1)" by force
  from dag_lit_spec [OF ELit.prems(1) 1]
  have 2: "wf_dag d1" "dag_le d d1" "i < length (nodes d1)" "tree d1 i = GLit l" by auto
  from 1 ELit.prems(3) have "finish_eval i {} d1 = Ok (r, d')" by simp
  with 2 show ?case by (intro eval_leaf [OF 2(1,2) _ 2(3)]) (auto intro: env_in_le ELit.prems)
next
  case (EVar sp v)
  then obtain i where 1: "b (rv_name v) = Some i" "finish_eval i {} d = Ok (r, d')"
    by (auto simp: outcome_simps)
  with EVar.prems show ?case
    by (intro eval_leaf [of d d b i]) (auto simp: tenv_of_def env_in_def)
next
  case (ECall sp h args)
  have step: "wf_dag d' \<and> dag_le d d' \<and> eval_ok b a r d'"
    if "a \<in> set args" "wf_dag d" "env_in d b" "eval_props V rn a b d = Ok (r, d')" for a d r d'
    using ECall.IH that by blast
  have e: "wf_dag d1 \<and> env_in d1 b \<and> dag_le d d1
    \<and> (\<forall>i \<in> set (map fst rs). i < length (nodes d1)) \<and> props_in d1 (\<Union> (set (map snd rs)))
    \<and> those (map (sem_expr S (tenv_of d1 b)) args) = Some (map (tree d1) (map fst rs))
    \<and> tprop d1 ` (\<Union> (set (map snd rs))) = (\<Union>a \<in> set args. expr_refl S (tenv_of d1 b) a)"
    if "map_out (\<lambda>a d. eval_props V rn a b d) args d = Ok (rs, d1)" for rs d1
    by (rule eval_args [OF step ECall.prems(1,2) that])
  have "\<exists>rs d1 ts d2 i. map_out (\<lambda>a d. eval_props V rn a b d) args d = Ok (rs, d1)
    \<and> finish_eval i (\<Union> (set (map snd rs))) d2 = Ok (r, d')
    \<and> wf_dag d2 \<and> dag_le d1 d2 \<and> i < length (nodes d2) \<and> ts = map (tree d1) (map fst rs)
    \<and> (case h of RFunc f \<Rightarrow> Some (GApp (ft_name f) ts) | RPrim p \<Rightarrow> S p ts | RValues ss \<Rightarrow> None) = Some (tree d2 i)"
  proof (cases h)
    case (RFunc f)
    with ECall.prems(3) obtain rs d1 where
      m: "map_out (\<lambda>a d. eval_props V rn a b d) args d = Ok (rs, d1)"
      and f: "(let (i, d2) = dag_app (ft_name f) (map fst rs) d1
        in finish_eval i (\<Union> (set (map snd rs))) d2) = Ok (r, d')"
      by (auto simp: bind_o_eq_Ok)
    obtain i d2 where a: "dag_app (ft_name f) (map fst rs) d1 = (i, d2)" by force
    from e [OF m] have wf: "wf_dag d1" "\<forall>i \<in> set (map fst rs). i < length (nodes d1)" by blast+
    note sp = dag_app_spec [OF wf a]
    have "finish_eval i (\<Union> (set (map snd rs))) d2 = Ok (r, d')" using f a by simp
    with sp m RFunc show ?thesis
      by (intro exI [of _ rs] exI [of _ d1] exI [of _ "map (tree d1) (map fst rs)"] exI [of _ d2] exI [of _ i])
        simp
  next
    case (RPrim p)
    with ECall.prems(3) obtain rs d1 v i d2 where
      m: "map_out (\<lambda>a d. eval_props V rn a b d) args d = Ok (rs, d1)"
      and f: "V p = Some v" "run_validator v p (map fst rs) d1 = Ok (i, d2)"
        "finish_eval i (\<Union> (set (map snd rs))) d2 = Ok (r, d')"
      by (auto simp: outcome_simps)
    from e [OF m] have wf: "wf_dag d1" "\<forall>i \<in> set (map fst rs). i < length (nodes d1)" by blast+
    from run_validator_spec [OF f(1) wf f(2)] m f RPrim show ?thesis
      by (intro exI [of _ rs] exI [of _ d1] exI [of _ "map (tree d1) (map fst rs)"] exI [of _ d2] exI [of _ i])
        simp
  qed (use ECall.prems in simp)
  then obtain rs d1 ts d2 i where
    m: "map_out (\<lambda>a d. eval_props V rn a b d) args d = Ok (rs, d1)"
    and fin: "finish_eval i (\<Union> (set (map snd rs))) d2 = Ok (r, d')"
    and call: "wf_dag d2" "dag_le d1 d2" "i < length (nodes d2)"
      "(case h of RFunc f \<Rightarrow> Some (GApp (ft_name f) ts) | RPrim p \<Rightarrow> S p ts | RValues ss \<Rightarrow> None) = Some (tree d2 i)"
    and ts: "ts = map (tree d1) (map fst rs)" by blast
  show ?case
    by (rule eval_call [OF _ _ _ _ _ _ call fin]) (use e [OF m] ts in auto)
qed

definition ctx_ok :: "action_context \<Rightarrow> termdag \<Rightarrow> tenv \<times> (tm \<times> tm) set \<Rightarrow> bool" where
  "ctx_ok c d st \<longleftrightarrow> wf_dag d \<and> env_in d (ac_bindings c) \<and> props_in d (ac_props c)
     \<and> st = (tenv_of d (ac_bindings c), tprop d ` ac_props c)"

lemma ctx_ok_eval:
  assumes "ctx_ok c d (E, Q)" "eval_props V rn e (ac_bindings c) d = Ok ((i, P), d')"
  shows "ctx_ok (c\<lparr>ac_props := ac_props c \<union> P\<rparr>) d' (E, Q \<union> expr_refl S E e)
    \<and> sem_expr S E e = Some (tree d' i) \<and> i < length (nodes d') \<and> dag_le d d'
    \<and> ctx_ok c d' (E, Q) \<and> props_in d' P \<and> tprop d' ` P = expr_refl S E e"
proof -
  have c: "wf_dag d" "env_in d (ac_bindings c)" "props_in d (ac_props c)"
    "E = tenv_of d (ac_bindings c)" "Q = tprop d ` ac_props c"
    using assms(1) by (auto simp: ctx_ok_def)
  from eval_props_spec [OF c(1,2) assms(2)]
  have e: "wf_dag d'" "dag_le d d'" "env_in d' (ac_bindings c)" "i < length (nodes d')" "props_in d' P"
    "sem_expr S (tenv_of d' (ac_bindings c)) e = Some (tree d' i)"
    "tprop d' ` P = expr_refl S (tenv_of d' (ac_bindings c)) e"
    by (auto simp: eval_ok_def)
  have "tenv_of d' (ac_bindings c) = E" using tenv_le [OF c(1) e(2) c(2)] c(4) by simp
  moreover have "props_in d' (ac_props c)" using props_in_le [OF e(2) c(3)] .
  moreover have "tprop d' ` ac_props c = Q" using tprops_le [OF c(1) e(2) c(3)] c(5) by simp
  ultimately show ?thesis using e by (auto simp: ctx_ok_def image_Un)
qed

lemma sem_call_span: "sem_expr S env (ECall sp h args) = sem_expr S env (ECall sp' h args)"
  by simp

lemma expr_refl_span: "expr_refl S env (ECall sp h args) = expr_refl S env (ECall sp' h args)"
  by (simp add: expr_refl_def)

lemma process_action_spec:
  assumes "ctx_ok c d st" "process_action V rn a (c, d) = Ok (c', d')"
  shows "\<exists>st'. sem_action S a st = Some st' \<and> ctx_ok c' d' st' \<and> dag_le d d'"
proof -
  obtain E Q where st: "st = (E, Q)" by force
  show ?thesis
  proof (cases a)
    case (ALet sp v e)
    with assms(2) obtain i P where e: "eval_props V rn e (ac_bindings c) d = Ok ((i, P), d')"
      and c': "c' = c\<lparr>ac_bindings := (ac_bindings c)(rv_name v \<mapsto> i), ac_props := ac_props c \<union> P\<rparr>"
      by (auto simp: bind_o_eq_Ok)
    from ctx_ok_eval [OF assms(1) [unfolded st] e] c' ALet st show ?thesis
      by (auto simp: ctx_ok_def env_in_upd)
  next
    case (AUnion sp l r)
    with assms(2) obtain i P d1 j R where
      e1: "eval_props V rn l (ac_bindings c) d = Ok ((i, P), d1)"
      and e2: "eval_props V rn r (ac_bindings c) d1 = Ok ((j, R), d')"
      and c': "c' = c\<lparr>ac_props := insert (mk_prop j i) (insert (mk_prop i j) (ac_props c \<union> P \<union> R))\<rparr>"
      by (auto simp: bind_o_eq_Ok)
    note 1 = ctx_ok_eval [OF assms(1) [unfolded st] e1]
    let ?c1 = "c\<lparr>ac_props := ac_props c \<union> P\<rparr>"
    have e2': "eval_props V rn r (ac_bindings ?c1) d1 = Ok ((j, R), d')" using e2 by simp
    note 2 = ctx_ok_eval [OF conjunct1 [OF 1] e2']
    have wf: "wf_dag d1" using 1 by (simp add: ctx_ok_def)
    have le: "dag_le d1 d'" and i1: "i < length (nodes d1)" using 1 2 by blast+
    have i: "i < length (nodes d')" "tree d' i = tree d1 i"
      using i1 dag_le_length [OF le] tree_le [OF wf le i1] by simp_all
    have 3: "ctx_ok c' d' (E, Q \<union> expr_refl S E l \<union> expr_refl S E r \<union> {(tree d' i, tree d' j), (tree d' j, tree d' i)})"
      using conjunct1 [OF 2] conjunct1 [OF conjunct2 [OF conjunct2 [OF 2]]] i(1) c'
      by (auto simp: ctx_ok_def image_Un insert_commute)
    have "sem_expr S E l = Some (tree d' i)" "sem_expr S E r = Some (tree d' j)"
      using 1 2 i(2) by simp_all
    with 3 AUnion st show ?thesis using 1 2 by (auto intro: dag_le_trans)
  next
    case (ASet sp f args rhs)
    with assms(2) obtain i P where
      e: "eval_props V rn (ECall Span_Panic f (args @ [rhs])) (ac_bindings c) d = Ok ((i, P), d')"
      and c': "c' = c\<lparr>ac_props := ac_props c \<union> P\<rparr>"
      by (auto simp: bind_o_eq_Ok simp del: eval_props.simps)
    have "sem_action S a (E, Q) = Some (E, Q \<union> expr_refl S E (ECall Span_Panic f (args @ [rhs])))"
      using ctx_ok_eval [OF assms(1) [unfolded st] e]
        expr_refl_span [of E sp f "args @ [rhs]" Span_Panic] ASet by simp
    with ctx_ok_eval [OF assms(1) [unfolded st] e] c' st show ?thesis by auto
  next
    case (AExpr sp e)
    with assms(2) obtain i P where e: "eval_props V rn e (ac_bindings c) d = Ok ((i, P), d')"
      and c': "c' = c\<lparr>ac_props := ac_props c \<union> P\<rparr>"
      by (auto simp: bind_o_eq_Ok)
    from ctx_ok_eval [OF assms(1) [unfolded st] e] c' AExpr st show ?thesis by auto
  qed (use assms st in auto)
qed

lemma fold_actions_spec:
  "ctx_ok c d st \<Longrightarrow> fold_out (process_action V rn) as (c, d) = Ok (c', d')
    \<Longrightarrow> \<exists>st'. sem_actions S as st = Some st' \<and> ctx_ok c' d' st' \<and> dag_le d d'"
proof (induction as arbitrary: c d st)
  case (Cons a as)
  then obtain c1 d1 where 1: "process_action V rn a (c, d) = Ok (c1, d1)"
    and 2: "fold_out (process_action V rn) as (c1, d1) = Ok (c', d')"
    by (auto simp: bind_o_eq_Ok)
  from process_action_spec [OF Cons.prems(1) 1] obtain st1 where
    3: "sem_action S a st = Some st1" "ctx_ok c1 d1 st1" "dag_le d d1" by blast
  from Cons.IH [OF 3(2) 2] 3 show ?case by (auto intro: dag_le_trans)
qed auto

text \<open>The bindings and equalities of a list of actions are those of the semantics.\<close>

lemma process_actions_spec:
  assumes "wf_dag d" "env_in d b" "process_actions V rn b as d = Ok (c, d')"
  shows "wf_dag d' \<and> dag_le d d' \<and> env_in d' (ac_bindings c) \<and> props_in d' (ac_props c)
    \<and> sem_actions S as (tenv_of d b, {}) = Some (tenv_of d' (ac_bindings c), tprop d' ` ac_props c)"
proof -
  have "ctx_ok \<lparr>ac_bindings = b, ac_props = {}\<rparr> d (tenv_of d b, {})"
    using assms by (simp add: ctx_ok_def)
  from fold_actions_spec [OF this assms(3) [unfolded process_actions_def]]
  show ?thesis by (auto simp: ctx_ok_def)
qed

end

end
