(* ===== verification/Prim_Validators.thy ===== *)
theory Prim_Validators
  imports Proof_Semantics "HOL-Library.Signed_Division"
begin

text \<open>
  The validators of the built-in primitives of the sorts \<open>i64\<close>, \<open>bool\<close> and \<open>String\<close>
  (\<open>src/sort/i64.rs\<close>, \<open>bool.rs\<close>, \<open>string.rs\<close>), the closure that \<open>add_literal_prim!\<close>
  generates for them (\<open>src/sort/add_primitive/src/lib.rs\<close>), and the two generic
  inequalities of \<open>src/lib.rs\<close>. The section ends with the interpretation of the
  validator contract on them.
\<close>

unbundle bit_operations_syntax

section \<open>The operations on i64\<close>

definition fits_i64 :: "int \<Rightarrow> bool" where
  "fits_i64 r \<longleftrightarrow> - (2 ^ 63) \<le> r \<and> r < 2 ^ 63"

definition checked_i64 :: "int \<Rightarrow> i64 option" where
  "checked_i64 r = (if fits_i64 r then Some (word_of_int r) else None)"

definition i64_shift_amount :: "i64 \<Rightarrow> nat option" where
  "i64_shift_amount b = (if 0 \<le> sint b \<and> sint b < 64 then Some (nat (sint b)) else None)"

fun ilog2 :: "nat \<Rightarrow> nat" where
  "ilog2 n = (if n < 2 then 0 else Suc (ilog2 (n div 2)))"

declare ilog2.simps [simp del]

text \<open>\<open>str::matches(..).count()\<close> and \<open>str::replace\<close>: matches do not overlap.\<close>

function count_matches :: "string \<Rightarrow> string \<Rightarrow> nat" where
  "count_matches a b =
     (if b = [] then Suc (char_count a)
      else if length a < length b then 0
      else if take (length b) a = b then Suc (count_matches (drop (length b) a) b)
      else count_matches (tl a) b)"
  by pat_completeness auto
termination
  by (relation "measure (\<lambda>(a, b). length a)") (auto simp: neq_Nil_conv Suc_le_eq not_less intro!: diff_less)

fun replace_empty :: "string \<Rightarrow> string \<Rightarrow> string" where
  "replace_empty [] c = c"
| "replace_empty (x # xs) c = (if is_continuation x then x # replace_empty xs c else c @ x # replace_empty xs c)"

function replace_str :: "string \<Rightarrow> string \<Rightarrow> string \<Rightarrow> string" where
  "replace_str a b c =
     (if b = [] then replace_empty a c
      else if length a < length b then a
      else if take (length b) a = b then c @ replace_str (drop (length b) a) b c
      else hd a # replace_str (tl a) b c)"
  by pat_completeness auto
termination
  by (relation "measure (\<lambda>(a, b, c). length a)") (auto simp: neq_Nil_conv Suc_le_eq not_less intro!: diff_less)

section \<open>The literal primitives\<close>

text \<open>
  A body gets the literals of the arguments; \<open>None\<close> is a panic: a literal of the wrong
  kind, or an operation that fails.
\<close>

type_synonym lit_body = "literal list \<Rightarrow> literal option"

fun on_i64 :: "(i64 \<Rightarrow> literal option) \<Rightarrow> lit_body" where
  "on_i64 f [LInt a] = f a"
| "on_i64 f _ = None"

fun on_i64_i64 :: "(i64 \<Rightarrow> i64 \<Rightarrow> literal option) \<Rightarrow> lit_body" where
  "on_i64_i64 f [LInt a, LInt b] = f a b"
| "on_i64_i64 f _ = None"

fun on_bool :: "(bool \<Rightarrow> literal option) \<Rightarrow> lit_body" where
  "on_bool f [LBool a] = f a"
| "on_bool f _ = None"

fun on_bool_bool :: "(bool \<Rightarrow> bool \<Rightarrow> literal option) \<Rightarrow> lit_body" where
  "on_bool_bool f [LBool a, LBool b] = f a b"
| "on_bool_bool f _ = None"

fun on_str_str :: "(string \<Rightarrow> string \<Rightarrow> literal option) \<Rightarrow> lit_body" where
  "on_str_str f [LString a, LString b] = f a b"
| "on_str_str f _ = None"

fun on_str3 :: "(string \<Rightarrow> string \<Rightarrow> string \<Rightarrow> literal option) \<Rightarrow> lit_body" where
  "on_str3 f [LString a, LString b, LString c] = f a b c"
| "on_str3 f _ = None"

definition lit_unit_if :: "bool \<Rightarrow> literal option" where
  "lit_unit_if b = (if b then Some LUnit else None)"

definition i64_binary :: "string \<Rightarrow> (i64 \<Rightarrow> i64 \<Rightarrow> literal option) option" where
  "i64_binary name =
     map_of
       [(''+'', \<lambda>a b. map_option LInt (checked_i64 (sint a + sint b))),
        (''-'', \<lambda>a b. map_option LInt (checked_i64 (sint a - sint b))),
        (''*'', \<lambda>a b. map_option LInt (checked_i64 (sint a * sint b))),
        (''/'', \<lambda>a b. if b = 0 then None else map_option LInt (checked_i64 (sint a sdiv sint b))),
        (''%'', \<lambda>a b. if b = 0 \<or> \<not> fits_i64 (sint a sdiv sint b) then None
                     else Some (LInt (word_of_int (sint a smod sint b)))),
        (''&'', \<lambda>a b. Some (LInt (a AND b))),
        (''|'', \<lambda>a b. Some (LInt (a OR b))),
        (''^'', \<lambda>a b. Some (LInt (a XOR b))),
        (''<<'', \<lambda>a b. map_option (\<lambda>n. LInt (push_bit n a)) (i64_shift_amount b)),
        (''>>'', \<lambda>a b. map_option (\<lambda>n. LInt (signed_drop_bit n a)) (i64_shift_amount b)),
        (''<'', \<lambda>a b. lit_unit_if (sint a < sint b)),
        (''>'', \<lambda>a b. lit_unit_if (sint a > sint b)),
        (''<='', \<lambda>a b. lit_unit_if (sint a \<le> sint b)),
        (''>='', \<lambda>a b. lit_unit_if (sint a \<ge> sint b)),
        (''bool-='', \<lambda>a b. Some (LBool (a = b))),
        (''bool-<'', \<lambda>a b. Some (LBool (sint a < sint b))),
        (''bool->'', \<lambda>a b. Some (LBool (sint a > sint b))),
        (''bool-<='', \<lambda>a b. Some (LBool (sint a \<le> sint b))),
        (''bool->='', \<lambda>a b. Some (LBool (sint a \<ge> sint b))),
        (''min'', \<lambda>a b. Some (LInt (if sint b < sint a then b else a))),
        (''max'', \<lambda>a b. Some (LInt (if sint b < sint a then a else b)))] name"

definition i64_unary :: "string \<Rightarrow> (i64 \<Rightarrow> literal option) option" where
  "i64_unary name =
     map_of
       [(''not-i64'', \<lambda>a. Some (LInt (NOT a))),
        (''log2'', \<lambda>a. if 0 < sint a then Some (LInt (word_of_nat (ilog2 (nat (sint a))))) else None),
        (''abs'', \<lambda>a. map_option LInt (checked_i64 \<bar>sint a\<bar>)),
        (''to-string'', \<lambda>a. Some (LString (int_to_string (sint a))))] name"

definition bool_binary :: "string \<Rightarrow> (bool \<Rightarrow> bool \<Rightarrow> literal option) option" where
  "bool_binary name =
     map_of
       [(''and'', \<lambda>a b. Some (LBool (a \<and> b))),
        (''xor'', \<lambda>a b. Some (LBool (a \<noteq> b))),
        (''=>'', \<lambda>a b. Some (LBool (\<not> a \<or> b)))] name"

definition bool_unary :: "string \<Rightarrow> (bool \<Rightarrow> literal option) option" where
  "bool_unary name =
     map_of
       [(''not'', \<lambda>a. Some (LBool (\<not> a))),
        (''guard'', \<lambda>a. lit_unit_if a)] name"

text \<open>The body registered under a name for the given sorts, with its number of arguments.\<close>

definition literal_prim :: "string \<Rightarrow> string list \<Rightarrow> (nat \<times> lit_body) option" where
  "literal_prim name sorts =
     (if sorts = [''i64'', ''i64''] then map_option (\<lambda>f. (2, on_i64_i64 f)) (i64_binary name)
      else if sorts = [''i64''] then map_option (\<lambda>f. (1, on_i64 f)) (i64_unary name)
      else if sorts = [''bool'', ''bool''] then map_option (\<lambda>f. (2, on_bool_bool f)) (bool_binary name)
      else if sorts = [''bool''] then map_option (\<lambda>f. (1, on_bool f)) (bool_unary name)
      else if name = ''count-matches'' \<and> sorts = [''String'', ''String'']
      then Some (2, on_str_str (\<lambda>a b. Some (LInt (word_of_nat (count_matches a b)))))
      else if name = ''replace'' \<and> sorts = [''String'', ''String'', ''String'']
      then Some (3, on_str3 (\<lambda>a b c. Some (LString (replace_str a b c))))
      else None)"

section \<open>Validators\<close>

definition arg_literal :: "termdag \<Rightarrow> nat \<Rightarrow> literal option" where
  "arg_literal d a = (case dag_get d a of Some (TLit l) \<Rightarrow> Some l | _ \<Rightarrow> None)"

text \<open>The closure \<open>add_literal_prim!\<close> generates: every failure is a panic.\<close>

definition literal_validator :: "nat \<Rightarrow> lit_body \<Rightarrow> validator" where
  "literal_validator n body d args =
     (if length args < n then None
      else case those (map (arg_literal d) (take n args)) of
        None \<Rightarrow> None
      | Some ls \<Rightarrow>
          (case body ls of
             None \<Rightarrow> None
           | Some l \<Rightarrow> (let (i, d1) = dag_lit l d in Some (Some i, d1))))"

text \<open>
  The hand-written validators return \<open>None\<close> on a term that is not a literal of the sort.
  Here the outer \<open>None\<close> is the panic of \<open>get\<close> on an id out of range.
\<close>

fun or_validator_loop :: "termdag \<Rightarrow> nat list \<Rightarrow> bool \<Rightarrow> bool option option" where
  "or_validator_loop d [] r = Some (Some r)"
| "or_validator_loop d (a # as) r =
     (case dag_get d a of
        None \<Rightarrow> None
      | Some (TLit (LBool b)) \<Rightarrow> or_validator_loop d as (r \<or> b)
      | Some _ \<Rightarrow> Some None)"

definition or_validator :: validator where
  "or_validator d args =
     (case or_validator_loop d args False of
        None \<Rightarrow> None
      | Some None \<Rightarrow> Some (None, d)
      | Some (Some r) \<Rightarrow> (let (i, d1) = dag_lit (LBool r) d in Some (Some i, d1)))"

fun concat_validator_loop :: "termdag \<Rightarrow> nat list \<Rightarrow> string \<Rightarrow> string option option" where
  "concat_validator_loop d [] r = Some (Some r)"
| "concat_validator_loop d (a # as) r =
     (case dag_get d a of
        None \<Rightarrow> None
      | Some (TLit (LString s)) \<Rightarrow> concat_validator_loop d as (r @ s)
      | Some _ \<Rightarrow> Some None)"

definition string_concat_validator :: validator where
  "string_concat_validator d args =
     (case concat_validator_loop d args [] of
        None \<Rightarrow> None
      | Some None \<Rightarrow> Some (None, d)
      | Some (Some r) \<Rightarrow> (let (i, d1) = dag_lit (LString r) d in Some (Some i, d1)))"

definition neq_validator :: validator where
  "neq_validator d args =
     (case args of
        [a, b] \<Rightarrow> (if a \<noteq> b then (let (i, d1) = dag_lit LUnit d in Some (Some i, d1)) else Some (None, d))
      | _ \<Rightarrow> Some (None, d))"

definition bool_neq_validator :: validator where
  "bool_neq_validator d args =
     (case args of
        [a, b] \<Rightarrow> (let (i, d1) = dag_lit (LBool (a \<noteq> b)) d in Some (Some i, d1))
      | _ \<Rightarrow> Some (None, d))"

definition builtin_validator :: validators where
  "builtin_validator p =
     (let name = prim_name p; ins = map sort_name (prim_input p) in
      if name = ''!='' then Some neq_validator
      else if name = ''bool-!='' then Some bool_neq_validator
      else if name = ''or'' then Some or_validator
      else if name = ''+'' \<and> sort_name (prim_output p) = ''String'' then Some string_concat_validator
      else map_option (\<lambda>(n, body). literal_validator n body) (literal_prim name ins))"

section \<open>The meaning of the built-in primitives\<close>

fun tm_literal :: "tm \<Rightarrow> literal option" where
  "tm_literal (GLit l) = Some l"
| "tm_literal _ = None"

fun lit_bool :: "literal \<Rightarrow> bool option" where
  "lit_bool (LBool b) = Some b"
| "lit_bool _ = None"

fun lit_str :: "literal \<Rightarrow> string option" where
  "lit_str (LString s) = Some s"
| "lit_str _ = None"

definition builtin_sem :: prim_sem where
  "builtin_sem p ts =
     (let name = prim_name p in
      if name = ''!='' then
        (case ts of [s, t] \<Rightarrow> if s \<noteq> t then Some (GLit LUnit) else None | _ \<Rightarrow> None)
      else if name = ''bool-!='' then
        (case ts of [s, t] \<Rightarrow> Some (GLit (LBool (s \<noteq> t))) | _ \<Rightarrow> None)
      else if name = ''or'' then
        map_option (\<lambda>bs. GLit (LBool (True \<in> set bs))) (those (map (\<lambda>t. Option.bind (tm_literal t) lit_bool) ts))
      else if name = ''+'' \<and> sort_name (prim_output p) = ''String'' then
        map_option (\<lambda>ss. GLit (LString (concat ss))) (those (map (\<lambda>t. Option.bind (tm_literal t) lit_str) ts))
      else
        (case literal_prim name (map sort_name (prim_input p)) of
           None \<Rightarrow> None
         | Some (n, body) \<Rightarrow>
             Option.bind (those (map tm_literal (take n ts))) (\<lambda>ls. map_option GLit (body ls))))"

section \<open>The contract holds\<close>

lemma arg_literal_tree:
  "wf_dag d \<Longrightarrow> a < length (nodes d) \<Longrightarrow> arg_literal d a = tm_literal (tree d a)"
  by (cases "nodes d ! a") (simp_all add: arg_literal_def dag_get_def tree_node)

lemma literal_validator_sound:
  assumes "wf_dag d" "\<forall>a \<in> set args. a < length (nodes d)" "literal_validator n body d args = Some (Some i, d')"
  shows "wf_dag d' \<and> dag_le d d' \<and> i < length (nodes d')
    \<and> Option.bind (those (map tm_literal (take n (map (tree d) args)))) (\<lambda>ls. map_option GLit (body ls))
        = Some (tree d' i)"
proof -
  obtain ls l where ls: "those (map (arg_literal d) (take n args)) = Some ls" "body ls = Some l"
    and i: "dag_lit l d = (i, d')"
    using assms(3) by (auto simp: literal_validator_def Let_def split: if_splits option.splits prod.splits)
  have "map tm_literal (take n (map (tree d) args)) = map (arg_literal d) (take n args)"
    using assms(1,2) arg_literal_tree [OF assms(1)] by (auto simp: take_map dest: in_set_takeD)
  with ls dag_lit_spec [OF assms(1) i] show ?thesis by simp
qed

lemma or_validator_loop_spec:
  "wf_dag d \<Longrightarrow> \<forall>a \<in> set args. a < length (nodes d) \<Longrightarrow> or_validator_loop d args r = Some (Some r')
    \<Longrightarrow> \<exists>bs. those (map (\<lambda>t. Option.bind (tm_literal t) lit_bool) (map (tree d) args)) = Some bs
      \<and> r' = (r \<or> True \<in> set bs)"
proof (induction args arbitrary: r)
  case (Cons a args)
  then obtain b where b: "nodes d ! a = TLit (LBool b)" "or_validator_loop d args (r \<or> b) = Some (Some r')"
    by (auto simp: dag_get_def split: dterm.splits literal.splits)
  from Cons.IH [OF Cons.prems(1) _ b(2)] Cons.prems b(1) show ?case
    by (auto simp: tree_lit)
qed simp

lemma concat_validator_loop_spec:
  "wf_dag d \<Longrightarrow> \<forall>a \<in> set args. a < length (nodes d) \<Longrightarrow> concat_validator_loop d args r = Some (Some r')
    \<Longrightarrow> \<exists>ss. those (map (\<lambda>t. Option.bind (tm_literal t) lit_str) (map (tree d) args)) = Some ss
      \<and> r' = r @ concat ss"
proof (induction args arbitrary: r)
  case (Cons a args)
  then obtain s where s: "nodes d ! a = TLit (LString s)" "concat_validator_loop d args (r @ s) = Some (Some r')"
    by (auto simp: dag_get_def split: dterm.splits literal.splits)
  from Cons.IH [OF Cons.prems(1) _ s(2)] Cons.prems s(1) show ?case
    by (auto simp: tree_lit)
qed simp

text \<open>Inequality of ids is inequality of trees, because sharing is maximal.\<close>

lemma ids_neq: "wf_dag d \<Longrightarrow> a < length (nodes d) \<Longrightarrow> b < length (nodes d) \<Longrightarrow> a \<noteq> b \<longleftrightarrow> tree d a \<noteq> tree d b"
  using tree_inj by blast

lemma builtin_sound:
  assumes V: "builtin_validator p = Some v" and d: "wf_dag d" "\<forall>a \<in> set args. a < length (nodes d)"
    and v: "v d args = Some (Some i, d')"
  shows "wf_dag d' \<and> dag_le d d' \<and> i < length (nodes d') \<and> builtin_sem p (map (tree d) args) = Some (tree d' i)"
proof -
  consider (neq) "prim_name p = ''!=''" "v = neq_validator"
    | (bneq) "prim_name p = ''bool-!=''" "v = bool_neq_validator"
    | (or) "prim_name p = ''or''" "v = or_validator"
    | (cat) "prim_name p = ''+''" "sort_name (prim_output p) = ''String''" "v = string_concat_validator"
    | (lit) n body where "prim_name p \<noteq> ''!=''" "prim_name p \<noteq> ''bool-!=''" "prim_name p \<noteq> ''or''"
        "\<not> (prim_name p = ''+'' \<and> sort_name (prim_output p) = ''String'')"
        "literal_prim (prim_name p) (map sort_name (prim_input p)) = Some (n, body)" "v = literal_validator n body"
    using V by (auto simp: builtin_validator_def Let_def split: if_splits)
  then show ?thesis
  proof cases
    case neq
    then obtain a b where ab: "args = [a, b]" "a \<noteq> b" "dag_lit LUnit d = (i, d')"
      using v by (auto simp: neq_validator_def Let_def split: list.splits if_splits prod.splits)
    with dag_lit_spec [OF d(1) ab(3)] neq d ids_neq [of d a b] show ?thesis by (simp add: builtin_sem_def)
  next
    case bneq
    then obtain a b where ab: "args = [a, b]" "dag_lit (LBool (a \<noteq> b)) d = (i, d')"
      using v by (auto simp: bool_neq_validator_def Let_def split: list.splits prod.splits)
    with dag_lit_spec [OF d(1) ab(2)] bneq d ids_neq [of d a b] show ?thesis by (simp add: builtin_sem_def)
  next
    case or
    then obtain r where r: "or_validator_loop d args False = Some (Some r)" "dag_lit (LBool r) d = (i, d')"
      using v by (auto simp: or_validator_def Let_def split: option.splits prod.splits)
    with dag_lit_spec [OF d(1) r(2)] or_validator_loop_spec [OF d r(1)] or show ?thesis
      by (auto simp: builtin_sem_def)
  next
    case cat
    then obtain r where r: "concat_validator_loop d args [] = Some (Some r)" "dag_lit (LString r) d = (i, d')"
      using v by (auto simp: string_concat_validator_def Let_def split: option.splits prod.splits)
    with dag_lit_spec [OF d(1) r(2)] concat_validator_loop_spec [OF d r(1)] cat show ?thesis
      by (auto simp: builtin_sem_def)
  next
    case lit
    with literal_validator_sound [OF d v [unfolded lit(6)]] show ?thesis
      by (auto simp: builtin_sem_def Let_def)
  qed
qed

interpretation builtin: validator_contract builtin_validator builtin_sem
  by unfold_locales (rule builtin_sound)

section \<open>Properties\<close>

lemma checked_i64_iff: "checked_i64 r = Some c \<longleftrightarrow> sint c = r"
proof
  assume "checked_i64 r = Some c"
  then have c: "c = word_of_int r" "- (2 ^ 63) \<le> r" "r < 2 ^ 63"
    by (auto simp: checked_i64_def fits_i64_def split: if_splits)
  then show "sint c = r" by (simp add: signed_of_int signed_take_bit_int_eq_self)
next
  assume "sint c = r"
  moreover have "- (2 ^ 63) \<le> sint c" "sint c < 2 ^ 63"
    using sint_ge [of c] sint_lt [of c] by simp_all
  ultimately show "checked_i64 r = Some c"
    by (auto simp: checked_i64_def fits_i64_def)
qed


text \<open>
  C30: the validators of the built-in primitives are sound: an id they return stands for
  the value of the primitive on the argument trees, and the store only grows. The two
  inequalities compare ids, which is right because sharing is maximal.
\<close>

theorem builtin_validators_sound:
  assumes "builtin_validator p = Some v" "wf_dag d" "\<forall>a \<in> set args. a < length (nodes d)"
    and "v d args = Some (Some i, d')"
  shows "wf_dag d' \<and> dag_le d d' \<and> i < length (nodes d')
    \<and> builtin_sem p (map (tree d) args) = Some (tree d' i)"
  by (rule builtin_sound [OF assms])

definition neq_prim :: prim where
  "neq_prim = \<lparr>prim_name = ''!='', prim_ids = [], prim_input = [], prim_output = lit_sort LUnit\<rparr>"

theorem builtin_validators_sound_witness:
  "wf_dag \<lparr>nodes = [TVar ''x'', TVar ''y'', TLit LUnit]\<rparr>
    \<and> dag_le \<lparr>nodes = [TVar ''x'', TVar ''y'']\<rparr> \<lparr>nodes = [TVar ''x'', TVar ''y'', TLit LUnit]\<rparr>
    \<and> 2 < length (nodes \<lparr>nodes = [TVar ''x'', TVar ''y'', TLit LUnit]\<rparr>)
    \<and> builtin_sem neq_prim (map (tree \<lparr>nodes = [TVar ''x'', TVar ''y'']\<rparr>) [0, 1])
        = Some (tree \<lparr>nodes = [TVar ''x'', TVar ''y'', TLit LUnit]\<rparr> 2)"
  by (rule builtin_validators_sound [of neq_prim neq_validator])
    (auto simp: builtin_validator_def neq_prim_def neq_validator_def wf_dag_def dag_lit_def add_node_def
      nth_Cons split: nat.split)

end
