(* ===== verification/Proof_Soundness.thy ===== *)
theory Proof_Soundness
  imports Proof_Semantics Proof_Checker
begin

text \<open>
  The proof checker is sound: a proposition it accepts is derivable, on trees, by the
  rules of \<open>derivable\<close>, whose premises speak of the program only. \<open>derivable\<close> is the
  specification of what an egglog proof may conclude; it knows nothing of ids, caches,
  stores or substitutions found in a proof.
\<close>

section \<open>What is derivable\<close>

text \<open>The equation a body fact stands for under an environment.\<close>

definition fact_inst :: "prim_sem \<Rightarrow> tenv \<Rightarrow> rfact \<Rightarrow> tm \<Rightarrow> tm \<Rightarrow> bool" where
  "fact_inst S env x s t \<longleftrightarrow>
     (case x of
        FFact e \<Rightarrow> sem_expr S env e = Some t
      | FEq sp l r \<Rightarrow>
          (case (l, r) of
             (ECall sp2 (RFunc f) args, EVar sp3 v) \<Rightarrow>
               if ft_subtype f = Custom
               then s = t \<and> (case (those (map (sem_expr S env) args), env (rv_name v)) of
                  (Some ts, Some w) \<Rightarrow> t = GApp (ft_name f) (ts @ [w])
                | _ \<Rightarrow> False)
               else sem_expr S env l = Some s \<and> sem_expr S env r = Some t
           | _ \<Rightarrow> sem_expr S env l = Some s \<and> sem_expr S env r = Some t))"

definition merge_expr :: "rncommand list \<Rightarrow> string \<Rightarrow> rexpr option" where
  "merge_expr prog f =
     (case first_some (named_function f) prog of None \<Rightarrow> None | Some fd \<Rightarrow> fd_merge fd)"

inductive derivable :: "prim_sem \<Rightarrow> rncommand list \<Rightarrow> tm \<Rightarrow> tm \<Rightarrow> bool" for S prog where
  Literal: "derivable S prog (GLit l) (GLit l)"
| Global: "sem_actions S (gather_global_actions prog) (Map.empty, {}) = Some (G, Q) \<Longrightarrow> (s, t) \<in> Q
    \<Longrightarrow> derivable S prog s t"
| Rule: "sem_actions S (gather_global_actions prog) (Map.empty, {}) = Some (G, Q)
    \<Longrightarrow> NNormRule r \<in> set prog
    \<Longrightarrow> \<forall>x \<in> set (rule_body r). \<exists>u w. fact_inst S (G ++ \<sigma>) x u w \<and> derivable S prog u w
    \<Longrightarrow> sem_actions S (rule_head r) (G ++ \<sigma>, {}) = Some (E, H) \<Longrightarrow> (s, t) \<in> H
    \<Longrightarrow> derivable S prog s t"
| Merge: "merge_expr prog f = Some e
    \<Longrightarrow> derivable S prog (GApp g (ins @ [old])) (GApp g (ins @ [old]))
    \<Longrightarrow> derivable S prog (GApp g (ins @ [new])) (GApp g (ins @ [new]))
    \<Longrightarrow> sem_expr S [''old'' \<mapsto> old, ''new'' \<mapsto> new] e = Some m
    \<Longrightarrow> (s, t) \<in> insert (GApp g (ins @ [m]), GApp g (ins @ [m])) (expr_refl S [''old'' \<mapsto> old, ''new'' \<mapsto> new] e)
    \<Longrightarrow> derivable S prog s t"
| Trans: "derivable S prog s u \<Longrightarrow> derivable S prog u t \<Longrightarrow> derivable S prog s t"
| Sym: "derivable S prog s t \<Longrightarrow> derivable S prog t s"
| Congr: "derivable S prog s (GApp f ts) \<Longrightarrow> k < length ts \<Longrightarrow> derivable S prog (ts ! k) u
    \<Longrightarrow> derivable S prog s (GApp f (ts[k := u]))"

section \<open>Stores\<close>

definition node_in :: "termdag \<Rightarrow> proof_node \<Rightarrow> bool" where
  "node_in d p \<longleftrightarrow> pf_lhs p < length (nodes d) \<and> pf_rhs p < length (nodes d)
     \<and> (case pf_just p of JRule name ps sub \<Rightarrow> env_in d (map_of sub) | _ \<Rightarrow> True)"

definition store_wf :: "proof_store \<Rightarrow> bool" where
  "store_wf s \<longleftrightarrow> wf_dag (ps_dag s) \<and> (\<forall>p \<in> set (ps_proofs s). node_in (ps_dag s) p)"

lemma node_in_le: "dag_le d d' \<Longrightarrow> node_in d p \<Longrightarrow> node_in d' p"
  by (auto simp: node_in_def split: justification.splits
      dest: dag_le_length env_in_le)

lemma store_node: "store_wf s \<Longrightarrow> i < length (ps_proofs s) \<Longrightarrow> node_in (ps_dag s) (ps_proofs s ! i)"
  by (simp add: store_wf_def)

declare check_step_def [simp]

lemma pf_prop_eta: "mk_prop (pf_lhs p) (pf_rhs p) = pf_prop p"
  by (simp add: pf_lhs_def pf_rhs_def)

context validator_contract
begin

section \<open>Facts and rule heads\<close>

definition term_ok :: "bindings \<Rightarrow> rexpr \<Rightarrow> nat \<Rightarrow> termdag \<Rightarrow> bool" where
  "term_ok b e i d \<longleftrightarrow> env_in d b \<and> i < length (nodes d) \<and> sem_expr S (tenv_of d b) e = Some (tree d i)"

lemma term_ok_le: "wf_dag d \<Longrightarrow> dag_le d d' \<Longrightarrow> term_ok b e i d \<Longrightarrow> term_ok b e i d'"
  unfolding term_ok_def
  using dag_le_length [of d d'] tenv_le [of d d' b] tree_le [of d d' i] env_in_le [of d d' b] by auto

lemma term_args:
  assumes step: "\<And>a d i d'. a \<in> set args \<Longrightarrow> wf_dag d \<Longrightarrow> env_in d b \<Longrightarrow> eval_term V rn a b d = Ok (i, d')
      \<Longrightarrow> wf_dag d' \<and> dag_le d d' \<and> term_ok b a i d'"
    and "wf_dag d" "env_in d b" "map_out (\<lambda>a d. eval_term V rn a b d) args d = Ok (is, d')"
  shows "wf_dag d' \<and> env_in d' b \<and> dag_le d d' \<and> (\<forall>i \<in> set is. i < length (nodes d'))
    \<and> those (map (sem_expr S (tenv_of d' b)) args) = Some (map (tree d') is)"
proof -
  have inv: "(wf_dag d' \<and> env_in d' b) \<and> dag_le d d' \<and> list_all2 (\<lambda>a i. term_ok b a i d') args is"
  proof (rule map_out_invariant [where I = "\<lambda>d. wf_dag d \<and> env_in d b" and le = dag_le
        and P = "\<lambda>a i d. term_ok b a i d", OF assms(4)])
    show "\<And>x s y s'. x \<in> set args \<Longrightarrow> wf_dag s \<and> env_in s b \<Longrightarrow> eval_term V rn x b s = Ok (y, s') \<Longrightarrow>
        (wf_dag s' \<and> env_in s' b) \<and> dag_le s s' \<and> term_ok b x y s'"
      using step env_in_le by blast
  qed (use assms in \<open>auto intro: dag_le_trans term_ok_le\<close>)
  then have all: "list_all2 (\<lambda>a i. term_ok b a i d') args is" by simp
  then have "list_all2 (\<lambda>a i. sem_expr S (tenv_of d' b) a = Some (tree d' i)) args is"
    by (rule list_all2_mono) (simp add: term_ok_def)
  from those_list_all2 [OF this]
  have "those (map (sem_expr S (tenv_of d' b)) args) = Some (map (tree d') is)" .
  moreover have "\<forall>i \<in> set is. i < length (nodes d')"
    using all by (induction args "is" rule: list_all2_induct) (auto simp: term_ok_def)
  ultimately show ?thesis using inv by blast
qed

lemma term_call:
  assumes d1: "wf_dag d1" "env_in d1 b" "dag_le d d1"
    and args: "those (map (sem_expr S (tenv_of d1 b)) args) = Some ts"
    and call: "wf_dag d2" "dag_le d1 d2" "i < length (nodes d2)"
      "(case h of RFunc f \<Rightarrow> Some (GApp (ft_name f) ts) | RPrim p \<Rightarrow> S p ts | RValues ss \<Rightarrow> None) = Some (tree d2 i)"
  shows "wf_dag d2 \<and> dag_le d d2 \<and> term_ok b (ECall sp h args) i d2"
proof -
  have "tenv_of d2 b = tenv_of d1 b" using tenv_le d1 call by blast
  with assms show ?thesis by (auto simp: term_ok_def intro: dag_le_trans env_in_le)
qed

lemma eval_term_spec:
  "wf_dag d \<Longrightarrow> env_in d b \<Longrightarrow> eval_term V rn e b d = Ok (i, d')
     \<Longrightarrow> wf_dag d' \<and> dag_le d d' \<and> term_ok b e i d'"
proof (induction e arbitrary: d i d')
  case (ELit sp l)
  then have "dag_lit l d = (i, d')" by simp
  from dag_lit_spec [OF ELit.prems(1) this] ELit.prems(2) show ?case
    by (auto simp: term_ok_def intro: env_in_le)
next
  case (EVar sp v)
  then show ?case by (auto simp: outcome_simps term_ok_def tenv_of_def env_in_def)
next
  case (ECall sp h args)
  have step: "wf_dag d' \<and> dag_le d d' \<and> term_ok b a i d'"
    if "a \<in> set args" "wf_dag d" "env_in d b" "eval_term V rn a b d = Ok (i, d')" for a d i d'
    using ECall.IH that by blast
  from ECall.prems(3) obtain "is" d1 where m: "map_out (\<lambda>a d. eval_term V rn a b d) args d = Ok (is, d1)"
    by (auto simp: bind_o_eq_Ok)
  have e: "wf_dag d1 \<and> env_in d1 b \<and> dag_le d d1 \<and> (\<forall>i \<in> set is. i < length (nodes d1))
    \<and> those (map (sem_expr S (tenv_of d1 b)) args) = Some (map (tree d1) is)"
    by (rule term_args [OF step ECall.prems(1,2) m])
  have wf: "wf_dag d1" "\<forall>i \<in> set is. i < length (nodes d1)" using e by blast+
  have "wf_dag d' \<and> dag_le d1 d' \<and> i < length (nodes d') \<and>
    (case h of RFunc f \<Rightarrow> Some (GApp (ft_name f) (map (tree d1) is)) | RPrim p \<Rightarrow> S p (map (tree d1) is)
      | RValues ss \<Rightarrow> None) = Some (tree d' i)"
  proof (cases h)
    case (RFunc f)
    with ECall.prems(3) m have "dag_app (ft_name f) is d1 = (i, d')"
      by (simp split: function_subtype.splits)
    from dag_app_spec [OF wf this] RFunc show ?thesis by simp
  next
    case (RPrim p)
    with ECall.prems(3) m obtain v where "V p = Some v" "run_validator v p is d1 = Ok (i, d')"
      by (auto split: option.splits)
    from run_validator_spec [OF this(1) wf this(2)] RPrim show ?thesis by simp
  qed (use ECall.prems m in simp)
  then show ?case using e by (intro term_call [of d1]) auto
qed

text \<open>A fact the checker accepts for a proposition is an instance that the proposition proves.\<close>

lemma check_equality_fact_spec:
  assumes "wf_dag d" "env_in d b" "p_lhs q < length (nodes d)" "p_rhs q < length (nodes d)"
    and "check_equality_fact V rn l r q b d = Ok d'"
  shows "wf_dag d' \<and> dag_le d d' \<and> sem_expr S (tenv_of d b) l = Some (fst (tprop d q))
    \<and> sem_expr S (tenv_of d b) r = Some (snd (tprop d q))"
proof -
  obtain d1 where l: "eval_term V rn l b d = Ok (p_lhs q, d1)"
    and r: "eval_term V rn r b d1 = Ok (p_rhs q, d')"
    using assms(5) by (auto simp: check_equality_fact_def bind_o_eq_Ok split: if_splits)
  note 1 = eval_term_spec [OF assms(1,2) l]
  have d1: "wf_dag d1" "dag_le d d1" "env_in d1 b" using 1 by (auto simp: term_ok_def)
  note 2 = eval_term_spec [OF d1(1,3) r]
  have d2: "wf_dag d'" "dag_le d d'" using 2 d1 dag_le_trans by blast+
  have "term_ok b l (p_lhs q) d'" using term_ok_le [OF d1(1)] 1 2 by blast
  moreover have "term_ok b r (p_rhs q) d'" using 2 by blast
  moreover have "tenv_of d' b = tenv_of d b" using tenv_le [OF assms(1) d2(2) assms(2)] .
  moreover have "tree d' (p_lhs q) = tree d (p_lhs q)" "tree d' (p_rhs q) = tree d (p_rhs q)"
    using tree_le [OF assms(1) d2(2)] assms(3,4) by blast+
  ultimately show ?thesis using d2 by (simp add: term_ok_def tprop_def)
qed

lemma check_function_fact_spec:
  assumes "wf_dag d" "env_in d b" "p_lhs q < length (nodes d)" "p_rhs q < length (nodes d)"
    and "check_function_fact V rn f args v q b d = Ok d'"
  shows "wf_dag d' \<and> dag_le d d' \<and> (\<exists>ts w. those (map (sem_expr S (tenv_of d b)) args) = Some ts
     \<and> tenv_of d b v = Some w \<and> tprop d q = (GApp f (ts @ [w]), GApp f (ts @ [w])))"
proof -
  obtain vt "is" d1 where v: "b v = Some vt"
    and m: "map_out (\<lambda>a d. eval_term V rn a b d) args d = Ok (is, d1)"
    and c: "(let (t, d2) = dag_app f (is @ [vt]) d1 in
        if p_lhs q \<noteq> t \<or> p_rhs q \<noteq> t then Err (FunctionFactMismatch rn t (p_lhs q) (p_rhs q))
        else Ok d2) = Ok d'"
    using assms(5) by (auto simp: check_function_fact_def bind_o_eq_Ok opt_o_Err_Ok)
  obtain t where t: "dag_app f (is @ [vt]) d1 = (t, d')" "p_lhs q = t" "p_rhs q = t"
    using c by (cases "dag_app f (is @ [vt]) d1") (auto split: if_splits)
  have e: "wf_dag d1 \<and> env_in d1 b \<and> dag_le d d1 \<and> (\<forall>i \<in> set is. i < length (nodes d1))
    \<and> those (map (sem_expr S (tenv_of d1 b)) args) = Some (map (tree d1) is)"
    by (rule term_args [OF _ assms(1,2) m]) (rule eval_term_spec)
  have wf: "wf_dag d1" and le: "dag_le d d1" using e by blast+
  have vt: "vt < length (nodes d1)" using e v by (auto simp: env_in_def)
  have lt: "\<forall>i \<in> set (is @ [vt]). i < length (nodes d1)" using e vt by auto
  from dag_app_spec [OF wf lt t(1)]
  have a: "wf_dag d'" "dag_le d1 d'" "tree d' t = GApp f (map (tree d1) is @ [tree d1 vt])" by auto
  have d': "dag_le d d'" using dag_le_trans [OF le a(2)] .
  have env: "tenv_of d1 b = tenv_of d b" using tenv_le [OF assms(1) le assms(2)] .
  have "tree d t = tree d' t" using tree_le [OF assms(1) d'] assms(3) t(2) by simp
  moreover have "tenv_of d b v = Some (tree d1 vt)"
    unfolding env [symmetric] using v by (simp add: tenv_of_def)
  ultimately show ?thesis
    using e a d' t env by (auto simp: tprop_def)
qed

lemma check_fact_spec:
  assumes "wf_dag d" "env_in d b" "p_lhs q < length (nodes d)" "p_rhs q < length (nodes d)"
    and "check_fact V x q b rn d = Ok d'"
  shows "wf_dag d' \<and> dag_le d d' \<and> fact_inst S (tenv_of d b) x (fst (tprop d q)) (snd (tprop d q))"
proof (cases x)
  case (FFact e)
  with assms(5) have e: "eval_term V rn e b d = Ok (p_rhs q, d')"
    by (auto simp: check_fact_def bind_o_eq_Ok split: if_splits)
  note 1 = eval_term_spec [OF assms(1,2) e]
  have le: "dag_le d d'" using 1 by blast
  have "tree d' (p_rhs q) = tree d (p_rhs q)" using tree_le [OF assms(1) le assms(4)] .
  moreover have "tenv_of d' b = tenv_of d b" using tenv_le [OF assms(1) le assms(2)] .
  ultimately show ?thesis using 1 FFact by (simp add: fact_inst_def term_ok_def tprop_def)
next
  case (FEq sp l r)
  show ?thesis
  proof (cases "\<exists>sp2 f args sp3 v. l = ECall sp2 (RFunc f) args \<and> r = EVar sp3 v \<and> ft_subtype f = Custom")
    case True
    then obtain sp2 f args sp3 v where lr: "l = ECall sp2 (RFunc f) args" "r = EVar sp3 v" "ft_subtype f = Custom"
      by blast
    with assms(5) FEq have "check_function_fact V rn (ft_name f) args (rv_name v) q b d = Ok d'"
      by (simp add: check_fact_def)
    from check_function_fact_spec [OF assms(1-4) this] show ?thesis
      using FEq lr by (auto simp: fact_inst_def)
  next
    case False
    then have "check_equality_fact V rn l r q b d = Ok d'"
      using assms(5) FEq
      by (auto simp: check_fact_def split: expr.splits resolved_call.splits if_splits)
    from check_equality_fact_spec [OF assms(1-4) this] show ?thesis
      using FEq False
      by (auto simp: fact_inst_def simp del: sem_expr.simps split: expr.splits resolved_call.splits)
  qed
qed

end

section \<open>The checker keeps its invariant\<close>

context validator_contract
begin

definition holds :: "rncommand list \<Rightarrow> termdag \<Rightarrow> propn \<Rightarrow> bool" where
  "holds prog d p \<longleftrightarrow> derivable S prog (fst (tprop d p)) (snd (tprop d p))"

definition prop_in :: "termdag \<Rightarrow> propn \<Rightarrow> bool" where
  "prop_in d p \<longleftrightarrow> p_lhs p < length (nodes d) \<and> p_rhs p < length (nodes d)"

lemma holds_le: "wf_dag d \<Longrightarrow> dag_le d d' \<Longrightarrow> prop_in d p \<Longrightarrow> holds prog d' p = holds prog d p"
  unfolding holds_def prop_in_def using tprop_le [of d d' p] by simp

lemma prop_in_le: "dag_le d d' \<Longrightarrow> prop_in d p \<Longrightarrow> prop_in d' p"
  unfolding prop_in_def by (drule dag_le_length) simp

lemma node_prop_in: "node_in d p \<Longrightarrow> prop_in d (pf_prop p)"
  by (simp add: node_in_def prop_in_def pf_lhs_def pf_rhs_def)

definition globals_ok :: "rncommand list \<Rightarrow> termdag \<Rightarrow> check_ctx \<Rightarrow> bool" where
  "globals_ok prog d c \<longleftrightarrow> env_in d (ck_bindings c) \<and> props_in d (ck_equalities c)
     \<and> sem_actions S (gather_global_actions prog) (Map.empty, {})
       = Some (tenv_of d (ck_bindings c), tprop d ` ck_equalities c)"

definition proved :: "rncommand list \<Rightarrow> proof_store \<Rightarrow> nat \<Rightarrow> propn \<Rightarrow> bool" where
  "proved prog s i p \<longleftrightarrow> i < length (ps_proofs s) \<and> p = pf_prop (ps_proofs s ! i) \<and> holds prog (ps_dag s) p"

definition check_inv :: "rncommand list \<Rightarrow> check_state \<Rightarrow> bool" where
  "check_inv prog st \<longleftrightarrow> store_wf (fst st) \<and> globals_ok prog (ps_dag (fst st)) (snd st)
     \<and> (\<forall>i p. ck_checked (snd st) i = Some p \<longrightarrow> proved prog (fst st) i p)"

definition st_le :: "check_state \<Rightarrow> check_state \<Rightarrow> bool" where
  "st_le st st' \<longleftrightarrow> dag_le (ps_dag (fst st)) (ps_dag (fst st')) \<and> ps_proofs (fst st') = ps_proofs (fst st)"

lemma st_le_refl [simp]: "st_le st st"
  by (simp add: st_le_def)

lemma st_le_trans: "st_le a b \<Longrightarrow> st_le b c \<Longrightarrow> st_le a c"
  by (auto simp: st_le_def intro: dag_le_trans)

lemma proved_prop_in: "store_wf s \<Longrightarrow> proved prog s i p \<Longrightarrow> prop_in (ps_dag s) p"
  using store_node node_prop_in by (auto simp: proved_def)

lemma proved_le:
  assumes "check_inv prog st" "st_le st st'" "proved prog (fst st) i p"
  shows "proved prog (fst st') i p"
proof -
  have wf: "store_wf (fst st)" using assms(1) by (simp add: check_inv_def)
  then have wfd: "wf_dag (ps_dag (fst st))" by (simp add: store_wf_def)
  have le: "dag_le (ps_dag (fst st)) (ps_dag (fst st'))" and ps: "ps_proofs (fst st') = ps_proofs (fst st)"
    using assms(2) by (auto simp: st_le_def)
  show ?thesis
    using assms(3) holds_le [OF wfd le proved_prop_in [OF wf assms(3)]]
    unfolding proved_def ps by blast
qed

lemma inv_grow:
  assumes "check_inv prog (s, c)" "wf_dag d'" "dag_le (ps_dag s) d'"
  shows "check_inv prog (s\<lparr>ps_dag := d'\<rparr>, c) \<and> st_le (s, c) (s\<lparr>ps_dag := d'\<rparr>, c)"
proof -
  have wf: "store_wf s" and wfd: "wf_dag (ps_dag s)" using assms(1) by (auto simp: check_inv_def store_wf_def)
  have g: "globals_ok prog (ps_dag s) c" using assms(1) by (simp add: check_inv_def)
  have le: "st_le (s, c) (s\<lparr>ps_dag := d'\<rparr>, c)" using assms(3) by (simp add: st_le_def)
  have "store_wf (s\<lparr>ps_dag := d'\<rparr>)" using wf assms(2,3) by (auto simp: store_wf_def intro: node_in_le)
  moreover have "globals_ok prog d' c"
    using g env_in_le [OF assms(3)] props_in_le [OF assms(3)]
      tenv_le [OF wfd assms(3), of "ck_bindings c"] tprops_le [OF wfd assms(3), of "ck_equalities c"]
    by (simp add: globals_ok_def)
  moreover have "proved prog (s\<lparr>ps_dag := d'\<rparr>) i p" if "ck_checked c i = Some p" for i p
    using proved_le [OF assms(1) le, of i p] that assms(1) by (simp add: check_inv_def)
  ultimately show ?thesis using le by (simp add: check_inv_def)
qed

section \<open>One step per justification\<close>

definition step_ok :: "rncommand list \<Rightarrow> proof_node \<Rightarrow> check_state \<Rightarrow> propn \<Rightarrow> check_state \<Rightarrow> bool" where
  "step_ok prog p st q st' \<longleftrightarrow> check_inv prog st' \<and> st_le st st' \<and> q = mk_prop (pf_lhs p) (pf_rhs p)
     \<and> holds prog (ps_dag (fst st')) q"

lemma check_trans_ok:
  assumes "check_inv prog st" "holds prog (ps_dag (fst st)) a" "holds prog (ps_dag (fst st)) b"
    and "check_trans i p a b st = Ok (q, st')"
  shows "step_ok prog p st q st'"
proof -
  have *: "st' = st" "q = mk_prop (pf_lhs p) (pf_rhs p)" "p_rhs a = p_lhs b" "pf_lhs p = p_lhs a" "pf_rhs p = p_rhs b"
    using assms(4) by (auto simp: check_trans_def split: if_splits)
  have "holds prog (ps_dag (fst st)) (mk_prop (pf_lhs p) (pf_rhs p))"
    unfolding *(4,5) using assms(2,3) *(3) by (auto simp: holds_def tprop_def intro: derivable.Trans)
  with * assms(1) show ?thesis by (simp add: step_ok_def)
qed

lemma check_sym_ok:
  assumes "check_inv prog st" "holds prog (ps_dag (fst st)) a" "check_sym i p a st = Ok (q, st')"
  shows "step_ok prog p st q st'"
proof -
  have *: "st' = st" "q = mk_prop (pf_lhs p) (pf_rhs p)" "pf_lhs p = p_rhs a" "pf_rhs p = p_lhs a"
    using assms(3) by (auto simp: check_sym_def split: if_splits)
  have "holds prog (ps_dag (fst st)) (mk_prop (pf_lhs p) (pf_rhs p))"
    unfolding *(3,4) using assms(2) by (auto simp: holds_def tprop_def intro: derivable.Sym)
  with * assms(1) show ?thesis by (simp add: step_ok_def)
qed

lemma check_congr_ok:
  assumes inv: "check_inv prog (s, c)" and a: "holds prog (ps_dag s) a" "prop_in (ps_dag s) a"
    and b: "holds prog (ps_dag s) b" "prop_in (ps_dag s) b"
    and chk: "check_congr i k p a b (s, c) = Ok (q, st')"
  shows "step_ok prog p (s, c) q st'"
proof -
  have wfd: "wf_dag (ps_dag s)" using inv by (simp add: check_inv_def store_wf_def)
  obtain f cs e d1 where t: "p_rhs a < length (nodes (ps_dag s))" "nodes (ps_dag s) ! p_rhs a = TApp f cs"
    and k: "k < length cs" "cs ! k = p_lhs b" and app: "dag_app f (cs[k := p_rhs b]) (ps_dag s) = (e, d1)"
    and p: "pf_rhs p = e" "pf_lhs p = p_lhs a" and q: "q = mk_prop (pf_lhs p) (pf_rhs p)" and st: "st' = (s\<lparr>ps_dag := d1\<rparr>, c)"
  proof -
    from chk a(2) obtain f cs where 1: "nodes (ps_dag s) ! p_rhs a = TApp f cs"
      by (auto simp: check_congr_def dag_get_def prop_in_def split: dterm.splits)
    obtain e d1 where 2: "dag_app f (cs[k := p_rhs b]) (ps_dag s) = (e, d1)" by force
    from chk a(2) 1 2 show thesis
      by (intro that [of f cs e d1])
        (auto simp: check_congr_def dag_get_def prop_in_def split: if_splits)
  qed
  have cs: "\<forall>x \<in> set cs. x < length (nodes (ps_dag s))"
    using wf_kids [OF wfd t] t(1) by fastforce
  have "\<forall>x \<in> set (cs[k := p_rhs b]). x < length (nodes (ps_dag s))"
    using cs b(2) set_update_subset_insert [of cs k] by (fastforce simp: prop_in_def)
  from dag_app_spec [OF wfd this app]
  have d1: "wf_dag d1" "dag_le (ps_dag s) d1"
    "tree d1 e = GApp f ((map (tree (ps_dag s)) cs)[k := tree (ps_dag s) (p_rhs b)])"
    by (auto simp: map_update)
  have "tree (ps_dag s) (p_rhs a) = GApp f (map (tree (ps_dag s)) cs)" using wfd t by (simp add: tree_app)
  then have "derivable S prog (tree (ps_dag s) (p_lhs a))
      (GApp f ((map (tree (ps_dag s)) cs)[k := tree (ps_dag s) (p_rhs b)]))"
    using a(1) b(1) k by (intro derivable.Congr) (auto simp: holds_def tprop_def)
  moreover have "tree d1 (p_lhs a) = tree (ps_dag s) (p_lhs a)"
    using tree_le [OF wfd d1(2)] a(2) by (simp add: prop_in_def)
  ultimately have "holds prog d1 (mk_prop (pf_lhs p) (pf_rhs p))"
    unfolding p using d1(3) by (simp add: holds_def tprop_def)
  with inv_grow [OF inv d1(1,2)] q st show ?thesis by (simp add: step_ok_def)
qed

lemma check_fiat_ok:
  assumes inv: "check_inv prog (s, c)" and p: "node_in (ps_dag s) p"
    and chk: "check_fiat i p (s, c) = Ok (q, st')"
  shows "step_ok prog p (s, c) q st'"
proof -
  have wfd: "wf_dag (ps_dag s)" and g: "globals_ok prog (ps_dag s) c"
    using inv by (auto simp: check_inv_def store_wf_def)
  have lt: "pf_lhs p < length (nodes (ps_dag s))" using p by (simp add: node_in_def)
  have q: "q = mk_prop (pf_lhs p) (pf_rhs p)" "st' = (s, c)"
    using chk by (auto simp: check_fiat_def bind_o_eq_Ok split: if_splits)
  have "(\<exists>l. nodes (ps_dag s) ! pf_lhs p = TLit l) \<and> pf_lhs p = pf_rhs p
      \<or> mk_prop (pf_lhs p) (pf_rhs p) \<in> ck_equalities c"
    using chk lt by (auto simp: check_fiat_def in_globals_def dag_get_def split: if_splits dterm.splits)
  then have "holds prog (ps_dag s) (mk_prop (pf_lhs p) (pf_rhs p))"
  proof
    assume "(\<exists>l. nodes (ps_dag s) ! pf_lhs p = TLit l) \<and> pf_lhs p = pf_rhs p"
    then show ?thesis using lt by (auto simp: holds_def tree_lit intro: derivable.Literal)
  next
    assume "mk_prop (pf_lhs p) (pf_rhs p) \<in> ck_equalities c"
    then have "tprop (ps_dag s) (mk_prop (pf_lhs p) (pf_rhs p)) \<in> tprop (ps_dag s) ` ck_equalities c" by blast
    with g show ?thesis unfolding globals_ok_def holds_def by (auto intro: derivable.Global)
  qed
  with q inv show ?thesis by (simp add: step_ok_def)
qed

end

section \<open>Rule steps\<close>

lemma tenv_of_add: "tenv_of d (a ++ b) = tenv_of d a ++ tenv_of d b"
  by (auto simp: tenv_of_def map_add_def split: option.splits)

lemma env_in_add: "env_in d a \<Longrightarrow> env_in d b \<Longrightarrow> env_in d (a ++ b)"
  by (auto simp: env_in_def map_add_Some_iff)

lemma named_rule_in: "first_some (named_rule name) prog = Some r \<Longrightarrow> NNormRule r \<in> set prog"
proof (induction prog)
  case (Cons c prog)
  then show ?case by (cases c) (auto split: if_splits option.splits)
qed simp

context validator_contract
begin

lemma check_facts_spec:
  assumes d0: "wf_dag d0" "env_in d0 b"
  shows "wf_dag d \<Longrightarrow> dag_le d0 d \<Longrightarrow> \<forall>(x, q) \<in> set xqs. prop_in d0 q
    \<Longrightarrow> fold_out (\<lambda>(x, q) d. check_fact V x q b rn d) xqs d = Ok d'
    \<Longrightarrow> wf_dag d' \<and> dag_le d0 d'
      \<and> (\<forall>(x, q) \<in> set xqs. fact_inst S (tenv_of d0 b) x (fst (tprop d0 q)) (snd (tprop d0 q)))"
proof (induction xqs arbitrary: d)
  case (Cons y xqs)
  obtain x q where y: "y = (x, q)" by force
  with Cons.prems(4) obtain d1 where 1: "check_fact V x q b rn d = Ok d1"
    and 2: "fold_out (\<lambda>(x, q) d. check_fact V x q b rn d) xqs d1 = Ok d'"
    by (auto simp: bind_o_eq_Ok)
  have q: "prop_in d0 q" using Cons.prems(3) y by auto
  have env: "env_in d b" "tenv_of d b = tenv_of d0 b"
    using env_in_le [OF Cons.prems(2) d0(2)] tenv_le [OF d0(1) Cons.prems(2) d0(2)] by blast+
  have "p_lhs q < length (nodes d)" "p_rhs q < length (nodes d)"
    using prop_in_le [OF Cons.prems(2) q] by (auto simp: prop_in_def)
  from check_fact_spec [OF Cons.prems(1) env(1) this 1]
  have 3: "wf_dag d1" "dag_le d d1" "fact_inst S (tenv_of d b) x (fst (tprop d q)) (snd (tprop d q))" by auto
  have tq: "tprop d q = tprop d0 q"
    using q by (intro tprop_le [OF d0(1) Cons.prems(2)]) (auto simp: prop_in_def)
  have "dag_le d0 d1" using dag_le_trans [OF Cons.prems(2) 3(2)] .
  from Cons.IH [OF 3(1) this _ 2] Cons.prems(3)
  have "wf_dag d' \<and> dag_le d0 d'
      \<and> (\<forall>(x, q) \<in> set xqs. fact_inst S (tenv_of d0 b) x (fst (tprop d0 q)) (snd (tprop d0 q)))"
    by auto
  with 3(3) y show ?case unfolding env tq by simp
qed simp

lemma check_rule_ok:
  assumes inv: "check_inv prog (s, c)" and p: "node_in (ps_dag s) p" "pf_just p = JRule name ps sub"
    and r: "NNormRule r \<in> set prog" "length (rule_body r) = length props"
    and props: "\<forall>q \<in> set props. holds prog (ps_dag s) q \<and> prop_in (ps_dag s) q"
    and chk: "check_rule V r name sub p props (s, c) = Ok (q, st')"
  shows "step_ok prog p (s, c) q st'"
proof -
  let ?all = "ck_bindings c ++ map_of sub"
  have wfd: "wf_dag (ps_dag s)" and g: "globals_ok prog (ps_dag s) c"
    using inv by (auto simp: check_inv_def store_wf_def)
  have env: "env_in (ps_dag s) ?all"
    using g p by (auto simp: globals_ok_def node_in_def intro: env_in_add)
  obtain d1 d2 where
    f: "fold_out (\<lambda>(x, q) d. check_fact V x q ?all name d) (zip (rule_body r) props) (ps_dag s) = Ok d1"
    and h: "check_rule_produces V r ?all (pf_prop p) name d1 = Ok d2"
    and q: "q = mk_prop (pf_lhs p) (pf_rhs p)" "st' = (s\<lparr>ps_dag := d2\<rparr>, c)"
    using chk by (auto simp: check_rule_def Let_def bind_o_eq_Ok)
  have "\<forall>(x, q) \<in> set (zip (rule_body r) props). prop_in (ps_dag s) q"
    using props by (auto dest: set_zip_rightD)
  from check_facts_spec [OF wfd env wfd dag_le_refl this f]
  have d1: "wf_dag d1" "dag_le (ps_dag s) d1" and facts: "\<forall>(x, q) \<in> set (zip (rule_body r) props).
      fact_inst S (tenv_of (ps_dag s) ?all) x (fst (tprop (ps_dag s) q)) (snd (tprop (ps_dag s) q))" by auto
  have body: "\<forall>x \<in> set (rule_body r). \<exists>u w.
      fact_inst S (tenv_of (ps_dag s) (ck_bindings c) ++ tenv_of (ps_dag s) (map_of sub)) x u w \<and> derivable S prog u w"
  proof
    fix x
    assume "x \<in> set (rule_body r)"
    with r(2) obtain q where q: "(x, q) \<in> set (zip (rule_body r) props)"
      by (metis in_set_impl_in_set_zip1)
    then have "fact_inst S (tenv_of (ps_dag s) ?all) x (fst (tprop (ps_dag s) q)) (snd (tprop (ps_dag s) q))"
      using facts by blast
    moreover have "derivable S prog (fst (tprop (ps_dag s) q)) (snd (tprop (ps_dag s) q))"
      using props set_zip_rightD [OF q] by (simp add: holds_def)
    ultimately show "\<exists>u w. fact_inst S (tenv_of (ps_dag s) (ck_bindings c)
        ++ tenv_of (ps_dag s) (map_of sub)) x u w \<and> derivable S prog u w"
      unfolding tenv_of_add by blast
  qed
  obtain ac where ac: "process_actions V name ?all (rule_head r) d1 = Ok (ac, d2)" "pf_prop p \<in> ac_props ac"
    using h by (auto simp: check_rule_produces_def bind_o_eq_Ok split: if_splits)
  from process_actions_spec [OF d1(1) env_in_le [OF d1(2) env] ac(1)]
  have d2: "wf_dag d2" "dag_le d1 d2" and head: "sem_actions S (rule_head r) (tenv_of d1 ?all, {})
      = Some (tenv_of d2 (ac_bindings ac), tprop d2 ` ac_props ac)" by auto
  have le: "dag_le (ps_dag s) d2" using dag_le_trans [OF d1(2) d2(2)] .
  have env1: "tenv_of d1 ?all = tenv_of (ps_dag s) (ck_bindings c) ++ tenv_of (ps_dag s) (map_of sub)"
    using tenv_le [OF wfd d1(2) env] by (simp add: tenv_of_add)
  have glob: "sem_actions S (gather_global_actions prog) (Map.empty, {})
      = Some (tenv_of (ps_dag s) (ck_bindings c), tprop (ps_dag s) ` ck_equalities c)"
    using g by (simp add: globals_ok_def)
  have "tprop d2 (pf_prop p) \<in> tprop d2 ` ac_props ac" using ac(2) by blast
  then have "holds prog d2 (pf_prop p)"
    unfolding holds_def
    by (intro derivable.Rule [OF glob r(1) body head [unfolded env1]]) simp
  with inv_grow [OF inv d2(1) le] q show ?thesis by (simp add: step_ok_def pf_prop_eta)
qed

section \<open>Merge steps\<close>

lemma check_merge_views_spec:
  assumes "check_merge_views i old new d = Ok (ot, nt, f, ins)"
  shows "old < length (nodes d) \<and> nodes d ! old = TApp f (ins @ [ot])
     \<and> new < length (nodes d) \<and> nodes d ! new = TApp f (ins @ [nt])"
proof -
  obtain x y where xy: "dag_get d old = Some x" "dag_get d new = Some y"
    using assms by (auto simp: check_merge_views_def outcome_simps)
  then obtain f' as g bs where ab: "x = TApp f' as" "y = TApp g bs"
    using assms by (cases x; cases y) (simp_all add: check_merge_views_def)
  have n: "old < length (nodes d)" "nodes d ! old = TApp f' as" "new < length (nodes d)" "nodes d ! new = TApp g bs"
    using xy ab by (auto simp: dag_get_def split: if_splits)
  have c: "f' = g" "as \<noteq> []" "bs \<noteq> []" "length (butlast as) = length bs - 1"
    "\<not> list_ex (\<lambda>(a, b). a \<noteq> b) (zip (butlast as) (butlast bs))"
    and r: "ot = last as" "nt = last bs" "f = f'" "ins = butlast as"
    using assms xy ab by (simp_all add: check_merge_views_def split: if_splits)
  have ne: "as \<noteq> []" "bs \<noteq> []" and eq: "\<not> list_ex (\<lambda>(a, b). a \<noteq> b) (zip (butlast as) (butlast bs))"
    using c by blast+
  have len: "length as = length bs"
  proof -
    have "0 < length as" "0 < length bs" using c(2,3) by simp_all
    with c(4) show ?thesis by (simp only: length_butlast)
  qed
  have "butlast as = butlast bs"
  proof (rule nth_equalityI)
    show "length (butlast as) = length (butlast bs)" using len by simp
    show "butlast as ! k = butlast bs ! k" if "k < length (butlast as)" for k
    proof -
      have "zip (butlast as) (butlast bs) ! k \<in> set (zip (butlast as) (butlast bs))"
        using that len by (intro nth_mem) simp
      with eq that len show ?thesis by (auto simp: list_ex_iff)
    qed
  qed
  then have "as = ins @ [ot]" "bs = ins @ [nt]"
    using r append_butlast_last_id [OF ne(1)] append_butlast_last_id [OF ne(2)] by simp_all
  with n r(3) c(1) show ?thesis by simp
qed

lemma check_merge_ok:
  assumes inv: "check_inv prog (s, c)" and p: "node_in (ps_dag s) p"
    and old: "holds prog (ps_dag s) old" "prop_in (ps_dag s) old"
    and new: "holds prog (ps_dag s) new" "prop_in (ps_dag s) new"
    and chk: "check_merge V prog i fname p old new (s, c) = Ok (q, st')"
  shows "step_ok prog p (s, c) q st'"
proof -
  let ?d = "ps_dag s" and ?b = "\<lambda>ot nt. [''old'' \<mapsto> ot, ''new'' \<mapsto> (nt::nat)]"
  have wfd: "wf_dag ?d" using inv by (auto simp: check_inv_def store_wf_def)
  obtain ot nt f ins m P d1 where refl: "p_lhs old = p_rhs old" "p_lhs new = p_rhs new"
    and views: "check_merge_views i (p_rhs old) (p_rhs new) ?d = Ok (ot, nt, f, ins)"
    and run: "run_merge V ?d fname prog ot nt = Ok ((m, P), d1)"
    and fin: "(let (v, d2) = dag_app f (ins @ [m]) d1 in
        if mk_prop (pf_lhs p) (pf_rhs p) \<in> insert (mk_prop v v) P
        then Ok (mk_prop (pf_lhs p) (pf_rhs p), (s\<lparr>ps_dag := d2\<rparr>, c))
        else Err (MergeFnResultMismatch i (pf_lhs p) (pf_rhs p))) = Ok (q, st')"
    using chk by (auto simp: check_merge_def bind_o_eq_Ok guard_o_Err_Ok)
  obtain v d2 where app: "dag_app f (ins @ [m]) d1 = (v, d2)" by force
  with fin have mem: "mk_prop (pf_lhs p) (pf_rhs p) \<in> insert (mk_prop v v) P"
    and q: "q = mk_prop (pf_lhs p) (pf_rhs p)" "st' = (s\<lparr>ps_dag := d2\<rparr>, c)"
    by (auto split: if_splits)
  note vw = check_merge_views_spec [OF views]
  have lt: "\<forall>a \<in> set (ins @ [ot, nt]). a < length (nodes ?d)"
    using wf_kids [OF wfd, of "p_rhs old" f "ins @ [ot]"] wf_kids [OF wfd, of "p_rhs new" f "ins @ [nt]"] vw
    by fastforce
  have told: "derivable S prog (GApp f (map (tree ?d) ins @ [tree ?d ot])) (GApp f (map (tree ?d) ins @ [tree ?d ot]))"
    using old(1) vw wfd refl(1) by (simp add: holds_def tprop_def tree_app)
  have tnew: "derivable S prog (GApp f (map (tree ?d) ins @ [tree ?d nt])) (GApp f (map (tree ?d) ins @ [tree ?d nt]))"
    using new(1) vw wfd refl(2) by (simp add: holds_def tprop_def tree_app)
  obtain fd e where fd: "first_some (named_function fname) prog = Some fd" "fd_merge fd = Some e"
    and ev: "eval_props V ''merge_function'' e (?b ot nt) ?d = Ok ((m, P), d1)"
    using run by (auto simp: run_merge_def outcome_simps)
  have me: "merge_expr prog fname = Some e" using fd by (simp add: merge_expr_def)
  have env: "env_in ?d (?b ot nt)" using lt by (simp add: env_in_def)
  note es = eval_props_spec [OF wfd env ev]
  have d1: "wf_dag d1" "dag_le ?d d1" "m < length (nodes d1)" "props_in d1 P"
    using es by (auto simp: eval_ok_def)
  have te: "tenv_of d1 (?b ot nt) = [''old'' \<mapsto> tree ?d ot, ''new'' \<mapsto> tree ?d nt]"
    using tenv_le [OF wfd d1(2) env] by (simp add: tenv_of_def fun_eq_iff)
  have sem: "sem_expr S [''old'' \<mapsto> tree ?d ot, ''new'' \<mapsto> tree ?d nt] e = Some (tree d1 m)"
    "tprop d1 ` P = expr_refl S [''old'' \<mapsto> tree ?d ot, ''new'' \<mapsto> tree ?d nt] e"
    using es te by (auto simp: eval_ok_def)
  have "\<forall>a \<in> set (ins @ [m]). a < length (nodes d1)"
    using lt d1(3) dag_le_length [OF d1(2)] by fastforce
  from dag_app_spec [OF d1(1) this app]
  have d2: "wf_dag d2" "dag_le d1 d2" "tree d2 v = GApp f (map (tree d1) ins @ [tree d1 m])" by auto
  have "map (tree d1) ins = map (tree ?d) ins" using trees_le [OF wfd d1(2), of ins] lt by simp
  then have view: "tree d2 v = GApp f (map (tree ?d) ins @ [tree d1 m])" using d2(3) by simp
  have "tprop d2 (mk_prop (pf_lhs p) (pf_rhs p)) \<in> insert (tprop d2 (mk_prop v v)) (tprop d2 ` P)"
    using imageI [OF mem, of "tprop d2"] by (simp only: image_insert)
  then have "tprop d2 (mk_prop (pf_lhs p) (pf_rhs p)) \<in> insert (tree d2 v, tree d2 v)
      (expr_refl S [''old'' \<mapsto> tree ?d ot, ''new'' \<mapsto> tree ?d nt] e)"
    using tprops_le [OF d1(1) d2(2) d1(4)] sem(2) by simp
  then have "holds prog d2 (mk_prop (pf_lhs p) (pf_rhs p))"
    unfolding holds_def view
    by (intro derivable.Merge [OF me told tnew sem(1)]) simp
  with inv_grow [OF inv d2(1) dag_le_trans [OF d1(2) d2(2)]] q show ?thesis by (simp add: step_ok_def)
qed

section \<open>Soundness\<close>

lemma check_proof_ctx_sound:
  "check_inv prog st \<Longrightarrow> check_proof_ctx n V prog i st = Ok (q, st')
    \<Longrightarrow> check_inv prog st' \<and> st_le st st' \<and> proved prog (fst st') i q"
proof (induction n arbitrary: i st q st')
  case (Suc n)
  have IH: "check_inv prog st2 \<and> st_le st1 st2 \<and> proved prog (fst st2) j r \<and> prop_in (ps_dag (fst st2)) r
      \<and> holds prog (ps_dag (fst st2)) r"
    if "check_inv prog st1" "check_proof_ctx n V prog j st1 = Ok (r, st2)" for st1 j r st2
    using Suc.IH [OF that] proved_prop_in by (auto simp: check_inv_def proved_def)
  have keep: "prop_in (ps_dag (fst st2)) r \<and> holds prog (ps_dag (fst st2)) r"
    if "check_inv prog st1" "st_le st1 st2" "check_inv prog st2" "proved prog (fst st1) j r" for st1 st2 j r
    using proved_le [OF that(1,2,4)] proved_prop_in that(3) by (auto simp: check_inv_def proved_def)
  show ?case
  proof (cases "ck_checked (snd st) i")
    case (Some p)
    with Suc.prems show ?thesis by (auto simp: check_inv_def)
  next
    case None
    with Suc.prems(2) have lt: "i < length (ps_proofs (fst st))"
      by (auto simp: bind_o_eq_Ok ps_get_def split: if_splits)
    let ?p = "ps_proofs (fst st) ! i"
    have node: "node_in (ps_dag (fst st1)) ?p" if "check_inv prog st1" "st_le st st1" for st1
      using that lt store_node [of "fst st1" i] by (simp add: check_inv_def st_le_def)
    have "\<exists>st1 st2. check_inv prog st1 \<and> st_le st st1 \<and> step_ok prog ?p st1 q st2
      \<and> (q, st') = cache_proof i (q, st2)"
    proof (cases "pf_just ?p")
      case JFiat
      with Suc.prems(2) None lt obtain st2 where "check_fiat i ?p st = Ok (q, st2)" "(q, st') = cache_proof i (q, st2)"
        by (auto simp: bind_o_eq_Ok ps_get_def cache_proof_def split: if_splits)
      with check_fiat_ok [of prog "fst st" "snd st" ?p i q st2] Suc.prems(1) node st_le_refl show ?thesis
        by (metis prod.collapse)
    next
      case (JRule name pids sub)
      with Suc.prems(2) None lt obtain r props st1 st2 where
        r: "first_some (named_rule name) prog = Some r" "length (rule_body r) = length pids"
        and m: "map_out (\<lambda>q st. check_proof_ctx n V prog q st) pids st = Ok (props, st1)"
        and k: "check_rule V r name sub ?p props st1 = Ok (q, st2)" "(q, st') = cache_proof i (q, st2)"
        by (auto simp: outcome_simps ps_get_def cache_proof_def split: if_splits)
      have 1: "check_inv prog st1 \<and> st_le st st1
          \<and> list_all2 (\<lambda>j r. proved prog (fst st1) j r) pids props"
      proof (rule map_out_invariant [where I = "check_inv prog" and le = st_le
            and P = "\<lambda>j r st. proved prog (fst st) j r", OF m Suc.prems(1)])
        show "\<And>x s y s'. x \<in> set pids \<Longrightarrow> check_inv prog s \<Longrightarrow> check_proof_ctx n V prog x s = Ok (y, s')
            \<Longrightarrow> check_inv prog s' \<and> st_le s s' \<and> proved prog (fst s') x y"
          using IH by blast
      qed (auto intro: st_le_trans proved_le)
      then have "\<exists>j. proved prog (fst st1) j q" if "q \<in> set props" for q
        using that by (auto simp: list_all2_conv_all_nth in_set_conv_nth)
      then have "\<forall>q \<in> set props. holds prog (ps_dag (fst st1)) q \<and> prop_in (ps_dag (fst st1)) q"
        using keep [OF _ st_le_refl, of st1] 1 by blast
      moreover have "length (rule_body r) = length props"
        using r(2) 1 by (auto dest: list_all2_lengthD)
      ultimately have "step_ok prog ?p st1 q st2"
        using check_rule_ok [of prog "fst st1" "snd st1" ?p name pids sub r props q st2]
          1 node JRule named_rule_in [OF r(1)] k(1) by (metis prod.collapse)
      with 1 k(2) show ?thesis by blast
    next
      case (JMergeFn f old new)
      with Suc.prems(2) None lt obtain a st1 b st2 st3 where
        a: "check_proof_ctx n V prog old st = Ok (a, st1)"
        and b: "check_proof_ctx n V prog new st1 = Ok (b, st2)"
        and k: "check_merge V prog i f ?p a b st2 = Ok (q, st3)" "(q, st') = cache_proof i (q, st3)"
        by (auto simp: bind_o_eq_Ok ps_get_def cache_proof_def split: if_splits)
      note 1 = IH [OF Suc.prems(1) a]
      note 2 = IH [OF conjunct1 [OF 1] b]
      have 3: "prop_in (ps_dag (fst st2)) a \<and> holds prog (ps_dag (fst st2)) a"
        using keep [of st1 st2 old a] 1 2 by blast
      have le: "st_le st st2" using st_le_trans 1 2 by blast
      have "step_ok prog ?p st2 q st3"
        using check_merge_ok [of prog "fst st2" "snd st2" ?p a b i f q st3] 2 3 k(1) node [OF _ le]
        by (metis prod.collapse)
      with 2 le k(2) show ?thesis by blast
    next
      case (JTrans x y)
      with Suc.prems(2) None lt obtain a st1 b st2 st3 where
        a: "check_proof_ctx n V prog x st = Ok (a, st1)"
        and b: "check_proof_ctx n V prog y st1 = Ok (b, st2)"
        and k: "check_trans i ?p a b st2 = Ok (q, st3)" "(q, st') = cache_proof i (q, st3)"
        by (auto simp: bind_o_eq_Ok ps_get_def cache_proof_def split: if_splits)
      note 1 = IH [OF Suc.prems(1) a]
      note 2 = IH [OF conjunct1 [OF 1] b]
      have "step_ok prog ?p st2 q st3"
        using check_trans_ok [OF _ _ _ k(1), of prog] keep [of st1 st2 x a] 1 2 by blast
      with 1 2 k(2) show ?thesis using st_le_trans by blast
    next
      case (JSym x)
      with Suc.prems(2) None lt obtain a st1 st2 where
        a: "check_proof_ctx n V prog x st = Ok (a, st1)"
        and k: "check_sym i ?p a st1 = Ok (q, st2)" "(q, st') = cache_proof i (q, st2)"
        by (auto simp: bind_o_eq_Ok ps_get_def cache_proof_def split: if_splits)
      note 1 = IH [OF Suc.prems(1) a]
      have "step_ok prog ?p st1 q st2" using check_sym_ok [OF _ _ k(1), of prog] 1 by blast
      with 1 k(2) show ?thesis by blast
    next
      case (JCongr x kk y)
      with Suc.prems(2) None lt obtain a st1 b st2 st3 where
        a: "check_proof_ctx n V prog x st = Ok (a, st1)"
        and b: "check_proof_ctx n V prog y st1 = Ok (b, st2)"
        and k: "check_congr i kk ?p a b st2 = Ok (q, st3)" "(q, st') = cache_proof i (q, st3)"
        by (auto simp: bind_o_eq_Ok ps_get_def cache_proof_def split: if_splits)
      note 1 = IH [OF Suc.prems(1) a]
      note 2 = IH [OF conjunct1 [OF 1] b]
      have 3: "prop_in (ps_dag (fst st2)) a \<and> holds prog (ps_dag (fst st2)) a"
        using keep [of st1 st2 x a] 1 2 by blast
      have "step_ok prog ?p st2 q st3"
        using check_congr_ok [of prog "fst st2" "snd st2" a b i kk ?p q st3] 2 3 k(1)
        by (metis prod.collapse)
      with 1 2 k(2) show ?thesis using st_le_trans by blast
    qed
    then obtain st1 s2 c2 where 1: "check_inv prog st1" "st_le st st1"
      and 2: "step_ok prog ?p st1 q (s2, c2)" and st': "(q, st') = cache_proof i (q, (s2, c2))"
      by (metis prod.collapse)
    have le: "st_le st (s2, c2)" using 1(2) 2 st_le_trans by (auto simp: step_ok_def)
    have inv: "check_inv prog (s2, c2)" using 2 by (simp add: step_ok_def)
    have pr: "proved prog s2 i q"
      using 2 le lt by (auto simp: step_ok_def proved_def st_le_def pf_prop_eta)
    have "st' = (s2, c2\<lparr>ck_checked := (ck_checked c2)(i \<mapsto> q)\<rparr>)" using st' by (simp add: cache_proof_def)
    with inv pr le show ?thesis
      by (auto simp: check_inv_def st_le_def globals_ok_def)
  qed
qed simp

lemma check_ctx_new_spec:
  assumes "store_wf s" "check_ctx_new V prog (ps_dag s) = Ok (c, d)"
  shows "check_inv prog (s\<lparr>ps_dag := d\<rparr>, c) \<and> dag_le (ps_dag s) d"
proof -
  obtain ac where ac: "process_actions V ''global_actions'' Map.empty (gather_global_actions prog) (ps_dag s) = Ok (ac, d)"
    and c: "c = \<lparr>ck_equalities = ac_props ac, ck_bindings = ac_bindings ac, ck_checked = Map.empty\<rparr>"
    using assms(2) by (auto simp: check_ctx_new_def bind_o_eq_Ok split: option.splits)
  have wfd: "wf_dag (ps_dag s)" using assms(1) by (simp add: store_wf_def)
  have e: "env_in (ps_dag s) Map.empty" "tenv_of (ps_dag s) Map.empty = Map.empty"
    by (simp_all add: env_in_def tenv_of_def fun_eq_iff)
  from process_actions_spec [OF wfd e(1) ac] e(2)
  show ?thesis using assms(1) c
    by (auto simp: check_inv_def store_wf_def globals_ok_def intro: node_in_le)
qed

lemma check_proof_sound:
  assumes "store_wf s" "check_proof n V prog i s = Ok (q, s')"
  shows "store_wf s' \<and> dag_le (ps_dag s) (ps_dag s') \<and> ps_proofs s' = ps_proofs s
    \<and> i < length (ps_proofs s) \<and> q = pf_prop (ps_proofs s ! i)
    \<and> derivable S prog (tree (ps_dag s) (p_lhs q)) (tree (ps_dag s) (p_rhs q))"
proof -
  obtain c d c' where 1: "check_ctx_new V prog (ps_dag s) = Ok (c, d)"
    and 2: "check_proof_ctx n V prog i (s\<lparr>ps_dag := d\<rparr>, c) = Ok (q, s', c')"
    using assms(2) by (auto simp: check_proof_def bind_o_eq_Ok)
  from check_ctx_new_spec [OF assms(1) 1] have inv: "check_inv prog (s\<lparr>ps_dag := d\<rparr>, c)" "dag_le (ps_dag s) d"
    by auto
  from check_proof_ctx_sound [OF inv(1) 2]
  have r: "store_wf s'" "dag_le d (ps_dag s')" "ps_proofs s' = ps_proofs s" "proved prog s' i q"
    by (auto simp: check_inv_def st_le_def)
  have wfd: "wf_dag (ps_dag s)" using assms(1) by (simp add: store_wf_def)
  have le: "dag_le (ps_dag s) (ps_dag s')" using dag_le_trans [OF inv(2) r(2)] .
  have "prop_in (ps_dag s) q"
    using r(3,4) store_node [OF assms(1), of i] node_prop_in by (simp add: proved_def)
  from holds_le [OF wfd le this, of prog] r(4) have "holds prog (ps_dag s) q"
    unfolding proved_def by blast
  with r le show ?thesis by (auto simp: proved_def holds_def tprop_def)
qed

end

section \<open>Enough fuel\<close>

text \<open>
  In a store whose proofs refer to proofs with smaller ids, fuel above the id of a proof
  is enough: more fuel does not change the outcome, so no \<open>Panic\<close> is a lack of fuel.
\<close>

lemma check_congr_frame:
  assumes "check_congr i k p a b (s, c) = Ok (q, st')"
  shows "ps_proofs (fst st') = ps_proofs s"
proof -
  from assms obtain t where "dag_get (ps_dag s) (p_rhs a) = Some t"
    by (auto simp: check_congr_def bind_o_eq_Ok opt_o_Panic_Ok)
  with assms show ?thesis
    by (cases t) (auto simp: check_congr_def Let_def case_prod_unfold split: if_splits)
qed

lemma check_fiat_frame:
  assumes "check_fiat i p (s, c) = Ok (q, st')"
  shows "ps_proofs (fst st') = ps_proofs s"
  using assms by (auto simp: check_fiat_def bind_o_eq_Ok split: if_splits)

lemma step_frames:
  "check_rule V r name sub p props (s, c) = Ok (q, st') \<Longrightarrow> ps_proofs (fst st') = ps_proofs s"
  "check_merge V prog i f p a b (s, c) = Ok (q, st') \<Longrightarrow> ps_proofs (fst st') = ps_proofs s"
  "check_trans i p a b (s, c) = Ok (q, st') \<Longrightarrow> ps_proofs (fst st') = ps_proofs s"
  "check_sym i p a (s, c) = Ok (q, st') \<Longrightarrow> ps_proofs (fst st') = ps_proofs s"
  by (auto simp: check_rule_def check_merge_def check_trans_def check_sym_def
      bind_o_eq_Ok Let_def case_prod_unfold split: if_splits)

lemmas step_frame = step_frames check_congr_frame check_fiat_frame

lemma map_out_frame:
  assumes "map_out f xs s = Ok (ys, s')" "\<And>x s y s'. x \<in> set xs \<Longrightarrow> f x s = Ok (y, s') \<Longrightarrow> g s' = g s"
  shows "g s' = g s"
  using map_out_invariant [OF assms(1), of "\<lambda>_. True" "\<lambda>a b. g b = g a" "\<lambda>_ _ _. True"] assms(2) by simp

lemma check_proof_ctx_frame:
  "check_proof_ctx n V prog i st = Ok (q, st') \<Longrightarrow> ps_proofs (fst st') = ps_proofs (fst st)"
proof (induction n arbitrary: i st q st')
  case (Suc n)
  show ?case
  proof (cases "ck_checked (snd st) i")
    case None
    obtain p where p: "ps_get (fst st) i = (Ok p :: (check_error, proof_node) outcome)"
      using Suc.prems None by (auto simp: bind_o_eq_Ok)
    have "\<exists>(st1 :: check_state) st2. ps_proofs (fst st1) = ps_proofs (fst st) \<and> ps_proofs (fst st2) = ps_proofs (fst st1)
        \<and> (q, st') = cache_proof i (q, st2)"
    proof (cases "pf_just p")
      case JFiat
      with Suc.prems None p obtain st2 where f: "check_fiat i p (fst st, snd st) = Ok (q, st2)"
        and "(q, st') = cache_proof i (q, st2)" by (auto simp: bind_o_eq_Ok cache_proof_def)
      with check_fiat_frame [OF f] show ?thesis by blast
    next
      case (JRule name pids sub)
      with Suc.prems None p obtain r props st1 st2 where
        m: "map_out (\<lambda>q st. check_proof_ctx n V prog q st) pids st = Ok (props, st1)"
        and r: "check_rule V r name sub p props (fst st1, snd st1) = Ok (q, st2)" "(q, st') = cache_proof i (q, st2)"
        by (auto simp: outcome_simps cache_proof_def)
      have "ps_proofs (fst st1) = ps_proofs (fst st)"
        using map_out_frame [OF m, of "\<lambda>st. ps_proofs (fst st)"] Suc.IH by blast
      with step_frames(1) [OF r(1)] r(2) show ?thesis by blast
    next
      case (JMergeFn f x y)
      with Suc.prems None p obtain a st1 b st2 st3 where
        "check_proof_ctx n V prog x st = Ok (a, st1)" "check_proof_ctx n V prog y st1 = Ok (b, st2)"
        "check_merge V prog i f p a b (fst st2, snd st2) = Ok (q, st3)" "(q, st') = cache_proof i (q, st3)"
        by (auto simp: bind_o_eq_Ok cache_proof_def)
      then show ?thesis using step_frame Suc.IH by metis
    next
      case (JTrans x y)
      with Suc.prems None p obtain a st1 b st2 st3 where
        "check_proof_ctx n V prog x st = Ok (a, st1)" "check_proof_ctx n V prog y st1 = Ok (b, st2)"
        "check_trans i p a b (fst st2, snd st2) = Ok (q, st3)" "(q, st') = cache_proof i (q, st3)"
        by (auto simp: bind_o_eq_Ok cache_proof_def)
      then show ?thesis using step_frame Suc.IH by metis
    next
      case (JSym x)
      with Suc.prems None p obtain a st1 st2 where
        "check_proof_ctx n V prog x st = Ok (a, st1)"
        "check_sym i p a (fst st1, snd st1) = Ok (q, st2)" "(q, st') = cache_proof i (q, st2)"
        by (auto simp: bind_o_eq_Ok cache_proof_def)
      then show ?thesis using step_frame Suc.IH by metis
    next
      case (JCongr x k y)
      with Suc.prems None p obtain a st1 b st2 st3 where
        "check_proof_ctx n V prog x st = Ok (a, st1)" "check_proof_ctx n V prog y st1 = Ok (b, st2)"
        "check_congr i k p a b (fst st2, snd st2) = Ok (q, st3)" "(q, st') = cache_proof i (q, st3)"
        by (auto simp: bind_o_eq_Ok cache_proof_def)
      then show ?thesis using step_frame Suc.IH by metis
    qed
    then show ?thesis by (auto simp: cache_proof_def split: prod.splits)
  qed (use Suc.prems in simp)
qed simp

lemma map_out_cong_inv:
  assumes "I s" "\<And>x s. x \<in> set xs \<Longrightarrow> I s \<Longrightarrow> f x s = g x s"
    and "\<And>x s y s'. x \<in> set xs \<Longrightarrow> I s \<Longrightarrow> f x s = Ok (y, s') \<Longrightarrow> I s'"
  shows "map_out f xs s = map_out g xs s"
  using assms
proof (induction xs arbitrary: s)
  case (Cons x xs)
  have "f x s = g x s" using Cons.prems by simp
  moreover have "map_out f xs s1 = map_out g xs s1" if "f x s = Ok (y, s1)" for y s1
    using Cons.IH [of s1] Cons.prems that by (meson list.set_intros)
  ultimately show ?case by (auto intro!: bind_o_cong)
qed simp

lemma check_step_cong:
  assumes "\<And>p j st1. i < length (ps_proofs (fst st)) \<Longrightarrow> j \<in> set (just_children (pf_just (ps_proofs (fst st) ! i)))
      \<Longrightarrow> ps_proofs (fst st1) = ps_proofs (fst st) \<Longrightarrow> f j st1 = g j st1"
    and "\<And>j st1 q st2. g j st1 = Ok (q, st2) \<Longrightarrow> ps_proofs (fst st2) = ps_proofs (fst st1)"
  shows "check_step f V prog i st = check_step g V prog i st"
proof (cases "ck_checked (snd st) i = None \<and> i < length (ps_proofs (fst st))")
  case True
  let ?j = "pf_just (ps_proofs (fst st) ! i)"
  note eq = assms(1) [OF conjunct2 [OF True]]
  have next_eq: "f b st1 = g b st1" if "b \<in> set (just_children ?j)" "g a st = Ok (q, st1)" for a b q st1
    using eq that(1) assms(2) [OF that(2)] by blast
  have "map_out f pids st = map_out g pids st" if "?j = JRule name pids sub" for name pids sub
  proof (rule map_out_cong_inv [where I = "\<lambda>st1. ps_proofs (fst st1) = ps_proofs (fst st)"])
    show "\<And>x s. x \<in> set pids \<Longrightarrow> ps_proofs (fst s) = ps_proofs (fst st) \<Longrightarrow> f x s = g x s"
      using eq that by simp
    show "\<And>x s y s'. x \<in> set pids \<Longrightarrow> ps_proofs (fst s) = ps_proofs (fst st) \<Longrightarrow> f x s = Ok (y, s')
        \<Longrightarrow> ps_proofs (fst s') = ps_proofs (fst st)"
      using eq that assms(2) by (metis just_children.simps(2))
  qed simp
  with True eq next_eq show ?thesis
    by (cases ?j) (auto simp: ps_get_def intro!: bind_o_cong)
next
  case False
  then show ?thesis by (cases "ck_checked (snd st) i") (auto simp: ps_get_def)
qed

lemma check_proof_ctx_fuel:
  "i < n \<Longrightarrow> acyclic_proofs (ps_proofs (fst st)) \<Longrightarrow> check_proof_ctx n V prog i st = check_proof_ctx (Suc n) V prog i st"
proof (induction n arbitrary: i st)
  case (Suc n)
  have "check_step (\<lambda>i st. check_proof_ctx n V prog i st) V prog i st
      = check_step (\<lambda>i st. check_proof_ctx (Suc n) V prog i st) V prog i st"
  proof (rule check_step_cong)
    fix j and st1 :: check_state
    assume "i < length (ps_proofs (fst st))" "j \<in> set (just_children (pf_just (ps_proofs (fst st) ! i)))"
      "ps_proofs (fst st1) = ps_proofs (fst st)"
    moreover from this have "j < i" using Suc.prems(2) by (auto simp: acyclic_proofs_def)
    ultimately show "check_proof_ctx n V prog j st1 = check_proof_ctx (Suc n) V prog j st1"
      using Suc.IH [of j st1] Suc.prems by simp
  qed (rule check_proof_ctx_frame)
  then show ?case unfolding check_proof_ctx.simps(2) .
qed simp

lemma check_proof_ctx_enough:
  assumes "i < n" "n \<le> m" "acyclic_proofs (ps_proofs (fst st))"
  shows "check_proof_ctx m V prog i st = check_proof_ctx n V prog i st"
  using assms(2)
proof (induction m rule: dec_induct)
  case (step m)
  then show ?case using check_proof_ctx_fuel [of i m st V prog] assms(1,3) by (simp del: check_proof_ctx.simps)
qed simp

end
