(* ===== verification/Proof_Simplification.thy ===== *)
theory Proof_Simplification
  imports Proof_Format
begin

text \<open>
  \<open>src/proofs/proof_simplification.rs\<close>: replacing global terms in a store, and the local
  optimizations of proofs. \<open>simplify\<close> recurses over the children of a proof and loops over
  the optimizations; both are given fuel.
\<close>

section \<open>Removing globals\<close>

fun map_just_terms :: "(nat \<Rightarrow> nat) \<Rightarrow> justification \<Rightarrow> justification" where
  "map_just_terms f (JRule name pids sub) = JRule name pids (map (\<lambda>(v, t). (v, f t)) sub)"
| "map_just_terms f j = j"

definition map_terms :: "(nat \<Rightarrow> nat) \<Rightarrow> proof_node \<Rightarrow> proof_node" where
  "map_terms f p = \<lparr>pf_prop = mk_prop (f (pf_lhs p)) (f (pf_rhs p)), pf_just = map_just_terms f (pf_just p)\<rparr>"

definition map_id :: "(nat \<rightharpoonup> nat) \<Rightarrow> nat \<Rightarrow> nat" where
  "map_id m i = (case m i of None \<Rightarrow> i | Some j \<Rightarrow> j)"

definition replace_term ::
    "bindings \<Rightarrow> nat \<Rightarrow> termdag \<times> (nat \<rightharpoonup> nat) \<Rightarrow> ('e, termdag \<times> (nat \<rightharpoonup> nat)) outcome" where
  "replace_term globals t = (\<lambda>(d, m).
     case dag_get d t of
       None \<Rightarrow> Panic
     | Some (TApp f args) \<Rightarrow>
         (case (args, globals f) of
            ([], Some g) \<Rightarrow> Ok (d, m(t \<mapsto> map_id m g))
          | _ \<Rightarrow> (let (t', d1) = dag_app f (map (map_id m) args) d in Ok (d1, m(t \<mapsto> t'))))
     | Some _ \<Rightarrow> Ok (d, m(t \<mapsto> t)))"

definition replace_global_terms :: "bindings \<Rightarrow> proof_store \<Rightarrow> ('e, proof_store) outcome" where
  "replace_global_terms globals s =
     bind_o (fold_out (replace_term globals) [0..<dag_size (ps_dag s)] (ps_dag s, Map.empty)) (\<lambda>(d, m).
       Ok (s\<lparr>ps_dag := d, ps_proofs := map (map_terms (map_id m)) (ps_proofs s)\<rparr>))"

definition ps_remove_globals ::
    "validators \<Rightarrow> rncommand list \<Rightarrow> proof_store \<Rightarrow> (check_error, proof_store) outcome" where
  "ps_remove_globals V prog s =
     bind_o (gather_globals V prog (ps_dag s)) (\<lambda>(globals, d). replace_global_terms globals (s\<lparr>ps_dag := d\<rparr>))"

section \<open>Local optimizations\<close>

definition ps_set :: "nat \<Rightarrow> proof_node \<Rightarrow> proof_store \<Rightarrow> ('e, proof_store) outcome" where
  "ps_set i p s =
     (if i < length (ps_proofs s) then Ok (s\<lparr>ps_proofs := (ps_proofs s)[i := p]\<rparr>) else Panic)"

type_synonym 'e opt = "nat \<Rightarrow> proof_store \<Rightarrow> ('e, nat option \<times> proof_store) outcome"

definition opt_reflexive_congr :: "'e opt" where
  "opt_reflexive_congr i s =
     bind_o (ps_get s i) (\<lambda>p.
       (case pf_just p of
          JCongr base k child \<Rightarrow>
            bind_o (ps_get s child) (\<lambda>c. Ok (if pf_lhs c = pf_rhs c then Some base else None, s))
        | _ \<Rightarrow> Ok (None, s)))"

definition opt_reflexive_trans :: "'e opt" where
  "opt_reflexive_trans i s =
     bind_o (ps_get s i) (\<lambda>p.
       (case pf_just p of
          JTrans a b \<Rightarrow>
            bind_o (ps_get s a) (\<lambda>pa. bind_o (ps_get s b) (\<lambda>pb.
              Ok (if pf_lhs pa = pf_rhs pa then Some b
                  else if pf_lhs pb = pf_rhs pb then Some a else None, s)))
        | _ \<Rightarrow> Ok (None, s)))"

definition opt_reflexive_sym :: "'e opt" where
  "opt_reflexive_sym i s =
     bind_o (ps_get s i) (\<lambda>p.
       (case pf_just p of
          JSym a \<Rightarrow> bind_o (ps_get s a) (\<lambda>pa. Ok (if pf_lhs pa = pf_rhs pa then Some a else None, s))
        | _ \<Rightarrow> Ok (None, s)))"

definition opt_double_sym :: "'e opt" where
  "opt_double_sym i s =
     bind_o (ps_get s i) (\<lambda>p.
       (case pf_just p of
          JSym a \<Rightarrow>
            bind_o (ps_get s a) (\<lambda>pa.
              (case pf_just pa of JSym b \<Rightarrow> Ok (Some b, s) | _ \<Rightarrow> Ok (None, s)))
        | _ \<Rightarrow> Ok (None, s)))"

definition opt_sym_trans :: "'e opt" where
  "opt_sym_trans i s =
     bind_o (ps_get s i) (\<lambda>p.
       (case pf_just p of
          JSym a \<Rightarrow>
            bind_o (ps_get s a) (\<lambda>pa.
              (case pf_just pa of
                 JTrans l r \<Rightarrow>
                   bind_o (ps_get s l) (\<lambda>pl. bind_o (ps_get s r) (\<lambda>pr.
                     (let (sr, s1) = ps_push (mk_proof (pf_rhs pr) (pf_lhs pr) (JSym r)) s;
                          (sl, s2) = ps_push (mk_proof (pf_rhs pl) (pf_lhs pl) (JSym l)) s1
                      in bind_o (ps_set i (mk_proof (pf_rhs pr) (pf_lhs pl) (JTrans sr sl)) s2)
                           (\<lambda>s3. Ok (Some i, s3)))))
               | _ \<Rightarrow> Ok (None, s)))
        | _ \<Rightarrow> Ok (None, s)))"

text \<open>The first optimization that applies; otherwise the proof itself.\<close>

fun first_opt :: "'e opt list \<Rightarrow> nat \<Rightarrow> proof_store \<Rightarrow> ('e, nat \<times> proof_store) outcome" where
  "first_opt [] i s = Ok (i, s)"
| "first_opt (f # fs) i s =
     bind_o (f i s) (\<lambda>(r, s1). case r of Some j \<Rightarrow> Ok (j, s1) | None \<Rightarrow> first_opt fs i s1)"

definition apply_local_optimizations :: "nat \<Rightarrow> proof_store \<Rightarrow> ('e, nat \<times> proof_store) outcome" where
  "apply_local_optimizations =
     first_opt [opt_reflexive_congr, opt_reflexive_trans, opt_reflexive_sym, opt_double_sym, opt_sym_trans]"

section \<open>Children and the recursion\<close>

definition map_child_proofs ::
    "(nat \<Rightarrow> proof_store \<Rightarrow> ('e, nat \<times> proof_store) outcome) \<Rightarrow> nat \<Rightarrow> proof_store
     \<Rightarrow> ('e, nat \<times> proof_store) outcome" where
  "map_child_proofs f i s =
     bind_o (ps_get s i) (\<lambda>p.
       (let update = (\<lambda>p' s. bind_o (ps_set i p' s) (\<lambda>s1. Ok (i, s1))) in
        case pf_just p of
          JFiat \<Rightarrow> Ok (i, s)
        | JRule name pids sub \<Rightarrow>
            bind_o (map_out f pids s) (\<lambda>(pids', s1).
              if pids' = pids then Ok (i, s1) else update (p\<lparr>pf_just := JRule name pids' sub\<rparr>) s1)
        | JMergeFn fname a b \<Rightarrow>
            bind_o (f a s) (\<lambda>(a', s1). bind_o (f b s1) (\<lambda>(b', s2).
              if a' = a \<and> b' = b then Ok (i, s2)
              else bind_o (ps_get s2 a') (\<lambda>pa. bind_o (ps_get s2 b') (\<lambda>pb.
                update (mk_proof (pf_lhs pa) (pf_rhs pb) (JMergeFn fname a' b')) s2))))
        | JTrans a b \<Rightarrow>
            bind_o (f a s) (\<lambda>(a', s1). bind_o (f b s1) (\<lambda>(b', s2).
              if a' = a \<and> b' = b then Ok (i, s2)
              else bind_o (ps_get s2 a') (\<lambda>pa. bind_o (ps_get s2 b') (\<lambda>pb.
                update (mk_proof (pf_lhs pa) (pf_rhs pb) (JTrans a' b')) s2))))
        | JSym a \<Rightarrow>
            bind_o (f a s) (\<lambda>(a', s1).
              if a' = a then Ok (i, s1)
              else bind_o (ps_get s1 a') (\<lambda>pa. update (mk_proof (pf_rhs pa) (pf_lhs pa) (JSym a')) s1))
        | JCongr a k b \<Rightarrow>
            bind_o (f a s) (\<lambda>(a', s1). bind_o (f b s1) (\<lambda>(b', s2).
              if a' = a \<and> b' = b then Ok (i, s2)
              else bind_o (ps_get s2 a') (\<lambda>pa. bind_o (ps_get s2 b') (\<lambda>pb.
                bind_o (replace_term_child (pf_rhs pa) k (pf_rhs pb) s2) (\<lambda>(t, s3).
                  update (mk_proof (pf_lhs pa) t (JCongr a' k b')) s3)))))))"

text \<open>The loop stops as soon as an optimization returns the id it was given.\<close>

fun opt_loop :: "nat \<Rightarrow> nat \<Rightarrow> proof_store \<Rightarrow> ('e, nat \<times> proof_store) outcome" where
  "opt_loop 0 i s = Panic"
| "opt_loop (Suc n) i s =
     bind_o (apply_local_optimizations i s) (\<lambda>(j, s1). if j = i then Ok (i, s1) else opt_loop n j s1)"

primrec simplify :: "nat \<Rightarrow> nat \<Rightarrow> proof_store \<Rightarrow> ('e, nat \<times> proof_store) outcome" where
  "simplify 0 i s = Panic"
| "simplify (Suc n) i s =
     bind_o (map_child_proofs (\<lambda>i s. simplify n i s) i s) (\<lambda>(j, s1).
       opt_loop (Suc (length (ps_proofs s1))) j s1)"

section \<open>Locally consistent stores\<close>

text \<open>
  Every node follows from the propositions of its children. What makes a fiat, a rule or
  a merge step right depends on the program only; it is a parameter \<open>A\<close> here, given the
  kind of step and the propositions of the children.
\<close>

datatype axiom_step = AFiat | ARule string "(string \<times> nat) list" | AMerge string

definition prop_of :: "proof_store \<Rightarrow> nat \<Rightarrow> propn" where
  "prop_of s i = pf_prop (ps_proofs s ! i)"

definition node_ok :: "(axiom_step \<Rightarrow> propn list \<Rightarrow> propn \<Rightarrow> bool) \<Rightarrow> proof_store \<Rightarrow> proof_node \<Rightarrow> bool" where
  "node_ok A s p \<longleftrightarrow>
     (let n = length (ps_proofs s); pr = prop_of s in
      case pf_just p of
        JFiat \<Rightarrow> A AFiat [] (pf_prop p)
      | JRule name pids sub \<Rightarrow> (\<forall>j \<in> set pids. j < n) \<and> A (ARule name sub) (map pr pids) (pf_prop p)
      | JMergeFn f a b \<Rightarrow> a < n \<and> b < n \<and> A (AMerge f) [pr a, pr b] (pf_prop p)
      | JTrans a b \<Rightarrow> a < n \<and> b < n \<and> p_rhs (pr a) = p_lhs (pr b)
          \<and> pf_prop p = mk_prop (p_lhs (pr a)) (p_rhs (pr b))
      | JSym a \<Rightarrow> a < n \<and> pf_prop p = mk_prop (p_rhs (pr a)) (p_lhs (pr a))
      | JCongr a k b \<Rightarrow> a < n \<and> b < n \<and> p_lhs (pf_prop p) = p_lhs (pr a)
          \<and> (case dag_get (ps_dag s) (p_rhs (pr a)) of
               Some (TApp f cs) \<Rightarrow> k < length cs \<and> cs ! k = p_lhs (pr b)
                 \<and> dag_get (ps_dag s) (p_rhs (pf_prop p)) = Some (TApp f (cs[k := p_rhs (pr b)]))
             | _ \<Rightarrow> False))"

definition store_ok :: "(axiom_step \<Rightarrow> propn list \<Rightarrow> propn \<Rightarrow> bool) \<Rightarrow> proof_store \<Rightarrow> bool" where
  "store_ok A s \<longleftrightarrow> wf_dag (ps_dag s) \<and> (\<forall>p \<in> set (ps_proofs s). node_ok A s p
     \<and> p_rhs (pf_prop p) < length (nodes (ps_dag s)))"

text \<open>Later stores: the terms and proofs grow, and no proof changes what it proves.\<close>

definition store_le :: "proof_store \<Rightarrow> proof_store \<Rightarrow> bool" where
  "store_le s s' \<longleftrightarrow> dag_le (ps_dag s) (ps_dag s') \<and> length (ps_proofs s) \<le> length (ps_proofs s')
     \<and> (\<forall>i < length (ps_proofs s). prop_of s' i = prop_of s i)"

lemma store_le_refl [simp]: "store_le s s"
  by (simp add: store_le_def)

lemma store_le_trans: "store_le a b \<Longrightarrow> store_le b c \<Longrightarrow> store_le a c"
  by (auto simp: store_le_def intro: dag_le_trans)

lemma store_leD:
  assumes "store_le s s'" "i < length (ps_proofs s)"
  shows "i < length (ps_proofs s')" "prop_of s' i = prop_of s i"
  using assms by (auto simp: store_le_def)

lemma dag_get_le: "dag_le d d' \<Longrightarrow> dag_get d i = Some t \<Longrightarrow> dag_get d' i = Some t"
  using dag_le_nth [of d d' i] dag_le_length [of d d'] by auto

lemma dag_get_inj: "wf_dag d \<Longrightarrow> dag_get d i = Some t \<Longrightarrow> dag_get d j = Some t \<Longrightarrow> i = j"
  by (auto simp: wf_dag_def nth_eq_iff_index_eq)

lemma node_ok_le:
  assumes "store_le s s'" "node_ok A s p"
  shows "node_ok A s' p"
proof -
  have pr: "prop_of s' j = prop_of s j" if "j < length (ps_proofs s)" for j
    using store_leD [OF assms(1) that] by simp
  have le: "dag_le (ps_dag s) (ps_dag s')" using assms(1) by (simp add: store_le_def)
  have lt: "j < length (ps_proofs s')" if "j < length (ps_proofs s)" for j
    using store_leD [OF assms(1) that] by simp
  show ?thesis
  proof (cases "pf_just p")
    case (JRule name pids sub)
    with assms(2) have r: "\<forall>j \<in> set pids. j < length (ps_proofs s)"
      "A (ARule name sub) (map (prop_of s) pids) (pf_prop p)" by (auto simp: node_ok_def)
    have eq: "map (prop_of s') pids = map (prop_of s) pids" using r(1) pr by simp
    show ?thesis using JRule r lt by (simp add: node_ok_def eq)
  next
    case (JCongr a k b)
    with assms(2) obtain f cs where c: "a < length (ps_proofs s)" "b < length (ps_proofs s)"
      "p_lhs (pf_prop p) = p_lhs (prop_of s a)" "dag_get (ps_dag s) (p_rhs (prop_of s a)) = Some (TApp f cs)"
      "k < length cs" "cs ! k = p_lhs (prop_of s b)"
      "dag_get (ps_dag s) (p_rhs (pf_prop p)) = Some (TApp f (cs[k := p_rhs (prop_of s b)]))"
      by (auto simp: node_ok_def Let_def split: option.splits dterm.splits)
    with JCongr pr lt dag_get_le [OF le] show ?thesis by (simp add: node_ok_def del: dag_get_Some)
  qed (use assms(2) pr lt in \<open>auto simp: node_ok_def Let_def\<close>)
qed

section \<open>The invariant of the simplifier\<close>

text \<open>
  \<open>rk\<close> ranks the proofs so that every child has a smaller rank; it is what makes the
  recursion and the loop end. The steps of merge functions are excluded: see the last
  section.
\<close>

fun is_merge :: "justification \<Rightarrow> bool" where
  "is_merge (JMergeFn f a b) = True"
| "is_merge _ = False"

definition just_ranked :: "(nat \<Rightarrow> nat) \<Rightarrow> nat \<Rightarrow> nat \<Rightarrow> nat \<Rightarrow> justification \<Rightarrow> bool" where
  "just_ranked rk N n i j \<longleftrightarrow> rk i < N \<and> (\<forall>c \<in> set (just_children j). c < n \<and> rk c < rk i)"

definition simp_inv :: "(axiom_step \<Rightarrow> propn list \<Rightarrow> propn \<Rightarrow> bool) \<Rightarrow> (nat \<Rightarrow> nat) \<Rightarrow> nat \<Rightarrow> proof_store \<Rightarrow> bool" where
  "simp_inv A rk N s \<longleftrightarrow> store_ok A s \<and> N \<le> length (ps_proofs s)
     \<and> (\<forall>i < length (ps_proofs s). \<not> is_merge (pf_just (ps_proofs s ! i))
          \<and> just_ranked rk N (length (ps_proofs s)) i (pf_just (ps_proofs s ! i)))"

definition good_at :: "(axiom_step \<Rightarrow> propn list \<Rightarrow> propn \<Rightarrow> bool) \<Rightarrow> (nat \<Rightarrow> nat) \<Rightarrow> (nat \<Rightarrow> nat) \<Rightarrow> nat
    \<Rightarrow> proof_store \<Rightarrow> nat \<Rightarrow> nat \<Rightarrow> proof_store \<Rightarrow> bool" where
  "good_at A rk rk' N s i j s' \<longleftrightarrow>
     simp_inv A rk' N s' \<and> (\<forall>k < length (ps_proofs s). rk' k = rk k) \<and> store_le s s'
     \<and> j < length (ps_proofs s') \<and> prop_of s' j = prop_of s i \<and> (j = i \<or> rk' j < rk i)"

definition good :: "(axiom_step \<Rightarrow> propn list \<Rightarrow> propn \<Rightarrow> bool) \<Rightarrow> (nat \<Rightarrow> nat) \<Rightarrow> nat \<Rightarrow> proof_store \<Rightarrow> nat
    \<Rightarrow> nat \<Rightarrow> proof_store \<Rightarrow> bool" where
  "good A rk N s i j s' \<longleftrightarrow> (\<exists>rk'. good_at A rk rk' N s i j s')"

lemma simp_inv_node:
  assumes "simp_inv A rk N s" "i < length (ps_proofs s)"
  shows "node_ok A s (ps_proofs s ! i)" "wf_dag (ps_dag s)" "p_rhs (prop_of s i) < length (nodes (ps_dag s))"
    "just_ranked rk N (length (ps_proofs s)) i (pf_just (ps_proofs s ! i))"
    "\<not> is_merge (pf_just (ps_proofs s ! i))"
    "ps_get s i = Ok (ps_proofs s ! i)"
  using assms by (auto simp: simp_inv_def store_ok_def prop_of_def ps_get_def)

lemma pf_prop_of:
  "pf_lhs (ps_proofs s ! i) = p_lhs (prop_of s i)" "pf_rhs (ps_proofs s ! i) = p_rhs (prop_of s i)"
  by (simp_all add: pf_lhs_def pf_rhs_def prop_of_def)

lemma mk_proof_sel [simp]: "pf_prop (mk_proof l r j) = mk_prop l r" "pf_just (mk_proof l r j) = j"
  by (simp_all add: mk_proof_def)

text \<open>A new proof, with a rank of its own.\<close>

lemma push_inv:
  assumes inv: "simp_inv A rk N s" and p: "node_ok A s p" "p_rhs (pf_prop p) < length (nodes (ps_dag s))"
    "\<not> is_merge (pf_just p)" and rk: "r < N" "\<forall>c \<in> set (just_children (pf_just p)). c < length (ps_proofs s) \<and> rk c < r"
    and push: "ps_push p s = (i, s')"
  shows "simp_inv A (rk(i := r)) N s' \<and> store_le s s' \<and> i = length (ps_proofs s) \<and> i < length (ps_proofs s')
    \<and> prop_of s' i = pf_prop p \<and> ps_dag s' = ps_dag s \<and> length (ps_proofs s') = Suc (length (ps_proofs s))
    \<and> (\<forall>k < length (ps_proofs s). ps_proofs s' ! k = ps_proofs s ! k)"
proof -
  have s': "s' = s\<lparr>ps_proofs := ps_proofs s @ [p]\<rparr>" "i = length (ps_proofs s)"
    using push by (auto simp: ps_push_def)
  have le: "store_le s s'" by (simp add: store_le_def s' prop_of_def nth_append)
  have "store_ok A s'"
    using inv p node_ok_le [OF le] by (auto simp: simp_inv_def store_ok_def s')
  moreover have "\<not> is_merge (pf_just (ps_proofs s' ! k))
      \<and> just_ranked (rk(i := r)) N (length (ps_proofs s')) k (pf_just (ps_proofs s' ! k))"
    if k: "k < length (ps_proofs s')" for k
  proof (cases "k < length (ps_proofs s)")
    case True
    with simp_inv_node(4,5) [OF inv True] show ?thesis
      by (fastforce simp: s' nth_append just_ranked_def)
  next
    case False
    then have "k = i" using k s' by simp
    then show ?thesis using p(3) rk by (fastforce simp: s' nth_append just_ranked_def)
  qed
  ultimately show ?thesis
    using inv le by (auto simp: simp_inv_def s' prop_of_def nth_append)
qed

text \<open>A proof replaced in place by one of the same proposition.\<close>

lemma set_inv:
  assumes inv: "simp_inv A rk N s" and i: "i < length (ps_proofs s)"
    and p: "node_ok A s p" "pf_prop p = prop_of s i" "\<not> is_merge (pf_just p)"
    and rk: "\<forall>c \<in> set (just_children (pf_just p)). c < length (ps_proofs s) \<and> rk c < rk i"
    and s': "s' = s\<lparr>ps_proofs := (ps_proofs s)[i := p]\<rparr>"
  shows "simp_inv A rk N s' \<and> store_le s s' \<and> length (ps_proofs s') = length (ps_proofs s)"
proof -
  have le: "store_le s s'" using p(2) i by (auto simp: s' store_le_def prop_of_def nth_list_update)
  have "node_ok A s' q \<and> p_rhs (pf_prop q) < length (nodes (ps_dag s'))" if "q \<in> set (ps_proofs s')" for q
  proof (cases "q = p")
    case True
    then show ?thesis using node_ok_le [OF le p(1)] simp_inv_node(3) [OF inv i] p(2) by (simp add: s')
  next
    case False
    then have "q \<in> set (ps_proofs s)" using that set_update_subset_insert [of "ps_proofs s" i p] by (auto simp: s')
    then show ?thesis using node_ok_le [OF le] inv by (simp add: simp_inv_def store_ok_def s')
  qed
  then have "store_ok A s'" using inv by (simp add: simp_inv_def store_ok_def s')
  moreover have "just_ranked rk N (length (ps_proofs s)) i (pf_just p)"
    using simp_inv_node(4) [OF inv i] rk by (auto simp: just_ranked_def)
  ultimately have "simp_inv A rk N s'"
    using inv p(3) i by (auto simp: simp_inv_def nth_list_update s')
  with le show ?thesis by (simp add: s')
qed

lemma ps_set_ok: "i < length (ps_proofs s) \<Longrightarrow> ps_set i p s = Ok (s\<lparr>ps_proofs := (ps_proofs s)[i := p]\<rparr>)"
  by (simp add: ps_set_def)

section \<open>The optimizations keep the invariant\<close>

text \<open>
  An optimization returns, and either does not apply and changes nothing, or names a
  proof of the same proposition: the proof itself, or one of smaller rank.
\<close>

definition opt_good :: "'e opt \<Rightarrow> bool" where
  "opt_good f \<longleftrightarrow> (\<forall>A rk N s i. simp_inv A rk N s \<longrightarrow> i < length (ps_proofs s) \<longrightarrow>
     f i s = Ok (None, s) \<or> (\<exists>j s'. f i s = Ok (Some j, s') \<and> good A rk N s i j s'))"

lemma opt_goodI:
  assumes "\<And>A rk N s i. simp_inv A rk N s \<Longrightarrow> i < length (ps_proofs s) \<Longrightarrow>
     f i s = Ok (None, s) \<or> (\<exists>j s'. f i s = Ok (Some j, s') \<and> good A rk N s i j s')"
  shows "opt_good f"
  using assms by (simp add: opt_good_def)

lemma good_child:
  assumes "simp_inv A rk N s" "i < length (ps_proofs s)" "j \<in> set (just_children (pf_just (ps_proofs s ! i)))"
    and "prop_of s j = prop_of s i"
  shows "good A rk N s i j s"
proof -
  have "j < length (ps_proofs s)" "rk j < rk i"
    using simp_inv_node(4) [OF assms(1,2)] assms(3) by (auto simp: just_ranked_def)
  with assms(1,4) show ?thesis by (auto simp: good_def good_at_def)
qed

lemma node_child:
  assumes "simp_inv A rk N s" "i < length (ps_proofs s)" "j \<in> set (just_children (pf_just (ps_proofs s ! i)))"
  shows "j < length (ps_proofs s)" "rk j < rk i" "ps_get s j = Ok (ps_proofs s ! j)"
  using simp_inv_node(4) [OF assms(1,2)] assms(3) by (auto simp: just_ranked_def ps_get_def)

lemma congr_nodeD:
  assumes "node_ok A s p" "pf_just p = JCongr a k b"
  obtains f cs where "a < length (ps_proofs s)" "b < length (ps_proofs s)"
    "p_lhs (pf_prop p) = p_lhs (prop_of s a)" "dag_get (ps_dag s) (p_rhs (prop_of s a)) = Some (TApp f cs)"
    "k < length cs" "cs ! k = p_lhs (prop_of s b)"
    "dag_get (ps_dag s) (p_rhs (pf_prop p)) = Some (TApp f (cs[k := p_rhs (prop_of s b)]))"
  using assms by (auto simp: node_ok_def Let_def split: option.splits dterm.splits)

lemma opt_reflexive_congr_good: "opt_good opt_reflexive_congr"
proof (rule opt_goodI)
  fix A rk N s i
  assume inv: "simp_inv A rk N s" and i: "i < length (ps_proofs s)"
  show "opt_reflexive_congr i s = Ok (None, s) \<or> (\<exists>j s'. opt_reflexive_congr i s = Ok (Some j, s') \<and> good A rk N s i j s')"
  proof (cases "pf_just (ps_proofs s ! i)")
    case (JCongr a k b)
    have ch: "a \<in> set (just_children (pf_just (ps_proofs s ! i)))" "b \<in> set (just_children (pf_just (ps_proofs s ! i)))"
      by (simp_all add: JCongr)
    show ?thesis
    proof (cases "pf_lhs (ps_proofs s ! b) = pf_rhs (ps_proofs s ! b)")
      case True
      obtain f cs where c: "p_lhs (prop_of s i) = p_lhs (prop_of s a)"
        "dag_get (ps_dag s) (p_rhs (prop_of s a)) = Some (TApp f cs)" "cs ! k = p_lhs (prop_of s b)"
        "dag_get (ps_dag s) (p_rhs (prop_of s i)) = Some (TApp f (cs[k := p_rhs (prop_of s b)]))"
        by (rule congr_nodeD [OF simp_inv_node(1) [OF inv i] JCongr]) (simp add: prop_of_def)
      have "cs[k := p_rhs (prop_of s b)] = cs" using c(3) True by (metis list_update_id pf_prop_of)
      with c(2,4) dag_get_inj [OF simp_inv_node(2) [OF inv i]]
      have "p_rhs (prop_of s a) = p_rhs (prop_of s i)" by metis
      with c(1) have "prop_of s a = prop_of s i" by (metis mk_prop_eta)
      with good_child [OF inv i ch(1)] True JCongr show ?thesis
        by (simp add: opt_reflexive_congr_def node_child(3) [OF inv i ch(2)] simp_inv_node(6) [OF inv i])
    next
      case False
      with JCongr show ?thesis
        by (simp add: opt_reflexive_congr_def node_child(3) [OF inv i ch(2)] simp_inv_node(6) [OF inv i])
    qed
  qed (simp_all add: opt_reflexive_congr_def simp_inv_node(6) [OF inv i])
qed

lemma opt_reflexive_trans_good: "opt_good opt_reflexive_trans"
proof (rule opt_goodI)
  fix A rk N s i
  assume inv: "simp_inv A rk N s" and i: "i < length (ps_proofs s)"
  show "opt_reflexive_trans i s = Ok (None, s) \<or> (\<exists>j s'. opt_reflexive_trans i s = Ok (Some j, s') \<and> good A rk N s i j s')"
  proof (cases "pf_just (ps_proofs s ! i)")
    case (JTrans a b)
    have ch: "a \<in> set (just_children (pf_just (ps_proofs s ! i)))" "b \<in> set (just_children (pf_just (ps_proofs s ! i)))"
      by (simp_all add: JTrans)
    have t: "p_rhs (prop_of s a) = p_lhs (prop_of s b)"
      "prop_of s i = mk_prop (p_lhs (prop_of s a)) (p_rhs (prop_of s b))"
      using simp_inv_node(1) [OF inv i] JTrans by (auto simp: node_ok_def prop_of_def Let_def)
    note g = node_child(3) [OF inv i ch(1)] node_child(3) [OF inv i ch(2)] simp_inv_node(6) [OF inv i]
    consider "p_lhs (prop_of s a) = p_rhs (prop_of s a)"
      | "p_lhs (prop_of s a) \<noteq> p_rhs (prop_of s a)" "p_lhs (prop_of s b) = p_rhs (prop_of s b)"
      | "p_lhs (prop_of s a) \<noteq> p_rhs (prop_of s a)" "p_lhs (prop_of s b) \<noteq> p_rhs (prop_of s b)" by blast
    then show ?thesis
    proof cases
      case 1
      with t have "prop_of s b = prop_of s i" by simp
      with good_child [OF inv i ch(2)] 1 JTrans show ?thesis
        by (simp add: opt_reflexive_trans_def pf_prop_of g)
    next
      case 2
      with t have "prop_of s a = prop_of s i" by (metis mk_prop_eta)
      with good_child [OF inv i ch(1)] 2 JTrans show ?thesis
        by (simp add: opt_reflexive_trans_def pf_prop_of g)
    next
      case 3
      with JTrans show ?thesis by (simp add: opt_reflexive_trans_def pf_prop_of g)
    qed
  qed (simp_all add: opt_reflexive_trans_def simp_inv_node(6) [OF inv i])
qed

lemma sym_nodeD:
  assumes "simp_inv A rk N s" "i < length (ps_proofs s)" "pf_just (ps_proofs s ! i) = JSym a"
  shows "prop_of s i = mk_prop (p_rhs (prop_of s a)) (p_lhs (prop_of s a))" "a < length (ps_proofs s)" "rk a < rk i"
    "ps_get s a = Ok (ps_proofs s ! a)"
  using simp_inv_node(1) [OF assms(1,2)] node_child [OF assms(1,2), of a] assms(3)
  by (auto simp: node_ok_def prop_of_def Let_def)

lemma opt_reflexive_sym_good: "opt_good opt_reflexive_sym"
proof (rule opt_goodI)
  fix A rk N s i
  assume inv: "simp_inv A rk N s" and i: "i < length (ps_proofs s)"
  show "opt_reflexive_sym i s = Ok (None, s) \<or> (\<exists>j s'. opt_reflexive_sym i s = Ok (Some j, s') \<and> good A rk N s i j s')"
  proof (cases "pf_just (ps_proofs s ! i)")
    case (JSym a)
    note a = sym_nodeD [OF inv i JSym]
    have "prop_of s a = prop_of s i" if "p_lhs (prop_of s a) = p_rhs (prop_of s a)"
      using a(1) that by (metis mk_prop_eta)
    with good_child [OF inv i, of a] JSym show ?thesis
      by (simp add: opt_reflexive_sym_def pf_prop_of a(4) simp_inv_node(6) [OF inv i])
  qed (simp_all add: opt_reflexive_sym_def simp_inv_node(6) [OF inv i])
qed

lemma opt_double_sym_good: "opt_good opt_double_sym"
proof (rule opt_goodI)
  fix A rk N s i
  assume inv: "simp_inv A rk N s" and i: "i < length (ps_proofs s)"
  show "opt_double_sym i s = Ok (None, s) \<or> (\<exists>j s'. opt_double_sym i s = Ok (Some j, s') \<and> good A rk N s i j s')"
  proof (cases "pf_just (ps_proofs s ! i)")
    case (JSym a)
    note a = sym_nodeD [OF inv i JSym]
    show ?thesis
    proof (cases "pf_just (ps_proofs s ! a)")
      case inner: (JSym b)
      note b = sym_nodeD [OF inv a(2) inner]
      have "prop_of s b = prop_of s i" using a(1) b(1) by simp
      then have "good A rk N s i b s" using inv b a by (auto simp: good_def good_at_def)
      with JSym inner show ?thesis
        by (simp add: opt_double_sym_def a(4) simp_inv_node(6) [OF inv i])
    qed (use JSym in \<open>simp_all add: opt_double_sym_def a(4) simp_inv_node(6) [OF inv i]\<close>)
  qed (simp_all add: opt_double_sym_def simp_inv_node(6) [OF inv i])
qed

lemma opt_sym_trans_good: "opt_good opt_sym_trans"
proof (rule opt_goodI)
  fix A rk N s i
  assume inv: "simp_inv A rk N s" and i: "i < length (ps_proofs s)"
  show "opt_sym_trans i s = Ok (None, s) \<or> (\<exists>j s'. opt_sym_trans i s = Ok (Some j, s') \<and> good A rk N s i j s')"
  proof (cases "pf_just (ps_proofs s ! i)")
    case (JSym a)
    note a = sym_nodeD [OF inv i JSym]
    show ?thesis
    proof (cases "pf_just (ps_proofs s ! a)")
      case (JTrans l r)
      have ch: "l \<in> set (just_children (pf_just (ps_proofs s ! a)))" "r \<in> set (just_children (pf_just (ps_proofs s ! a)))"
        by (simp_all add: JTrans)
      note l = node_child [OF inv a(2) ch(1)] and r = node_child [OF inv a(2) ch(2)]
      have t: "p_rhs (prop_of s l) = p_lhs (prop_of s r)"
        "prop_of s a = mk_prop (p_lhs (prop_of s l)) (p_rhs (prop_of s r))"
        using simp_inv_node(1) [OF inv a(2)] JTrans by (auto simp: node_ok_def prop_of_def Let_def)
      have pi: "prop_of s i = mk_prop (p_rhs (prop_of s r)) (p_lhs (prop_of s l))" using a(1) t by simp
      have N: "rk a < N" using simp_inv_node(4) [OF inv a(2)] by (simp add: just_ranked_def)
      let ?sr = "mk_proof (p_rhs (prop_of s r)) (p_lhs (prop_of s r)) (JSym r)"
      let ?sl = "mk_proof (p_rhs (prop_of s l)) (p_lhs (prop_of s l)) (JSym l)"
      obtain x s1 where x: "ps_push ?sr s = (x, s1)" by force
      have "node_ok A s ?sr" using r by (simp add: node_ok_def)
      from push_inv [OF inv this _ _ N _ x] simp_inv_node(3) [OF inv l(1)] r t(1)
      have 1: "simp_inv A (rk(x := rk a)) N s1" "store_le s s1" "x = length (ps_proofs s)" "x < length (ps_proofs s1)"
        "prop_of s1 x = mk_prop (p_rhs (prop_of s r)) (p_lhs (prop_of s r))" "ps_dag s1 = ps_dag s" by auto
      obtain y s2 where y: "ps_push ?sl s1 = (y, s2)" by force
      have l1: "l < length (ps_proofs s1)" "prop_of s1 l = prop_of s l" using store_leD [OF 1(2) l(1)] by auto
      have "node_ok A s1 ?sl" using l1 by (simp add: node_ok_def)
      from push_inv [OF 1(1) this _ _ N _ y] simp_inv_node(3) [OF inv i] pi 1(3,6) l l1
      have 2: "simp_inv A (rk(x := rk a, y := rk a)) N s2" "store_le s1 s2" "y = length (ps_proofs s1)"
        "y < length (ps_proofs s2)" "prop_of s2 y = mk_prop (p_rhs (prop_of s l)) (p_lhs (prop_of s l))" by auto
      have le: "store_le s s2" using store_le_trans 1(2) 2(2) by blast
      have i2: "i < length (ps_proofs s2)" "prop_of s2 i = prop_of s i" using store_leD [OF le i] by auto
      have x2: "x < length (ps_proofs s2)" "prop_of s2 x = prop_of s1 x" using store_leD [OF 2(2) 1(4)] by auto
      have ne: "x \<noteq> i" "y \<noteq> i" "x \<noteq> y" using i 1(3,4) 2(3) by auto
      let ?p = "mk_proof (p_rhs (prop_of s r)) (p_lhs (prop_of s l)) (JTrans x y)"
      have "node_ok A s2 ?p" using x2 2(4,5) 1(5) t(1) by (simp add: node_ok_def)
      moreover have "pf_prop ?p = prop_of s2 i" using i2(2) pi by simp
      moreover define s3 where "s3 = s2\<lparr>ps_proofs := (ps_proofs s2)[i := ?p]\<rparr>"
      ultimately have 3: "simp_inv A (rk(x := rk a, y := rk a)) N s3"
        "store_le s2 s3" "length (ps_proofs s3) = length (ps_proofs s2)"
        using set_inv [OF 2(1) i2(1), of ?p s3] x2 2(4) ne a(3) by auto
      have "store_le s s3" using store_le_trans [OF le 3(2)] .
      moreover have "\<forall>k < length (ps_proofs s). (rk(x := rk a, y := rk a)) k = rk k"
        using 1(3,4) 2(3) by auto
      ultimately have "good A rk N s i i s3"
        using 3 i2 store_leD [of s s3 i] i unfolding good_def good_at_def by (intro exI [of _ "rk(x := rk a, y := rk a)"]) auto
      moreover have "opt_sym_trans i s = Ok (Some i, s3)"
        using JSym JTrans x y ps_set_ok [OF i2(1)]
        by (simp add: opt_sym_trans_def simp_inv_node(6) [OF inv i] a(4) l(3) r(3) pf_prop_of
            ps_set_ok [OF i2(1)] s3_def)
      ultimately show ?thesis by blast
    qed (use JSym in \<open>simp_all add: opt_sym_trans_def a(4) simp_inv_node(6) [OF inv i]\<close>)
  qed (simp_all add: opt_sym_trans_def simp_inv_node(6) [OF inv i])
qed

section \<open>The loop and the recursion\<close>

lemma good_refl: "simp_inv A rk N s \<Longrightarrow> i < length (ps_proofs s) \<Longrightarrow> good_at A rk rk N s i i s"
  by (simp add: good_at_def)

lemma first_opt_good:
  assumes "\<forall>f \<in> set fs. opt_good f" "simp_inv A rk N s" "i < length (ps_proofs s)"
  shows "\<exists>j s'. first_opt fs i s = Ok (j, s') \<and> good A rk N s i j s'"
  using assms
proof (induction fs)
  case Nil
  then show ?case using good_refl [of A rk N s i] by (auto simp: good_def)
next
  case (Cons f fs)
  then have "f i s = Ok (None, s) \<or> (\<exists>j s'. f i s = Ok (Some j, s') \<and> good A rk N s i j s')"
    by (simp add: opt_good_def)
  with Cons show ?case by auto
qed

lemma apply_local_good:
  assumes "simp_inv A rk N s" "i < length (ps_proofs s)"
  shows "\<exists>j s'. apply_local_optimizations i s = (Ok (j, s') :: ('e, nat \<times> proof_store) outcome) \<and> good A rk N s i j s'"
  unfolding apply_local_optimizations_def
  by (rule first_opt_good [OF _ assms])
    (auto intro: opt_reflexive_congr_good opt_reflexive_trans_good opt_reflexive_sym_good
      opt_double_sym_good opt_sym_trans_good)

lemma good_trans:
  assumes 1: "good_at A rk rk1 N s i j s1" and 2: "good_at A rk1 rk2 N s1 j k s2" and i: "i < length (ps_proofs s)"
  shows "good_at A rk rk2 N s i k s2"
proof -
  have "length (ps_proofs s) \<le> length (ps_proofs s1)" using 1 by (simp add: good_at_def store_le_def)
  then have rk: "\<forall>k < length (ps_proofs s). rk2 k = rk k" using 1 2 by (simp add: good_at_def)
  have "k = i \<or> rk2 k < rk i"
  proof (cases "k = j")
    case True
    then show ?thesis using 1 2 by (auto simp: good_at_def)
  next
    case False
    then have "rk2 k < rk1 j" using 2 by (simp add: good_at_def)
    moreover have "rk1 j \<le> rk i" using 1 i by (cases "j = i") (auto simp: good_at_def)
    ultimately show ?thesis by simp
  qed
  with 1 2 rk store_le_trans show ?thesis unfolding good_at_def by metis
qed

lemma opt_loop_good:
  "simp_inv A rk N s \<Longrightarrow> i < length (ps_proofs s) \<Longrightarrow> rk i < n
    \<Longrightarrow> \<exists>j s'. opt_loop n i s = (Ok (j, s') :: ('e, nat \<times> proof_store) outcome) \<and> good A rk N s i j s'"
proof (induction n arbitrary: i s rk)
  case (Suc n)
  from apply_local_good [OF Suc.prems(1,2)] obtain j s1 where
    1: "apply_local_optimizations i s = (Ok (j, s1) :: ('e, nat \<times> proof_store) outcome)" "good A rk N s i j s1" by blast
  show ?case
  proof (cases "j = i")
    case True
    with 1 show ?thesis by simp
  next
    case False
    from 1(2) obtain rk1 where rk1: "good_at A rk rk1 N s i j s1" by (auto simp: good_def)
    with False have *: "simp_inv A rk1 N s1" "j < length (ps_proofs s1)" "rk1 j < rk i" by (auto simp: good_at_def)
    then have "rk1 j < n" using Suc.prems(3) by simp
    from Suc.IH [OF *(1,2) this] obtain k s2 where
      2: "opt_loop n j s1 = (Ok (k, s2) :: ('e, nat \<times> proof_store) outcome)" "good A rk1 N s1 j k s2" by blast
    then have "good A rk N s i k s2" using good_trans [OF rk1 _ Suc.prems(2)] by (auto simp: good_def)
    with 1(1) 2(1) False show ?thesis by auto
  qed
qed simp

text \<open>
  What \<open>map_child_proofs\<close> asks of its closure: on any later store, a child is mapped to
  a proof of the same proposition and of no larger rank.
\<close>

definition child_map ::
    "(axiom_step \<Rightarrow> propn list \<Rightarrow> propn \<Rightarrow> bool) \<Rightarrow> nat \<Rightarrow> nat
     \<Rightarrow> (nat \<Rightarrow> proof_store \<Rightarrow> ('e, nat \<times> proof_store) outcome) \<Rightarrow> bool" where
  "child_map A N b f \<longleftrightarrow> (\<forall>rk s j. simp_inv A rk N s \<longrightarrow> j < length (ps_proofs s) \<longrightarrow> rk j < b \<longrightarrow>
     (\<exists>j' s'. f j s = Ok (j', s') \<and> good A rk N s j j' s'))"

lemma child_mapD:
  assumes "child_map A N b f" "simp_inv A rk N s" "j < length (ps_proofs s)" "rk j < b"
  obtains j' s' rk' where "f j s = Ok (j', s')" "good_at A rk rk' N s j j' s'"
  using assms unfolding child_map_def good_def by blast

text \<open>Mapping one child: the other facts about the store carry over.\<close>

definition mapped :: "(axiom_step \<Rightarrow> propn list \<Rightarrow> propn \<Rightarrow> bool) \<Rightarrow> nat \<Rightarrow> (nat \<Rightarrow> nat) \<Rightarrow> proof_store
    \<Rightarrow> (nat \<Rightarrow> nat) \<Rightarrow> proof_store \<Rightarrow> nat list \<Rightarrow> nat list \<Rightarrow> bool" where
  "mapped A N rk s rk' s' js js' \<longleftrightarrow> simp_inv A rk' N s' \<and> store_le s s'
     \<and> (\<forall>k < length (ps_proofs s). rk' k = rk k)
     \<and> list_all2 (\<lambda>j j'. j' < length (ps_proofs s') \<and> prop_of s' j' = prop_of s j \<and> rk' j' \<le> rk j) js js'"

lemma map_children:
  assumes f: "child_map A N b f"
  shows "simp_inv A rk N s \<Longrightarrow> \<forall>j \<in> set js. j < length (ps_proofs s) \<and> rk j < b
    \<Longrightarrow> \<exists>js' s' rk'. map_out f js s = Ok (js', s') \<and> mapped A N rk s rk' s' js js'"
proof (induction js arbitrary: s rk)
  case Nil
  then show ?case by (auto simp: mapped_def intro: exI [of _ rk])
next
  case (Cons j js)
  obtain j' s1 rk1 where 1: "f j s = Ok (j', s1)" "good_at A rk rk1 N s j j' s1"
    by (rule child_mapD [OF f Cons.prems(1), of j]) (use Cons.prems(2) in auto)
  have g: "simp_inv A rk1 N s1" "\<forall>k < length (ps_proofs s). rk1 k = rk k" "store_le s s1" "j' < length (ps_proofs s1)"
    "prop_of s1 j' = prop_of s j" "j' = j \<or> rk1 j' < rk j"
    using 1(2) by (auto simp: good_at_def)
  have js: "\<forall>j \<in> set js. j < length (ps_proofs s1) \<and> rk1 j < b"
    using Cons.prems(2) g(2) store_leD(1) [OF g(3)] by auto
  from Cons.IH [OF g(1) js] obtain js' s2 rk2 where
    2: "map_out f js s1 = Ok (js', s2)" "mapped A N rk1 s1 rk2 s2 js js'" by blast
  have m: "simp_inv A rk2 N s2" "store_le s1 s2" "\<forall>k < length (ps_proofs s1). rk2 k = rk1 k"
    "list_all2 (\<lambda>j j'. j' < length (ps_proofs s2) \<and> prop_of s2 j' = prop_of s1 j \<and> rk2 j' \<le> rk1 j) js js'"
    using 2(2) by (auto simp: mapped_def)
  have "list_all2 (\<lambda>j j'. j' < length (ps_proofs s2) \<and> prop_of s2 j' = prop_of s j \<and> rk2 j' \<le> rk j) js js'"
    using m(4) Cons.prems(2) g(2) store_leD(2) [OF g(3)]
    by (auto simp: list_all2_conv_all_nth)
  moreover have "j' < length (ps_proofs s2) \<and> prop_of s2 j' = prop_of s j \<and> rk2 j' \<le> rk j"
    using store_leD [OF m(2) g(4)] g m(3) Cons.prems(2) by auto
  moreover have "\<forall>k < length (ps_proofs s). rk2 k = rk k" using g(2) m(3) store_leD(1) [OF g(3)] by simp
  ultimately have "mapped A N rk s rk2 s2 (j # js) (j' # js')"
    using m(1) store_le_trans [OF g(3) m(2)] by (simp add: mapped_def)
  with 1(1) 2(1) show ?case by auto
qed

text \<open>Replacing a proof by one with mapped children.\<close>

lemma update_good:
  assumes m: "mapped A N rk s rk' s' (just_children (pf_just (ps_proofs s ! i))) js'" and i: "i < length (ps_proofs s)"
    and inv: "simp_inv A rk N s"
    and p: "node_ok A s' p" "pf_prop p = prop_of s i" "\<not> is_merge (pf_just p)" "just_children (pf_just p) = js'"
  shows "good A rk N s i i (s'\<lparr>ps_proofs := (ps_proofs s')[i := p]\<rparr>)" "i < length (ps_proofs s')"
proof -
  have g: "simp_inv A rk' N s'" "store_le s s'" "\<forall>k < length (ps_proofs s). rk' k = rk k"
    "list_all2 (\<lambda>j j'. j' < length (ps_proofs s') \<and> prop_of s' j' = prop_of s j \<and> rk' j' \<le> rk j)
       (just_children (pf_just (ps_proofs s ! i))) js'"
    using m by (auto simp: mapped_def)
  show i': "i < length (ps_proofs s')" using store_leD(1) [OF g(2) i] .
  have pi: "prop_of s' i = prop_of s i" using store_leD(2) [OF g(2) i] .
  have "\<forall>c \<in> set js'. c < length (ps_proofs s') \<and> rk' c < rk' i"
  proof
    fix c
    assume "c \<in> set js'"
    then obtain n where n: "n < length js'" "js' ! n = c" by (auto simp: in_set_conv_nth)
    let ?j = "just_children (pf_just (ps_proofs s ! i)) ! n"
    have "?j \<in> set (just_children (pf_just (ps_proofs s ! i)))" "c < length (ps_proofs s')" "rk' c \<le> rk ?j"
      using list_all2_nthD2 [OF g(4) n(1)] n list_all2_lengthD [OF g(4)] by auto
    with node_child(2) [OF inv i] g(3) i show "c < length (ps_proofs s') \<and> rk' c < rk' i" by force
  qed
  with set_inv [OF g(1) i' p(1) _ p(3) _ refl] p(2,4) pi
  have s: "simp_inv A rk' N (s'\<lparr>ps_proofs := (ps_proofs s')[i := p]\<rparr>)"
    "store_le s' (s'\<lparr>ps_proofs := (ps_proofs s')[i := p]\<rparr>)" by auto
  from store_leD [OF s(2) i'] store_le_trans [OF g(2) s(2)] s(1) g(3) pi
  show "good A rk N s i i (s'\<lparr>ps_proofs := (ps_proofs s')[i := p]\<rparr>)"
    unfolding good_def good_at_def by (intro exI [of _ rk']) simp
qed

lemma mapped_good:
  "mapped A N rk s rk' s' js js' \<Longrightarrow> i < length (ps_proofs s) \<Longrightarrow> good A rk N s i i s'"
  unfolding good_def good_at_def mapped_def using store_leD [of s s' i] by blast

lemma map_child_good:
  fixes f :: "nat \<Rightarrow> proof_store \<Rightarrow> ('e, nat \<times> proof_store) outcome"
  assumes f: "child_map A N b f" and inv: "simp_inv A rk N s" and i: "i < length (ps_proofs s)" and b: "rk i \<le> b"
  shows "\<exists>s'. map_child_proofs f i s = Ok (i, s') \<and> good A rk N s i i s'"
proof -
  let ?p = "ps_proofs s ! i"
  note get = simp_inv_node(6) [OF inv i]
  have ch: "\<forall>j \<in> set (just_children (pf_just ?p)). j < length (ps_proofs s) \<and> rk j < b"
    using node_child(1,2) [OF inv i] b by fastforce
  obtain js' s' rk' where m: "map_out f (just_children (pf_just ?p)) s = Ok (js', s')"
    "mapped A N rk s rk' s' (just_children (pf_just ?p)) js'"
    using map_children [OF f inv ch] by blast
  have g: "simp_inv A rk' N s'" "store_le s s'" using m(2) by (auto simp: mapped_def)
  have all: "list_all2 (\<lambda>j j'. j' < length (ps_proofs s') \<and> prop_of s' j' = prop_of s j \<and> rk' j' \<le> rk j)
      (just_children (pf_just ?p)) js'" using m(2) by (simp add: mapped_def)
  note upd = update_good [OF m(2) i inv]
  note same = mapped_good [OF m(2) i]
  have ok: "node_ok A s ?p" using simp_inv_node(1) [OF inv i] .
  have set_ok: "ps_set i p s' = Ok (s'\<lparr>ps_proofs := (ps_proofs s')[i := p]\<rparr>)" for p
    using store_leD(1) [OF g(2) i] by (simp add: ps_set_def)
  have get': "ps_get s' j = Ok (ps_proofs s' ! j)" if "j < length (ps_proofs s')" for j
    using that by (simp add: ps_get_def)
  show ?thesis
  proof (cases "pf_just ?p")
    case JFiat
    with good_refl [OF inv i] show ?thesis by (auto simp: map_child_proofs_def get good_def)
  next
    case (JRule name pids sub)
    show ?thesis
    proof (cases "js' = pids")
      case True
      with JRule m(1) same show ?thesis by (simp add: map_child_proofs_def get)
    next
      case False
      let ?q = "?p\<lparr>pf_just := JRule name js' sub\<rparr>"
      have "map (prop_of s') js' = map (prop_of s) pids"
        using all JRule by (auto simp: list_all2_conv_all_nth intro: nth_equalityI)
      moreover have "\<forall>j \<in> set js'. j < length (ps_proofs s')"
        using all by (auto simp: list_all2_conv_all_nth in_set_conv_nth)
      ultimately have "node_ok A s' ?q" using ok JRule by (simp add: node_ok_def)
      from upd(1) [OF this] JRule have "good A rk N s i i (s'\<lparr>ps_proofs := (ps_proofs s')[i := ?q]\<rparr>)"
        by (simp add: prop_of_def)
      with False JRule m(1) show ?thesis by (simp add: map_child_proofs_def get set_ok)
    qed
  next
    case (JMergeFn fn x y)
    with simp_inv_node(5) [OF inv i] show ?thesis by simp
  next
    case (JTrans x y)
    with m(1) obtain x' s1 y' where xy: "f x s = Ok (x', s1)" "f y s1 = Ok (y', s')" "js' = [x', y']"
      by (auto simp: bind_o_eq_Ok)
    have lt: "x' < length (ps_proofs s')" "y' < length (ps_proofs s')"
      and pr: "prop_of s' x' = prop_of s x" "prop_of s' y' = prop_of s y" using all JTrans xy(3) by auto
    have t: "p_rhs (prop_of s x) = p_lhs (prop_of s y)"
      "prop_of s i = mk_prop (p_lhs (prop_of s x)) (p_rhs (prop_of s y))"
      using ok JTrans by (auto simp: node_ok_def prop_of_def Let_def)
    let ?q = "mk_proof (pf_lhs (ps_proofs s' ! x')) (pf_rhs (ps_proofs s' ! y')) (JTrans x' y')"
    have "node_ok A s' ?q" using lt pr t(1) by (simp add: node_ok_def pf_prop_of)
    from upd(1) [OF this] t(2) pr xy(3) have "good A rk N s i i (s'\<lparr>ps_proofs := (ps_proofs s')[i := ?q]\<rparr>)"
      by (simp add: pf_prop_of)
    with JTrans xy same show ?thesis
      by (simp add: map_child_proofs_def get get' [OF lt(1)] get' [OF lt(2)] set_ok)
  next
    case (JSym x)
    with m(1) obtain x' where xy: "f x s = Ok (x', s')" "js' = [x']" by (auto simp: bind_o_eq_Ok)
    have lt: "x' < length (ps_proofs s')" and pr: "prop_of s' x' = prop_of s x" using all JSym xy(2) by auto
    have t: "prop_of s i = mk_prop (p_rhs (prop_of s x)) (p_lhs (prop_of s x))"
      using ok JSym by (auto simp: node_ok_def prop_of_def Let_def)
    let ?q = "mk_proof (pf_rhs (ps_proofs s' ! x')) (pf_lhs (ps_proofs s' ! x')) (JSym x')"
    have "node_ok A s' ?q" using lt pr by (simp add: node_ok_def pf_prop_of)
    from upd(1) [OF this] t pr xy(2) have "good A rk N s i i (s'\<lparr>ps_proofs := (ps_proofs s')[i := ?q]\<rparr>)"
      by (simp add: pf_prop_of)
    with JSym xy same show ?thesis
      by (simp add: map_child_proofs_def get get' [OF lt] set_ok)
  next
    case (JCongr x k y)
    with m(1) obtain x' s1 y' where xy: "f x s = Ok (x', s1)" "f y s1 = Ok (y', s')" "js' = [x', y']"
      by (auto simp: bind_o_eq_Ok)
    have lt: "x' < length (ps_proofs s')" "y' < length (ps_proofs s')"
      and pr: "prop_of s' x' = prop_of s x" "prop_of s' y' = prop_of s y" using all JCongr xy(3) by auto
    obtain h cs where c: "p_lhs (pf_prop ?p) = p_lhs (prop_of s x)"
      "dag_get (ps_dag s) (p_rhs (prop_of s x)) = Some (TApp h cs)" "k < length cs" "cs ! k = p_lhs (prop_of s y)"
      "dag_get (ps_dag s) (p_rhs (pf_prop ?p)) = Some (TApp h (cs[k := p_rhs (prop_of s y)]))"
      by (rule congr_nodeD [OF ok JCongr])
    have le: "dag_le (ps_dag s) (ps_dag s')" using g(2) by (simp add: store_le_def)
    note c' = dag_get_le [OF le c(2)] dag_get_le [OF le c(5)]
    have wf: "wf_dag (ps_dag s')" using g(1) by (simp add: simp_inv_def store_ok_def)
    have "dag_app h (cs[k := p_rhs (prop_of s y)]) (ps_dag s') = (p_rhs (pf_prop ?p), ps_dag s')"
      using add_node_present [OF wf, of "p_rhs (pf_prop ?p)"] c'(2) by (simp add: dag_app_def)
    with c'(1) c(3) pr
    have r: "replace_term_child (pf_rhs (ps_proofs s' ! x')) k (pf_rhs (ps_proofs s' ! y')) s'
        = (Ok (p_rhs (pf_prop ?p), s') :: ('e, nat \<times> proof_store) outcome)" by (simp add: replace_term_child_def pf_prop_of del: dag_get_Some)
    let ?q = "mk_proof (pf_lhs (ps_proofs s' ! x')) (p_rhs (pf_prop ?p)) (JCongr x' k y')"
    have pq: "pf_prop ?q = pf_prop ?p" using c(1) pr by (simp add: pf_prop_of)
    have "node_ok A s' ?q"
      using lt pr c(3,4) c' by (simp add: node_ok_def pf_prop_of del: dag_get_Some)
    from upd(1) [OF this] pq xy(3) have "good A rk N s i i (s'\<lparr>ps_proofs := (ps_proofs s')[i := ?q]\<rparr>)"
      by (simp add: prop_of_def)
    with JCongr xy same r show ?thesis
      by (simp add: map_child_proofs_def get get' [OF lt(1)] get' [OF lt(2)] set_ok)
  qed
qed

lemma simplify_good:
  "\<And>i s rk. simp_inv A rk N s \<Longrightarrow> i < length (ps_proofs s) \<Longrightarrow> rk i < n
    \<Longrightarrow> \<exists>j s'. simplify n i s = (Ok (j, s') :: ('e, nat \<times> proof_store) outcome) \<and> good A rk N s i j s'"
proof (induction n)
  case (Suc n)
  have "child_map A N n (\<lambda>i s. simplify n i s :: ('e, nat \<times> proof_store) outcome)"
    using Suc.IH by (simp add: child_map_def)
  from map_child_good [OF this Suc.prems(1,2)] Suc.prems(3) obtain s1 where
    1: "map_child_proofs (\<lambda>i s. simplify n i s) i s = (Ok (i, s1) :: ('e, nat \<times> proof_store) outcome)"
    "good A rk N s i i s1" by auto
  from 1(2) obtain rk1 where rk1: "good_at A rk rk1 N s i i s1" by (auto simp: good_def)
  then have *: "simp_inv A rk1 N s1" "i < length (ps_proofs s1)" by (auto simp: good_at_def)
  then have "rk1 i < Suc (length (ps_proofs s1))"
    using simp_inv_node(4) [OF *] by (auto simp: simp_inv_def just_ranked_def)
  from opt_loop_good [OF * this] obtain j s2 where
    2: "opt_loop (Suc (length (ps_proofs s1))) i s1 = (Ok (j, s2) :: ('e, nat \<times> proof_store) outcome)"
    "good A rk1 N s1 i j s2" by blast
  then have "good A rk N s i j s2" using good_trans [OF rk1 _ Suc.prems(2)] by (auto simp: good_def)
  with 1(1) 2(1) show ?case by (simp del: opt_loop.simps)
qed simp

section \<open>Properties\<close>

lemma acyclic_simp_inv:
  assumes "store_ok A s" "acyclic_proofs (ps_proofs s)" "\<forall>p \<in> set (ps_proofs s). \<not> is_merge (pf_just p)"
  shows "simp_inv A (\<lambda>i. i) (length (ps_proofs s)) s"
  using assms by (auto simp: simp_inv_def just_ranked_def acyclic_proofs_def dest: less_trans)

text \<open>
  C12: \<open>simplify\<close> ends on every locally consistent store whose proofs refer to earlier
  ones and which has no merge step, and returns a proof of the same proposition in a store
  that is locally consistent again, whatever makes fiat and rule steps valid.
\<close>

theorem simplify_keeps_propositions:
  assumes "store_ok A s" "acyclic_proofs (ps_proofs s)" "\<forall>p \<in> set (ps_proofs s). \<not> is_merge (pf_just p)"
    and "i < length (ps_proofs s)"
  shows "\<exists>j s'. simplify (length (ps_proofs s)) i s = (Ok (j, s') :: (unit, nat \<times> proof_store) outcome)
    \<and> prop_of s' j = prop_of s i \<and> j < length (ps_proofs s') \<and> store_ok A s' \<and> store_le s s'"
  using simplify_good [OF acyclic_simp_inv [OF assms(1-3)] assms(4,4)]
  by (auto simp: good_def good_at_def simp_inv_def)

definition sym_store :: proof_store where
  "sym_store = \<lparr>ps_dag = \<lparr>nodes = [TVar ''a'', TVar ''b'']\<rparr>, ps_ids = Map.empty,
     ps_proofs = [mk_proof 0 1 JFiat, mk_proof 1 0 (JSym 0), mk_proof 0 1 (JSym 1)]\<rparr>"

theorem simplify_keeps_propositions_witness:
  "\<exists>j s'. simplify (length (ps_proofs sym_store)) 2 sym_store = (Ok (j, s') :: (unit, nat \<times> proof_store) outcome)
    \<and> prop_of s' j = prop_of sym_store 2 \<and> j < length (ps_proofs s')
    \<and> store_ok (\<lambda>st ps p. st = AFiat) s' \<and> store_le sym_store s'"
  by (rule simplify_keeps_propositions)
    (auto simp: sym_store_def store_ok_def wf_dag_def node_ok_def prop_of_def acyclic_proofs_def nth_Cons
      split: nat.splits)

definition merge_store :: proof_store where
  "merge_store = \<lparr>ps_dag = \<lparr>nodes = [TApp ''f'' [], TApp ''g'' [], TApp ''h'' []]\<rparr>, ps_ids = Map.empty,
     ps_proofs = [mk_proof 0 0 JFiat, mk_proof 0 0 (JSym 0), mk_proof 1 1 JFiat, mk_proof 2 2 (JMergeFn ''f'' 1 2)]\<rparr>"


end
