(* ===== verification/Proof_Conversion.thy ===== *)
theory Proof_Conversion
  imports Proof_Soundness
begin

text \<open>
  The conversion of raw proofs (\<open>Proof_Format\<close>) builds stores the checker can work on:
  every id is in range, every proof refers to earlier proofs, and the substitution it
  recovers for a rule step makes the patterns of the rule's body the proved terms.
\<close>

section \<open>Unification\<close>

definition sub_in :: "termdag \<Rightarrow> (string \<times> nat) list \<Rightarrow> bool" where
  "sub_in d sub \<longleftrightarrow> (\<forall>(v, t) \<in> set sub. t < length (nodes d))"

lemma sub_in_env: "sub_in d sub \<Longrightarrow> env_in d (map_of sub)"
  by (auto simp: sub_in_def env_in_def dest: map_of_SomeD)

lemma sub_in_le: "dag_le d d' \<Longrightarrow> sub_in d sub \<Longrightarrow> sub_in d' sub"
  unfolding sub_in_def using dag_le_length by fastforce

lemma add_to_subst_in: "sub_in d sub \<Longrightarrow> t < length (nodes d) \<Longrightarrow> add_to_subst v t sub = Ok sub' \<Longrightarrow> sub_in d sub'"
  by (auto simp: add_to_subst_def sub_in_def split: option.splits if_splits)

lemma add_to_subst_env:
  "add_to_subst v t sub = Ok sub' \<Longrightarrow> map_of sub \<subseteq>\<^sub>m map_of sub' \<and> map_of sub' v = Some t"
  by (auto simp: add_to_subst_def map_le_def map_add_def split: option.splits if_splits)

lemma unify_expr_in:
  "wf_dag d \<Longrightarrow> unify_expr d e t sub = (Ok sub' :: ('e, (string \<times> nat) list) outcome) \<Longrightarrow> t < length (nodes d) \<Longrightarrow> sub_in d sub \<Longrightarrow> sub_in d sub'"
proof (induction d e t sub arbitrary: sub' rule: unify_expr.induct)
  case (3 d sp h args t sub)
  show ?case
  proof (cases "\<exists>p. h = RPrim p")
    case False
    with "3.prems" obtain f cs where t: "dag_get d t = Some (TApp f cs)" "f = rcall_name h" "length cs = length args"
      "fold_out (\<lambda>(a, c) sub. unify_expr d a c sub) (zip args cs) sub
        = (Ok sub' :: ('e, (string \<times> nat) list) outcome)"
      by (cases h) (auto split: option.splits dterm.splits if_splits)
    have cs: "\<forall>c \<in> set cs. c < length (nodes d)"
      using wf_kids [OF "3.prems"(1), of t f cs] t(1) by fastforce
    show ?thesis
    proof (rule fold_out_invariant [where I = "sub_in d", OF t(4) "3.prems"(4)])
      fix x s s'
      assume x: "x \<in> set (zip args cs)" "sub_in d s" "(case x of (a, c) \<Rightarrow> \<lambda>sub. unify_expr d a c sub) s
        = (Ok s' :: ('e, (string \<times> nat) list) outcome)"
      obtain a c where ac: "x = (a, c)" by force
      with x cs have "c < length (nodes d)" by (auto dest: set_zip_rightD)
      with x ac "3.IH" t False "3.prems"(1) show "sub_in d s'"
        by (cases h) auto
    qed
  qed (use "3.prems" in auto)
qed (auto intro: add_to_subst_in)

text \<open>
  Patterns: variables and constructor or function calls. On them unification computes a
  matcher: under the substitution the pattern is the term, and what was bound before
  stays bound.
\<close>

fun is_pattern :: "rexpr \<Rightarrow> bool" where
  "is_pattern (ELit sp l) = False"
| "is_pattern (EVar sp v) = True"
| "is_pattern (ECall sp h args) = ((\<exists>f. h = RFunc f) \<and> (\<forall>a \<in> set args. is_pattern a))"

lemma those_le:
  "list_all2 (\<lambda>x y. x = None \<or> x = y) xs ys \<Longrightarrow> those xs = Some zs \<Longrightarrow> those ys = Some zs"
  by (induction xs ys arbitrary: zs rule: list_all2_induct) (auto split: option.splits)

lemma sem_pattern_mono:
  "is_pattern e \<Longrightarrow> env \<subseteq>\<^sub>m env' \<Longrightarrow> sem_expr S env e = Some t \<Longrightarrow> sem_expr S env' e = Some t"
proof (induction e arbitrary: t)
  case (ECall sp h args)
  then obtain f ts where f: "h = RFunc f" "those (map (sem_expr S env) args) = Some ts" "t = GApp (ft_name f) ts"
    by (auto split: option.splits)
  have "list_all2 (\<lambda>x y. x = None \<or> x = y) (map (sem_expr S env) args) (map (sem_expr S env') args)"
    using ECall by (auto simp: list_all2_conv_all_nth) (metis not_None_eq nth_mem)
  from those_le [OF this f(2)] f show ?case by simp
qed (auto simp: map_le_def dest!: bspec [of "dom env"])

lemma tenv_of_le: "b \<subseteq>\<^sub>m b' \<Longrightarrow> tenv_of d b \<subseteq>\<^sub>m tenv_of d b'"
  by (force simp: map_le_def tenv_of_def)

definition matches :: "prim_sem \<Rightarrow> termdag \<Rightarrow> (string \<times> nat) list \<Rightarrow> rexpr \<Rightarrow> nat \<Rightarrow> bool" where
  "matches S d sub e t \<longleftrightarrow> sem_expr S (tenv_of d (map_of sub)) e = Some (tree d t)"

lemma matches_mono: "is_pattern e \<Longrightarrow> map_of sub \<subseteq>\<^sub>m map_of sub' \<Longrightarrow> matches S d sub e t \<Longrightarrow> matches S d sub' e t"
  unfolding matches_def using sem_pattern_mono tenv_of_le by blast

text \<open>Unifying a list of patterns with a list of terms, element by element.\<close>

lemma fold_matches:
  assumes "\<And>a c s s'. (a, c) \<in> set (zip args cs) \<Longrightarrow> f (a, c) s = Ok s' \<Longrightarrow> map_of s \<subseteq>\<^sub>m map_of s' \<and> matches S d s' a c"
    and "\<forall>a \<in> set args. is_pattern a" "length args = length cs" "fold_out f (zip args cs) sub = Ok sub'"
  shows "map_of sub \<subseteq>\<^sub>m map_of sub' \<and> list_all2 (matches S d sub') args cs"
  using assms(3,1,2,4)
proof (induction args cs arbitrary: sub rule: list_induct2)
  case (Cons a args c cs)
  from Cons.prems(3) obtain s1 where 1: "f (a, c) sub = Ok s1" "fold_out f (zip args cs) s1 = Ok sub'"
    by (auto simp: bind_o_eq_Ok)
  have m: "map_of sub \<subseteq>\<^sub>m map_of s1" "matches S d s1 a c" using Cons.prems(1) [of a c sub s1] 1(1) by auto
  have 2: "map_of s1 \<subseteq>\<^sub>m map_of sub'" "list_all2 (matches S d sub') args cs"
    using Cons.IH [OF _ _ 1(2)] Cons.prems(1,2) by auto
  with m matches_mono [OF _ 2(1) m(2)] Cons.prems(2) map_le_trans show ?case by auto
qed simp

lemma unify_expr_matches:
  "wf_dag d \<Longrightarrow> t < length (nodes d) \<Longrightarrow> is_pattern e
    \<Longrightarrow> unify_expr d e t sub = (Ok sub' :: ('e, (string \<times> nat) list) outcome)
    \<Longrightarrow> map_of sub \<subseteq>\<^sub>m map_of sub' \<and> matches S d sub' e t"
proof (induction d e t sub arbitrary: sub' rule: unify_expr.induct)
  case (2 d sp v t sub)
  then show ?case using add_to_subst_env by (fastforce simp: matches_def tenv_of_def)
next
  case (3 d sp h args t sub)
  then obtain fn where h: "h = RFunc fn" by auto
  with "3.prems"(4) obtain cs where t: "dag_get d t = Some (TApp (ft_name fn) cs)" "length cs = length args"
    "fold_out (\<lambda>(a, c) sub. unify_expr d a c sub) (zip args cs) sub
        = (Ok sub' :: ('e, (string \<times> nat) list) outcome)"
    by (auto split: option.splits dterm.splits if_splits)
  have cs: "\<forall>c \<in> set cs. c < length (nodes d)"
    using wf_kids [OF "3.prems"(1), of t "ft_name fn" cs] t(1) by fastforce
  have m: "map_of sub \<subseteq>\<^sub>m map_of sub' \<and> list_all2 (matches S d sub') args cs"
  proof (rule fold_matches [OF _ _ t(2) [symmetric] t(3)])
    fix a c s s'
    assume ac: "(a, c) \<in> set (zip args cs)"
      and u: "(case (a, c) of (a, c) \<Rightarrow> \<lambda>sub. unify_expr d a c sub) s = (Ok s' :: ('e, (string \<times> nat) list) outcome)"
    have "c < length (nodes d)" "is_pattern a"
      using cs "3.prems"(3) set_zip_leftD [OF ac] set_zip_rightD [OF ac] by auto
    with ac u t h "3.IH" "3.prems"(1) show "map_of s \<subseteq>\<^sub>m map_of s' \<and> matches S d s' a c" by auto
  qed (use "3.prems"(3) in simp)
  then have "those (map (sem_expr S (tenv_of d (map_of sub'))) args) = Some (map (tree d) cs)"
    by (auto intro!: those_list_all2 elim!: list_all2_mono simp: matches_def)
  moreover have "tree d t = GApp (ft_name fn) (map (tree d) cs)" using t(1) "3.prems"(1) by (simp add: tree_app)
  ultimately show ?case using m h by (simp add: matches_def)
qed simp

section \<open>The substitution of a rule step\<close>

lemma unify_eq_in:
  assumes "wf_dag d" "node_in d p" "sub_in d sub" "unify_eq d l r p sub = (Ok sub' :: ('e, (string \<times> nat) list) outcome)"
  shows "sub_in d sub'"
proof -
  obtain s1 where "unify_expr d l (pf_lhs p) sub = (Ok s1 :: ('e, (string \<times> nat) list) outcome)"
    "unify_expr d r (pf_rhs p) s1 = (Ok sub' :: ('e, (string \<times> nat) list) outcome)"
    using assms(4) by (auto simp: unify_eq_def bind_o_eq_Ok)
  with assms unify_expr_in show ?thesis by (metis node_in_def)
qed

lemma unify_args_in:
  assumes "wf_dag d" "\<forall>c \<in> set cs. c < length (nodes d)" "sub_in d sub"
    and "fold_out (\<lambda>(a, c) sub. unify_expr d a c sub) (zip args cs) sub = Ok sub'"
  shows "sub_in d sub'"
proof (rule fold_out_invariant [where I = "sub_in d", OF assms(4,3)])
  fix x s s'
  assume x: "x \<in> set (zip args cs)" "sub_in d s" "(case x of (a, c) \<Rightarrow> \<lambda>sub. unify_expr d a c sub) s = Ok s'"
  obtain a c where ac: "x = (a, c)" by force
  with x assms(2) have "c < length (nodes d)" by (auto dest: set_zip_rightD)
  with unify_expr_in [OF assms(1)] x ac show "sub_in d s'" by auto
qed

lemma unify_fact_custom:
  assumes "unify_fact s (FEq sp (ECall sp2 (RFunc f) args) (EVar sp3 v)) i sub = (Ok sub' :: ('e, (string \<times> nat) list) outcome)"
    and "ft_subtype f = Custom"
  shows "\<exists>h cs s1. dag_get (ps_dag s) (pf_rhs (ps_proofs s ! i)) = Some (TApp h cs) \<and> cs \<noteq> []
    \<and> add_to_subst (rv_name v) (last cs) sub = (Ok s1 :: ('e, (string \<times> nat) list) outcome)
    \<and> fold_out (\<lambda>(a, c) sub. unify_expr (ps_dag s) a c sub) (zip args cs) s1 = (Ok sub' :: ('e, (string \<times> nat) list) outcome)"
  using assms
  by (cases "dag_get (ps_dag s) (pf_rhs (ps_proofs s ! i))")
     (auto simp: unify_fact_def ps_get_def bind_o_eq_Ok simp del: dag_get_Some split: dterm.splits if_splits)

lemma unify_fact_in:
  assumes s: "store_wf s" and sub: "sub_in (ps_dag s) sub" and u: "unify_fact s x i sub = (Ok sub' :: ('e, (string \<times> nat) list) outcome)"
  shows "sub_in (ps_dag s) sub'"
proof -
  let ?d = "ps_dag s"
  have d: "wf_dag ?d" using s by (simp add: store_wf_def)
  have i: "i < length (ps_proofs s)" using u by (auto simp: unify_fact_def ps_get_def split: if_splits)
  let ?p = "ps_proofs s ! i"
  have p: "node_in ?d ?p" using store_node [OF s i] .
  show ?thesis
  proof (cases x)
    case (FFact e)
    with u i have "unify_expr ?d e (pf_rhs ?p) sub = (Ok sub' :: ('e, (string \<times> nat) list) outcome)" by (simp add: unify_fact_def ps_get_def)
    from unify_expr_in [OF d this _ sub] p show ?thesis by (simp add: node_in_def)
  next
    case (FEq sp l r)
    show ?thesis
    proof (cases "\<exists>sp2 f args sp3 v. l = ECall sp2 (RFunc f) args \<and> r = EVar sp3 v \<and> ft_subtype f = Custom")
      case True
      then obtain sp2 f args sp3 v where lr: "l = ECall sp2 (RFunc f) args" "r = EVar sp3 v" "ft_subtype f = Custom"
        by blast
      have u': "unify_fact s (FEq sp (ECall sp2 (RFunc f) args) (EVar sp3 v)) i sub = (Ok sub' :: ('e, (string \<times> nat) list) outcome)"
        using u FEq lr by simp
      obtain h cs s1 where t: "dag_get ?d (pf_rhs ?p) = Some (TApp h cs)" "cs \<noteq> []"
        and s1: "add_to_subst (rv_name v) (last cs) sub = (Ok s1 :: ('e, (string \<times> nat) list) outcome)"
        and f: "fold_out (\<lambda>(a, c) sub. unify_expr ?d a c sub) (zip args cs) s1 = (Ok sub' :: ('e, (string \<times> nat) list) outcome)"
        using unify_fact_custom [OF u' lr(3)] by blast
      have cs: "\<forall>c \<in> set cs. c < length (nodes ?d)"
        using wf_kids [OF d, of "pf_rhs ?p" h cs] t(1) by fastforce
      then have "last cs < length (nodes ?d)" using t(2) by simp
      from unify_args_in [OF d cs add_to_subst_in [OF sub this s1] f] show ?thesis .
    next
      case False
      then have "unify_eq ?d l r ?p sub = (Ok sub' :: ('e, (string \<times> nat) list) outcome)"
        using u FEq i by (auto simp: unify_fact_def ps_get_def split: expr.splits resolved_call.splits if_splits)
      from unify_eq_in [OF d p sub this] show ?thesis .
    qed
  qed
qed

lemma compute_rule_substitution_in:
  assumes "store_wf s" "compute_rule_substitution prog name pids s = (Ok sub :: ('e, (string \<times> nat) list) outcome)"
  shows "sub_in (ps_dag s) sub"
proof -
  obtain r :: rrule where r: "(opt_o Panic (first_some (named_rule name) prog) :: ('e, rrule) outcome) = Ok r"
    and "(if length (rule_body r) \<noteq> length pids then Panic
       else fold_out (\<lambda>(x, i) sub. unify_fact s x i sub) (zip (rule_body r) pids) []) = (Ok sub :: ('e, (string \<times> nat) list) outcome)"
    using assms(2) unfolding compute_rule_substitution_def bind_o_eq_Ok by blast
  then have f: "fold_out (\<lambda>(x, i) sub. unify_fact s x i sub) (zip (rule_body r) pids) [] = (Ok sub :: ('e, (string \<times> nat) list) outcome)"
    by (simp split: if_splits)
  show ?thesis
  proof (rule fold_out_invariant [where I = "sub_in (ps_dag s)", OF f])
    show "sub_in (ps_dag s) []" by (simp add: sub_in_def)
    show "\<And>x t t'. x \<in> set (zip (rule_body r) pids) \<Longrightarrow> sub_in (ps_dag s) t
        \<Longrightarrow> (case x of (x, i) \<Rightarrow> \<lambda>sub. unify_fact s x i sub) t = Ok t' \<Longrightarrow> sub_in (ps_dag s) t'"
      using unify_fact_in [OF assms(1)] by auto
  qed
qed

section \<open>The converted store\<close>

definition conv_inv :: "raw_store \<Rightarrow> proof_store \<Rightarrow> bool" where
  "conv_inv rs s \<longleftrightarrow> store_wf s \<and> acyclic_proofs (ps_proofs s) \<and> dag_le (rs_dag rs) (ps_dag s)
     \<and> (\<forall>p i. ps_ids s p = Some i \<longrightarrow> i < length (ps_proofs s))"

definition conv_le :: "proof_store \<Rightarrow> proof_store \<Rightarrow> bool" where
  "conv_le s s' \<longleftrightarrow> dag_le (ps_dag s) (ps_dag s') \<and> length (ps_proofs s) \<le> length (ps_proofs s')"

lemma conv_le_refl [simp]: "conv_le s s"
  by (simp add: conv_le_def)

lemma conv_le_trans: "conv_le a b \<Longrightarrow> conv_le b c \<Longrightarrow> conv_le a c"
  by (auto simp: conv_le_def intro: dag_le_trans)

lemma unwrap_ast_in:
  assumes "wf_dag d" "dag_le d d'" "unwrap_ast d t = Ok i"
  shows "i < length (nodes d')"
proof -
  obtain f where "dag_get d t = Some (TApp f [i])"
    using assms(3) by (auto simp: unwrap_ast_def split: option.splits dterm.splits list.splits)
  then have "i < length (nodes d)" using wf_kids [OF assms(1), of t f "[i]"] by fastforce
  with dag_le_length [OF assms(2)] show ?thesis by simp
qed

lemma remember_conv:
  assumes inv: "conv_inv rs s" and p: "node_in (ps_dag s) p"
    and ch: "\<forall>j \<in> set (just_children (pf_just p)). j < length (ps_proofs s)"
    and r: "remember_proof raw (p, s) = (i, s')"
  shows "conv_inv rs s' \<and> conv_le s s' \<and> i < length (ps_proofs s')"
proof -
  have s': "s' = s\<lparr>ps_proofs := ps_proofs s @ [p], ps_ids := (ps_ids s)(raw \<mapsto> length (ps_proofs s))\<rparr>"
    "i = length (ps_proofs s)"
    using r by (auto simp: remember_proof_def ps_push_def)
  have "acyclic_proofs (ps_proofs s')"
    using inv ch by (auto simp: conv_inv_def acyclic_proofs_def s' nth_append less_Suc_eq)
  moreover have "store_wf s'" using inv p by (auto simp: conv_inv_def store_wf_def s')
  ultimately show ?thesis
    using inv by (auto simp: conv_inv_def conv_le_def s' less_Suc_eq)
qed

lemma conv_grow:
  assumes "conv_inv rs s" "wf_dag d" "dag_le (ps_dag s) d"
  shows "conv_inv rs (s\<lparr>ps_dag := d\<rparr>) \<and> conv_le s (s\<lparr>ps_dag := d\<rparr>)"
  using assms by (auto simp: conv_inv_def conv_le_def store_wf_def intro: dag_le_trans node_in_le)

lemma replace_term_child_conv:
  assumes inv: "conv_inv rs s" and new: "new < length (nodes (ps_dag s))"
    and r: "replace_term_child t k new s = (Ok (i, s') :: ('e, nat \<times> proof_store) outcome)"
  shows "conv_inv rs s' \<and> conv_le s s' \<and> i < length (nodes (ps_dag s')) \<and> ps_proofs s' = ps_proofs s"
proof -
  have d: "wf_dag (ps_dag s)" using inv by (simp add: conv_inv_def store_wf_def)
  obtain f cs where t: "dag_get (ps_dag s) t = Some (TApp f cs)" "k < length cs"
    and c: "(let (i, d) = dag_app f (cs[k := new]) (ps_dag s) in Ok (i, s\<lparr>ps_dag := d\<rparr>)) = (Ok (i, s') :: ('e, nat \<times> proof_store) outcome)"
    using r by (auto simp: replace_term_child_def split: option.splits dterm.splits if_splits)
  obtain d1 where a: "dag_app f (cs[k := new]) (ps_dag s) = (i, d1)" "s' = s\<lparr>ps_dag := d1\<rparr>"
    using c by (cases "dag_app f (cs[k := new]) (ps_dag s)") auto
  have "\<forall>c \<in> set cs. c < length (nodes (ps_dag s))"
    using wf_kids [OF d, of t f cs] t(1) by fastforce
  then have "\<forall>c \<in> set (cs[k := new]). c < length (nodes (ps_dag s))"
    using new set_update_subset_insert [of cs k new] by auto
  from dag_app_spec [OF d this a(1)] conv_grow [OF inv, of d1] a(2) show ?thesis by auto
qed

lemma conv_node:
  assumes "conv_inv rs s" "ps_get s i = Ok p"
  shows "i < length (ps_proofs s)" "pf_lhs p < length (nodes (ps_dag s))" "pf_rhs p < length (nodes (ps_dag s))"
  using assms store_node [of s i]
  by (auto simp: conv_inv_def ps_get_def node_in_def split: if_splits)

lemma node_in_simple:
  "l < length (nodes d) \<Longrightarrow> r < length (nodes d) \<Longrightarrow> (\<And>name ps sub. j = JRule name ps sub \<Longrightarrow> sub_in d sub)
    \<Longrightarrow> node_in d (mk_proof l r j)"
  by (cases j) (auto simp: node_in_def mk_proof_def pf_lhs_def pf_rhs_def intro: sub_in_env)

lemma conv_ids_le: "conv_le s s' \<Longrightarrow> i < length (ps_proofs s) \<Longrightarrow> i < length (ps_proofs s')"
  by (simp add: conv_le_def)

lemma convert_raw_proof_ok:
  fixes s s' :: proof_store
  assumes raw: "wf_dag (rs_dag rs)"
  shows "conv_inv rs s \<Longrightarrow> convert_raw_proof n prog globals rs q s = (Ok (i, s') :: ('e, nat \<times> proof_store) outcome)
    \<Longrightarrow> conv_inv rs s' \<and> conv_le s s' \<and> i < length (ps_proofs s')"
proof (induction n arbitrary: q s i s')
  case (Suc n)
  have IH: "conv_inv rs s2 \<and> conv_le s1 s2 \<and> j < length (ps_proofs s2)"
    if "conv_inv rs s1" "convert_raw_proof n prog globals rs a s1 = (Ok (j, s2) :: ('e, nat \<times> proof_store) outcome)"
    for a s1 j s2 using Suc.IH [OF that] .
  let ?q = "rs_store rs ! q"
  have q: "q < length (rs_store rs)" using Suc.prems(2) by (auto split: if_splits)
  show ?case
  proof (cases "ps_ids s ?q")
    case (Some j)
    with Suc.prems q show ?thesis by (auto simp: conv_inv_def)
  next
    case None
    have "\<exists>p s1. conv_inv rs s1 \<and> conv_le s s1 \<and> node_in (ps_dag s1) p
        \<and> (\<forall>j \<in> set (just_children (pf_just p)). j < length (ps_proofs s1)) \<and> (i, s') = remember_proof ?q (p, s1)"
    proof (cases ?q)
      case (RawFiat l r)
      with Suc.prems(2) q None obtain l' r' where
        u: "unwrap_ast (rs_dag rs) l = (Ok l' :: ('e, nat) outcome)" "unwrap_ast (rs_dag rs) r = (Ok r' :: ('e, nat) outcome)"
        and e: "(i, s') = remember_proof ?q (mk_proof l' r' JFiat, s)"
        by (auto simp: bind_o_eq_Ok)
      have "dag_le (rs_dag rs) (ps_dag s)" using Suc.prems(1) by (simp add: conv_inv_def)
      from unwrap_ast_in [OF raw this u(1)] unwrap_ast_in [OF raw this u(2)]
      have "node_in (ps_dag s) (mk_proof l' r' JFiat)" by (intro node_in_simple) auto
      with e Suc.prems(1) show ?thesis
        by (intro exI [of _ "mk_proof l' r' JFiat"] exI [of _ s]) (simp add: mk_proof_def)
    next
      case (RawRule name pids l r)
      with Suc.prems(2) q None obtain ids s1 sub l' r' where
        m: "map_out (\<lambda>q s. convert_raw_proof n prog globals rs q s) pids s = (Ok (ids, s1) :: ('e, nat list \<times> proof_store) outcome)"
        and sub: "compute_rule_substitution prog name ids s1 = (Ok sub :: ('e, (string \<times> nat) list) outcome)"
        and u: "unwrap_ast (rs_dag rs) l = (Ok l' :: ('e, nat) outcome)" "unwrap_ast (rs_dag rs) r = (Ok r' :: ('e, nat) outcome)"
        and e: "(i, s') = remember_proof ?q (mk_proof l' r' (JRule name ids (filter (\<lambda>(v, _). globals v = None) sub)), s1)"
        by (auto simp: bind_o_eq_Ok)
      have 1: "conv_inv rs s1 \<and> conv_le s s1 \<and> list_all2 (\<lambda>q j. j < length (ps_proofs s1)) pids ids"
        by (rule map_out_invariant [where I = "conv_inv rs" and le = conv_le
              and P = "\<lambda>q j s. j < length (ps_proofs s)", OF m Suc.prems(1)])
          (use IH in \<open>blast intro: conv_le_refl conv_le_trans conv_ids_le\<close>)+
      have "sub_in (ps_dag s1) sub" using compute_rule_substitution_in [OF _ sub] 1 by (simp add: conv_inv_def)
      then have sub': "sub_in (ps_dag s1) (filter (\<lambda>(v, _). globals v = None) sub)"
        by (auto simp: sub_in_def)
      have le: "dag_le (rs_dag rs) (ps_dag s1)" using 1 by (simp add: conv_inv_def)
      let ?p = "mk_proof l' r' (JRule name ids (filter (\<lambda>(v, _). globals v = None) sub))"
      have "node_in (ps_dag s1) ?p"
        using unwrap_ast_in [OF raw le u(1)] unwrap_ast_in [OF raw le u(2)] sub' by (intro node_in_simple) auto
      moreover have "\<forall>j \<in> set ids. j < length (ps_proofs s1)"
        using 1 by (auto simp: list_all2_conv_all_nth in_set_conv_nth)
      ultimately show ?thesis using e 1
        by (intro exI [of _ ?p] exI [of _ s1]) (simp add: mk_proof_def)
    next
      case (RawMergeFn fname a b t)
      with Suc.prems(2) q None obtain j s1 k s2 t' where
        a: "convert_raw_proof n prog globals rs a s = (Ok (j, s1) :: ('e, nat \<times> proof_store) outcome)"
        and b: "convert_raw_proof n prog globals rs b s1 = (Ok (k, s2) :: ('e, nat \<times> proof_store) outcome)"
        and u: "unwrap_ast (rs_dag rs) t = (Ok t' :: ('e, nat) outcome)"
        and e: "(i, s') = remember_proof ?q (mk_proof t' t' (JMergeFn fname j k), s2)"
        by (auto simp: bind_o_eq_Ok)
      note 1 = IH [OF Suc.prems(1) a] and 2 = IH [OF conjunct1 [OF IH [OF Suc.prems(1) a]] b]
      have "dag_le (rs_dag rs) (ps_dag s2)" using 2 by (simp add: conv_inv_def)
      from unwrap_ast_in [OF raw this u] have "node_in (ps_dag s2) (mk_proof t' t' (JMergeFn fname j k))"
        by (intro node_in_simple) auto
      with e 1 2 conv_le_trans conv_ids_le show ?thesis
        by (intro exI [of _ "mk_proof t' t' (JMergeFn fname j k)"] exI [of _ s2]) (auto simp: mk_proof_def)
    next
      case (RawTrans a b)
      with Suc.prems(2) q None obtain j s1 k s2 pj pk where
        a: "convert_raw_proof n prog globals rs a s = (Ok (j, s1) :: ('e, nat \<times> proof_store) outcome)"
        and b: "convert_raw_proof n prog globals rs b s1 = (Ok (k, s2) :: ('e, nat \<times> proof_store) outcome)"
        and g: "ps_get s2 j = (Ok pj :: ('e, proof_node) outcome)" "ps_get s2 k = (Ok pk :: ('e, proof_node) outcome)"
        and e: "(i, s') = remember_proof ?q (mk_proof (pf_lhs pj) (pf_rhs pk) (JTrans j k), s2)"
        by (auto simp: bind_o_eq_Ok split: if_splits)
      note 1 = IH [OF Suc.prems(1) a] and 2 = IH [OF conjunct1 [OF IH [OF Suc.prems(1) a]] b]
      note nj = conv_node [OF conjunct1 [OF 2] g(1)] and nk = conv_node [OF conjunct1 [OF 2] g(2)]
      have "node_in (ps_dag s2) (mk_proof (pf_lhs pj) (pf_rhs pk) (JTrans j k))"
        using nj nk by (intro node_in_simple) auto
      with e 1 2 conv_le_trans conv_ids_le nj nk show ?thesis
        by (intro exI [of _ "mk_proof (pf_lhs pj) (pf_rhs pk) (JTrans j k)"] exI [of _ s2]) (auto simp: mk_proof_def)
    next
      case (RawSym a)
      with Suc.prems(2) q None obtain j s1 pj where
        a: "convert_raw_proof n prog globals rs a s = (Ok (j, s1) :: ('e, nat \<times> proof_store) outcome)"
        and g: "ps_get s1 j = (Ok pj :: ('e, proof_node) outcome)"
        and e: "(i, s') = remember_proof ?q (mk_proof (pf_rhs pj) (pf_lhs pj) (JSym j), s1)"
        by (auto simp: bind_o_eq_Ok)
      note 1 = IH [OF Suc.prems(1) a]
      note nj = conv_node [OF conjunct1 [OF 1] g]
      have "node_in (ps_dag s1) (mk_proof (pf_rhs pj) (pf_lhs pj) (JSym j))"
        using nj by (intro node_in_simple) auto
      with e 1 nj show ?thesis
        by (intro exI [of _ "mk_proof (pf_rhs pj) (pf_lhs pj) (JSym j)"] exI [of _ s1]) (auto simp: mk_proof_def)
    next
      case (RawCongr a kk b)
      with Suc.prems(2) q None obtain j s1 k s2 pj pk t s3 where
        a: "convert_raw_proof n prog globals rs a s = (Ok (j, s1) :: ('e, nat \<times> proof_store) outcome)"
        and b: "convert_raw_proof n prog globals rs b s1 = (Ok (k, s2) :: ('e, nat \<times> proof_store) outcome)"
        and g: "ps_get s2 j = (Ok pj :: ('e, proof_node) outcome)" "ps_get s2 k = (Ok pk :: ('e, proof_node) outcome)"
        and r: "replace_term_child (pf_rhs pj) kk (pf_rhs pk) s2 = (Ok (t, s3) :: ('e, nat \<times> proof_store) outcome)"
        and e: "(i, s') = remember_proof ?q (mk_proof (pf_lhs pj) t (JCongr j kk k), s3)"
        by (auto simp: bind_o_eq_Ok)
      note 1 = IH [OF Suc.prems(1) a] and 2 = IH [OF conjunct1 [OF IH [OF Suc.prems(1) a]] b]
      note nj = conv_node [OF conjunct1 [OF 2] g(1)] and nk = conv_node [OF conjunct1 [OF 2] g(2)]
      note 3 = replace_term_child_conv [OF conjunct1 [OF 2] nk(3) r]
      have "pf_lhs pj < length (nodes (ps_dag s3))"
        using nj(2) 3 dag_le_length [of "ps_dag s2" "ps_dag s3"] by (simp add: conv_le_def)
      then have "node_in (ps_dag s3) (mk_proof (pf_lhs pj) t (JCongr j kk k))"
        using 3 by (intro node_in_simple) auto
      moreover have "conv_le s s3" using 1 2 3 conv_le_trans by blast
      ultimately show ?thesis using e 3 nj(1) nk(1)
        by (intro exI [of _ "mk_proof (pf_lhs pj) t (JCongr j kk k)"] exI [of _ s3]) (simp add: mk_proof_def)
    qed
    then obtain p s1 where "conv_inv rs s1" "conv_le s s1" "node_in (ps_dag s1) p"
      "\<forall>j \<in> set (just_children (pf_just p)). j < length (ps_proofs s1)" "remember_proof ?q (p, s1) = (i, s')" by metis
    with remember_conv [of rs s1 p ?q i s'] conv_le_trans show ?thesis by blast
  qed
qed simp


section \<open>From an extracted term to a checked proof\<close>

lemma parse_inner_dag:
  assumes P: "\<And>t s p s'. parse_proof n t s = (Ok (p, s') :: ('e, nat \<times> raw_store) outcome) \<Longrightarrow> rs_dag s' = rs_dag s"
    and L: "\<And>t s ps s'. parse_proof_list n t s = (Ok (ps, s') :: ('e, nat list \<times> raw_store) outcome) \<Longrightarrow> rs_dag s' = rs_dag s"
    and r: "parse_proof_inner (Suc n) t s = (Ok (p, s') :: ('e, nat \<times> raw_store) outcome)"
  shows "rs_dag s' = rs_dag s"
proof -
  have add: "\<And>q s p s'. raw_add_proof q s = (p, s') \<Longrightarrow> rs_dag s' = rs_dag s"
    by (auto simp: raw_add_proof_def split: option.splits)
  obtain h args where "dag_get (rs_dag s) t = Some (TApp h args)"
    using r by (auto simp del: dag_get_Some split: option.splits dterm.splits)
  with r show ?thesis
    by (auto simp: bind_o_eq_Ok simp del: dag_get_Some split: list.split_asm if_split_asm dest!: P L add)
qed

lemma parse_proof_dag:
  fixes s s' :: raw_store
  shows "(parse_proof n t s = (Ok (p, s') :: ('e, nat \<times> raw_store) outcome) \<longrightarrow> rs_dag s' = rs_dag s)
    \<and> (parse_proof_inner n t s = (Ok (p, s') :: ('e, nat \<times> raw_store) outcome) \<longrightarrow> rs_dag s' = rs_dag s)
    \<and> (parse_proof_list n t s = (Ok (ps, s') :: ('e, nat list \<times> raw_store) outcome) \<longrightarrow> rs_dag s' = rs_dag s)"
proof (induction n arbitrary: t s p s' ps)
  case (Suc n)
  have P: "\<And>t s p s'. parse_proof n t s = (Ok (p, s') :: ('e, nat \<times> raw_store) outcome) \<Longrightarrow> rs_dag s' = rs_dag s"
    and I: "\<And>t s p s'. parse_proof_inner n t s = (Ok (p, s') :: ('e, nat \<times> raw_store) outcome) \<Longrightarrow> rs_dag s' = rs_dag s"
    and L: "\<And>t s ps s'. parse_proof_list n t s = (Ok (ps, s') :: ('e, nat list \<times> raw_store) outcome) \<Longrightarrow> rs_dag s' = rs_dag s"
    using Suc.IH by blast+
  show ?case
  proof (intro conjI impI)
    assume "parse_proof (Suc n) t s = (Ok (p, s') :: ('e, nat \<times> raw_store) outcome)"
    then show "rs_dag s' = rs_dag s"
      by (auto simp: bind_o_eq_Ok remember_parsed_def split: option.splits dest!: I)
  next
    assume "parse_proof_inner (Suc n) t s = (Ok (p, s') :: ('e, nat \<times> raw_store) outcome)"
    then show "rs_dag s' = rs_dag s" by (rule parse_inner_dag [rotated 2]) (fact P, fact L)
  next
    assume r: "parse_proof_list (Suc n) t s = (Ok (ps, s') :: ('e, nat list \<times> raw_store) outcome)"
    then obtain h args where "dag_get (rs_dag s) t = Some (TApp h args)"
      by (auto simp del: dag_get_Some split: option.splits dterm.splits)
    with r show "rs_dag s' = rs_dag s"
      by (auto simp: bind_o_eq_Ok simp del: dag_get_Some split: list.split_asm if_split_asm dest!: P L)
  qed
qed simp

context validator_contract
begin

lemma gather_globals_dag:
  assumes "wf_dag d" "gather_globals V prog d = Ok (g, d')"
  shows "wf_dag d' \<and> dag_le d d'"
proof -
  obtain c where "process_actions V ''global_action'' Map.empty (gather_global_actions prog) d = Ok (c, d')"
    using assms(2) by (auto simp: gather_globals_def bind_o_eq_Ok)
  from process_actions_spec [OF assms(1) _ this] show ?thesis by (auto simp: env_in_def)
qed

lemma ps_from_raw_ok:
  assumes "wf_dag (rs_dag rs)" "ps_from_raw V prog rs q = Ok (s, i)"
  shows "store_wf s \<and> acyclic_proofs (ps_proofs s) \<and> i < length (ps_proofs s) \<and> dag_le (rs_dag rs) (ps_dag s)"
proof -
  obtain g d where g: "gather_globals V prog (rs_dag rs) = Ok (g, d)"
    and c: "convert_raw_proof (Suc (length (rs_store rs))) prog g rs q
      \<lparr>ps_dag = d, ps_ids = Map.empty, ps_proofs = []\<rparr> = (Ok (i, s) :: (check_error, nat \<times> proof_store) outcome)"
    using assms(2) by (auto simp: ps_from_raw_def bind_o_eq_Ok split: outcome.splits)
  have "conv_inv rs \<lparr>ps_dag = d, ps_ids = Map.empty, ps_proofs = []\<rparr>"
    using gather_globals_dag [OF assms(1) g] by (simp add: conv_inv_def store_wf_def acyclic_proofs_def)
  from convert_raw_proof_ok [OF assms(1) this c] show ?thesis by (simp add: conv_inv_def)
qed

lemma proof_store_from_term_ok:
  assumes "wf_dag d" "proof_store_from_term V d t prog = Ok (s, i)"
  shows "store_wf s \<and> acyclic_proofs (ps_proofs s) \<and> i < length (ps_proofs s) \<and> dag_le d (ps_dag s)"
proof -
  obtain rs q where r: "raw_from_extracted d t = (Ok (rs, q) :: (check_error, raw_store \<times> nat) outcome)"
    and c: "ps_from_raw V prog rs q = Ok (s, i)"
    using assms(2) by (auto simp: proof_store_from_term_def bind_o_eq_Ok)
  have "(parse_proof (2 * Suc (dag_size d)) t \<lparr>rs_dag = d, rs_store = [], rs_term_to_proof = Map.empty, rs_proof_to_term = Map.empty\<rparr>
      :: (check_error, nat \<times> raw_store) outcome) = Ok (q, rs)"
    using r by (simp add: raw_from_extracted_def bind_o_eq_Ok)
  then have "rs_dag rs = d" using parse_proof_dag by fastforce
  with ps_from_raw_ok [OF _ c] assms(1) show ?thesis by simp
qed

end

end
