(* ===== verification/Sort_Values.thy ===== *)
theory Sort_Values
  imports Resolved_Ast Term_Dag
begin

text \<open>
  Sorts and their values (\<open>src/sort/*.rs\<close>, the traits \<open>Sort\<close>, \<open>BaseSort\<close> and
  \<open>ContainerSort\<close>), as far as extraction uses them: names, the elements of a container
  value, and the term a value is rebuilt as. A \<open>Value\<close> is an interned id; here a base
  value is the literal or number it stands for and a container value is its content, the
  elements in the order the container iterates them. Interning is injective, so equality
  of ids is equality of contents. \<open>Panic\<close> is the failed \<open>unwrap\<close> on a value of another
  type.
\<close>

datatype base_sort = I64S | F64S | StringS | BoolS | UnitS | BigIntS | BigRatS

datatype arcsort =
    BaseS base_sort
  | EqS string
  | VecS string arcsort
  | SetS string arcsort
  | MultiSetS string arcsort
  | MapS string arcsort arcsort
  | PairS string arcsort arcsort
  | FnS string "arcsort list"

datatype xval =
    VId nat
  | VLit literal
  | VBigInt int
  | VBigRat int int
  | VVec "xval list"
  | VSet "xval list"
  | VMultiSet "xval list"
  | VMap "(xval \<times> xval) list"
  | VPair xval xval
  | VFn string "(arcsort \<times> xval) list"

fun base_name :: "base_sort \<Rightarrow> string" where
  "base_name I64S = ''i64''"
| "base_name F64S = ''f64''"
| "base_name StringS = ''String''"
| "base_name BoolS = ''bool''"
| "base_name UnitS = ''Unit''"
| "base_name BigIntS = ''BigInt''"
| "base_name BigRatS = ''BigRat''"

fun as_name :: "arcsort \<Rightarrow> string" where
  "as_name (BaseS b) = base_name b"
| "as_name (EqS n) = n"
| "as_name (VecS n _) = n"
| "as_name (SetS n _) = n"
| "as_name (MultiSetS n _) = n"
| "as_name (MapS n _ _) = n"
| "as_name (PairS n _ _) = n"
| "as_name (FnS n _) = n"

fun is_eq_sort :: "arcsort \<Rightarrow> bool" where
  "is_eq_sort (EqS _) = True"
| "is_eq_sort _ = False"

fun is_container_sort :: "arcsort \<Rightarrow> bool" where
  "is_container_sort (BaseS _) = False"
| "is_container_sort (EqS _) = False"
| "is_container_sort _ = True"

fun inner_sorts :: "arcsort \<Rightarrow> (string, arcsort list) outcome" where
  "inner_sorts (VecS _ e) = Ok [e]"
| "inner_sorts (SetS _ e) = Ok [e]"
| "inner_sorts (MultiSetS _ e) = Ok [e]"
| "inner_sorts (MapS _ k v) = Ok [k, v]"
| "inner_sorts (PairS _ a b) = Ok [a, b]"
| "inner_sorts (FnS _ ss) = Ok ss"
| "inner_sorts _ = Panic"

definition vec_inner_values :: "arcsort \<Rightarrow> xval \<Rightarrow> (string, (arcsort \<times> xval) list) outcome" where
  "vec_inner_values e v = (case v of VVec vs \<Rightarrow> Ok (map (Pair e) vs) | _ \<Rightarrow> Panic)"

definition set_inner_values :: "arcsort \<Rightarrow> xval \<Rightarrow> (string, (arcsort \<times> xval) list) outcome" where
  "set_inner_values e v = (case v of VSet vs \<Rightarrow> Ok (map (Pair e) vs) | _ \<Rightarrow> Panic)"

definition multiset_inner_values :: "arcsort \<Rightarrow> xval \<Rightarrow> (string, (arcsort \<times> xval) list) outcome" where
  "multiset_inner_values e v = (case v of VMultiSet vs \<Rightarrow> Ok (map (Pair e) vs) | _ \<Rightarrow> Panic)"

definition map_inner_values :: "arcsort \<Rightarrow> arcsort \<Rightarrow> xval \<Rightarrow> (string, (arcsort \<times> xval) list) outcome" where
  "map_inner_values k w v = (case v of VMap kvs \<Rightarrow> Ok (concat (map (\<lambda>(a, b). [(k, a), (w, b)]) kvs)) | _ \<Rightarrow> Panic)"

definition pair_inner_values :: "arcsort \<Rightarrow> arcsort \<Rightarrow> xval \<Rightarrow> (string, (arcsort \<times> xval) list) outcome" where
  "pair_inner_values k w v = (case v of VPair x y \<Rightarrow> Ok [(k, x), (w, y)] | _ \<Rightarrow> Panic)"

definition fn_inner_values :: "xval \<Rightarrow> (string, (arcsort \<times> xval) list) outcome" where
  "fn_inner_values v = (case v of VFn _ svs \<Rightarrow> Ok svs | _ \<Rightarrow> Panic)"

definition inner_values :: "arcsort \<Rightarrow> xval \<Rightarrow> (string, (arcsort \<times> xval) list) outcome" where
  "inner_values s v =
     (case s of
        VecS _ e \<Rightarrow> vec_inner_values e v
      | SetS _ e \<Rightarrow> set_inner_values e v
      | MultiSetS _ e \<Rightarrow> multiset_inner_values e v
      | MapS _ k w \<Rightarrow> map_inner_values k w v
      | PairS _ a b \<Rightarrow> pair_inner_values a b v
      | FnS _ _ \<Rightarrow> fn_inner_values v
      | _ \<Rightarrow> Ok [])"

lemmas inner_values_eq = inner_values_def [unfolded vec_inner_values_def set_inner_values_def multiset_inner_values_def
  map_inner_values_def pair_inner_values_def fn_inner_values_def]

lemma size_list_mem: "x \<in> set xs \<Longrightarrow> f x < Suc (size_list f xs)"
  by (induction xs) auto

lemma inner_values_size [termination_simp]:
  assumes "inner_values s v = Ok xs" "(s', v') \<in> set xs"
  shows "size v' < size v"
proof -
  have kv: "size a < Suc (size_list (size_prod size size) kvs) \<and> size b < Suc (size_list (size_prod size size) kvs)"
    if "(a, b) \<in> set kvs" for a b :: xval and kvs
    using size_list_mem [OF that, of "size_prod size size"] by simp
  have sv: "size b < Suc (size_list (size_prod (\<lambda>_. 0) size) svs)" if "(a, b) \<in> set svs" for a :: arcsort and b :: xval and svs
    using size_list_mem [OF that, of "size_prod (\<lambda>_. 0) size"] by simp
  show ?thesis
    using assms by (auto simp: inner_values_eq dest: size_list_mem [where f = size] kv sv
      split: arcsort.splits xval.splits)
qed

section \<open>Values of a sort\<close>

definition base_value :: "base_sort \<Rightarrow> xval \<Rightarrow> bool" where
  "base_value b v =
     (case v of
        VLit l \<Rightarrow> b = (case l of LInt _ \<Rightarrow> I64S | LFloat _ \<Rightarrow> F64S | LString _ \<Rightarrow> StringS | LBool _ \<Rightarrow> BoolS | LUnit \<Rightarrow> UnitS)
      | VBigInt _ \<Rightarrow> b = BigIntS
      | VBigRat _ _ \<Rightarrow> b = BigRatS
      | _ \<Rightarrow> False)"

function has_sort :: "arcsort \<Rightarrow> xval \<Rightarrow> bool" where
  "has_sort s v =
     (case s of
        BaseS b \<Rightarrow> base_value b v
      | EqS n \<Rightarrow> (case v of VId i \<Rightarrow> True | _ \<Rightarrow> False)
      | _ \<Rightarrow> (case (inner_values s v :: (string, (arcsort \<times> xval) list) outcome) of
                Ok xs \<Rightarrow>
                  (case (inner_sorts s :: (string, arcsort list) outcome) of
                     Ok ss \<Rightarrow> (\<forall>(s', v') \<in> set xs. s' \<in> set ss \<and> has_sort s' v')
                   | _ \<Rightarrow> False)
              | _ \<Rightarrow> False))"
  by pat_completeness auto
termination
  by (relation "measure (\<lambda>(s, v). size v)") (auto dest: inner_values_size)

declare has_sort.simps [simp del]

section \<open>Rebuilding terms\<close>

definition i64_reconstruct :: "xval \<Rightarrow> termdag \<Rightarrow> (string, nat \<times> termdag) outcome" where
  "i64_reconstruct v d = (case v of VLit (LInt i) \<Rightarrow> Ok (dag_lit (LInt i) d) | _ \<Rightarrow> Panic)"

definition f64_reconstruct :: "xval \<Rightarrow> termdag \<Rightarrow> (string, nat \<times> termdag) outcome" where
  "f64_reconstruct v d = (case v of VLit (LFloat f) \<Rightarrow> Ok (dag_lit (LFloat f) d) | _ \<Rightarrow> Panic)"

definition bool_reconstruct :: "xval \<Rightarrow> termdag \<Rightarrow> (string, nat \<times> termdag) outcome" where
  "bool_reconstruct v d = (case v of VLit (LBool b) \<Rightarrow> Ok (dag_lit (LBool b) d) | _ \<Rightarrow> Panic)"

definition string_reconstruct :: "xval \<Rightarrow> termdag \<Rightarrow> (string, nat \<times> termdag) outcome" where
  "string_reconstruct v d = (case v of VLit (LString x) \<Rightarrow> Ok (dag_lit (LString x) d) | _ \<Rightarrow> Panic)"

definition unit_reconstruct :: "termdag \<Rightarrow> nat \<times> termdag" where
  "unit_reconstruct d = dag_lit LUnit d"

definition bigint_reconstruct :: "xval \<Rightarrow> termdag \<Rightarrow> (string, nat \<times> termdag) outcome" where
  "bigint_reconstruct v d =
     (case v of
        VBigInt i \<Rightarrow> (let (s, d1) = dag_lit (LString (int_to_string i)) d in Ok (dag_app ''from-string'' [s] d1))
      | _ \<Rightarrow> Panic)"

definition bigrat_reconstruct :: "xval \<Rightarrow> termdag \<Rightarrow> (string, nat \<times> termdag) outcome" where
  "bigrat_reconstruct v d =
     (case v of
        VBigRat p q \<Rightarrow>
          (let (s, d1) = dag_lit (LString (int_to_string p)) d; (t, d2) = dag_lit (LString (int_to_string q)) d1;
               (n, d3) = dag_app ''from-string'' [s] d2; (m, d4) = dag_app ''from-string'' [t] d3
           in Ok (dag_app ''bigrat'' [n, m] d4))
      | _ \<Rightarrow> Panic)"

definition reconstruct_base :: "base_sort \<Rightarrow> xval \<Rightarrow> termdag \<Rightarrow> (string, nat \<times> termdag) outcome" where
  "reconstruct_base b v d =
     (case b of
        I64S \<Rightarrow> i64_reconstruct v d
      | F64S \<Rightarrow> f64_reconstruct v d
      | StringS \<Rightarrow> string_reconstruct v d
      | BoolS \<Rightarrow> bool_reconstruct v d
      | UnitS \<Rightarrow> Ok (unit_reconstruct d)
      | BigIntS \<Rightarrow> bigint_reconstruct v d
      | BigRatS \<Rightarrow> bigrat_reconstruct v d)"

lemmas base_reconstruct_defs = i64_reconstruct_def f64_reconstruct_def bool_reconstruct_def string_reconstruct_def
  unit_reconstruct_def bigint_reconstruct_def bigrat_reconstruct_def

lemma reconstruct_base_lit: "base_value b (VLit l) \<Longrightarrow> reconstruct_base b (VLit l) d = Ok (dag_lit l d)"
  by (cases l) (simp_all add: base_value_def reconstruct_base_def base_reconstruct_defs)

lemma reconstruct_base_big:
  "base_value b (VBigInt i) \<Longrightarrow> reconstruct_base b (VBigInt i) d = bigint_reconstruct (VBigInt i) d"
  "base_value b (VBigRat p q) \<Longrightarrow> reconstruct_base b (VBigRat p q) d = bigrat_reconstruct (VBigRat p q) d"
  by (simp_all add: base_value_def reconstruct_base_def)

fun map_inserts :: "nat list \<Rightarrow> nat \<Rightarrow> termdag \<Rightarrow> (string, nat \<times> termdag) outcome" where
  "map_inserts (a # b # ts) t d = (let (t1, d1) = dag_app ''map-insert'' [t, a, b] d in map_inserts ts t1 d1)"
| "map_inserts [] t d = Ok (t, d)"
| "map_inserts [a] t d = Panic"

definition vec_reconstruct :: "nat list \<Rightarrow> termdag \<Rightarrow> nat \<times> termdag" where
  "vec_reconstruct ts d = (if ts = [] then dag_app ''vec-empty'' [] d else dag_app ''vec-of'' ts d)"

definition set_reconstruct :: "nat list \<Rightarrow> termdag \<Rightarrow> nat \<times> termdag" where
  "set_reconstruct ts d = dag_app ''set-of'' ts d"

definition multiset_reconstruct :: "nat list \<Rightarrow> termdag \<Rightarrow> nat \<times> termdag" where
  "multiset_reconstruct ts d = dag_app ''multiset-of'' ts d"

definition map_reconstruct :: "nat list \<Rightarrow> termdag \<Rightarrow> (string, nat \<times> termdag) outcome" where
  "map_reconstruct ts d = (let (t, d1) = dag_app ''map-empty'' [] d in map_inserts ts t d1)"

definition pair_reconstruct :: "nat list \<Rightarrow> termdag \<Rightarrow> (string, nat \<times> termdag) outcome" where
  "pair_reconstruct ts d = (case ts of [a, b] \<Rightarrow> Ok (dag_app ''pair'' [a, b] d) | _ \<Rightarrow> Panic)"

definition fn_reconstruct :: "xval \<Rightarrow> nat list \<Rightarrow> termdag \<Rightarrow> (string, nat \<times> termdag) outcome" where
  "fn_reconstruct v ts d =
     (case v of
        VFn f svs \<Rightarrow> (let (h, d1) = dag_lit (LString f) d in Ok (dag_app ''unstable-fn'' (h # ts) d1))
      | _ \<Rightarrow> Panic)"

definition reconstruct_container ::
    "arcsort \<Rightarrow> xval \<Rightarrow> nat list \<Rightarrow> termdag \<Rightarrow> (string, nat \<times> termdag) outcome" where
  "reconstruct_container s v ts d =
     (case s of
        VecS _ _ \<Rightarrow> Ok (vec_reconstruct ts d)
      | SetS _ _ \<Rightarrow> Ok (set_reconstruct ts d)
      | MultiSetS _ _ \<Rightarrow> Ok (multiset_reconstruct ts d)
      | MapS _ _ _ \<Rightarrow> map_reconstruct ts d
      | PairS _ _ _ \<Rightarrow> pair_reconstruct ts d
      | FnS _ _ \<Rightarrow> fn_reconstruct v ts d
      | _ \<Rightarrow> Panic)"

lemmas reconstruct_container_eq = reconstruct_container_def [unfolded vec_reconstruct_def set_reconstruct_def
  multiset_reconstruct_def map_reconstruct_def pair_reconstruct_def fn_reconstruct_def]

section \<open>The terms they stand for\<close>

fun base_term :: "xval \<Rightarrow> tm" where
  "base_term (VLit l) = GLit l"
| "base_term (VBigInt i) = GApp ''from-string'' [GLit (LString (int_to_string i))]"
| "base_term (VBigRat p q) = GApp ''bigrat''
     [GApp ''from-string'' [GLit (LString (int_to_string p))], GApp ''from-string'' [GLit (LString (int_to_string q))]]"
| "base_term _ = GVar []"

fun map_insert_terms :: "tm list \<Rightarrow> tm \<Rightarrow> tm" where
  "map_insert_terms (a # b # ts) t = map_insert_terms ts (GApp ''map-insert'' [t, a, b])"
| "map_insert_terms _ t = t"

definition container_term :: "arcsort \<Rightarrow> xval \<Rightarrow> tm list \<Rightarrow> tm" where
  "container_term s v ts =
     (case s of
        VecS _ _ \<Rightarrow> GApp (if ts = [] then ''vec-empty'' else ''vec-of'') ts
      | SetS _ _ \<Rightarrow> GApp ''set-of'' ts
      | MultiSetS _ _ \<Rightarrow> GApp ''multiset-of'' ts
      | MapS _ _ _ \<Rightarrow> map_insert_terms ts (GApp ''map-empty'' [])
      | PairS _ _ _ \<Rightarrow> GApp ''pair'' ts
      | FnS _ _ \<Rightarrow> (case v of VFn f svs \<Rightarrow> GApp ''unstable-fn'' (GLit (LString f) # ts) | _ \<Rightarrow> GVar [])
      | _ \<Rightarrow> GVar [])"

end
