(* ===== verification/Sort_Terms.thy ===== *)
theory Sort_Terms
  imports Sort_Values
begin

text \<open>
  Rebuilding a value of a sort succeeds and gives the term the value stands for.
\<close>

definition builds :: "termdag \<Rightarrow> tm \<Rightarrow> nat \<times> termdag \<Rightarrow> bool" where
  "builds d t r \<longleftrightarrow> wf_dag (snd r) \<and> dag_le d (snd r) \<and> fst r < length (nodes (snd r)) \<and> tree (snd r) (fst r) = t"

lemma builds_app:
  assumes "wf_dag d" "\<forall>c \<in> set cs. c < length (nodes d)"
  shows "builds d (GApp f (map (tree d) cs)) (dag_app f cs d)"
  using dag_app_spec [OF assms, of f "fst (dag_app f cs d)" "snd (dag_app f cs d)"] by (simp add: builds_def)

lemma builds_lit: "wf_dag d \<Longrightarrow> builds d (GLit l) (dag_lit l d)"
  using dag_lit_spec [of d l "fst (dag_lit l d)" "snd (dag_lit l d)"] by (simp add: builds_def)

lemma builds_trans: "dag_le d d1 \<Longrightarrow> builds d1 t r \<Longrightarrow> builds d t r"
  by (auto simp: builds_def intro: dag_le_trans)

lemma builds_later:
  assumes "builds d t (i, d1)" "dag_le d1 d2"
  shows "i < length (nodes d2)" "tree d2 i = t"
  using assms dag_le_length [OF assms(2)] tree_le [OF _ assms(2)] by (auto simp: builds_def)

lemma builds_from_string:
  assumes "wf_dag d" "i < length (nodes d)"
  shows "builds d (GApp ''from-string'' [tree d i]) (dag_app ''from-string'' [i] d)"
  using builds_app [OF assms(1), of "[i]"] assms(2) by simp

lemma reconstruct_base_builds:
  assumes d: "wf_dag d" and v: "base_value b v"
  shows "\<exists>r. reconstruct_base b v d = Ok r \<and> builds d (base_term v) r"
proof (cases v)
  case (VLit l)
  then show ?thesis using v builds_lit [OF d] by (simp add: reconstruct_base_lit)
next
  case (VBigInt i)
  obtain s d1 where 1: "dag_lit (LString (int_to_string i)) d = (s, d1)" by force
  note b1 = builds_lit [OF d, of "LString (int_to_string i)", unfolded 1]
  have "builds d1 (base_term v) (dag_app ''from-string'' [s] d1)"
    using builds_from_string [of d1 s] b1 VBigInt by (simp add: builds_def)
  with b1 1 VBigInt v show ?thesis by (auto simp: reconstruct_base_big bigint_reconstruct_def builds_def intro: dag_le_trans)
next
  case (VBigRat p q)
  obtain s d1 where 1: "dag_lit (LString (int_to_string p)) d = (s, d1)" by force
  note b1 = builds_lit [OF d, of "LString (int_to_string p)", unfolded 1]
  obtain t d2 where 2: "dag_lit (LString (int_to_string q)) d1 = (t, d2)" by force
  have d1: "wf_dag d1" using b1 by (simp add: builds_def)
  note b2 = builds_lit [OF d1, of "LString (int_to_string q)", unfolded 2]
  obtain n d3 where 3: "dag_app ''from-string'' [s] d2 = (n, d3)" by force
  have d2: "wf_dag d2" "dag_le d1 d2" using b2 by (simp_all add: builds_def)
  note b3 = builds_from_string [OF d2(1) builds_later(1) [OF b1 d2(2)], unfolded 3 builds_later(2) [OF b1 d2(2)]]
  obtain m d4 where 4: "dag_app ''from-string'' [t] d3 = (m, d4)" by force
  have d3: "wf_dag d3" "dag_le d2 d3" using b3 by (simp_all add: builds_def)
  note b4 = builds_from_string [OF d3(1) builds_later(1) [OF b2 d3(2)], unfolded 4 builds_later(2) [OF b2 d3(2)]]
  have d4: "wf_dag d4" "dag_le d3 d4" using b4 by (simp_all add: builds_def)
  have "builds d4 (base_term v) (dag_app ''bigrat'' [n, m] d4)"
    using builds_app [OF d4(1), of "[n, m]" "''bigrat''"] builds_later [OF b3 d4(2)] b4 VBigRat
    by (simp add: builds_def)
  moreover have "dag_le d d4" using b1 d2 d3 d4 dag_le_trans unfolding builds_def by (metis snd_conv)
  ultimately show ?thesis using v VBigRat 1 2 3 4 builds_trans by (auto simp: reconstruct_base_big bigrat_reconstruct_def)
qed (use v in \<open>simp_all add: base_value_def\<close>)

lemma map_inserts_builds:
  "wf_dag d \<Longrightarrow> t < length (nodes d) \<Longrightarrow> \<forall>c \<in> set ts. c < length (nodes d) \<Longrightarrow> even (length ts)
    \<Longrightarrow> \<exists>r. map_inserts ts t d = Ok r \<and> builds d (map_insert_terms (map (tree d) ts) (tree d t)) r"
proof (induction ts t d rule: map_inserts.induct)
  case (1 a b ts t d)
  obtain t1 d1 where 2: "dag_app ''map-insert'' [t, a, b] d = (t1, d1)" by force
  have b: "builds d (GApp ''map-insert'' [tree d t, tree d a, tree d b]) (t1, d1)"
    using builds_app [OF "1.prems"(1), of "[t, a, b]" "''map-insert''"] "1.prems" 2 by simp
  then have d1: "wf_dag d1" "dag_le d d1" by (simp_all add: builds_def)
  have ts: "\<forall>c \<in> set ts. c < length (nodes d1) \<and> tree d1 c = tree d c"
    using "1.prems"(1,3) d1 dag_le_length [OF d1(2)] tree_le [OF _ d1(2)] by fastforce
  with "1.IH" [OF 2 [symmetric] refl d1(1)] b "1.prems"(4) obtain r where
    r: "map_inserts ts t1 d1 = Ok r" "builds d1 (map_insert_terms (map (tree d1) ts) (tree d1 t1)) r"
    by (auto simp: builds_def)
  moreover have "map (tree d1) ts = map (tree d) ts" using ts by simp
  ultimately show ?case using 2 b builds_trans [OF d1(2)] by (simp add: builds_def)
qed (auto simp: builds_def)

text \<open>The number of elements a container hands to its reconstruction.\<close>

definition arity_ok :: "arcsort \<Rightarrow> nat \<Rightarrow> bool" where
  "arity_ok s n \<longleftrightarrow> (case s of PairS _ _ _ \<Rightarrow> n = 2 | MapS _ _ _ \<Rightarrow> even n | _ \<Rightarrow> True)"

lemma inner_values_arity: "is_container_sort s \<Longrightarrow> inner_values s v = Ok xs \<Longrightarrow> arity_ok s (length xs)"
proof -
  have even: "even (length (concat (map (\<lambda>(a, b). [(k, a), (w, b)]) kvs)))" for k w :: arcsort and kvs :: "(xval \<times> xval) list"
    by (induction kvs) auto
  show "is_container_sort s \<Longrightarrow> inner_values s v = Ok xs \<Longrightarrow> arity_ok s (length xs)"
    using even by (auto simp: inner_values_eq arity_ok_def split: arcsort.splits xval.splits)
qed

lemma reconstruct_container_builds:
  assumes d: "wf_dag d" "\<forall>c \<in> set ts. c < length (nodes d)"
    and s: "is_container_sort s" "inner_values s v = Ok xs" "length ts = length xs"
  shows "\<exists>r. reconstruct_container s v ts d = Ok r \<and> builds d (container_term s v (map (tree d) ts)) r"
proof (cases s)
  case (MapS n k w)
  obtain t d1 where 1: "dag_app ''map-empty'' [] d = (t, d1)" by force
  have b: "builds d (GApp ''map-empty'' []) (t, d1)" using builds_app [OF d(1), of "[]" "''map-empty''"] 1 by simp
  then have d1: "wf_dag d1" "dag_le d d1" by (simp_all add: builds_def)
  have ts: "\<forall>c \<in> set ts. c < length (nodes d1) \<and> tree d1 c = tree d c"
    using d d1 dag_le_length [OF d1(2)] tree_le [OF _ d1(2)] by fastforce
  have "even (length ts)" using inner_values_arity [OF s(1,2)] s(3) MapS by (simp add: arity_ok_def)
  with map_inserts_builds [of d1 t ts] d1 b ts obtain r where
    r: "map_inserts ts t d1 = Ok r" "builds d1 (map_insert_terms (map (tree d1) ts) (tree d1 t)) r"
    by (auto simp: builds_def)
  moreover have "map (tree d1) ts = map (tree d) ts" using ts by simp
  ultimately show ?thesis using MapS 1 b builds_trans [OF d1(2)]
    by (auto simp: reconstruct_container_eq container_term_def builds_def)
next
  case (PairS n a b)
  then have "length ts = 2" using inner_values_arity [OF s(1,2)] s(3) by (simp add: arity_ok_def)
  then obtain x y where "ts = [x, y]" by (auto simp: numeral_2_eq_2 length_Suc_conv)
  then show ?thesis using PairS builds_app [OF d] by (simp add: reconstruct_container_eq container_term_def)
next
  case (FnS n ss)
  then obtain f svs where v: "v = VFn f svs" using s(2) by (auto simp: inner_values_eq split: xval.splits)
  obtain h d1 where 1: "dag_lit (LString f) d = (h, d1)" by force
  note b = builds_lit [OF d(1), of "LString f", unfolded 1]
  then have d1: "wf_dag d1" "dag_le d d1" by (simp_all add: builds_def)
  have ts: "\<forall>c \<in> set ts. c < length (nodes d1) \<and> tree d1 c = tree d c"
    using d d1 dag_le_length [OF d1(2)] tree_le [OF _ d1(2)] by fastforce
  have "builds d1 (GApp ''unstable-fn'' (tree d1 h # map (tree d1) ts)) (dag_app ''unstable-fn'' (h # ts) d1)"
    using builds_app [OF d1(1), of "h # ts"] b ts by (simp add: builds_def)
  moreover have "map (tree d1) ts = map (tree d) ts" using ts by simp
  ultimately show ?thesis using FnS v 1 b builds_trans [OF d1(2)]
    by (simp add: reconstruct_container_eq container_term_def builds_def)
qed (use s(1) builds_app [OF d] in \<open>auto simp: reconstruct_container_eq container_term_def\<close>)

end
