(* ===== verification/Extract_Model.thy ===== *)
theory Extract_Model
  imports Sort_Values "HOL-Library.While_Combinator"
begin

text \<open>
  \<open>src/extract.rs\<close>: the extractor. The part of the e-graph it reads is a record of the
  functions with their rows in iteration order. The tables of costs, ranks and parent
  edges, hash maps of hash maps, are maps from the pair of a sort's name and a value. The
  outer \<open>option\<close> of a loop is \<open>None\<close> where the loop does not end.
\<close>

section \<open>The tables extraction reads\<close>

record xrow =
  row_vals :: "xval list"
  row_subsumed :: bool

record xfunc =
  xf_decl :: "(resolved_call, resolved_var) function_decl"
  xf_input :: "arcsort list"
  xf_output :: arcsort
  xf_extra_outputs :: "arcsort list"
  xf_rows :: "xrow list"
  xf_lookup :: "xval list \<Rightarrow> xval option"

text \<open>\<open>xf_lookup\<close> is the answer of the backend's \<open>lookup_id\<close> for the function.\<close>

record xegraph =
  eg_functions :: "(string \<times> xfunc) list"
  eg_fd_views :: "string set"
  eg_native_uf :: bool
  eg_native_merge :: bool
  eg_proofs_enabled :: bool
  eg_uf_function :: "string \<rightharpoonup> string"
  eg_uf_parent :: "string \<rightharpoonup> string"

definition eg_get :: "xegraph \<Rightarrow> string \<Rightarrow> xfunc option" where
  "eg_get eg f = map_of (eg_functions eg) f"

definition nth_opt :: "'a list \<Rightarrow> nat \<Rightarrow> 'a option" where
  "nth_opt xs i = (if i < length xs then Some (xs ! i) else None)"

definition is_fd_view :: "xegraph \<Rightarrow> xfunc \<Rightarrow> bool" where
  "is_fd_view eg f \<longleftrightarrow> fd_name (xf_decl f) \<in> eg_fd_views eg"

definition extraction_output_sort :: "xegraph \<Rightarrow> xfunc \<Rightarrow> (string, arcsort) outcome" where
  "extraction_output_sort eg f =
     (if is_fd_view eg f then Ok (xf_output f)
      else if fd_term_constructor (xf_decl f) \<noteq> None
      then (if xf_input f = [] then Panic else Ok (last (xf_input f)))
      else Ok (xf_output f))"

definition extraction_num_children :: "xegraph \<Rightarrow> xfunc \<Rightarrow> nat" where
  "extraction_num_children eg f =
     (if is_fd_view eg f then length (xf_input f)
      else if fd_term_constructor (xf_decl f) \<noteq> None then length (xf_input f) - 1
      else length (xf_input f))"

definition extraction_term_name :: "xfunc \<Rightarrow> string" where
  "extraction_term_name f =
     (case fd_term_constructor (xf_decl f) of None \<Rightarrow> fd_name (xf_decl f) | Some n \<Rightarrow> n)"

definition extraction_output_index :: "xegraph \<Rightarrow> xfunc \<Rightarrow> nat" where
  "extraction_output_index eg f =
     (if is_fd_view eg f then length (xf_input f)
      else if fd_term_constructor (xf_decl f) \<noteq> None then length (xf_input f) - 1
      else length (xf_input f))"

section \<open>Costs and cost models\<close>

record 'c cost_ops =
  c_identity :: 'c
  c_unit :: 'c
  c_combine :: "'c \<Rightarrow> 'c \<Rightarrow> 'c"

definition saturating_add :: "u64 \<Rightarrow> u64 \<Rightarrow> u64" where
  "saturating_add a b = (if uint a + uint b < 2 ^ 64 then a + b else - 1)"

definition u64_cost :: "u64 cost_ops" where
  "u64_cost = \<lparr>c_identity = 0, c_unit = 1, c_combine = saturating_add\<rparr>"

record 'c cost_model =
  cm_fold :: "string \<Rightarrow> 'c list \<Rightarrow> 'c \<Rightarrow> 'c"
  cm_enode :: "xegraph \<Rightarrow> xfunc \<Rightarrow> xrow \<Rightarrow> 'c"
  cm_container :: "arcsort \<Rightarrow> xval \<Rightarrow> 'c list \<Rightarrow> 'c"
  cm_base :: "arcsort \<Rightarrow> xval \<Rightarrow> 'c"

definition default_container_cost :: "'c cost_ops \<Rightarrow> arcsort \<Rightarrow> xval \<Rightarrow> 'c list \<Rightarrow> 'c" where
  "default_container_cost ops s v cs = foldl (c_combine ops) (c_identity ops) cs"

definition default_base_cost :: "'c cost_ops \<Rightarrow> arcsort \<Rightarrow> xval \<Rightarrow> 'c" where
  "default_base_cost ops s v = c_unit ops"

definition extraction_head_cost :: "xegraph \<Rightarrow> xfunc \<Rightarrow> u64" where
  "extraction_head_cost eg f =
     (case fd_term_constructor (xf_decl f) of
        Some tc \<Rightarrow>
          (case eg_get eg tc of
             Some g \<Rightarrow> (case fd_cost (xf_decl g) of Some c \<Rightarrow> c | None \<Rightarrow> c_unit u64_cost)
           | None \<Rightarrow> c_unit u64_cost)
      | None \<Rightarrow> (case fd_cost (xf_decl f) of Some c \<Rightarrow> c | None \<Rightarrow> c_unit u64_cost))"

definition tree_additive :: "u64 cost_model" where
  "tree_additive =
     \<lparr>cm_fold = \<lambda>h cs x. foldl (c_combine u64_cost) x cs,
      cm_enode = \<lambda>eg f row. extraction_head_cost eg f,
      cm_container = default_container_cost u64_cost,
      cm_base = default_base_cost u64_cost\<rparr>"

section \<open>Which tables are reachable\<close>

record ext_options =
  eo_rootsorts :: "arcsort list option"
  eo_respect_unextractable :: bool
  eo_skip_view_tables :: bool
  eo_respect_hidden :: bool

definition indexed :: "ext_options \<Rightarrow> xfunc \<Rightarrow> bool" where
  "indexed eo f \<longleftrightarrow>
     \<not> (fd_unextractable (xf_decl f) \<and> eo_respect_unextractable eo)
     \<and> \<not> (eo_skip_view_tables eo \<and> fd_term_constructor (xf_decl f) \<noteq> None)
     \<and> \<not> (fd_internal_hidden (xf_decl f) \<and> eo_respect_hidden eo)
     \<and> (fd_subtype (xf_decl f) = Constructor \<or> fd_term_constructor (xf_decl f) \<noteq> None)"

type_synonym rev_index = "string \<rightharpoonup> string list"

definition index_func ::
    "ext_options \<Rightarrow> xegraph \<Rightarrow> string \<times> xfunc \<Rightarrow> rev_index \<times> arcsort list \<Rightarrow> (string, rev_index \<times> arcsort list) outcome"
where
  "index_func eo eg = (\<lambda>(name, f) (ridx, roots).
     if \<not> indexed eo f then Ok (ridx, roots)
     else bind_o (extraction_output_sort eg f) (\<lambda>s.
       (case ridx (as_name s) of
          Some hs \<Rightarrow> Ok (ridx(as_name s \<mapsto> hs @ [name]), roots)
        | None \<Rightarrow> Ok (ridx(as_name s \<mapsto> [name]), if eo_rootsorts eo = None then roots @ [s] else roots))))"

type_synonym bfs_state = "arcsort list \<times> string set \<times> string list"

definition bfs_push :: "arcsort \<Rightarrow> arcsort list \<times> string set \<Rightarrow> arcsort list \<times> string set" where
  "bfs_push s = (\<lambda>(q, seen). if as_name s \<in> seen then (q, seen) else (q @ [s], insert (as_name s) seen))"

definition bfs_func :: "xegraph \<Rightarrow> string \<Rightarrow> bfs_state \<Rightarrow> (string, bfs_state) outcome" where
  "bfs_func eg h = (\<lambda>(q, seen, funcs).
     if h \<in> set funcs then Ok (q, seen, funcs)
     else bind_o (opt_o Panic (eg_get eg h)) (\<lambda>f.
       (let (q1, seen1) = fold bfs_push (take (extraction_num_children eg f) (xf_input f)) (q, seen)
        in Ok (q1, seen1, funcs @ [h]))))"

definition bfs_step :: "xegraph \<Rightarrow> rev_index \<Rightarrow> bfs_state \<Rightarrow> (string, bfs_state) outcome" where
  "bfs_step eg ridx = (\<lambda>(q, seen, funcs).
     (case q of
        [] \<Rightarrow> Panic
      | s # q \<Rightarrow>
          if is_container_sort s
          then bind_o (inner_sorts s) (\<lambda>ss. let (q1, seen1) = fold bfs_push ss (q, seen) in Ok (q1, seen1, funcs))
          else if is_eq_sort s
          then (case ridx (as_name s) of
                  Some hs \<Rightarrow> fold_out (bfs_func eg) hs (q, seen, funcs)
                | None \<Rightarrow> Ok (q, seen, funcs))
          else Ok (q, seen, funcs)))"

definition bfs :: "xegraph \<Rightarrow> rev_index \<Rightarrow> arcsort list \<Rightarrow> (string, bfs_state) outcome option" where
  "bfs eg ridx roots =
     while_option (\<lambda>r. case r of Ok (q, _, _) \<Rightarrow> q \<noteq> [] | _ \<Rightarrow> False)
       (\<lambda>r. bind_o r (bfs_step eg ridx)) (Ok (roots, set (map as_name roots), []))"

section \<open>Costs and ranks of nodes and hyperedges\<close>

fun collect_some :: "('a \<Rightarrow> (string, 'b option) outcome) \<Rightarrow> 'a list \<Rightarrow> (string, 'b list option) outcome" where
  "collect_some f [] = Ok (Some [])"
| "collect_some f (x # xs) =
     bind_o (f x) (\<lambda>r. case r of
         None \<Rightarrow> Ok None
       | Some y \<Rightarrow> bind_o (collect_some f xs) (\<lambda>ys. Ok (map_option ((#) y) ys)))"

lemma collect_some_cong [fundef_cong]:
  "xs = ys \<Longrightarrow> (\<And>x. x \<in> set ys \<Longrightarrow> f x = g x) \<Longrightarrow> collect_some f xs = collect_some g ys"
proof (induction ys arbitrary: xs)
  case (Cons y ys)
  have "collect_some f ys = collect_some g ys" using Cons.IH [OF refl] Cons.prems(2) by auto
  then show ?case using Cons.prems by simp
qed simp

type_synonym 'c node_map = "string \<times> xval \<Rightarrow> 'c option"

function compute_cost_node ::
    "'c cost_model \<Rightarrow> 'c node_map \<Rightarrow> arcsort \<Rightarrow> xval \<Rightarrow> (string, 'c option) outcome" where
  "compute_cost_node cm costs s v =
     (if is_container_sort s
      then bind_o (inner_values s v) (\<lambda>xs.
        bind_o (collect_some (\<lambda>(s', v'). compute_cost_node cm costs s' v') xs) (\<lambda>r.
          Ok (map_option (cm_container cm s v) r)))
      else if is_eq_sort s then Ok (costs (as_name s, v))
      else Ok (Some (cm_base cm s v)))"
  by pat_completeness auto
termination
  by (relation "measure (\<lambda>(cm, costs, s, v). size v)") (auto dest: inner_values_size)

declare compute_cost_node.simps [simp del]

definition children :: "xegraph \<Rightarrow> xfunc \<Rightarrow> xval list \<Rightarrow> (arcsort \<times> xval) list" where
  "children eg f vals = zip (xf_input f) (take (extraction_num_children eg f) vals)"

definition compute_cost_hyperedge ::
    "'c cost_model \<Rightarrow> xegraph \<Rightarrow> 'c node_map \<Rightarrow> xrow \<Rightarrow> xfunc \<Rightarrow> (string, 'c option) outcome" where
  "compute_cost_hyperedge cm eg costs row f =
     bind_o (collect_some (\<lambda>(s, v). compute_cost_node cm costs s v) (children eg f (row_vals row))) (\<lambda>r.
       Ok (map_option (\<lambda>cs. cm_fold cm (extraction_term_name f) cs (cm_enode cm eg f row)) r))"

definition usize_max :: nat where
  "usize_max = 2 ^ 64 - 1"

function compute_topo_rnk_node :: "nat node_map \<Rightarrow> arcsort \<Rightarrow> xval \<Rightarrow> (string, nat) outcome" where
  "compute_topo_rnk_node rnk s v =
     (if is_container_sort s
      then bind_o (inner_values s v) (\<lambda>xs.
        fold_out (\<lambda>(s', v') m. bind_o (compute_topo_rnk_node rnk s' v') (\<lambda>r. Ok (max m r))) xs 0)
      else if is_eq_sort s then Ok (case rnk (as_name s, v) of None \<Rightarrow> usize_max | Some t \<Rightarrow> t)
      else Ok 0)"
  by pat_completeness auto
termination
  by (relation "measure (\<lambda>(rnk, s, v). size v)") (auto dest: inner_values_size)

declare compute_topo_rnk_node.simps [simp del]

definition compute_topo_rnk_hyperedge :: "xegraph \<Rightarrow> nat node_map \<Rightarrow> xrow \<Rightarrow> xfunc \<Rightarrow> (string, nat) outcome" where
  "compute_topo_rnk_hyperedge eg rnk row f =
     fold_out (\<lambda>(s, v) m. bind_o (compute_topo_rnk_node rnk s v) (\<lambda>r. Ok (max m r)))
       (children eg f (row_vals row)) 0"

section \<open>Bellman-Ford\<close>

record 'c ext_state =
  ex_costs :: "'c node_map"
  ex_cnt :: nat
  ex_rnk :: "nat node_map"
  ex_edge :: "(string \<times> xval list) node_map"

definition ext_init :: "'c ext_state" where
  "ext_init = \<lparr>ex_costs = Map.empty, ex_cnt = 0, ex_rnk = Map.empty, ex_edge = Map.empty\<rparr>"

definition improves :: "'c::linorder \<Rightarrow> 'c option \<Rightarrow> bool" where
  "improves c old = (case old of None \<Rightarrow> True | Some c0 \<Rightarrow> c < c0)"

definition record_cost :: "string \<times> xval \<Rightarrow> 'c \<Rightarrow> 'c ext_state \<Rightarrow> 'c ext_state" where
  "record_cost k c st = st\<lparr>ex_costs := (ex_costs st)(k \<mapsto> c), ex_cnt := Suc (ex_cnt st),
     ex_rnk := (ex_rnk st)(k \<mapsto> Suc (ex_cnt st))\<rparr>"

definition relax_hyperedge ::
    "'c::linorder cost_model \<Rightarrow> xegraph \<Rightarrow> xfunc \<Rightarrow> arcsort \<Rightarrow> xrow \<Rightarrow> 'c ext_state \<times> bool
     \<Rightarrow> (string, 'c ext_state \<times> bool) outcome" where
  "relax_hyperedge cm eg f ts row = (\<lambda>(st, fix_reached).
     if row_subsumed row then Ok (st, fix_reached)
     else bind_o (opt_o Panic (nth_opt (row_vals row) (extraction_output_index eg f))) (\<lambda>t.
       bind_o (compute_cost_hyperedge cm eg (ex_costs st) row f) (\<lambda>r.
         (case r of
            None \<Rightarrow> Ok (st, fix_reached)
          | Some c \<Rightarrow>
              if improves c (ex_costs st (as_name ts, t))
              then Ok (record_cost (as_name ts, t) c st, False)
              else Ok (st, fix_reached)))))"

definition relax_func ::
    "'c::linorder cost_model \<Rightarrow> xegraph \<Rightarrow> string \<Rightarrow> 'c ext_state \<times> bool \<Rightarrow> (string, 'c ext_state \<times> bool) outcome"
where
  "relax_func cm eg name st =
     bind_o (opt_o Panic (eg_get eg name)) (\<lambda>f.
     bind_o (extraction_output_sort eg f) (\<lambda>ts. fold_out (relax_hyperedge cm eg f ts) (xf_rows f) st))"

definition bf_pass ::
    "'c::linorder cost_model \<Rightarrow> xegraph \<Rightarrow> string list \<Rightarrow> 'c ext_state \<Rightarrow> (string, 'c ext_state \<times> bool) outcome" where
  "bf_pass cm eg funcs st = fold_out (relax_func cm eg) funcs (st, True)"

definition bf_loop ::
    "'c::linorder cost_model \<Rightarrow> xegraph \<Rightarrow> string list \<Rightarrow> (string, 'c ext_state \<times> bool) outcome option" where
  "bf_loop cm eg funcs =
     while_option (\<lambda>r. case r of Ok (st, fix_reached) \<Rightarrow> \<not> fix_reached | _ \<Rightarrow> False)
       (\<lambda>r. bind_o r (\<lambda>(st, _). bf_pass cm eg funcs st)) (Ok (ext_init, False))"

definition save_edge ::
    "'c::linorder cost_model \<Rightarrow> xegraph \<Rightarrow> xfunc \<Rightarrow> arcsort \<Rightarrow> xrow \<Rightarrow> 'c ext_state \<Rightarrow> (string, 'c ext_state) outcome"
where
  "save_edge cm eg f ts row st =
     (if row_subsumed row then Ok st
      else bind_o (opt_o Panic (nth_opt (row_vals row) (extraction_output_index eg f))) (\<lambda>t.
        (case ex_costs st (as_name ts, t) of
           None \<Rightarrow> Ok st
         | Some best \<Rightarrow>
             bind_o (compute_cost_hyperedge cm eg (ex_costs st) row f) (\<lambda>r.
               if r \<noteq> Some best then Ok st
               else bind_o (opt_o Panic (ex_rnk st (as_name ts, t))) (\<lambda>trnk.
                 bind_o (compute_topo_rnk_hyperedge eg (ex_rnk st) row f) (\<lambda>rnk.
                   if rnk < trnk \<and> ex_edge st (as_name ts, t) = None
                   then Ok (st\<lparr>ex_edge := (ex_edge st)((as_name ts, t) \<mapsto> (fd_name (xf_decl f), row_vals row))\<rparr>)
                   else Ok st))))))"

definition save_func ::
    "'c::linorder cost_model \<Rightarrow> xegraph \<Rightarrow> string \<Rightarrow> 'c ext_state \<Rightarrow> (string, 'c ext_state) outcome" where
  "save_func cm eg name st =
     bind_o (opt_o Panic (eg_get eg name)) (\<lambda>f.
     bind_o (extraction_output_sort eg f) (\<lambda>ts. fold_out (save_edge cm eg f ts) (xf_rows f) st))"

definition bellman_ford ::
    "'c::linorder cost_model \<Rightarrow> xegraph \<Rightarrow> string list \<Rightarrow> (string, 'c ext_state) outcome option" where
  "bellman_ford cm eg funcs =
     map_option (\<lambda>r. bind_o r (\<lambda>(st, _). fold_out (save_func cm eg) funcs st)) (bf_loop cm eg funcs)"

section \<open>The extractor\<close>

record 'c extractor =
  x_rootsorts :: "arcsort list"
  x_funcs :: "string list"
  x_state :: "'c ext_state"

definition compute_costs_internal ::
    "'c::linorder cost_model \<Rightarrow> ext_options \<Rightarrow> xegraph \<Rightarrow> (string, 'c extractor) outcome option" where
  "compute_costs_internal cm eo eg =
     (case fold_out (index_func eo eg) (eg_functions eg) (Map.empty, case eo_rootsorts eo of None \<Rightarrow> [] | Some ss \<Rightarrow> ss) of
        Err e \<Rightarrow> Some (Err e)
      | Panic \<Rightarrow> Some Panic
      | Ok (ridx, roots) \<Rightarrow>
          (case bfs eg ridx roots of
             None \<Rightarrow> None
           | Some (Err e) \<Rightarrow> Some (Err e)
           | Some Panic \<Rightarrow> Some Panic
           | Some (Ok (_, _, funcs)) \<Rightarrow>
               map_option (\<lambda>r. bind_o r (\<lambda>st. Ok \<lparr>x_rootsorts = roots, x_funcs = funcs, x_state = st\<rparr>))
                 (bellman_ford cm eg funcs)))"

definition compute_costs_from_rootsorts ::
    "arcsort list option \<Rightarrow> xegraph \<Rightarrow> 'c::linorder cost_model \<Rightarrow> (string, 'c extractor) outcome option" where
  "compute_costs_from_rootsorts roots eg cm =
     compute_costs_internal cm
       \<lparr>eo_rootsorts = roots, eo_respect_unextractable = True, eo_skip_view_tables = False, eo_respect_hidden = True\<rparr> eg"

definition compute_costs_allow_unextractable ::
    "arcsort list option \<Rightarrow> xegraph \<Rightarrow> 'c::linorder cost_model \<Rightarrow> (string, 'c extractor) outcome option" where
  "compute_costs_allow_unextractable roots eg cm =
     compute_costs_internal cm
       \<lparr>eo_rootsorts = roots, eo_respect_unextractable = False, eo_skip_view_tables = True, eo_respect_hidden = False\<rparr> eg"

section \<open>Reconstruction\<close>

type_synonym term_cache = "xval \<times> string \<rightharpoonup> nat"

text \<open>
  The recursion follows parent edges, along which ranks decrease; the fuel counts nested
  calls, running out of it is the exhausted stack of a cyclic table.
\<close>

fun reconstruct_helper ::
    "nat \<Rightarrow> xegraph \<Rightarrow> (string \<times> xval list) node_map \<Rightarrow> arcsort \<Rightarrow> xval \<Rightarrow> termdag \<times> term_cache
     \<Rightarrow> (string, nat \<times> termdag \<times> term_cache) outcome" where
  "reconstruct_helper 0 eg edges s v dc = Panic"
| "reconstruct_helper (Suc n) eg edges s v (d, cache) =
     (case cache (v, as_name s) of
        Some t \<Rightarrow> Ok (t, d, cache)
      | None \<Rightarrow>
          bind_o
            (if is_container_sort s
             then bind_o (inner_values s v) (\<lambda>xs.
               bind_o (map_out (\<lambda>(s', v') dc. reconstruct_helper n eg edges s' v' dc) xs (d, cache)) (\<lambda>(ts, d1, c1).
               bind_o (reconstruct_container s v ts d1) (\<lambda>(t, d2). Ok (t, d2, c1))))
             else if is_eq_sort s
             then bind_o (opt_o Panic (edges (as_name s, v))) (\<lambda>(fname, vals).
               bind_o (opt_o Panic (eg_get eg fname)) (\<lambda>f.
               bind_o (map_out (\<lambda>(s', v') dc. reconstruct_helper n eg edges s' v' dc) (children eg f vals) (d, cache))
                 (\<lambda>(ts, d1, c1). let (t, d2) = dag_app (extraction_term_name f) ts d1 in Ok (t, d2, c1))))
             else (case s of
                     BaseS b \<Rightarrow> bind_o (reconstruct_base b v d) (\<lambda>(t, d1). Ok (t, d1, cache))
                   | _ \<Rightarrow> Panic))
            (\<lambda>(t, d2, c2). Ok (t, d2, c2((v, as_name s) \<mapsto> t))))"

definition reconstruct_termdag_node ::
    "nat \<Rightarrow> xegraph \<Rightarrow> (string \<times> xval list) node_map \<Rightarrow> arcsort \<Rightarrow> xval \<Rightarrow> termdag \<Rightarrow> (string, nat \<times> termdag) outcome"
where
  "reconstruct_termdag_node n eg edges s v d =
     bind_o (reconstruct_helper n eg edges s v (d, Map.empty)) (\<lambda>(t, d1, c1). Ok (t, d1))"

section \<open>Canonical values\<close>

fun chase :: "nat \<Rightarrow> xfunc \<Rightarrow> xval \<Rightarrow> xval" where
  "chase 0 uf v = v"
| "chase (Suc n) uf v =
     (case xf_lookup uf [v] of Some w \<Rightarrow> (if w \<noteq> v then chase n uf w else v) | None \<Rightarrow> v)"

definition uf_table_parent :: "xval \<Rightarrow> xrow list \<Rightarrow> (string, xval) outcome" where
  "uf_table_parent v rows =
     fold_out (\<lambda>row c. bind_o (opt_o Panic (nth_opt (row_vals row) 0)) (\<lambda>x.
       if x = v then opt_o Panic (nth_opt (row_vals row) 1) else Ok c)) rows v"

definition find_canonical :: "xegraph \<Rightarrow> xval \<Rightarrow> arcsort \<Rightarrow> (string, xval) outcome" where
  "find_canonical eg v s =
     (let uf = Option.bind (eg_uf_function eg (as_name s)) (eg_get eg) in
      if eg_native_uf eg \<and> uf \<noteq> None
      then Ok (case xf_lookup (the uf) [v] of Some w \<Rightarrow> w | None \<Rightarrow> v)
      else if eg_native_merge eg \<and> \<not> eg_native_uf eg \<and> \<not> eg_proofs_enabled eg \<and> uf \<noteq> None
      then Ok (chase 64 (the uf) v)
      else (case Option.bind (eg_uf_parent eg (as_name s)) (eg_get eg) of
              None \<Rightarrow> Ok v
            | Some p \<Rightarrow> uf_table_parent v (xf_rows p)))"

section \<open>Extraction\<close>

definition extract_best_with_sort ::
    "nat \<Rightarrow> 'c::linorder cost_model \<Rightarrow> xegraph \<Rightarrow> 'c extractor \<Rightarrow> xval \<Rightarrow> arcsort \<Rightarrow> termdag
     \<Rightarrow> (string, ('c \<times> nat) option \<times> termdag) outcome" where
  "extract_best_with_sort n cm eg x v s d =
     bind_o (find_canonical eg v s) (\<lambda>w.
     bind_o (compute_cost_node cm (ex_costs (x_state x)) s w) (\<lambda>r.
       (case r of
          None \<Rightarrow> Ok (None, d)
        | Some c \<Rightarrow>
            bind_o (reconstruct_termdag_node n eg (ex_edge (x_state x)) s w d) (\<lambda>(t, d1).
              Ok (Some (c, t), d1)))))"

definition extract_best ::
    "nat \<Rightarrow> 'c::linorder cost_model \<Rightarrow> xegraph \<Rightarrow> 'c extractor \<Rightarrow> xval \<Rightarrow> termdag
     \<Rightarrow> (string, ('c \<times> nat) option \<times> termdag) outcome" where
  "extract_best n cm eg x v d =
     (case x_rootsorts x of [s] \<Rightarrow> extract_best_with_sort n cm eg x v s d | _ \<Rightarrow> Panic)"

definition extract_value ::
    "nat \<Rightarrow> u64 cost_model \<Rightarrow> xegraph \<Rightarrow> arcsort \<Rightarrow> xval \<Rightarrow> (string, termdag \<times> nat \<times> u64) outcome option" where
  "extract_value n cm eg s v =
     map_option (\<lambda>r. bind_o r (\<lambda>x. bind_o (extract_best n cm eg x v dag_empty) (\<lambda>(b, d).
       (case b of Some (c, t) \<Rightarrow> Ok (d, t, c) | None \<Rightarrow> Panic))))
     (compute_costs_from_rootsorts (Some [s]) eg cm)"

text \<open>
  The variants are sorted as tuples of cost, function name and values; \<open>ids\<close> is the
  numbering of the interned values that orders them.
\<close>

fun list_le :: "('a \<Rightarrow> nat) \<Rightarrow> 'a list \<Rightarrow> 'a list \<Rightarrow> bool" where
  "list_le k [] ys = True"
| "list_le k (x # xs) [] = False"
| "list_le k (x # xs) (y # ys) = (k x < k y \<or> k x = k y \<and> list_le k xs ys)"

definition variant_le ::
    "(xval \<Rightarrow> nat) \<Rightarrow> 'c::linorder \<times> string \<times> xval list \<Rightarrow> 'c \<times> string \<times> xval list \<Rightarrow> bool" where
  "variant_le ids = (\<lambda>(c, f, vs) (c', f', vs').
     c < c' \<or> c = c' \<and> (f \<noteq> f' \<and> list_le of_char f f' \<or> f = f' \<and> list_le ids vs vs'))"

fun insert_by :: "('a \<Rightarrow> 'a \<Rightarrow> bool) \<Rightarrow> 'a \<Rightarrow> 'a list \<Rightarrow> 'a list" where
  "insert_by le x [] = [x]"
| "insert_by le x (y # ys) = (if le x y then x # y # ys else y # insert_by le x ys)"

definition sort_by :: "('a \<Rightarrow> 'a \<Rightarrow> bool) \<Rightarrow> 'a list \<Rightarrow> 'a list" where
  "sort_by le xs = foldr (insert_by le) xs []"

definition root_variant ::
    "'c::linorder cost_model \<Rightarrow> xegraph \<Rightarrow> 'c extractor \<Rightarrow> xval \<Rightarrow> string \<Rightarrow> xfunc \<Rightarrow> xrow
     \<Rightarrow> ('c \<times> string \<times> xval list) list \<Rightarrow> (string, ('c \<times> string \<times> xval list) list) outcome" where
  "root_variant cm eg x w name f row vs =
     (if row_subsumed row then Ok vs
      else bind_o (opt_o Panic (nth_opt (row_vals row) (extraction_output_index eg f))) (\<lambda>t.
        if t \<noteq> w then Ok vs
        else bind_o (compute_cost_hyperedge cm eg (ex_costs (x_state x)) row f) (\<lambda>r.
          (case r of None \<Rightarrow> Panic | Some c \<Rightarrow> Ok (vs @ [(c, name, row_vals row)])))))"

definition root_variants ::
    "'c::linorder cost_model \<Rightarrow> xegraph \<Rightarrow> 'c extractor \<Rightarrow> xval \<Rightarrow> arcsort \<Rightarrow> (string, ('c \<times> string \<times> xval list) list) outcome"
where
  "root_variants cm eg x w s =
     fold_out (\<lambda>name vs. bind_o (opt_o Panic (eg_get eg name)) (\<lambda>f.
       bind_o (extraction_output_sort eg f) (\<lambda>ts.
         if as_name ts = as_name s then fold_out (root_variant cm eg x w name f) (xf_rows f) vs else Ok vs)))
       (x_funcs x) []"

definition build_variant ::
    "nat \<Rightarrow> xegraph \<Rightarrow> (string \<times> xval list) node_map \<Rightarrow> 'c \<times> string \<times> xval list \<Rightarrow> termdag \<times> term_cache
     \<Rightarrow> (string, ('c \<times> nat) \<times> termdag \<times> term_cache) outcome" where
  "build_variant n eg edges = (\<lambda>(c, name, vals) dc.
     bind_o (opt_o Panic (eg_get eg name)) (\<lambda>f.
     bind_o (map_out (\<lambda>(s', v') dc. reconstruct_helper n eg edges s' v' dc) (children eg f vals) dc) (\<lambda>(ts, d1, c1).
       let (t, d2) = dag_app (extraction_term_name f) ts d1 in Ok ((c, t), d2, c1))))"

definition extract_variants_with_sort ::
    "nat \<Rightarrow> 'c::linorder cost_model \<Rightarrow> xegraph \<Rightarrow> 'c extractor \<Rightarrow> (xval \<Rightarrow> nat) \<Rightarrow> xval \<Rightarrow> nat \<Rightarrow> arcsort \<Rightarrow> termdag
     \<Rightarrow> (string, ('c \<times> nat) list \<times> termdag) outcome" where
  "extract_variants_with_sort n cm eg x ids v nvariants s d =
     (if is_eq_sort s
      then bind_o (find_canonical eg v s) (\<lambda>w.
        bind_o (root_variants cm eg x w s) (\<lambda>vs.
        bind_o (map_out (build_variant n eg (ex_edge (x_state x)))
                  (take nvariants (sort_by (variant_le ids) vs)) (d, Map.empty)) (\<lambda>(res, d1, c1).
          Ok (res, d1))))
      else bind_o (extract_best_with_sort n cm eg x v s d) (\<lambda>(b, d1).
        Ok (case b of Some r \<Rightarrow> [r] | None \<Rightarrow> [], d1)))"

section \<open>The rows of a function as terms\<close>

definition extract_or_placeholder ::
    "nat \<Rightarrow> u64 cost_model \<Rightarrow> xegraph \<Rightarrow> u64 extractor \<Rightarrow> arcsort \<times> xval \<Rightarrow> termdag \<Rightarrow> (string, nat \<times> termdag) outcome"
where
  "extract_or_placeholder n cm eg x = (\<lambda>(s, v) d.
     bind_o (extract_best_with_sort n cm eg x v s d) (\<lambda>(b, d1).
       Ok (case b of Some (c, t) \<Rightarrow> (t, d1) | None \<Rightarrow> dag_var ''Unextractable'' d1)))"

definition extract_row ::
    "nat \<Rightarrow> u64 cost_model \<Rightarrow> xegraph \<Rightarrow> u64 extractor \<Rightarrow> string \<Rightarrow> xfunc \<Rightarrow> bool \<Rightarrow> xrow \<Rightarrow> termdag
     \<Rightarrow> (string, (nat \<times> nat option) \<times> termdag) outcome" where
  "extract_row n cm eg x fsym f include_output row d =
     bind_o (map_out (extract_or_placeholder n cm eg x) (zip (xf_input f) (row_vals row)) d) (\<lambda>(ts, d1).
       let (i, d2) = dag_app fsym ts d1 in
       if \<not> include_output then Ok ((i, None), d2)
       else if length (row_vals row) < length (xf_input f) + Suc (length (xf_extra_outputs f)) then Panic
       else bind_o (map_out (extract_or_placeholder n cm eg x)
                      (zip (xf_output f # xf_extra_outputs f) (drop (length (xf_input f)) (row_vals row))) d2) (\<lambda>(os, d3).
         (case os of
            [t] \<Rightarrow> Ok ((i, Some t), d3)
          | _ \<Rightarrow> (let (t, d4) = dag_app ''values'' os d3 in Ok ((i, Some t), d4)))))"

definition function_to_dag ::
    "nat \<Rightarrow> xegraph \<Rightarrow> string \<Rightarrow> nat \<Rightarrow> bool \<Rightarrow> (string, nat list \<times> nat list option \<times> termdag) outcome option" where
  "function_to_dag fuel eg fsym n include_output =
     (case eg_get eg fsym of
        None \<Rightarrow> Some (Err fsym)
      | Some f \<Rightarrow>
          (let roots = xf_input f @ (if include_output then xf_output f # xf_extra_outputs f else []) in
           map_option (\<lambda>r. bind_o r (\<lambda>x.
             bind_o (map_out (extract_row fuel tree_additive eg x fsym f include_output) (take n (xf_rows f)) dag_empty)
               (\<lambda>(rows, d). Ok (map fst rows, if include_output then Some (map (the \<circ> snd) rows) else None, d))))
             (compute_costs_from_rootsorts (Some roots) eg tree_additive)))"

end
