(* ===== verification/Extract_Costs.thy ===== *)
theory Extract_Costs
  imports Extract_Model
begin

text \<open>
  The cost computation of the extractor against its specification: \<open>extracts\<close> says which
  terms an e-class contains and what they cost; the tables Bellman-Ford ends with hold the
  least of these costs.
\<close>

section \<open>The terms of an e-class and their costs\<close>

text \<open>\<open>F\<close> is the set of functions whose rows may be used.\<close>

definition usable_row :: "xegraph \<Rightarrow> string set \<Rightarrow> string \<Rightarrow> xfunc \<Rightarrow> xrow \<Rightarrow> string \<times> xval \<Rightarrow> bool" where
  "usable_row eg F h f row k \<longleftrightarrow> h \<in> F \<and> eg_get eg h = Some f
     \<and> (\<exists>ts. extraction_output_sort eg f = Ok ts \<and> fst k = as_name ts)
     \<and> row \<in> set (xf_rows f) \<and> \<not> row_subsumed row
     \<and> nth_opt (row_vals row) (extraction_output_index eg f) = Some (snd k)"

inductive extracts :: "'c cost_model \<Rightarrow> xegraph \<Rightarrow> string set \<Rightarrow> arcsort \<Rightarrow> xval \<Rightarrow> tm \<Rightarrow> 'c \<Rightarrow> bool"
  and extracts_list :: "'c cost_model \<Rightarrow> xegraph \<Rightarrow> string set \<Rightarrow> (arcsort \<times> xval) list \<Rightarrow> tm list \<Rightarrow> 'c list \<Rightarrow> bool"
  for cm eg F where
  Base: "\<not> is_container_sort s \<Longrightarrow> \<not> is_eq_sort s \<Longrightarrow> extracts cm eg F s v (base_term v) (cm_base cm s v)"
| Container: "is_container_sort s \<Longrightarrow> (inner_values s v) = Ok xs
    \<Longrightarrow> extracts_list cm eg F xs ts cs
    \<Longrightarrow> extracts cm eg F s v (container_term s v ts) (cm_container cm s v cs)"
| Node: "is_eq_sort s \<Longrightarrow> usable_row eg F h f row (as_name s, v)
    \<Longrightarrow> extracts_list cm eg F (children eg f (row_vals row)) ts cs
    \<Longrightarrow> extracts cm eg F s v (GApp (extraction_term_name f) ts)
          (cm_fold cm (extraction_term_name f) cs (cm_enode cm eg f row))"
| Nil: "extracts_list cm eg F [] [] []"
| Cons: "extracts cm eg F s v t c \<Longrightarrow> extracts_list cm eg F xs ts cs
    \<Longrightarrow> extracts_list cm eg F ((s, v) # xs) (t # ts) (c # cs)"

definition represented :: "'c cost_model \<Rightarrow> xegraph \<Rightarrow> string set \<Rightarrow> arcsort \<Rightarrow> xval \<Rightarrow> 'c \<Rightarrow> bool" where
  "represented cm eg F s v c \<longleftrightarrow> (\<exists>t. extracts cm eg F s v t c)"

section \<open>Costs of nodes\<close>

lemma cost_node_base:
  "\<not> is_container_sort s \<Longrightarrow> \<not> is_eq_sort s \<Longrightarrow> compute_cost_node cm costs s v = Ok (Some (cm_base cm s v))"
  by (simp add: compute_cost_node.simps)

lemma cost_node_eq: "is_eq_sort s \<Longrightarrow> compute_cost_node cm costs s v = Ok (costs (as_name s, v))"
  by (cases s) (auto simp: compute_cost_node.simps)

lemma cost_node_container:
  "is_container_sort s \<Longrightarrow> inner_values s v = Ok xs
    \<Longrightarrow> compute_cost_node cm costs s v = bind_o (collect_some (\<lambda>(s', v'). compute_cost_node cm costs s' v') xs)
          (\<lambda>r. Ok (map_option (cm_container cm s v) r))"
  by (subst compute_cost_node.simps) simp

text \<open>The least fixed point: no usable row offers a lower cost.\<close>

definition is_fixpoint :: "'c::linorder cost_model \<Rightarrow> xegraph \<Rightarrow> string set \<Rightarrow> 'c node_map \<Rightarrow> bool" where
  "is_fixpoint cm eg F costs \<longleftrightarrow>
     (\<forall>h f row k c. usable_row eg F h f row k
        \<longrightarrow> (compute_cost_hyperedge cm eg costs row f) = Ok (Some c)
        \<longrightarrow> (\<exists>c0. costs k = Some c0 \<and> c0 \<le> c))"

text \<open>Every recorded cost is the cost of a term.\<close>

definition attained :: "'c cost_model \<Rightarrow> xegraph \<Rightarrow> string set \<Rightarrow> 'c node_map \<Rightarrow> bool" where
  "attained cm eg F costs \<longleftrightarrow> (\<forall>n v c. costs (n, v) = Some c \<longrightarrow> represented cm eg F (EqS n) v c)"

section \<open>The contract of a cost model\<close>

locale monotone_cost =
  fixes cm :: "'c::linorder cost_model"
  assumes fold_mono: "list_all2 (\<le>) cs ds \<Longrightarrow> cm_fold cm h cs x \<le> cm_fold cm h ds x"
    and container_mono: "list_all2 (\<le>) cs ds \<Longrightarrow> cm_container cm s v cs \<le> cm_container cm s v ds"
begin

lemma fixpoint_below:
  assumes "is_fixpoint cm eg F costs"
  shows "extracts cm eg F s v t c
      \<Longrightarrow> \<exists>c0. (compute_cost_node cm costs s v) = Ok (Some c0) \<and> c0 \<le> c"
    and "extracts_list cm eg F xs ts cs
      \<Longrightarrow> \<exists>cs0. (collect_some (\<lambda>(s, v). compute_cost_node cm costs s v) xs) = Ok (Some cs0)
        \<and> list_all2 (\<le>) cs0 cs"
proof (induction rule: extracts_extracts_list.inducts)
  case (Container s v xs ts cs)
  then show ?case using container_mono by (auto simp: cost_node_container)
next
  case (Node s h f row v ts cs)
  then obtain cs0 where cs0: "(collect_some (\<lambda>(s, v). compute_cost_node cm costs s v) (children eg f (row_vals row))
     ) = Ok (Some cs0)" "list_all2 (\<le>) cs0 cs" by blast
  then have "(compute_cost_hyperedge cm eg costs row f)
      = Ok (Some (cm_fold cm (extraction_term_name f) cs0 (cm_enode cm eg f row)))"
    by (simp add: compute_cost_hyperedge_def)
  then obtain c0 where "costs (as_name s, v) = Some c0"
    "c0 \<le> cm_fold cm (extraction_term_name f) cs0 (cm_enode cm eg f row)"
    using assms Node unfolding is_fixpoint_def by blast
  moreover have "is_eq_sort s" using Node by blast
  ultimately show ?case using fold_mono [OF cs0(2)] by (auto simp: cost_node_eq intro: order_trans)
qed (auto simp: cost_node_base)

end

lemma collect_extracts:
  assumes "\<And>s v c. (s, v) \<in> set xs \<Longrightarrow> f (s, v) = Ok (Some c) \<Longrightarrow> \<exists>t. extracts cm eg F s v t c"
    and "collect_some f xs = Ok (Some cs)"
  shows "\<exists>ts. extracts_list cm eg F xs ts cs"
  using assms
proof (induction xs arbitrary: cs)
  case Nil
  then show ?case by (auto intro: extracts_extracts_list.Nil)
next
  case (Cons x xs)
  obtain s v where x: "x = (s, v)" by force
  with Cons.prems(2) obtain c cs' where c: "f (s, v) = Ok (Some c)" "collect_some f xs = Ok (Some cs')" "cs = c # cs'"
    by (auto simp: bind_o_eq_Ok split: option.splits)
  have "\<exists>t. extracts cm eg F s v t c" using Cons.prems(1) [of s v c] x c(1) by simp
  moreover have "\<exists>ts. extracts_list cm eg F xs ts cs'" using Cons.IH [OF _ c(2)] Cons.prems(1) by simp
  ultimately show ?case using x c by (auto intro: extracts_extracts_list.Cons)
qed

lemma attained_node:
  assumes att: "attained cm eg F costs"
  shows "compute_cost_node cm costs s v = Ok (Some c) \<Longrightarrow> represented cm eg F s v c"
proof (induction v arbitrary: s c rule: measure_induct_rule [of size])
  case (less v)
  consider "is_container_sort s" | "is_eq_sort s" | "\<not> is_container_sort s" "\<not> is_eq_sort s" by blast
  then show ?case
  proof cases
    case 1
    with less.prems obtain xs cs where xs: "inner_values s v = Ok xs"
      and cs: "collect_some (\<lambda>(s', v'). compute_cost_node cm costs s' v') xs = Ok (Some cs)" "c = cm_container cm s v cs"
      by (subst (asm) compute_cost_node.simps) (auto simp: bind_o_eq_Ok)
    have "\<exists>ts. extracts_list cm eg F xs ts cs"
      by (rule collect_extracts [OF _ cs(1)])
        (use less.IH inner_values_size [OF xs] in \<open>auto simp: represented_def\<close>)
    with 1 xs cs(2) show ?thesis by (auto simp: represented_def intro: extracts_extracts_list.Container)
  next
    case 2
    then obtain n where "s = EqS n" by (cases s) auto
    with less.prems att show ?thesis by (simp add: cost_node_eq attained_def)
  next
    case 3
    with less.prems show ?thesis by (auto simp: cost_node_base represented_def intro: extracts_extracts_list.Base)
  qed
qed

lemma attained_hyperedge:
  assumes att: "attained cm eg F costs" and row: "usable_row eg F h f row (n, v)"
    and c: "compute_cost_hyperedge cm eg costs row f = Ok (Some c)"
  shows "represented cm eg F (EqS n) v c"
proof -
  obtain cs where cs: "collect_some (\<lambda>(s, v). compute_cost_node cm costs s v) (children eg f (row_vals row)) = Ok (Some cs)"
    and c': "c = cm_fold cm (extraction_term_name f) cs (cm_enode cm eg f row)"
    using c by (auto simp: compute_cost_hyperedge_def bind_o_eq_Ok)
  have "\<exists>ts. extracts_list cm eg F (children eg f (row_vals row)) ts cs"
    by (rule collect_extracts [OF _ cs]) (use attained_node [OF att] in \<open>auto simp: represented_def\<close>)
  then obtain ts where "extracts_list cm eg F (children eg f (row_vals row)) ts cs" by blast
  from extracts_extracts_list.Node [OF _ _ this, of "EqS n" h v] row c' show ?thesis
    by (auto simp: represented_def)
qed

section \<open>One update\<close>

lemma record_cost_sel [simp]:
  "ex_costs (record_cost k c st) = (ex_costs st)(k \<mapsto> c)"
  "ex_rnk (record_cost k c st) = (ex_rnk st)(k \<mapsto> Suc (ex_cnt st))"
  "ex_cnt (record_cost k c st) = Suc (ex_cnt st)"
  "ex_edge (record_cost k c st) = ex_edge st"
  by (simp_all add: record_cost_def)

text \<open>A row that may improve its target.\<close>

definition improving ::
    "'c::linorder cost_model \<Rightarrow> xegraph \<Rightarrow> string set \<Rightarrow> 'c ext_state \<Rightarrow> string \<times> xval \<Rightarrow> 'c \<Rightarrow> bool" where
  "improving cm eg F st k c \<longleftrightarrow> (\<exists>h f row. usable_row eg F h f row k
     \<and> compute_cost_hyperedge cm eg (ex_costs st) row f = Ok (Some c) \<and> improves c (ex_costs st k))"

definition closed_under_updates ::
    "'c::linorder cost_model \<Rightarrow> xegraph \<Rightarrow> string set \<Rightarrow> ('c ext_state \<Rightarrow> bool) \<Rightarrow> bool" where
  "closed_under_updates cm eg F I \<longleftrightarrow> (\<forall>st k c. I st \<longrightarrow> improving cm eg F st k c \<longrightarrow> I (record_cost k c st))"

lemma relax_hyperedge_cases:
  assumes "relax_hyperedge cm eg f ts row (st, b) = Ok (st', b')"
    and row: "h \<in> F" "eg_get eg h = Some f" "extraction_output_sort eg f = Ok ts" "row \<in> set (xf_rows f)"
  obtains (same) "st' = st" "b' = b"
      "\<And>k c. usable_row eg F h f row k \<Longrightarrow> compute_cost_hyperedge cm eg (ex_costs st) row f = Ok (Some c)
        \<Longrightarrow> \<exists>c0. ex_costs st k = Some c0 \<and> c0 \<le> c"
    | (update) k c where "improving cm eg F st k c" "st' = record_cost k c st" "\<not> b'"
proof (cases "row_subsumed row")
  case True
  then show ?thesis using assms(1) by (intro same) (auto simp: relax_hyperedge_def usable_row_def)
next
  case False
  with assms(1) obtain t r where t: "nth_opt (row_vals row) (extraction_output_index eg f) = Some t"
    and r: "compute_cost_hyperedge cm eg (ex_costs st) row f = Ok r"
    and c: "(case r of None \<Rightarrow> Ok (st, b)
          | Some c \<Rightarrow> if improves c (ex_costs st (as_name ts, t)) then Ok (record_cost (as_name ts, t) c st, False)
              else Ok (st, b)) = (Ok (st', b') :: (string, 'a ext_state \<times> bool) outcome)"
    by (auto simp: relax_hyperedge_def bind_o_eq_Ok outcome_simps)
  have u: "usable_row eg F h f row (as_name ts, t)" using False t row by (auto simp: usable_row_def)
  have k: "k = (as_name ts, t)" if "usable_row eg F h f row k" for k
    using that t row(3) by (cases k) (auto simp: usable_row_def)
  show ?thesis
  proof (cases "\<exists>c. r = Some c \<and> improves c (ex_costs st (as_name ts, t))")
    case True
    then obtain c1 where c1: "r = Some c1" "improves c1 (ex_costs st (as_name ts, t))" by blast
    show ?thesis
      by (rule update [of "(as_name ts, t)" c1]) (use c u r c1 in \<open>auto simp: improving_def\<close>)
  next
    case False
    show ?thesis
    proof (rule same)
      show "st' = st" "b' = b" using c False by (auto split: option.splits if_splits)
      fix k c
      assume "usable_row eg F h f row k" "compute_cost_hyperedge cm eg (ex_costs st) row f = Ok (Some c)"
      with k r False show "\<exists>c0. ex_costs st k = Some c0 \<and> c0 \<le> c"
        by (auto simp: improves_def split: option.splits)
    qed
  qed
qed

section \<open>A pass and the loop\<close>

definition pass_rel ::
    "'c::linorder cost_model \<Rightarrow> xegraph \<Rightarrow> string set \<Rightarrow> ('c ext_state \<Rightarrow> bool)
     \<Rightarrow> 'c ext_state \<times> bool \<Rightarrow> 'c ext_state \<times> bool \<Rightarrow> (string \<Rightarrow> xfunc \<Rightarrow> xrow \<Rightarrow> bool) \<Rightarrow> bool" where
  "pass_rel cm eg F I x y R \<longleftrightarrow> (I (fst x) \<longrightarrow> I (fst y))
     \<and> (snd y \<longrightarrow> snd x \<and> fst y = fst x \<and> (\<forall>h f row k c. R h f row \<longrightarrow> usable_row eg F h f row k
          \<longrightarrow> compute_cost_hyperedge cm eg (ex_costs (fst x)) row f = Ok (Some c)
          \<longrightarrow> (\<exists>c0. ex_costs (fst x) k = Some c0 \<and> c0 \<le> c)))"

lemma relax_rows:
  assumes I: "closed_under_updates cm eg F I"
    and f: "h \<in> F" "eg_get eg h = Some f" "extraction_output_sort eg f = Ok ts"
  shows "set rows \<subseteq> set (xf_rows f) \<Longrightarrow> fold_out (relax_hyperedge cm eg f ts) rows x = Ok y
    \<Longrightarrow> pass_rel cm eg F I x y (\<lambda>h' f' row. h' = h \<and> f' = f \<and> row \<in> set rows)"
proof (induction rows arbitrary: x)
  case (Cons row rows)
  obtain st b where x: "x = (st, b)" by force
  with Cons.prems obtain st1 b1 where 1: "relax_hyperedge cm eg f ts row (st, b) = Ok (st1, b1)"
    and 2: "fold_out (relax_hyperedge cm eg f ts) rows (st1, b1) = Ok y"
    by (auto simp: bind_o_eq_Ok)
  have row: "row \<in> set (xf_rows f)" using Cons.prems(1) by simp
  have IH: "pass_rel cm eg F I (st1, b1) y (\<lambda>h' f' row. h' = h \<and> f' = f \<and> row \<in> set rows)"
    using Cons.IH [OF _ 2] Cons.prems(1) by simp
  from 1 f row show ?case
  proof (cases rule: relax_hyperedge_cases)
    case same
    with IH x show ?thesis unfolding pass_rel_def by auto
  next
    case (update k c)
    then have "I st \<longrightarrow> I st1" using I unfolding closed_under_updates_def by blast
    moreover have "\<not> snd y" using IH update(3) unfolding pass_rel_def by auto
    ultimately show ?thesis using IH x unfolding pass_rel_def by auto
  qed
qed (simp add: pass_rel_def)

lemma relax_funcs:
  assumes I: "closed_under_updates cm eg F I"
  shows "set funcs \<subseteq> F \<Longrightarrow> fold_out (relax_func cm eg) funcs x = Ok y
    \<Longrightarrow> pass_rel cm eg F I x y (\<lambda>h f row. h \<in> set funcs \<and> row \<in> set (xf_rows f))"
proof (induction funcs arbitrary: x)
  case (Cons h funcs)
  then obtain f ts z where f: "eg_get eg h = Some f" "extraction_output_sort eg f = Ok ts"
    and 1: "fold_out (relax_hyperedge cm eg f ts) (xf_rows f) x = Ok z"
    and 2: "fold_out (relax_func cm eg) funcs z = Ok y"
    by (auto simp: bind_o_eq_Ok relax_func_def [of cm eg h x] outcome_simps)
  have "h \<in> F" using Cons.prems(1) by simp
  note a = relax_rows [OF I this f subset_refl 1]
  have b: "pass_rel cm eg F I z y (\<lambda>h f row. h \<in> set funcs \<and> row \<in> set (xf_rows f))"
    using Cons.IH [OF _ 2] Cons.prems(1) by simp
  have eq: "f' = f" if "usable_row eg F h f' row k" for f' row k
    using that f by (auto simp: usable_row_def)
  show ?case
    unfolding pass_rel_def
  proof (intro conjI impI allI)
    show "I (fst x) \<Longrightarrow> I (fst y)" using a b Cons.prems(1) \<open>h \<in> F\<close> unfolding pass_rel_def by simp
    assume y: "snd y"
    with b Cons.prems(1) have z: "snd z" "fst y = fst z" unfolding pass_rel_def by simp_all
    with a show "snd x" "fst y = fst x" unfolding pass_rel_def by simp_all
    fix h' f' row k c
    assume R: "h' \<in> set (h # funcs) \<and> row \<in> set (xf_rows f')" and u: "usable_row eg F h' f' row k"
      and c: "compute_cost_hyperedge cm eg (ex_costs (fst x)) row f' = Ok (Some c)"
    have xz: "fst z = fst x" using a z(1) unfolding pass_rel_def by simp
    show "\<exists>c0. ex_costs (fst x) k = Some c0 \<and> c0 \<le> c"
    proof (cases "h' = h")
      case True
      with u eq have "f' = f" by simp
      with a z(1) True R u c show ?thesis unfolding pass_rel_def by blast
    next
      case False
      with R have "h' \<in> set funcs \<and> row \<in> set (xf_rows f')" by simp
      with b y u c xz show ?thesis unfolding pass_rel_def by metis
    qed
  qed
qed (simp add: pass_rel_def)

lemma pass_invariant:
  assumes "closed_under_updates cm eg (set funcs) I" "bf_pass cm eg funcs st = Ok (st', b)" "I st"
  shows "I st'"
  using relax_funcs [OF assms(1) subset_refl assms(2) [unfolded bf_pass_def]] assms(3)
  by (simp add: pass_rel_def)

lemma pass_fixpoint:
  assumes "bf_pass cm eg funcs st = Ok (st', True)"
  shows "st' = st \<and> is_fixpoint cm eg (set funcs) (ex_costs st)"
proof -
  have "closed_under_updates cm eg (set funcs) (\<lambda>_. True)" by (simp add: closed_under_updates_def)
  from relax_funcs [OF this subset_refl assms [unfolded bf_pass_def]]
  show ?thesis by (auto simp: pass_rel_def is_fixpoint_def usable_row_def)
qed

lemma bf_loop_invariant:
  assumes loop: "bf_loop cm eg funcs = Some (Ok (st, b))"
    and I: "closed_under_updates cm eg (set funcs) I" "I ext_init"
  shows "I st \<and> b \<and> is_fixpoint cm eg (set funcs) (ex_costs st)"
proof -
  let ?P = "\<lambda>r :: (string, 'a ext_state \<times> bool) outcome. case r of
      Ok (st, b) \<Rightarrow> I st \<and> (b \<longrightarrow> is_fixpoint cm eg (set funcs) (ex_costs st)) | _ \<Rightarrow> True"
  note w = loop [unfolded bf_loop_def]
  have "?P (Ok (st, b))"
  proof (rule while_option_rule [where P = ?P, OF _ w])
    fix r :: "(string, 'a ext_state \<times> bool) outcome"
    assume r: "?P r" "case r of Ok (st, fix_reached) \<Rightarrow> \<not> fix_reached | _ \<Rightarrow> False"
    obtain st0 b0 where r0: "r = Ok (st0, b0)" "I st0" using r by (cases r) auto
    show "?P (bind_o r (\<lambda>(st, _). bf_pass cm eg funcs st))"
    proof (cases "bf_pass cm eg funcs st0")
      case (Ok y)
      obtain st1 b1 where y: "y = (st1, b1)" by force
      from pass_invariant [OF I(1) Ok [unfolded y] r0(2)] pass_fixpoint [of cm eg funcs st0 st1] Ok y r0
      show ?thesis by auto
    qed (use r0 in auto)
  qed (use I(2) in simp)
  moreover have b using while_option_stop [OF w] by simp
  ultimately show ?thesis by simp
qed

section \<open>Bellman-Ford computes the least costs\<close>

lemma attained_closed: "closed_under_updates cm eg F (\<lambda>st. attained cm eg F (ex_costs st))"
proof -
  have "attained cm eg F ((ex_costs st)(k \<mapsto> c))"
    if att: "attained cm eg F (ex_costs st)" and i: "improving cm eg F st k c" for st k c
  proof -
    obtain n v where k: "k = (n, v)" by force
    from i obtain h f row where "usable_row eg F h f row (n, v)"
      "compute_cost_hyperedge cm eg (ex_costs st) row f = Ok (Some c)" by (auto simp: improving_def k)
    from attained_hyperedge [OF att this] att show ?thesis by (auto simp: attained_def k)
  qed
  then show ?thesis by (simp add: closed_under_updates_def)
qed

definition least_cost :: "'c::linorder cost_model \<Rightarrow> xegraph \<Rightarrow> string set \<Rightarrow> arcsort \<Rightarrow> xval \<Rightarrow> 'c option \<Rightarrow> bool" where
  "least_cost cm eg F s v r \<longleftrightarrow>
     (case r of
        None \<Rightarrow> (\<forall>c. \<not> represented cm eg F s v c)
      | Some c \<Rightarrow> represented cm eg F s v c \<and> (\<forall>c'. represented cm eg F s v c' \<longrightarrow> c \<le> c'))"

context monotone_cost
begin

lemma bf_loop_least:
  assumes loop: "bf_loop cm eg funcs = Some (Ok (st, b))"
    and r: "compute_cost_node cm (ex_costs st) s v = Ok r"
  shows "least_cost cm eg (set funcs) s v r"
proof -
  have *: "attained cm eg (set funcs) (ex_costs st)" "is_fixpoint cm eg (set funcs) (ex_costs st)"
    using bf_loop_invariant [OF loop attained_closed] by (auto simp: attained_def ext_init_def)
  from attained_node [OF *(1)] fixpoint_below(1) [OF *(2)] r show ?thesis
    by (fastforce simp: least_cost_def represented_def split: option.splits)
qed

end

end
