(* ===== verification/Extract_Termination.thy ===== *)
theory Extract_Termination
  imports Extract_Costs
begin

text \<open>
  Bellman-Ford ends for every cost type with finitely many values, such as \<open>u64\<close>, and
  whatever the cost model: each pass that does not end the loop lowers a recorded cost.
  On a well-typed e-graph it does not panic either. The search for the reachable tables
  ends as well.
\<close>

section \<open>Potential\<close>

definition targets :: "xegraph \<Rightarrow> string set \<Rightarrow> (string \<times> xval) set" where
  "targets eg F = {k. \<exists>h f row. usable_row eg F h f row k}"

lemma finite_targets: "finite F \<Longrightarrow> finite (targets eg F)"
proof -
  assume F: "finite F"
  let ?row = "\<lambda>h f. (\<lambda>row. (case extraction_output_sort eg f of Ok ts \<Rightarrow> as_name ts | _ \<Rightarrow> [],
      the (nth_opt (row_vals row) (extraction_output_index eg f)))) ` set (xf_rows f)"
  have "targets eg F \<subseteq> (\<Union>h \<in> F. case eg_get eg h of None \<Rightarrow> {} | Some f \<Rightarrow> ?row h f)"
    unfolding targets_def usable_row_def by (force split: option.splits)
  moreover have "finite (\<Union>h \<in> F. case eg_get eg h of None \<Rightarrow> {} | Some f \<Rightarrow> ?row h f)"
    using F by (auto split: option.splits)
  ultimately show ?thesis by (rule finite_subset)
qed

definition level :: "'c::{linorder, finite} option \<Rightarrow> nat" where
  "level r = (case r of None \<Rightarrow> card (UNIV :: 'c set) | Some c \<Rightarrow> card {x. x < c})"

definition potential :: "(string \<times> xval) set \<Rightarrow> 'c::{linorder, finite} node_map \<Rightarrow> nat" where
  "potential K costs = (\<Sum>k \<in> K. level (costs k))"

lemma level_improves: "improves c old \<Longrightarrow> level (Some c) < level (old :: 'c::{linorder, finite} option)"
proof (cases old)
  case None
  have "{x. x < c} \<subset> UNIV" by auto
  then show ?thesis using None by (simp add: level_def psubset_card_mono)
next
  case (Some c0)
  moreover assume "improves c old"
  ultimately have "{x. x < c} \<subset> {x. x < c0}" by (auto simp: improves_def)
  then show ?thesis using Some by (simp add: level_def psubset_card_mono)
qed

lemma potential_update:
  assumes "finite K" "k \<in> K" "improves c (costs k)"
  shows "potential K (costs(k \<mapsto> c)) < potential K costs"
proof -
  have "potential K (costs(k \<mapsto> c)) = level (Some c) + (\<Sum>j \<in> K - {k}. level (costs j))"
    unfolding potential_def by (subst sum.remove [OF assms(1,2)]) (auto intro: sum.cong)
  moreover have "potential K costs = level (costs k) + (\<Sum>j \<in> K - {k}. level (costs j))"
    unfolding potential_def by (rule sum.remove [OF assms(1,2)])
  ultimately show ?thesis using level_improves [OF assms(3)] by simp
qed

section \<open>The loop ends\<close>

lemma relax_count:
  assumes "relax_hyperedge cm eg f ts row x = Ok y"
  shows "ex_cnt (fst x) \<le> ex_cnt (fst y) \<and> (snd y \<noteq> snd x \<longrightarrow> ex_cnt (fst x) < ex_cnt (fst y))"
  using assms by (cases x) (auto simp: relax_hyperedge_def bind_o_eq_Ok split: if_splits option.splits)

lemma pass_count:
  assumes "bf_pass cm eg funcs st = Ok (st', b)"
  shows "b \<or> ex_cnt st < ex_cnt st'"
proof -
  let ?I = "\<lambda>y. snd y \<and> ex_cnt st \<le> ex_cnt (fst y) \<or> ex_cnt st < ex_cnt (fst y)"
  have row: "?I y" if "relax_hyperedge cm eg f ts row x = Ok y" "?I x" for f ts row x y
    using relax_count [OF that(1)] that(2) by auto
  have "?I (st', b)"
  proof (rule fold_out_invariant [OF assms [unfolded bf_pass_def]])
    fix h x y
    assume "?I x" "relax_func cm eg h x = Ok y"
    then obtain f ts where "fold_out (relax_hyperedge cm eg f ts) (xf_rows f) x = Ok y"
      by (auto simp: relax_func_def bind_o_eq_Ok)
    from fold_out_invariant [OF this, of ?I] \<open>?I x\<close> row show "?I y" by blast
  qed simp
  then show ?thesis by auto
qed

lemma pass_potential:
  assumes "bf_pass cm eg funcs st = Ok (st', b)"
  shows "b \<and> st' = st \<or> potential (targets eg (set funcs)) (ex_costs st') < potential (targets eg (set funcs)) (ex_costs st)"
proof -
  let ?m = "\<lambda>s. potential (targets eg (set funcs)) (ex_costs s)"
  let ?I = "\<lambda>s. ex_cnt s = ex_cnt st \<or> ?m s < ?m st"
  have I: "closed_under_updates cm eg (set funcs) (\<lambda>s. ex_cnt st \<le> ex_cnt s \<and> (s = st \<or> ?m s < ?m st))"
    unfolding closed_under_updates_def
  proof (intro allI impI)
    fix s k c
    assume s: "ex_cnt st \<le> ex_cnt s \<and> (s = st \<or> ?m s < ?m st)" and i: "improving cm eg (set funcs) s k c"
    have "?m (record_cost k c s) < ?m s"
      using i potential_update [OF finite_targets [of "set funcs" eg], of k c "ex_costs s"]
      by (auto simp: improving_def targets_def)
    with s show "ex_cnt st \<le> ex_cnt (record_cost k c s) \<and> (record_cost k c s = st \<or> ?m (record_cost k c s) < ?m st)"
      by auto
  qed
  from pass_invariant [OF I assms] pass_count [OF assms] show ?thesis
    using pass_fixpoint [of cm eg funcs st st'] assms by (cases b) auto
qed

lemma bf_loop_ends: "\<exists>r. bf_loop cm eg funcs = Some (r :: (string, 'c::{linorder, finite} ext_state \<times> bool) outcome)"
proof -
  let ?m = "\<lambda>s :: 'c ext_state. potential (targets eg (set funcs)) (ex_costs s)"
  let ?f = "\<lambda>r :: (string, 'c ext_state \<times> bool) outcome. case r of Ok (s, b) \<Rightarrow> 2 * ?m s + (if b then 0 else 1) | _ \<Rightarrow> 0"
  show ?thesis
    unfolding bf_loop_def
  proof (rule measure_while_option_Some [where P = "\<lambda>_. True" and f = ?f])
    fix r :: "(string, 'c ext_state \<times> bool) outcome"
    assume "case r of Ok (st, fix_reached) \<Rightarrow> \<not> fix_reached | _ \<Rightarrow> False"
    then obtain st where r: "r = Ok (st, False)" by (cases r) auto
    have "?f (bf_pass cm eg funcs st) < ?f r"
    proof (cases "bf_pass cm eg funcs st")
      case (Ok y)
      obtain st' b where "y = (st', b)" by force
      with pass_potential [of cm eg funcs st st' b] Ok r show ?thesis by auto
    qed (simp_all add: r)
    then show "True \<and> ?f (bind_o r (\<lambda>(st, _). bf_pass cm eg funcs st)) < ?f r" by (simp add: r)
  qed simp
qed

section \<open>Well-typed tables do not panic\<close>

definition typed_row :: "xegraph \<Rightarrow> xfunc \<Rightarrow> xrow \<Rightarrow> bool" where
  "typed_row eg f row \<longleftrightarrow> extraction_output_index eg f < length (row_vals row)
     \<and> (\<forall>(s, v) \<in> set (children eg f (row_vals row)). has_sort s v)"

definition typed_egraph :: "xegraph \<Rightarrow> bool" where
  "typed_egraph eg \<longleftrightarrow>
     (\<forall>h f. eg_get eg h = Some f \<longrightarrow> fd_name (xf_decl f) = h \<and> (\<exists>ts. extraction_output_sort eg f = Ok ts)
        \<and> (\<forall>row \<in> set (xf_rows f). typed_row eg f row))"

lemma has_sort_inner:
  assumes "has_sort s v" "is_container_sort s"
  shows "\<exists>xs ss. inner_values s v = Ok xs \<and> inner_sorts s = Ok ss \<and> (\<forall>(s', v') \<in> set xs. s' \<in> set ss \<and> has_sort s' v')"
  using assms by (subst (asm) has_sort.simps) (auto split: arcsort.splits outcome.splits)

lemma collect_some_Ok: "(\<And>x. x \<in> set xs \<Longrightarrow> \<exists>r. f x = Ok r) \<Longrightarrow> \<exists>r. collect_some f xs = Ok r"
proof (induction xs)
  case (Cons x xs)
  obtain r where "f x = Ok r" using Cons.prems [of x] by auto
  moreover obtain rs where "collect_some f xs = Ok rs" using Cons by auto
  ultimately show ?case by (cases r) auto
qed simp

lemma cost_node_Ok: "has_sort s v \<Longrightarrow> \<exists>r. compute_cost_node cm costs s v = Ok r"
proof (induction v arbitrary: s rule: measure_induct_rule [of size])
  case (less v)
  show ?case
  proof (cases "is_container_sort s")
    case True
    with has_sort_inner less.prems obtain xs where xs: "inner_values s v = Ok xs" "\<forall>(s', v') \<in> set xs. has_sort s' v'"
      by fastforce
    have "\<exists>r. collect_some (\<lambda>(s', v'). compute_cost_node cm costs s' v') xs = Ok r"
      by (rule collect_some_Ok) (use less.IH inner_values_size [OF xs(1)] xs(2) in auto)
    with True xs show ?thesis by (auto simp: cost_node_container)
  qed (auto simp: compute_cost_node.simps)
qed

lemma hyperedge_Ok:
  assumes "\<forall>(s, v) \<in> set (children eg f (row_vals row)). has_sort s v"
  shows "\<exists>r. compute_cost_hyperedge cm eg costs row f = Ok r"
proof -
  have "\<exists>r. collect_some (\<lambda>(s, v). compute_cost_node cm costs s v) (children eg f (row_vals row)) = Ok r"
    by (rule collect_some_Ok) (use assms in \<open>auto intro!: cost_node_Ok\<close>)
  then show ?thesis by (auto simp: compute_cost_hyperedge_def)
qed

lemma fold_out_total: "(\<And>x s. x \<in> set xs \<Longrightarrow> \<exists>s'. f x s = Ok s') \<Longrightarrow> \<exists>s'. fold_out f xs s = Ok s'"
proof (induction xs arbitrary: s)
  case (Cons x xs)
  obtain s1 where "f x s = Ok s1" using Cons.prems [of x s] by auto
  moreover obtain s2 where "fold_out f xs s1 = Ok s2" using Cons.IH [of s1] Cons.prems by auto
  ultimately show ?case by simp
qed simp

lemma relax_Ok:
  assumes "typed_row eg f row"
  shows "\<exists>y. relax_hyperedge cm eg f ts row x = Ok y"
proof -
  obtain r where "compute_cost_hyperedge cm eg (ex_costs (fst x)) row f = Ok r"
    using hyperedge_Ok assms by (fastforce simp: typed_row_def)
  then show ?thesis using assms
    by (cases x; cases r) (auto simp: relax_hyperedge_def typed_row_def nth_opt_def)
qed

lemma pass_Ok:
  assumes "typed_egraph eg" "\<forall>h \<in> set funcs. eg_get eg h \<noteq> None"
  shows "\<exists>y. bf_pass cm eg funcs st = Ok y"
  unfolding bf_pass_def
proof (rule fold_out_total)
  fix h x
  assume "h \<in> set funcs"
  with assms obtain f ts where f: "eg_get eg h = Some f" "extraction_output_sort eg f = Ok ts"
    "\<forall>row \<in> set (xf_rows f). typed_row eg f row" by (force simp: typed_egraph_def)
  have "\<exists>y. fold_out (relax_hyperedge cm eg f ts) (xf_rows f) x = Ok y"
    by (rule fold_out_total) (use f(3) relax_Ok in blast)
  with f show "\<exists>y. relax_func cm eg h x = Ok y" by (simp add: relax_func_def)
qed

lemma bf_loop_Ok:
  assumes t: "typed_egraph eg" "\<forall>h \<in> set funcs. eg_get eg h \<noteq> None"
  shows "\<exists>st :: 'c::{linorder, finite} ext_state. bf_loop cm eg funcs = Some (Ok (st, True))"
proof -
  obtain r :: "(string, 'c ext_state \<times> bool) outcome" where r: "bf_loop cm eg funcs = Some r" using bf_loop_ends by blast
  have "\<exists>y. r = Ok y"
  proof (rule while_option_rule [where P = "\<lambda>r. \<exists>y. r = Ok y", OF _ r [unfolded bf_loop_def]])
    fix r :: "(string, 'c ext_state \<times> bool) outcome"
    assume "\<exists>y. r = Ok y"
    then obtain st b where "r = Ok (st, b)" by (metis surj_pair)
    with pass_Ok [OF t, of cm st] show "\<exists>y. bind_o r (\<lambda>(st, _). bf_pass cm eg funcs st) = Ok y" by simp
  qed blast
  with while_option_stop [OF r [unfolded bf_loop_def]] r show ?thesis by auto
qed

end
