(* ===== verification/Extract_Ranks.thy ===== *)
theory Extract_Ranks
  imports Extract_Termination
begin

text \<open>
  Why following parent edges ends: under a strict cost model, as long as a cost is below
  the saturation value, the row that justifies it has children of strictly smaller rank.
  The invariant \<open>edge_inv\<close> of Bellman-Ford says so for every state of the loop.
\<close>

section \<open>The e-class ids a value refers to\<close>

function eq_leaves :: "arcsort \<Rightarrow> xval \<Rightarrow> (string \<times> xval) list" where
  "eq_leaves s v =
     (if is_container_sort s
      then (case inner_values s v of Ok xs \<Rightarrow> concat (map (\<lambda>(s', v'). eq_leaves s' v') xs) | _ \<Rightarrow> [])
      else if is_eq_sort s then [(as_name s, v)] else [])"
  by pat_completeness auto
termination
  by (relation "measure (\<lambda>(s, v). size v)") (auto dest: inner_values_size)

declare eq_leaves.simps [simp del]

definition leaves_of :: "(arcsort \<times> xval) list \<Rightarrow> (string \<times> xval) set" where
  "leaves_of xs = (\<Union>(s, v) \<in> set xs. set (eq_leaves s v))"

lemma eq_leaves_container:
  "is_container_sort s \<Longrightarrow> inner_values s v = Ok xs \<Longrightarrow> set (eq_leaves s v) = leaves_of xs"
  by (subst eq_leaves.simps) (auto simp: leaves_of_def)

lemma eq_leaves_eq: "is_eq_sort s \<Longrightarrow> set (eq_leaves s v) = {(as_name s, v)}"
  by (subst eq_leaves.simps) (cases s; simp)

lemma eq_leaves_base: "\<not> is_container_sort s \<Longrightarrow> \<not> is_eq_sort s \<Longrightarrow> eq_leaves s v = []"
  by (subst eq_leaves.simps) simp

lemma leaves_of_simps [simp]:
  "leaves_of [] = {}" "leaves_of ((s, v) # xs) = set (eq_leaves s v) \<union> leaves_of xs"
  by (auto simp: leaves_of_def)

lemma leaves_of_mem: "(s, v) \<in> set xs \<Longrightarrow> set (eq_leaves s v) \<subseteq> leaves_of xs"
  by (auto simp: leaves_of_def)

section \<open>Strict cost models\<close>

text \<open>\<open>top\<close> is the value at which costs saturate.\<close>

locale strict_cost = monotone_cost +
  fixes top_cost :: "'a::linorder"
  assumes top_max: "c \<le> top_cost"
    and fold_ge: "c \<in> set cs \<Longrightarrow> c \<le> cm_fold cm h cs x"
    and container_ge: "c \<in> set cs \<Longrightarrow> c \<le> cm_container cm s v cs"
    and fold_strict: "list_all2 (\<le>) cs ds \<Longrightarrow> cm_fold cm h cs x = cm_fold cm h ds x
      \<Longrightarrow> cm_fold cm h ds x \<noteq> top_cost \<Longrightarrow> cs = ds"
    and container_strict: "list_all2 (\<le>) cs ds \<Longrightarrow> cm_container cm s v cs = cm_container cm s v ds
      \<Longrightarrow> cm_container cm s v ds \<noteq> top_cost \<Longrightarrow> cs = ds"
begin

lemma below_top: "c \<le> d \<Longrightarrow> d \<noteq> top_cost \<Longrightarrow> c \<noteq> top_cost"
  using top_max [of d] by auto

text \<open>A cost is defined only with those of all leaves, and is not below any of them.\<close>

lemma collect_leaves:
  assumes "\<And>s v c. (s, v) \<in> set xs \<Longrightarrow> f (s, v) = Ok (Some c) \<Longrightarrow> k \<in> set (eq_leaves s v)
      \<Longrightarrow> \<exists>ck. costs k = Some ck \<and> ck \<le> c"
    and "collect_some f xs = Ok (Some cs)" "k \<in> leaves_of xs"
  shows "\<exists>ck c. costs k = Some ck \<and> ck \<le> c \<and> c \<in> set cs"
  using assms
proof (induction xs arbitrary: cs)
  case (Cons x xs)
  obtain s v where x: "x = (s, v)" by force
  with Cons.prems(2) obtain c cs' where c: "f (s, v) = Ok (Some c)" "collect_some f xs = Ok (Some cs')" "cs = c # cs'"
    by (auto simp: bind_o_eq_Ok split: option.splits)
  show ?case
  proof (cases "k \<in> set (eq_leaves s v)")
    case True
    with Cons.prems(1) [of s v c] x c show ?thesis by auto
  next
    case False
    with Cons.IH [OF _ c(2)] Cons.prems(1,3) x c(3) show ?thesis by fastforce
  qed
qed simp

lemma node_leaves:
  "compute_cost_node cm costs s v = Ok (Some c) \<Longrightarrow> k \<in> set (eq_leaves s v) \<Longrightarrow> \<exists>ck. costs k = Some ck \<and> ck \<le> c"
proof (induction v arbitrary: s c rule: measure_induct_rule [of size])
  case (less v)
  show ?case
  proof (cases "is_container_sort s")
    case True
    with less.prems(1) obtain xs cs where xs: "inner_values s v = Ok xs"
      and cs: "collect_some (\<lambda>(s', v'). compute_cost_node cm costs s' v') xs = Ok (Some cs)" "c = cm_container cm s v cs"
      by (subst (asm) compute_cost_node.simps) (auto simp: bind_o_eq_Ok)
    have "\<exists>ck c. costs k = Some ck \<and> ck \<le> c \<and> c \<in> set cs"
    proof (rule collect_leaves [OF _ cs(1)])
      show "k \<in> leaves_of xs" using less.prems(2) eq_leaves_container [OF True xs] by simp
      fix s' v' c'
      assume "(s', v') \<in> set xs" "(case (s', v') of (s', v') \<Rightarrow> compute_cost_node cm costs s' v') = Ok (Some c')"
        "k \<in> set (eq_leaves s' v')"
      with less.IH [OF inner_values_size [OF xs]] show "\<exists>ck. costs k = Some ck \<and> ck \<le> c'" by simp
    qed
    with container_ge cs(2) order_trans show ?thesis by blast
  next
    case False
    with less.prems show ?thesis
      by (cases "is_eq_sort s") (auto simp: cost_node_eq eq_leaves_eq eq_leaves_base)
  qed
qed

lemma hyperedge_leaves:
  assumes "compute_cost_hyperedge cm eg costs row f = Ok (Some c)" "k \<in> leaves_of (children eg f (row_vals row))"
  shows "\<exists>ck. costs k = Some ck \<and> ck \<le> c"
proof -
  obtain cs where cs: "collect_some (\<lambda>(s, v). compute_cost_node cm costs s v) (children eg f (row_vals row)) = Ok (Some cs)"
    and c: "c = cm_fold cm (extraction_term_name f) cs (cm_enode cm eg f row)"
    using assms(1) by (auto simp: compute_cost_hyperedge_def bind_o_eq_Ok)
  have "\<exists>ck c. costs k = Some ck \<and> ck \<le> c \<and> c \<in> set cs"
    by (rule collect_leaves [OF _ cs assms(2)]) (use node_leaves in auto)
  with fold_ge c order_trans show ?thesis by blast
qed

text \<open>Lower costs of the leaves give a lower cost, and the same one only if nothing changed.\<close>

definition lower :: "'a node_map \<Rightarrow> 'a node_map \<Rightarrow> (string \<times> xval) set \<Rightarrow> bool" where
  "lower new old K \<longleftrightarrow> (\<forall>k \<in> K. \<exists>c d. new k = Some c \<and> old k = Some d \<and> c \<le> d)"

lemma collect_lower:
  assumes "\<And>s v c. (s, v) \<in> set xs \<Longrightarrow> f (s, v) = Ok (Some c)
      \<Longrightarrow> \<exists>c'. g (s, v) = Ok (Some c') \<and> c' \<le> c \<and> (c' = c \<longrightarrow> c \<noteq> top_cost \<longrightarrow> (\<forall>k \<in> set (eq_leaves s v). Q k))"
    and "collect_some f xs = Ok (Some cs)"
  shows "\<exists>cs'. collect_some g xs = Ok (Some cs') \<and> list_all2 (\<le>) cs' cs
    \<and> (cs' = cs \<longrightarrow> top_cost \<notin> set cs \<longrightarrow> (\<forall>k \<in> leaves_of xs. Q k))"
  using assms
proof (induction xs arbitrary: cs)
  case (Cons x xs)
  obtain s v where x: "x = (s, v)" by force
  with Cons.prems(2) obtain c cs1 where c: "f (s, v) = Ok (Some c)" "collect_some f xs = Ok (Some cs1)" "cs = c # cs1"
    by (auto simp: bind_o_eq_Ok split: option.splits)
  from Cons.prems(1) [of s v c] x c(1) obtain c' where
    1: "g (s, v) = Ok (Some c')" "c' \<le> c" "c' = c \<longrightarrow> c \<noteq> top_cost \<longrightarrow> (\<forall>k \<in> set (eq_leaves s v). Q k)"
    by auto
  from Cons.IH [OF _ c(2)] Cons.prems(1) obtain cs' where
    2: "collect_some g xs = Ok (Some cs')" "list_all2 (\<le>) cs' cs1"
      "cs' = cs1 \<longrightarrow> top_cost \<notin> set cs1 \<longrightarrow> (\<forall>k \<in> leaves_of xs. Q k)"
    by (metis list.set_intros(2))
  show ?case using 1 2 x c(3) by auto
qed simp

lemma node_lower:
  "compute_cost_node cm old s v = Ok (Some c) \<Longrightarrow> lower new old (set (eq_leaves s v))
    \<Longrightarrow> \<exists>c'. compute_cost_node cm new s v = Ok (Some c') \<and> c' \<le> c
      \<and> (c' = c \<longrightarrow> c \<noteq> top_cost \<longrightarrow> (\<forall>k \<in> set (eq_leaves s v). new k = old k))"
proof (induction v arbitrary: s c rule: measure_induct_rule [of size])
  case (less v)
  show ?case
  proof (cases "is_container_sort s")
    case True
    with less.prems(1) obtain xs cs where xs: "inner_values s v = Ok xs"
      and cs: "collect_some (\<lambda>(s', v'). compute_cost_node cm old s' v') xs = Ok (Some cs)" "c = cm_container cm s v cs"
      by (subst (asm) compute_cost_node.simps) (auto simp: bind_o_eq_Ok)
    have "\<exists>cs'. collect_some (\<lambda>(s', v'). compute_cost_node cm new s' v') xs = Ok (Some cs') \<and> list_all2 (\<le>) cs' cs
        \<and> (cs' = cs \<longrightarrow> top_cost \<notin> set cs \<longrightarrow> (\<forall>k \<in> leaves_of xs. new k = old k))"
    proof (rule collect_lower [OF _ cs(1)])
      fix s' v' c
      assume x: "(s', v') \<in> set xs" and c: "(case (s', v') of (s', v') \<Rightarrow> compute_cost_node cm old s' v') = Ok (Some c)"
      have "lower new old (set (eq_leaves s' v'))"
        using less.prems(2) leaves_of_mem [OF x] eq_leaves_container [OF True xs] by (auto simp: lower_def)
      with less.IH [OF inner_values_size [OF xs x]] c show "\<exists>c'. (case (s', v') of (s', v') \<Rightarrow> compute_cost_node cm new s' v') = Ok (Some c')
          \<and> c' \<le> c \<and> (c' = c \<longrightarrow> c \<noteq> top_cost \<longrightarrow> (\<forall>k \<in> set (eq_leaves s' v'). new k = old k))" by simp
    qed
    then obtain cs' where cs': "collect_some (\<lambda>(s', v'). compute_cost_node cm new s' v') xs = Ok (Some cs')"
      "list_all2 (\<le>) cs' cs" "cs' = cs \<longrightarrow> top_cost \<notin> set cs \<longrightarrow> (\<forall>k \<in> leaves_of xs. new k = old k)" by blast
    have "top_cost \<notin> set cs" if "c \<noteq> top_cost"
      using that container_ge [of top_cost cs s v] below_top cs(2) by blast
    with cs' True xs cs(2) container_mono [OF cs'(2)] container_strict [OF cs'(2)] show ?thesis
      by (auto simp: cost_node_container eq_leaves_container)
  next
    case False
    with less.prems show ?thesis
      by (cases "is_eq_sort s") (auto simp: cost_node_eq cost_node_base eq_leaves_eq eq_leaves_base lower_def)
  qed
qed

lemma hyperedge_lower:
  assumes "compute_cost_hyperedge cm eg old row f = Ok (Some c)"
    and "lower new old (leaves_of (children eg f (row_vals row)))"
  shows "\<exists>c'. compute_cost_hyperedge cm eg new row f = Ok (Some c') \<and> c' \<le> c
    \<and> (c' = c \<longrightarrow> c \<noteq> top_cost \<longrightarrow> (\<forall>k \<in> leaves_of (children eg f (row_vals row)). new k = old k))"
proof -
  let ?xs = "children eg f (row_vals row)" and ?x = "cm_enode cm eg f row"
  obtain cs where cs: "collect_some (\<lambda>(s, v). compute_cost_node cm old s v) ?xs = Ok (Some cs)"
    and c: "c = cm_fold cm (extraction_term_name f) cs ?x"
    using assms(1) by (auto simp: compute_cost_hyperedge_def bind_o_eq_Ok)
  have "\<exists>cs'. collect_some (\<lambda>(s, v). compute_cost_node cm new s v) ?xs = Ok (Some cs') \<and> list_all2 (\<le>) cs' cs
      \<and> (cs' = cs \<longrightarrow> top_cost \<notin> set cs \<longrightarrow> (\<forall>k \<in> leaves_of ?xs. new k = old k))"
  proof (rule collect_lower [OF _ cs])
    fix s v c
    assume x: "(s, v) \<in> set ?xs" and c: "(case (s, v) of (s, v) \<Rightarrow> compute_cost_node cm old s v) = Ok (Some c)"
    have "lower new old (set (eq_leaves s v))"
      using assms(2) leaves_of_mem [OF x] by (auto simp: lower_def)
    with node_lower [of old s v c new] c show "\<exists>c'. (case (s, v) of (s, v) \<Rightarrow> compute_cost_node cm new s v) = Ok (Some c')
        \<and> c' \<le> c \<and> (c' = c \<longrightarrow> c \<noteq> top_cost \<longrightarrow> (\<forall>k \<in> set (eq_leaves s v). new k = old k))" by simp
  qed
  then obtain cs' where cs': "collect_some (\<lambda>(s, v). compute_cost_node cm new s v) ?xs = Ok (Some cs')"
    "list_all2 (\<le>) cs' cs" "cs' = cs \<longrightarrow> top_cost \<notin> set cs \<longrightarrow> (\<forall>k \<in> leaves_of ?xs. new k = old k)" by blast
  have "top_cost \<notin> set cs" if "c \<noteq> top_cost"
    using that fold_ge [of top_cost cs] below_top c by blast
  with cs' c fold_mono [OF cs'(2)] fold_strict [OF cs'(2)] show ?thesis
    by (auto simp: compute_cost_hyperedge_def)
qed

section \<open>The invariant of the ranks\<close>

definition justified :: "xegraph \<Rightarrow> string set \<Rightarrow> 'a ext_state \<Rightarrow> string \<times> xval \<Rightarrow> 'a \<Rightarrow> nat \<Rightarrow> bool" where
  "justified eg F st k c r \<longleftrightarrow> (\<exists>h f row c'. usable_row eg F h f row k
     \<and> compute_cost_hyperedge cm eg (ex_costs st) row f = Ok (Some c') \<and> c' \<le> c
     \<and> (c' = c \<longrightarrow> (\<forall>j \<in> leaves_of (children eg f (row_vals row)). \<exists>i. ex_rnk st j = Some i \<and> i < r)))"

definition edge_inv :: "xegraph \<Rightarrow> string set \<Rightarrow> 'a ext_state \<Rightarrow> bool" where
  "edge_inv eg F st \<longleftrightarrow> (\<forall>k c. ex_costs st k = Some c
     \<longrightarrow> (\<exists>r. ex_rnk st k = Some r \<and> 0 < r \<and> r \<le> ex_cnt st \<and> (c \<noteq> top_cost \<longrightarrow> justified eg F st k c r)))"

lemma justified_new:
  assumes inv: "edge_inv eg F st" and i: "improving cm eg F st k c"
  shows "justified eg F (record_cost k c st) k c (Suc (ex_cnt st))"
proof -
  obtain h f row where row: "usable_row eg F h f row k"
    and c: "compute_cost_hyperedge cm eg (ex_costs st) row f = Ok (Some c)" and im: "improves c (ex_costs st k)"
    using i by (auto simp: improving_def)
  let ?L = "leaves_of (children eg f (row_vals row))" and ?new = "ex_costs (record_cost k c st)"
  have k: "k \<notin> ?L"
  proof
    assume "k \<in> ?L"
    from hyperedge_leaves [OF c this] im show False by (auto simp: improves_def)
  qed
  have leaf: "\<exists>cj. ex_costs st j = Some cj \<and> cj \<le> c" if "j \<in> ?L" for j using hyperedge_leaves [OF c that] .
  have same: "?new j = ex_costs st j" if "j \<in> ?L" for j using k that by (cases "j = k") auto
  have "lower ?new (ex_costs st) ?L" "lower (ex_costs st) ?new ?L"
    using leaf by (auto simp: lower_def same simp del: record_cost_sel split: prod.splits) blast+
  from hyperedge_lower [OF c this(1)] obtain c1
    where c1: "compute_cost_hyperedge cm eg ?new row f = Ok (Some c1)" "c1 \<le> c" by blast
  from hyperedge_lower [OF c1(1) \<open>lower (ex_costs st) ?new ?L\<close>] obtain c2
    where c2: "compute_cost_hyperedge cm eg (ex_costs st) row f = Ok (Some c2)" "c2 \<le> c1" by blast
  have "c1 = c" using c c1(2) c2 by simp
  with c1 have c1: "compute_cost_hyperedge cm eg ?new row f = Ok (Some c)" by simp
  have "\<exists>i. ex_rnk (record_cost k c st) j = Some i \<and> i < Suc (ex_cnt st)" if "j \<in> ?L" for j
  proof -
    from leaf [OF that] obtain cj where "ex_costs st j = Some cj" by blast
    with inv obtain i where "ex_rnk st j = Some i" "i \<le> ex_cnt st" unfolding edge_inv_def by blast
    moreover have "j \<noteq> k" using k that by blast
    ultimately show ?thesis by simp
  qed
  with row c1 show ?thesis unfolding justified_def by blast
qed

lemma justified_old:
  assumes i: "improving cm eg F st k0 c0" and j: "justified eg F st k c r" and k: "k \<noteq> k0" "c \<noteq> top_cost"
  shows "justified eg F (record_cost k0 c0 st) k c r"
proof -
  obtain h f row c1 where row: "usable_row eg F h f row k"
    and c1: "compute_cost_hyperedge cm eg (ex_costs st) row f = Ok (Some c1)" "c1 \<le> c"
    and ranks: "c1 = c \<longrightarrow> (\<forall>j \<in> leaves_of (children eg f (row_vals row)). \<exists>i. ex_rnk st j = Some i \<and> i < r)"
    using j by (auto simp: justified_def)
  let ?L = "leaves_of (children eg f (row_vals row))" and ?new = "ex_costs (record_cost k0 c0 st)"
  have im: "improves c0 (ex_costs st k0)" using i by (auto simp: improving_def)
  have leaf: "\<exists>cj. ex_costs st j = Some cj" if "j \<in> ?L" for j using hyperedge_leaves [OF c1(1) that] by blast
  have "lower ?new (ex_costs st) ?L"
    unfolding lower_def
  proof
    fix j assume "j \<in> ?L"
    with leaf obtain cj where "ex_costs st j = Some cj" by blast
    with im show "\<exists>c d. ?new j = Some c \<and> ex_costs st j = Some d \<and> c \<le> d" by (auto simp: improves_def)
  qed
  from hyperedge_lower [OF c1(1) this] obtain c2 where
    c2: "compute_cost_hyperedge cm eg ?new row f = Ok (Some c2)" "c2 \<le> c1"
      "c2 = c1 \<longrightarrow> c1 \<noteq> top_cost \<longrightarrow> (\<forall>j \<in> ?L. ?new j = ex_costs st j)" by blast
  have "\<forall>j \<in> ?L. \<exists>i. ex_rnk (record_cost k0 c0 st) j = Some i \<and> i < r" if "c2 = c"
  proof -
    have eq: "c1 = c" "c2 = c1" using that c1(2) c2(2) by auto
    with c2(3) k(2) have "\<forall>j \<in> ?L. ?new j = ex_costs st j" by simp
    moreover have "?new k0 \<noteq> ex_costs st k0" using im by (auto simp: improves_def split: option.splits)
    ultimately have "k0 \<notin> ?L" by blast
    with ranks eq(1) show ?thesis by auto
  qed
  moreover have "c2 \<le> c" using c1(2) c2(2) by (rule order_trans [rotated])
  ultimately show ?thesis using row c2(1) unfolding justified_def by blast
qed

lemma edge_inv_closed: "closed_under_updates cm eg F (edge_inv eg F)"
  unfolding closed_under_updates_def
proof (intro allI impI)
  fix st k0 c0
  assume inv: "edge_inv eg F st" and i: "improving cm eg F st k0 c0"
  show "edge_inv eg F (record_cost k0 c0 st)"
    unfolding edge_inv_def
  proof (intro allI impI)
    fix k c
    assume c: "ex_costs (record_cost k0 c0 st) k = Some c"
    show "\<exists>r. ex_rnk (record_cost k0 c0 st) k = Some r \<and> 0 < r \<and> r \<le> ex_cnt (record_cost k0 c0 st)
        \<and> (c \<noteq> top_cost \<longrightarrow> justified eg F (record_cost k0 c0 st) k c r)"
    proof (cases "k = k0")
      case True
      with c justified_new [OF inv i] show ?thesis by simp
    next
      case False
      with c have "ex_costs st k = Some c" by simp
      with inv obtain r where "ex_rnk st k = Some r" "0 < r" "r \<le> ex_cnt st"
        "c \<noteq> top_cost \<longrightarrow> justified eg F st k c r" unfolding edge_inv_def by blast
      with False justified_old [OF i _ False] show ?thesis by auto
    qed
  qed
qed

lemma bf_loop_edge_inv: "bf_loop cm eg funcs = Some (Ok (st, b)) \<Longrightarrow> edge_inv eg (set funcs) st"
  using bf_loop_invariant [OF _ edge_inv_closed] by (auto simp: edge_inv_def ext_init_def)

end

end
