(* ===== verification/Extract_Edges.thy ===== *)
theory Extract_Edges
  imports Extract_Ranks Sort_Terms
begin

text \<open>
  The second pass of Bellman-Ford saves for each e-class a row of least cost whose children
  have smaller ranks; below the saturation value every class with a cost has one.
\<close>

section \<open>Ranks of values and rows\<close>

definition rank_fold :: "nat node_map \<Rightarrow> (arcsort \<times> xval) list \<Rightarrow> nat \<Rightarrow> (string, nat) outcome" where
  "rank_fold rnk xs m = fold_out (\<lambda>(s, v) m. bind_o (compute_topo_rnk_node rnk s v) (\<lambda>r. Ok (max m r))) xs m"

lemma rank_fold_simps [simp]:
  "rank_fold rnk [] m = Ok m"
  "rank_fold rnk ((s, v) # xs) m = bind_o (compute_topo_rnk_node rnk s v) (\<lambda>r. rank_fold rnk xs (max m r))"
proof -
  show "rank_fold rnk ((s, v) # xs) m = bind_o (compute_topo_rnk_node rnk s v) (\<lambda>r. rank_fold rnk xs (max m r))"
    by (rule outcome.exhaust [of "compute_topo_rnk_node rnk s v"]) (simp_all add: rank_fold_def)
qed (simp add: rank_fold_def)

lemma topo_container:
  "is_container_sort s \<Longrightarrow> inner_values s v = Ok xs \<Longrightarrow> compute_topo_rnk_node rnk s v = rank_fold rnk xs 0"
  by (subst compute_topo_rnk_node.simps) (simp add: rank_fold_def)

lemma topo_eq: "is_eq_sort s \<Longrightarrow>
    compute_topo_rnk_node rnk s v = Ok (case rnk (as_name s, v) of None \<Rightarrow> usize_max | Some t \<Rightarrow> t)"
  by (cases s) (simp_all add: compute_topo_rnk_node.simps)

lemma topo_base: "\<not> is_container_sort s \<Longrightarrow> \<not> is_eq_sort s \<Longrightarrow> compute_topo_rnk_node rnk s v = Ok 0"
  by (simp add: compute_topo_rnk_node.simps)

lemma rank_fold_below:
  assumes "\<And>s v. (s, v) \<in> set xs \<Longrightarrow> \<exists>i. compute_topo_rnk_node rnk s v = Ok i \<and> i < r" "m < r"
  shows "\<exists>i. rank_fold rnk xs m = Ok i \<and> i < r"
  using assms
proof (induction xs arbitrary: m)
  case (Cons x xs)
  obtain s v where x: "x = (s, v)" by force
  with Cons.prems(1) [of s v] obtain i where i: "compute_topo_rnk_node rnk s v = Ok i" "i < r" by auto
  then have "max m i < r" using Cons.prems(2) by simp
  from Cons.IH [OF _ this] Cons.prems(1) i x show ?case by auto
qed simp

lemma node_rank_below:
  "has_sort s v \<Longrightarrow> \<forall>j \<in> set (eq_leaves s v). \<exists>i. rnk j = Some i \<and> i < r \<Longrightarrow> 0 < r
    \<Longrightarrow> \<exists>i. compute_topo_rnk_node rnk s v = Ok i \<and> i < r"
proof (induction v arbitrary: s rule: measure_induct_rule [of size])
  case (less v)
  show ?case
  proof (cases "is_container_sort s")
    case True
    with has_sort_inner less.prems(1) obtain xs where xs: "inner_values s v = Ok xs" "\<forall>(s', v') \<in> set xs. has_sort s' v'"
      by fastforce
    have "\<exists>i. rank_fold rnk xs 0 = Ok i \<and> i < r"
    proof (rule rank_fold_below [OF _ less.prems(3)])
      fix s' v' assume x: "(s', v') \<in> set xs"
      have "\<forall>j \<in> set (eq_leaves s' v'). \<exists>i. rnk j = Some i \<and> i < r"
        using less.prems(2) leaves_of_mem [OF x] eq_leaves_container [OF True xs(1)] by auto
      with less.IH [OF inner_values_size [OF xs(1) x] _ _ less.prems(3)] xs(2) x
      show "\<exists>i. compute_topo_rnk_node rnk s' v' = Ok i \<and> i < r" by auto
    qed
    with topo_container [OF True xs(1)] show ?thesis by simp
  next
    case False
    with less.prems(2,3) show ?thesis by (cases "is_eq_sort s") (auto simp: topo_eq topo_base eq_leaves_eq)
  qed
qed

lemma rank_fold_ge: "rank_fold rnk xs m = Ok r \<Longrightarrow> m \<le> r"
proof (induction xs arbitrary: m)
  case (Cons x xs)
  then show ?case by (cases x) (fastforce simp: bind_o_eq_Ok)
qed simp

lemma rank_fold_leaves:
  assumes "\<And>s v i. (s, v) \<in> set xs \<Longrightarrow> compute_topo_rnk_node rnk s v = Ok i \<Longrightarrow> j \<in> set (eq_leaves s v)
      \<Longrightarrow> n \<le> i"
    and "rank_fold rnk xs m = Ok r" "j \<in> leaves_of xs" "rnk j = Some n"
  shows "n \<le> r"
  using assms
proof (induction xs arbitrary: m)
  case (Cons x xs)
  obtain s v where x: "x = (s, v)" by force
  with Cons.prems(2) obtain i where i: "compute_topo_rnk_node rnk s v = Ok i" "rank_fold rnk xs (max m i) = Ok r"
    by (auto simp: bind_o_eq_Ok)
  show ?case
  proof (cases "j \<in> set (eq_leaves s v)")
    case True
    with Cons.prems(1) [of s v i] x i(1) have "n \<le> i" by simp
    with rank_fold_ge [OF i(2)] show ?thesis by simp
  next
    case False
    then have "j \<in> leaves_of xs" using Cons.prems(3) x by simp
    show ?thesis
      by (rule Cons.IH [OF _ i(2) \<open>j \<in> leaves_of xs\<close> Cons.prems(4)]) (use Cons.prems(1) in \<open>auto intro: list.set_intros(2)\<close>)
  qed
qed simp

lemma node_rank_leaves:
  "compute_topo_rnk_node rnk s v = Ok i \<Longrightarrow> j \<in> set (eq_leaves s v) \<Longrightarrow> rnk j = Some n \<Longrightarrow> n \<le> i"
proof (induction v arbitrary: s i rule: measure_induct_rule [of size])
  case (less v)
  show ?case
  proof (cases "is_container_sort s")
    case True
    with less.prems(1) obtain xs where xs: "inner_values s v = Ok xs"
      by (subst (asm) compute_topo_rnk_node.simps) (auto simp: bind_o_eq_Ok)
    show ?thesis
    proof (rule rank_fold_leaves [where xs = xs and m = 0])
      show "rank_fold rnk xs 0 = Ok i" using less.prems(1) topo_container [OF True xs] by simp
      show "j \<in> leaves_of xs" using less.prems(2) eq_leaves_container [OF True xs] by simp
      show "rnk j = Some n" by (fact less.prems(3))
    next
      fix s' v' i'
      assume x: "(s', v') \<in> set xs"
      assume "compute_topo_rnk_node rnk s' v' = Ok i'" "j \<in> set (eq_leaves s' v')"
      from less.IH [OF inner_values_size [OF xs x] this less.prems(3)] show "n \<le> i'" .
    qed
  next
    case False
    with less.prems show ?thesis
      by (cases "is_eq_sort s") (auto simp: topo_eq eq_leaves_eq eq_leaves_base)
  qed
qed

lemma hyperedge_rank:
  "compute_topo_rnk_hyperedge eg rnk row f = rank_fold rnk (children eg f (row_vals row)) 0"
  by (simp add: compute_topo_rnk_hyperedge_def rank_fold_def)

section \<open>Saved edges\<close>

definition good_edge :: "'c cost_model \<Rightarrow> xegraph \<Rightarrow> string set \<Rightarrow> 'c ext_state \<Rightarrow> string \<times> xval \<Rightarrow> string \<Rightarrow> xfunc \<Rightarrow> xrow \<Rightarrow> bool"
where
  "good_edge cm eg F st k h f row \<longleftrightarrow> usable_row eg F h f row k
     \<and> (\<exists>c r r'. ex_costs st k = Some c \<and> compute_cost_hyperedge cm eg (ex_costs st) row f = Ok (Some c)
          \<and> ex_rnk st k = Some r \<and> compute_topo_rnk_hyperedge eg (ex_rnk st) row f = Ok r' \<and> r' < r)"

definition edges_good :: "'c cost_model \<Rightarrow> xegraph \<Rightarrow> string set \<Rightarrow> 'c ext_state \<Rightarrow> bool" where
  "edges_good cm eg F st \<longleftrightarrow> (\<forall>k h vals. ex_edge st k = Some (h, vals)
     \<longrightarrow> (\<exists>f row. good_edge cm eg F st k h f row \<and> row_vals row = vals))"

definition same_tables :: "'c ext_state \<Rightarrow> 'c ext_state \<Rightarrow> bool" where
  "same_tables st st' \<longleftrightarrow> ex_costs st' = ex_costs st \<and> ex_rnk st' = ex_rnk st
     \<and> (\<forall>k. ex_edge st k \<noteq> None \<longrightarrow> ex_edge st' k \<noteq> None)"

lemma same_tables_refl [simp]: "same_tables st st"
  by (simp add: same_tables_def)

lemma same_tables_trans: "same_tables a b \<Longrightarrow> same_tables b c \<Longrightarrow> same_tables a c"
  by (simp add: same_tables_def)

lemma good_edge_same: "same_tables st st' \<Longrightarrow> good_edge cm eg F st' k h f row = good_edge cm eg F st k h f row"
  by (simp add: good_edge_def same_tables_def)

definition ranked :: "'c ext_state \<Rightarrow> bool" where
  "ranked st \<longleftrightarrow> (\<forall>k c. ex_costs st k = Some c \<longrightarrow> ex_rnk st k \<noteq> None)"

lemma save_edge_Ok:
  fixes cm :: "'c::linorder cost_model"
  assumes t: "typed_row eg f row" and r: "ranked st"
  shows "\<exists>st'. save_edge cm eg f ts row st = Ok st'"
proof (cases "row_subsumed row")
  case False
  obtain v where v: "nth_opt (row_vals row) (extraction_output_index eg f) = Some v"
    using t by (auto simp: typed_row_def nth_opt_def)
  obtain c where c: "compute_cost_hyperedge cm eg (ex_costs st) row f = Ok c"
    using hyperedge_Ok t by (fastforce simp: typed_row_def)
  have "\<exists>i. rank_fold (ex_rnk st) (children eg f (row_vals row)) m = Ok i" for m
  proof -
    have node: "\<exists>i. compute_topo_rnk_node (ex_rnk st) s v = Ok i" if "has_sort s v" for s v
      using that
    proof (induction v arbitrary: s rule: measure_induct_rule [of size])
      case (less v)
      show ?case
      proof (cases "is_container_sort s")
        case True
        with has_sort_inner less.prems obtain xs where xs: "inner_values s v = Ok xs" "\<forall>(s', v') \<in> set xs. has_sort s' v'"
          by fastforce
        have "\<exists>i. rank_fold (ex_rnk st) xs 0 = Ok i"
          unfolding rank_fold_def
        proof (rule fold_out_total)
          fix x and m :: nat assume x: "x \<in> set xs"
          obtain s' v' where "x = (s', v')" by force
          with x xs have "has_sort s' v'" by auto
          with \<open>x = (s', v')\<close> x less.IH [OF inner_values_size [OF xs(1)], of s' v' s'] obtain i
            where "compute_topo_rnk_node (ex_rnk st) s' v' = Ok i" by blast
          with \<open>x = (s', v')\<close>
          show "\<exists>i. (case x of (s, v) \<Rightarrow> \<lambda>m. bind_o (compute_topo_rnk_node (ex_rnk st) s v) (\<lambda>r. Ok (max m r))) m = Ok i"
            by simp
        qed
        with topo_container [OF True xs(1)] show ?thesis by simp
      qed (auto simp: compute_topo_rnk_node.simps)
    qed
    show ?thesis
      unfolding rank_fold_def
    proof (rule fold_out_total)
      fix x and m :: nat assume x: "x \<in> set (children eg f (row_vals row))"
      obtain s' v' where sv: "x = (s', v')" by force
      with x t have "has_sort s' v'" by (auto simp: typed_row_def)
      with node sv show "\<exists>i. (case x of (s, v) \<Rightarrow> \<lambda>m. bind_o (compute_topo_rnk_node (ex_rnk st) s v) (\<lambda>r. Ok (max m r))) m = Ok i"
        by fastforce
    qed
  qed
  then obtain i where "compute_topo_rnk_hyperedge eg (ex_rnk st) row f = Ok i" by (auto simp: hyperedge_rank)
  moreover have "ex_costs st (as_name ts, v) \<noteq> None \<Longrightarrow> ex_rnk st (as_name ts, v) \<noteq> None"
    using r unfolding ranked_def by blast
  ultimately show ?thesis
    using False v c
    by (cases "ex_costs st (as_name ts, v)"; cases "ex_rnk st (as_name ts, v)") (auto simp: save_edge_def)
qed (simp add: save_edge_def)

lemma save_edge_step:
  assumes s: "save_edge cm eg f ts row st = Ok st'"
    and row: "h \<in> F" "eg_get eg h = Some f" "extraction_output_sort eg f = Ok ts" "row \<in> set (xf_rows f)"
    and name: "fd_name (xf_decl f) = h" and e: "edges_good cm eg F st"
  shows "same_tables st st' \<and> edges_good cm eg F st' \<and> (\<forall>k. good_edge cm eg F st k h f row \<longrightarrow> ex_edge st' k \<noteq> None)"
proof (cases "\<exists>k. good_edge cm eg F st k h f row \<and> ex_edge st k = None")
  case True
  then obtain k where k: "good_edge cm eg F st k h f row" "ex_edge st k = None" by blast
  have fst_k: "fst k = as_name ts" using k(1) row(3) by (auto simp: good_edge_def usable_row_def)
  have st': "st' = st\<lparr>ex_edge := (ex_edge st)(k \<mapsto> (h, row_vals row))\<rparr>"
    using s k fst_k name by (cases k) (auto simp: save_edge_def good_edge_def usable_row_def)
  have same: "same_tables st st'" by (simp add: st' same_tables_def)
  have "edges_good cm eg F st'"
    using e k(1) good_edge_same [OF same] unfolding edges_good_def st' by (auto split: if_splits)
  moreover have "ex_edge st' k' \<noteq> None" if "good_edge cm eg F st k' h f row" for k'
    using that k(1) by (cases k; cases k') (auto simp: st' good_edge_def usable_row_def)
  ultimately show ?thesis using same by blast
next
  case False
  have "st' = st"
  proof (rule ccontr)
    assume "st' \<noteq> st"
    with s obtain v c r r' where "\<not> row_subsumed row" "nth_opt (row_vals row) (extraction_output_index eg f) = Some v"
      "ex_costs st (as_name ts, v) = Some c" "compute_cost_hyperedge cm eg (ex_costs st) row f = Ok (Some c)"
      "ex_rnk st (as_name ts, v) = Some r" "compute_topo_rnk_hyperedge eg (ex_rnk st) row f = Ok r'" "r' < r"
      by (auto simp: save_edge_def bind_o_eq_Ok outcome_simps split: if_splits option.splits)
    note found = this
    then have "good_edge cm eg F st (as_name ts, v) h f row"
      using row unfolding good_edge_def usable_row_def by auto
    with False have "ex_edge st (as_name ts, v) \<noteq> None" by metis
    with found s have "st' = st" by (simp add: save_edge_def)
    with \<open>st' \<noteq> st\<close> show False ..
  qed
  with e False show ?thesis by auto
qed

lemma save_rows:
  assumes row: "h \<in> F" "eg_get eg h = Some f" "extraction_output_sort eg f = Ok ts" and name: "fd_name (xf_decl f) = h"
  shows "set rows \<subseteq> set (xf_rows f) \<Longrightarrow> fold_out (save_edge cm eg f ts) rows st = Ok st' \<Longrightarrow> edges_good cm eg F st
    \<Longrightarrow> same_tables st st' \<and> edges_good cm eg F st' \<and> (\<forall>row \<in> set rows. \<forall>k. good_edge cm eg F st k h f row \<longrightarrow> ex_edge st' k \<noteq> None)"
proof (induction rows arbitrary: st)
  case (Cons row rows)
  then obtain st1 where 1: "save_edge cm eg f ts row st = Ok st1" and 2: "fold_out (save_edge cm eg f ts) rows st1 = Ok st'"
    by (auto simp: bind_o_eq_Ok)
  from save_edge_step [OF 1 row _ name Cons.prems(3)] Cons.prems(1) have
    a: "same_tables st st1" "edges_good cm eg F st1" "\<forall>k. good_edge cm eg F st k h f row \<longrightarrow> ex_edge st1 k \<noteq> None"
    by auto
  from Cons.IH [OF _ 2 a(2)] Cons.prems(1) have
    b: "same_tables st1 st'" "edges_good cm eg F st'" "\<forall>row \<in> set rows. \<forall>k. good_edge cm eg F st1 k h f row \<longrightarrow> ex_edge st' k \<noteq> None"
    by auto
  have "\<forall>k. good_edge cm eg F st k h f row \<longrightarrow> ex_edge st' k \<noteq> None"
    using a(3) b(1) unfolding same_tables_def by blast
  with a b same_tables_trans [OF a(1) b(1)] good_edge_same [OF a(1)] show ?case by simp
qed simp

lemma save_funcs:
  assumes typed: "typed_egraph eg"
  shows "set funcs \<subseteq> F \<Longrightarrow> fold_out (save_func cm eg) funcs st = Ok st' \<Longrightarrow> edges_good cm eg F st
    \<Longrightarrow> same_tables st st' \<and> edges_good cm eg F st'
      \<and> (\<forall>h \<in> set funcs. \<forall>f row k. good_edge cm eg F st k h f row \<longrightarrow> ex_edge st' k \<noteq> None)"
proof (induction funcs arbitrary: st)
  case (Cons h funcs)
  then obtain f ts st1 where f: "eg_get eg h = Some f" "extraction_output_sort eg f = Ok ts"
    and 1: "fold_out (save_edge cm eg f ts) (xf_rows f) st = Ok st1" and 2: "fold_out (save_func cm eg) funcs st1 = Ok st'"
    by (auto simp: bind_o_eq_Ok save_func_def [of cm eg h] outcome_simps)
  have name: "fd_name (xf_decl f) = h" using typed f(1) by (simp add: typed_egraph_def)
  have "h \<in> F" using Cons.prems(1) by simp
  from save_rows [OF this f name subset_refl 1 Cons.prems(3)] have
    a: "same_tables st st1" "edges_good cm eg F st1"
      "\<forall>row \<in> set (xf_rows f). \<forall>k. good_edge cm eg F st k h f row \<longrightarrow> ex_edge st1 k \<noteq> None" by auto
  from Cons.IH [OF _ 2 a(2)] Cons.prems(1) have
    b: "same_tables st1 st'" "edges_good cm eg F st'"
      "\<forall>h \<in> set funcs. \<forall>f row k. good_edge cm eg F st1 k h f row \<longrightarrow> ex_edge st' k \<noteq> None" by auto
  have "ex_edge st' k \<noteq> None" if g: "good_edge cm eg F st k h f' row" for f' row k
  proof -
    have "f' = f" "row \<in> set (xf_rows f)" using g f(1) by (auto simp: good_edge_def usable_row_def)
    with a(3) g b(1) show ?thesis unfolding same_tables_def by blast
  qed
  with b good_edge_same [OF a(1)] same_tables_trans [OF a(1) b(1)] show ?case by simp
qed simp

section \<open>The final tables\<close>

definition final_tables :: "'c::linorder cost_model \<Rightarrow> 'c \<Rightarrow> xegraph \<Rightarrow> string set \<Rightarrow> 'c ext_state \<Rightarrow> bool" where
  "final_tables cm tc eg F st \<longleftrightarrow> edges_good cm eg F st \<and> ranked st
     \<and> (\<forall>s v r. compute_cost_node cm (ex_costs st) s v = Ok r \<longrightarrow> least_cost cm eg F s v r)
     \<and> (\<forall>k c. ex_costs st k = Some c \<longrightarrow> c \<noteq> tc \<longrightarrow> ex_edge st k \<noteq> None)"

context strict_cost
begin

lemma justified_edge:
  assumes typed: "typed_egraph eg" and inv: "edge_inv eg F st" and fp: "is_fixpoint cm eg F (ex_costs st)"
    and c: "ex_costs st k = Some c" "c \<noteq> top_cost"
  shows "\<exists>h f row. h \<in> F \<and> good_edge cm eg F st k h f row"
proof -
  obtain r where r: "ex_rnk st k = Some r" "0 < r" "justified eg F st k c r"
    using inv c unfolding edge_inv_def by metis
  then obtain h f row c' where row: "usable_row eg F h f row k"
    and c': "compute_cost_hyperedge cm eg (ex_costs st) row f = Ok (Some c')" "c' \<le> c"
    and ranks: "c' = c \<longrightarrow> (\<forall>j \<in> leaves_of (children eg f (row_vals row)). \<exists>i. ex_rnk st j = Some i \<and> i < r)"
    by (auto simp: justified_def)
  have "c \<le> c'" using fp row c'(1) c(1) unfolding is_fixpoint_def by fastforce
  then have cc: "c' = c" using c'(2) by simp
  have "typed_row eg f row" using typed row by (auto simp: typed_egraph_def usable_row_def)
  have "\<exists>i. rank_fold (ex_rnk st) (children eg f (row_vals row)) 0 = Ok i \<and> i < r"
  proof (rule rank_fold_below [OF _ r(2)])
    fix s v assume x: "(s, v) \<in> set (children eg f (row_vals row))"
    have "has_sort s v" using \<open>typed_row eg f row\<close> x by (auto simp: typed_row_def)
    moreover have "\<forall>j \<in> set (eq_leaves s v). \<exists>i. ex_rnk st j = Some i \<and> i < r"
      using ranks cc leaves_of_mem [OF x] by blast
    ultimately show "\<exists>i. compute_topo_rnk_node (ex_rnk st) s v = Ok i \<and> i < r" using node_rank_below r(2) by blast
  qed
  with row c' cc c(1) r(1) show ?thesis
    by (auto simp: good_edge_def hyperedge_rank usable_row_def)
qed

lemma bellman_ford_final:
  assumes typed: "typed_egraph eg" and bf: "bellman_ford cm eg funcs = Some (Ok st)"
  shows "final_tables cm top_cost eg (set funcs) st"
proof -
  obtain st0 b where loop: "bf_loop cm eg funcs = Some (Ok (st0, b))"
    and save: "fold_out (save_func cm eg) funcs st0 = Ok st"
    using bf by (auto simp: bellman_ford_def bind_o_eq_Ok)
  have inv: "edge_inv eg (set funcs) st0" by (rule bf_loop_edge_inv [OF loop])
  have fp: "is_fixpoint cm eg (set funcs) (ex_costs st0)"
    using bf_loop_invariant [OF loop attained_closed] by (auto simp: attained_def ext_init_def)
  have edge0: "ex_edge st0 = Map.empty"
    using bf_loop_invariant [OF loop, of "\<lambda>s. ex_edge s = Map.empty"] by (auto simp: closed_under_updates_def ext_init_def)
  then have "edges_good cm eg (set funcs) st0" by (simp add: edges_good_def)
  from save_funcs [OF typed subset_refl save this] have
    s: "same_tables st0 st" "edges_good cm eg (set funcs) st"
      "\<forall>h \<in> set funcs. \<forall>f row k. good_edge cm eg (set funcs) st0 k h f row \<longrightarrow> ex_edge st k \<noteq> None" by auto
  have eq: "ex_costs st = ex_costs st0" "ex_rnk st = ex_rnk st0" using s(1) by (simp_all add: same_tables_def)
  have "ranked st" using inv by (force simp: ranked_def edge_inv_def eq)
  moreover have "ex_edge st k \<noteq> None" if "ex_costs st k = Some c" "c \<noteq> top_cost" for k c
    using justified_edge [OF typed inv fp] that s(3) eq by metis
  ultimately show ?thesis using s(2) bf_loop_least [OF loop] eq by (simp add: final_tables_def)
qed

end

lemma bellman_ford_Ok:
  fixes cm :: "'c::{linorder, finite} cost_model"
  assumes t: "typed_egraph eg" "\<forall>h \<in> set funcs. eg_get eg h \<noteq> None"
  shows "\<exists>st. bellman_ford cm eg funcs = Some (Ok st)"
proof -
  obtain st0 where loop: "bf_loop cm eg funcs = Some (Ok (st0 :: 'c ext_state, True))" using bf_loop_Ok [OF t] by blast
  have r: "ranked st0"
    using bf_loop_invariant [OF loop, of ranked] by (auto simp: closed_under_updates_def ranked_def ext_init_def)
  have "\<exists>st'. fold_out (save_func cm eg) fs st = Ok st'" if "set fs \<subseteq> set funcs" "ranked st" for fs st
    using that
  proof (induction fs arbitrary: st)
    case (Cons h fs)
    then obtain f ts where f: "eg_get eg h = Some f" "extraction_output_sort eg f = Ok ts"
      "\<forall>row \<in> set (xf_rows f). typed_row eg f row" using t by (force simp: typed_egraph_def)
    have rows: "set rows \<subseteq> set (xf_rows f) \<Longrightarrow> ranked st1
        \<Longrightarrow> \<exists>st'. fold_out (save_edge cm eg f ts) rows st1 = Ok st' \<and> ranked st'" for rows st1
    proof (induction rows arbitrary: st1)
      case (Cons row rows)
      obtain st2 where st2: "save_edge cm eg f ts row st1 = Ok st2"
        using save_edge_Ok f(3) Cons.prems by (metis list.set_intros(1) subsetD)
      then have "ex_costs st2 = ex_costs st1" "ex_rnk st2 = ex_rnk st1"
        by (auto simp: save_edge_def bind_o_eq_Ok split: if_splits option.splits)
      then have "ranked st2" using Cons.prems(2) by (simp add: ranked_def)
      with Cons.IH [of st2] Cons.prems(1) st2 show ?case by auto
    qed simp
    obtain st1 where "fold_out (save_edge cm eg f ts) (xf_rows f) st = Ok st1" "ranked st1"
      using rows [OF subset_refl Cons.prems(2)] by blast
    with Cons.IH [of st1] Cons.prems(1) f show ?case by (auto simp: save_func_def)
  qed simp
  from this [OF subset_refl r] loop show ?thesis by (auto simp: bellman_ford_def)
qed

end
