(* ===== verification/Extract_Reconstruct.thy ===== *)
theory Extract_Reconstruct
  imports Extract_Edges
begin

text \<open>
  Rebuilding a term along the saved edges ends, does not fail, and gives a term of the
  e-class with the recorded cost, when that cost is below the saturation value.
\<close>

section \<open>Sorts are known by their names\<close>

text \<open>
  The tables and the cache are keyed by sort names; \<open>U\<close> holds the sorts that occur.
\<close>

definition sorts_closed :: "arcsort set \<Rightarrow> xegraph \<Rightarrow> bool" where
  "sorts_closed U eg \<longleftrightarrow> inj_on as_name U
     \<and> (\<forall>s \<in> U. \<forall>ss. inner_sorts s = Ok ss \<longrightarrow> set ss \<subseteq> U)
     \<and> (\<forall>h f. eg_get eg h = Some f \<longrightarrow> set (xf_input f) \<subseteq> U)"

lemma sorts_closed_inner:
  assumes "sorts_closed U eg" "s \<in> U" "has_sort s v" "is_container_sort s" "inner_values s v = Ok xs" "(s', v') \<in> set xs"
  shows "s' \<in> U" "has_sort s' v'"
  using has_sort_inner [OF assms(3,4)] assms unfolding sorts_closed_def by fastforce+

lemma sorts_closed_children:
  assumes "sorts_closed U eg" "eg_get eg h = Some f" "(s, v) \<in> set (children eg f vals)"
  shows "s \<in> U"
  using assms set_zip_leftD [OF assms(3) [unfolded children_def]] unfolding sorts_closed_def by blast

section \<open>The cache\<close>

definition cached :: "'c cost_model \<Rightarrow> xegraph \<Rightarrow> string set \<Rightarrow> arcsort set \<Rightarrow> 'c node_map \<Rightarrow> termdag \<Rightarrow> term_cache \<Rightarrow> bool"
where
  "cached cm eg F U costs d cache \<longleftrightarrow>
     (\<forall>v s t. s \<in> U \<longrightarrow> cache (v, as_name s) = Some t
        \<longrightarrow> t < length (nodes d)
          \<and> (\<forall>c. compute_cost_node cm costs s v = Ok (Some c) \<longrightarrow> extracts cm eg F s v (tree d t) c))"

lemma cached_empty [simp]: "cached cm eg F U costs d Map.empty"
  by (simp add: cached_def)

lemma cached_later: "cached cm eg F U costs d cache \<Longrightarrow> wf_dag d \<Longrightarrow> dag_le d d' \<Longrightarrow> cached cm eg F U costs d' cache"
  using dag_le_length [of d d'] tree_le [OF _ _, of d d'] unfolding cached_def by (metis order_less_le_trans)

lemma cached_upd:
  assumes "cached cm eg F U costs d cache" "inj_on as_name U" "s \<in> U" "t < length (nodes d)"
    "compute_cost_node cm costs s v = Ok (Some c)" "extracts cm eg F s v (tree d t) c"
  shows "cached cm eg F U costs d (cache((v, as_name s) \<mapsto> t))"
  unfolding cached_def
proof (intro allI impI)
  fix v' s' t'
  assume s': "s' \<in> U" and t': "(cache((v, as_name s) \<mapsto> t)) (v', as_name s') = Some t'"
  show "t' < length (nodes d)
      \<and> (\<forall>c. compute_cost_node cm costs s' v' = Ok (Some c) \<longrightarrow> extracts cm eg F s' v' (tree d t') c)"
  proof (cases "v' = v \<and> s' = s")
    case True
    with t' assms show ?thesis by auto
  next
    case False
    with s' assms(2,3) have "(v', as_name s') \<noteq> (v, as_name s)" by (auto dest: inj_onD)
    with t' s' assms(1) show ?thesis unfolding cached_def by (metis fun_upd_other)
  qed
qed

section \<open>A value rebuilt\<close>

definition rebuilds ::
    "nat \<Rightarrow> 'c cost_model \<Rightarrow> xegraph \<Rightarrow> string set \<Rightarrow> arcsort set \<Rightarrow> 'c ext_state \<Rightarrow> arcsort \<Rightarrow> xval \<Rightarrow> 'c \<Rightarrow> bool" where
  "rebuilds n cm eg F U st s v c \<longleftrightarrow>
     (\<forall>d cache. wf_dag d \<longrightarrow> cached cm eg F U (ex_costs st) d cache
        \<longrightarrow> (\<exists>t d' cache'. reconstruct_helper n eg (ex_edge st) s v (d, cache) = Ok (t, d', cache')
              \<and> cached cm eg F U (ex_costs st) d' cache' \<and> wf_dag d' \<and> dag_le d d' \<and> t < length (nodes d')
              \<and> extracts cm eg F s v (tree d' t) c))"

lemma rebuilds_list:
  assumes "\<And>s v c. (s, v) \<in> set xs \<Longrightarrow> compute_cost_node cm (ex_costs st) s v = Ok (Some c) \<Longrightarrow> c \<in> set cs
      \<Longrightarrow> rebuilds n cm eg F U st s v c"
    and "collect_some (\<lambda>(s, v). compute_cost_node cm (ex_costs st) s v) xs = Ok (Some cs)"
    and "wf_dag d" "cached cm eg F U (ex_costs st) d cache"
  shows "\<exists>ts d' cache'. map_out (\<lambda>(s, v) dc. reconstruct_helper n eg (ex_edge st) s v dc) xs (d, cache) = Ok (ts, d', cache')
    \<and> cached cm eg F U (ex_costs st) d' cache' \<and> wf_dag d' \<and> dag_le d d' \<and> (\<forall>t \<in> set ts. t < length (nodes d'))
    \<and> length ts = length xs \<and> extracts_list cm eg F xs (map (tree d') ts) cs"
  using assms
proof (induction xs arbitrary: d cache cs)
  case Nil
  then show ?case by (auto intro: extracts_extracts_list.Nil)
next
  case (Cons x xs)
  obtain s v where x: "x = (s, v)" by force
  with Cons.prems(2) obtain c cs' where
    c: "compute_cost_node cm (ex_costs st) s v = Ok (Some c)"
      "collect_some (\<lambda>(s, v). compute_cost_node cm (ex_costs st) s v) xs = Ok (Some cs')" "cs = c # cs'"
    by (auto simp: bind_o_eq_Ok split: option.splits)
  have "rebuilds n cm eg F U st s v c" using Cons.prems(1) [of s v c] x c by simp
  with Cons.prems(3,4) obtain t d1 cache1 where
    t: "reconstruct_helper n eg (ex_edge st) s v (d, cache) = Ok (t, d1, cache1)"
      "cached cm eg F U (ex_costs st) d1 cache1" "wf_dag d1" "dag_le d d1" "t < length (nodes d1)"
      "extracts cm eg F s v (tree d1 t) c"
    unfolding rebuilds_def by blast
  have rest: "rebuilds n cm eg F U st s v c"
    if "(s, v) \<in> set xs" "compute_cost_node cm (ex_costs st) s v = Ok (Some c)" "c \<in> set cs'" for s v c
    using Cons.prems(1) [of s v c] that c(3) by simp
  from Cons.IH [OF rest c(2) t(3,2)] obtain ts d2 cache2 where
    ts: "map_out (\<lambda>(s, v) dc. reconstruct_helper n eg (ex_edge st) s v dc) xs (d1, cache1) = Ok (ts, d2, cache2)"
      "cached cm eg F U (ex_costs st) d2 cache2" "wf_dag d2" "dag_le d1 d2" "\<forall>t \<in> set ts. t < length (nodes d2)"
      "length ts = length xs" "extracts_list cm eg F xs (map (tree d2) ts) cs'" by blast
  have "t < length (nodes d2)" "tree d2 t = tree d1 t"
    using t(3,5) ts(4) dag_le_length [OF ts(4)] tree_le [OF _ ts(4)] by auto
  with t ts x c(3) dag_le_trans [OF t(4) ts(4)] show ?case by (auto intro: extracts_extracts_list.Cons)
qed

lemma rebuilds_mono_list:
  assumes "finite A" "\<And>x. x \<in> A \<Longrightarrow> \<exists>N. \<forall>n \<ge> N. P n x"
  shows "\<exists>N. \<forall>n \<ge> N. \<forall>x \<in> A. P (n::nat) x"
  using assms
proof (induction A rule: finite_induct)
  case (insert x A)
  then obtain N M where "\<forall>n \<ge> N. P n x" "\<forall>n \<ge> M. \<forall>x \<in> A. P n x" by (metis insertCI)
  then have "\<forall>n \<ge> max N M. \<forall>y \<in> insert x A. P n y" by simp
  then show ?case ..
qed simp

lemma reconstruct_helper_step:
  assumes U: "sorts_closed U eg" "s \<in> U" and c: "compute_cost_node cm (ex_costs st) s v = Ok (Some c)"
    and body: "\<And>d cache. wf_dag d \<Longrightarrow> cached cm eg F U (ex_costs st) d cache
      \<Longrightarrow> cache (v, as_name s) = None
      \<Longrightarrow> \<exists>t d' cache'. reconstruct_helper (Suc n) eg (ex_edge st) s v (d, cache) = Ok (t, d', cache'((v, as_name s) \<mapsto> t))
          \<and> cached cm eg F U (ex_costs st) d' cache' \<and> wf_dag d' \<and> dag_le d d' \<and> t < length (nodes d')
          \<and> extracts cm eg F s v (tree d' t) c"
  shows "rebuilds (Suc n) cm eg F U st s v c"
  unfolding rebuilds_def
proof (intro allI impI)
  fix d cache
  assume d: "wf_dag d" "cached cm eg F U (ex_costs st) d cache"
  show "\<exists>t d' cache'. reconstruct_helper (Suc n) eg (ex_edge st) s v (d, cache) = Ok (t, d', cache')
      \<and> cached cm eg F U (ex_costs st) d' cache' \<and> wf_dag d' \<and> dag_le d d' \<and> t < length (nodes d')
      \<and> extracts cm eg F s v (tree d' t) c"
  proof (cases "cache (v, as_name s)")
    case None
    have "inj_on as_name U" using U(1) by (simp add: sorts_closed_def)
    with body [OF d None] cached_upd U(2) c show ?thesis by metis
  next
    case (Some t)
    with d(2) U(2) c have "t < length (nodes d)" "extracts cm eg F s v (tree d t) c" unfolding cached_def by blast+
    with Some d show ?thesis by simp
  qed
qed

section \<open>Following saved edges\<close>

lemma rebuilds_base:
  assumes U: "sorts_closed U eg" "s \<in> U" and s: "\<not> is_container_sort s" "\<not> is_eq_sort s" "has_sort s v"
    and c: "compute_cost_node cm (ex_costs st) s v = Ok (Some c)"
  shows "rebuilds (Suc n) cm eg F U st s v c"
proof (rule reconstruct_helper_step [OF U c])
  fix d cache
  assume d: "wf_dag d" "cached cm eg F U (ex_costs st) d cache" "cache (v, as_name s) = None"
  obtain b where b: "s = BaseS b" using s(1,2) by (cases s) auto
  with s(3) have "base_value b v" by (subst (asm) has_sort.simps) simp
  from reconstruct_base_builds [OF d(1) this] obtain t d' where
    t: "reconstruct_base b v d = Ok (t, d')" "builds d (base_term v) (t, d')" by force
  have "c = cm_base cm s v" using c by (simp add: cost_node_base [OF s(1,2)])
  then have "extracts cm eg F s v (tree d' t) c"
    using t(2) extracts_extracts_list.Base [OF s(1,2)] by (simp add: builds_def)
  with t d cached_later [OF d(2,1)] b
  show "\<exists>t d' cache'. reconstruct_helper (Suc n) eg (ex_edge st) s v (d, cache) = Ok (t, d', cache'((v, as_name s) \<mapsto> t))
      \<and> cached cm eg F U (ex_costs st) d' cache' \<and> wf_dag d' \<and> dag_le d d' \<and> t < length (nodes d')
      \<and> extracts cm eg F s v (tree d' t) c"
    by (auto simp: builds_def)
qed

lemma rebuilds_container:
  assumes U: "sorts_closed U eg" "s \<in> U" and s: "is_container_sort s" "inner_values s v = Ok xs"
    and cs: "collect_some (\<lambda>(s, v). compute_cost_node cm (ex_costs st) s v) xs = Ok (Some cs)"
    and inner: "\<And>s v c. (s, v) \<in> set xs \<Longrightarrow> compute_cost_node cm (ex_costs st) s v = Ok (Some c) \<Longrightarrow> c \<in> set cs
      \<Longrightarrow> rebuilds n cm eg F U st s v c"
  shows "rebuilds (Suc n) cm eg F U st s v (cm_container cm s v cs)"
proof (rule reconstruct_helper_step [OF U])
  show "compute_cost_node cm (ex_costs st) s v = Ok (Some (cm_container cm s v cs))"
    using cs by (simp add: cost_node_container [OF s])
next
  fix d cache
  assume d: "wf_dag d" "cached cm eg F U (ex_costs st) d cache" "cache (v, as_name s) = None"
  from rebuilds_list [OF inner cs d(1,2)] obtain ts d1 cache1 where
    ts: "map_out (\<lambda>(s, v) dc. reconstruct_helper n eg (ex_edge st) s v dc) xs (d, cache) = Ok (ts, d1, cache1)"
      "cached cm eg F U (ex_costs st) d1 cache1" "wf_dag d1" "dag_le d d1" "\<forall>t \<in> set ts. t < length (nodes d1)"
      "length ts = length xs" "extracts_list cm eg F xs (map (tree d1) ts) cs" by blast
  from reconstruct_container_builds [OF ts(3,5) s ts(6)] obtain t d2 where
    t: "reconstruct_container s v ts d1 = Ok (t, d2)" "builds d1 (container_term s v (map (tree d1) ts)) (t, d2)"
    by force
  then have "extracts cm eg F s v (tree d2 t) (cm_container cm s v cs)"
    using extracts_extracts_list.Container [OF s ts(7)] by (simp add: builds_def)
  moreover have "cached cm eg F U (ex_costs st) d2 cache1" "wf_dag d2" "dag_le d d2" "t < length (nodes d2)"
    using t(2) cached_later [OF ts(2,3)] dag_le_trans [OF ts(4)] by (auto simp: builds_def)
  moreover have "reconstruct_helper (Suc n) eg (ex_edge st) s v (d, cache) = Ok (t, d2, cache1((v, as_name s) \<mapsto> t))"
    using d(3) s ts(1) t(1) by simp
  ultimately
  show "\<exists>t d' cache'. reconstruct_helper (Suc n) eg (ex_edge st) s v (d, cache) = Ok (t, d', cache'((v, as_name s) \<mapsto> t))
      \<and> cached cm eg F U (ex_costs st) d' cache' \<and> wf_dag d' \<and> dag_le d d' \<and> t < length (nodes d')
      \<and> extracts cm eg F s v (tree d' t) (cm_container cm s v cs)" by blast
qed

lemma rebuilds_edge:
  assumes U: "sorts_closed U eg" "s \<in> U" and s: "is_eq_sort s"
    and e: "ex_edge st (as_name s, v) = Some (h, row_vals row)" and row: "usable_row eg F h f row (as_name s, v)"
    and c: "ex_costs st (as_name s, v) = Some c" "c = cm_fold cm (extraction_term_name f) cs (cm_enode cm eg f row)"
    and cs: "collect_some (\<lambda>(s, v). compute_cost_node cm (ex_costs st) s v) (children eg f (row_vals row)) = Ok (Some cs)"
    and inner: "\<And>s v c. (s, v) \<in> set (children eg f (row_vals row))
      \<Longrightarrow> compute_cost_node cm (ex_costs st) s v = Ok (Some c) \<Longrightarrow> c \<in> set cs \<Longrightarrow> rebuilds n cm eg F U st s v c"
  shows "rebuilds (Suc n) cm eg F U st s v c"
proof (rule reconstruct_helper_step [OF U])
  show "compute_cost_node cm (ex_costs st) s v = Ok (Some c)" using c(1) by (simp add: cost_node_eq [OF s])
next
  fix d cache
  assume d: "wf_dag d" "cached cm eg F U (ex_costs st) d cache" "cache (v, as_name s) = None"
  from rebuilds_list [OF inner cs d(1,2)] obtain ts d1 cache1 where
    ts: "map_out (\<lambda>(s, v) dc. reconstruct_helper n eg (ex_edge st) s v dc) (children eg f (row_vals row)) (d, cache)
        = Ok (ts, d1, cache1)"
      "cached cm eg F U (ex_costs st) d1 cache1" "wf_dag d1" "dag_le d d1" "\<forall>t \<in> set ts. t < length (nodes d1)"
      "extracts_list cm eg F (children eg f (row_vals row)) (map (tree d1) ts) cs" by blast
  obtain t d2 where t: "dag_app (extraction_term_name f) ts d1 = (t, d2)" by force
  note b = builds_app [OF ts(3,5), of "extraction_term_name f", unfolded t]
  then have "extracts cm eg F s v (tree d2 t) c"
    using extracts_extracts_list.Node [OF s row ts(6)] c(2) by (simp add: builds_def)
  moreover have "cached cm eg F U (ex_costs st) d2 cache1" "wf_dag d2" "dag_le d d2" "t < length (nodes d2)"
    using b cached_later [OF ts(2,3)] dag_le_trans [OF ts(4)] by (auto simp: builds_def)
  moreover have "\<not> is_container_sort s" "eg_get eg h = Some f" using s row by (cases s; simp add: usable_row_def)+
  then have "reconstruct_helper (Suc n) eg (ex_edge st) s v (d, cache) = Ok (t, d2, cache1((v, as_name s) \<mapsto> t))"
    using d(3) s ts(1) t e by simp
  ultimately
  show "\<exists>t d' cache'. reconstruct_helper (Suc n) eg (ex_edge st) s v (d, cache) = Ok (t, d', cache'((v, as_name s) \<mapsto> t))
      \<and> cached cm eg F U (ex_costs st) d' cache' \<and> wf_dag d' \<and> dag_le d d' \<and> t < length (nodes d')
      \<and> extracts cm eg F s v (tree d' t) c" by blast
qed

text \<open>Children of the row behind a saved edge have lower ranks.\<close>

lemma edge_child_rank:
  assumes "compute_topo_rnk_hyperedge eg rnk row f = Ok r" "(s, v) \<in> set (children eg f (row_vals row))"
    "j \<in> set (eq_leaves s v)" "rnk j = Some i"
  shows "i \<le> r"
proof (rule rank_fold_leaves [where xs = "children eg f (row_vals row)" and m = 0 and j = j and rnk = rnk])
  show "rank_fold rnk (children eg f (row_vals row)) 0 = Ok r" using assms(1) by (simp add: hyperedge_rank)
  show "j \<in> leaves_of (children eg f (row_vals row))" using leaves_of_mem [OF assms(2)] assms(3) by blast
qed (use node_rank_leaves assms(4) in \<open>blast+\<close>)

context strict_cost
begin

lemma collect_below_top:
  "cm_fold cm h cs x \<noteq> top_cost \<Longrightarrow> c \<in> set cs \<Longrightarrow> c \<noteq> top_cost"
  "cm_container cm s v cs \<noteq> top_cost \<Longrightarrow> c \<in> set cs \<Longrightarrow> c \<noteq> top_cost"
  using below_top fold_ge container_ge by blast+

lemma reconstruct_total:
  assumes ft: "final_tables cm top_cost eg F st" and typed: "typed_egraph eg" and U: "sorts_closed U eg"
  shows "\<forall>j \<in> set (eq_leaves s v). \<forall>i. ex_rnk st j = Some i \<longrightarrow> i \<le> r
    \<Longrightarrow> s \<in> U \<Longrightarrow> has_sort s v \<Longrightarrow> compute_cost_node cm (ex_costs st) s v = Ok (Some c) \<Longrightarrow> c \<noteq> top_cost
    \<Longrightarrow> \<exists>N. \<forall>n \<ge> N. rebuilds n cm eg F U st s v c"
proof (induction r arbitrary: s v c rule: less_induct)
  case (less r)
  note IH = less.IH
  from less.prems show ?case
  proof (induction v arbitrary: s c rule: measure_induct_rule [of size])
    case (less v)
    show ?case
    proof (cases "is_container_sort s")
      case True
      then obtain xs where xs: "inner_values s v = Ok xs" using has_sort_inner less.prems(3) by blast
      obtain cs where cs: "collect_some (\<lambda>(s, v). compute_cost_node cm (ex_costs st) s v) xs = Ok (Some cs)"
        "c = cm_container cm s v cs"
        using less.prems(4) by (auto simp: cost_node_container [OF True xs] bind_o_eq_Ok)
      have "\<exists>N. \<forall>n \<ge> N. \<forall>x \<in> set xs. \<forall>c \<in> set cs. compute_cost_node cm (ex_costs st) (fst x) (snd x) = Ok (Some c)
          \<longrightarrow> rebuilds n cm eg F U st (fst x) (snd x) c"
      proof (intro rebuilds_mono_list)
        fix x c' assume x: "x \<in> set xs" and c': "c' \<in> set cs"
        obtain s' v' where sv: "x = (s', v')" by force
        have "\<forall>j \<in> set (eq_leaves s' v'). \<forall>i. ex_rnk st j = Some i \<longrightarrow> i \<le> r"
          using less.prems(1) leaves_of_mem [of s' v' xs] x sv eq_leaves_container [OF True xs] by blast
        then have "compute_cost_node cm (ex_costs st) s' v' = Ok (Some c') \<Longrightarrow> \<exists>N. \<forall>n \<ge> N. rebuilds n cm eg F U st s' v' c'"
          using less.IH [OF inner_values_size [OF xs], of s' v' s' c'] x sv
            sorts_closed_inner [OF U less.prems(2,3) True xs] collect_below_top(2) [of s v cs c'] c' cs(2) less.prems(5)
          by auto
        with sv show "\<exists>N. \<forall>n \<ge> N. compute_cost_node cm (ex_costs st) (fst x) (snd x) = Ok (Some c')
            \<longrightarrow> rebuilds n cm eg F U st (fst x) (snd x) c'" by auto
      qed simp_all
      then obtain N where N: "\<And>n s v c. n \<ge> N \<Longrightarrow> (s, v) \<in> set xs \<Longrightarrow> c \<in> set cs
          \<Longrightarrow> compute_cost_node cm (ex_costs st) s v = Ok (Some c) \<Longrightarrow> rebuilds n cm eg F U st s v c" by fastforce
      have "rebuilds n cm eg F U st s v c" if "n \<ge> Suc N" for n
      proof -
        from that obtain m where m: "n = Suc m" "m \<ge> N" by (cases n) auto
        show ?thesis unfolding m(1) cs(2) by (rule rebuilds_container [OF U less.prems(2) True xs cs(1)]) (rule N [OF m(2)])
      qed
      then show ?thesis by blast
    next
      case nc: False
      show ?thesis
      proof (cases "is_eq_sort s")
        case True
        have c: "ex_costs st (as_name s, v) = Some c" using less.prems(4) by (simp add: cost_node_eq [OF True])
        then obtain h vals where e: "ex_edge st (as_name s, v) = Some (h, vals)"
          using ft less.prems(5) unfolding final_tables_def by fastforce
        then obtain f row where g: "good_edge cm eg F st (as_name s, v) h f row" "row_vals row = vals"
          using ft unfolding final_tables_def edges_good_def by blast
        then obtain k r' where row: "usable_row eg F h f row (as_name s, v)"
          and hc: "compute_cost_hyperedge cm eg (ex_costs st) row f = Ok (Some c)"
          and k: "ex_rnk st (as_name s, v) = Some k" and r': "compute_topo_rnk_hyperedge eg (ex_rnk st) row f = Ok r'" "r' < k"
          using c by (auto simp: good_edge_def)
        have "r' < r" using less.prems(1) k r'(2) eq_leaves_eq [OF True] by fastforce
        have f: "eg_get eg h = Some f" using row by (simp add: usable_row_def)
        have typed_row: "typed_row eg f row" using typed row by (auto simp: typed_egraph_def usable_row_def)
        let ?xs = "children eg f (row_vals row)"
        obtain cs where cs: "collect_some (\<lambda>(s, v). compute_cost_node cm (ex_costs st) s v) ?xs = Ok (Some cs)"
          "c = cm_fold cm (extraction_term_name f) cs (cm_enode cm eg f row)"
          using hc by (auto simp: compute_cost_hyperedge_def bind_o_eq_Ok)
        have "\<exists>N. \<forall>n \<ge> N. \<forall>x \<in> set ?xs. \<forall>c \<in> set cs. compute_cost_node cm (ex_costs st) (fst x) (snd x) = Ok (Some c)
            \<longrightarrow> rebuilds n cm eg F U st (fst x) (snd x) c"
        proof (intro rebuilds_mono_list)
          fix x c' assume x: "x \<in> set ?xs" and c': "c' \<in> set cs"
          obtain s' v' where sv: "x = (s', v')" by force
          have "\<forall>j \<in> set (eq_leaves s' v'). \<forall>i. ex_rnk st j = Some i \<longrightarrow> i \<le> r'"
            using edge_child_rank [OF r'(1)] x sv by blast
          moreover have "has_sort s' v'" using typed_row x sv by (auto simp: typed_row_def)
          ultimately have "compute_cost_node cm (ex_costs st) s' v' = Ok (Some c')
              \<Longrightarrow> \<exists>N. \<forall>n \<ge> N. rebuilds n cm eg F U st s' v' c'"
            using IH [OF \<open>r' < r\<close>, of s' v' c'] x sv sorts_closed_children [OF U f, of s' v']
              collect_below_top(1) [of _ cs _ c'] c' cs(2) less.prems(5) by auto
          with sv show "\<exists>N. \<forall>n \<ge> N. compute_cost_node cm (ex_costs st) (fst x) (snd x) = Ok (Some c')
              \<longrightarrow> rebuilds n cm eg F U st (fst x) (snd x) c'" by auto
        qed simp_all
        then obtain N where N: "\<And>n s v c. n \<ge> N \<Longrightarrow> (s, v) \<in> set ?xs \<Longrightarrow> c \<in> set cs
            \<Longrightarrow> compute_cost_node cm (ex_costs st) s v = Ok (Some c) \<Longrightarrow> rebuilds n cm eg F U st s v c" by fastforce
        have "rebuilds n cm eg F U st s v c" if "n \<ge> Suc N" for n
        proof -
          from that obtain m where m: "n = Suc m" "m \<ge> N" by (cases n) auto
          show ?thesis unfolding m(1)
            by (rule rebuilds_edge [OF U less.prems(2) True e [folded g(2)] row c cs(2,1)]) (rule N [OF m(2)])
        qed
        then show ?thesis by blast
      next
        case False
        have "rebuilds n cm eg F U st s v c" if "n \<ge> Suc 0" for n
          using that rebuilds_base [OF U less.prems(2) nc False less.prems(3,4)] by (cases n) auto
        then show ?thesis by blast
      qed
    qed
  qed
qed

lemma rebuilds_above:
  assumes "final_tables cm top_cost eg F st" "typed_egraph eg" "sorts_closed U eg" "s \<in> U" "has_sort s v"
    "compute_cost_node cm (ex_costs st) s v = Ok (Some c)" "c \<noteq> top_cost"
  shows "\<exists>N. \<forall>n \<ge> N. rebuilds n cm eg F U st s v c"
proof -
  have "finite {i. \<exists>j \<in> set (eq_leaves s v). ex_rnk st j = Some i}"
    by (rule finite_subset [of _ "the ` ex_rnk st ` set (eq_leaves s v)"]) force+
  then obtain r where "\<forall>j \<in> set (eq_leaves s v). \<forall>i. ex_rnk st j = Some i \<longrightarrow> i \<le> r"
    by (auto simp: finite_nat_set_iff_bounded_le)
  from reconstruct_total [OF assms(1-3) this assms(4-7)] show ?thesis .
qed

end

end
