(* ===== verification/Extract_Reach.thy ===== *)
theory Extract_Reach
  imports Extract_Reconstruct
begin

text \<open>
  The search for the tables reachable from the root sorts ends, and the terms of the root
  sorts it leaves are those over all tables extraction may use.
\<close>

section \<open>The index of the tables by sort\<close>

definition indexed_names :: "ext_options \<Rightarrow> xegraph \<Rightarrow> string set" where
  "indexed_names eo eg = {h. \<exists>f. eg_get eg h = Some f \<and> indexed eo f}"

lemma index_func_Ok:
  assumes "extraction_output_sort eg f = Ok ts"
  shows "\<exists>ridx' roots'. index_func eo eg (h, f) (ridx, roots) = Ok (ridx', roots')
    \<and> (\<forall>n hs. ridx n = Some hs \<longrightarrow> (\<exists>hs'. ridx' n = Some hs' \<and> set hs \<subseteq> set hs'))
    \<and> (indexed eo f \<longrightarrow> (\<exists>hs. ridx' (as_name ts) = Some hs \<and> h \<in> set hs))
    \<and> (\<forall>n hs. ridx' n = Some hs \<longrightarrow> set hs \<subseteq> (case ridx n of Some hs \<Rightarrow> set hs | None \<Rightarrow> {}) \<union> (if indexed eo f then {h} else {}))
    \<and> (eo_rootsorts eo \<noteq> None \<longrightarrow> roots' = roots)"
  using assms by (cases "ridx (as_name ts)") (auto simp: index_func_def)

lemma index_all:
  assumes "\<And>h f. (h, f) \<in> set fs \<Longrightarrow> \<exists>ts. extraction_output_sort eg f = Ok ts"
  shows "\<exists>ridx' roots'. fold_out (index_func eo eg) fs (ridx, roots) = Ok (ridx', roots')
    \<and> (\<forall>n hs. ridx n = Some hs \<longrightarrow> (\<exists>hs'. ridx' n = Some hs' \<and> set hs \<subseteq> set hs'))
    \<and> (\<forall>(h, f) \<in> set fs. \<forall>ts. extraction_output_sort eg f = Ok ts \<longrightarrow> indexed eo f
         \<longrightarrow> (\<exists>hs. ridx' (as_name ts) = Some hs \<and> h \<in> set hs))
    \<and> (\<forall>n hs. ridx' n = Some hs
         \<longrightarrow> set hs \<subseteq> (case ridx n of Some hs \<Rightarrow> set hs | None \<Rightarrow> {}) \<union> {h. \<exists>f. (h, f) \<in> set fs \<and> indexed eo f})
    \<and> (eo_rootsorts eo \<noteq> None \<longrightarrow> roots' = roots)"
  using assms
proof (induction fs arbitrary: ridx roots)
  case Nil
  then show ?case by auto
next
  case (Cons x fs)
  obtain h f where x: "x = (h, f)" by force
  then obtain ts where ts: "extraction_output_sort eg f = Ok ts" using Cons.prems by auto
  from index_func_Ok [OF ts, of eo h ridx roots] obtain ridx1 roots1 where
    1: "index_func eo eg (h, f) (ridx, roots) = Ok (ridx1, roots1)"
      "\<And>n hs. ridx n = Some hs \<Longrightarrow> \<exists>hs'. ridx1 n = Some hs' \<and> set hs \<subseteq> set hs'"
      "indexed eo f \<Longrightarrow> \<exists>hs. ridx1 (as_name ts) = Some hs \<and> h \<in> set hs"
      "\<And>n hs. ridx1 n = Some hs \<Longrightarrow> set hs \<subseteq> (case ridx n of Some hs \<Rightarrow> set hs | None \<Rightarrow> {}) \<union> (if indexed eo f then {h} else {})"
      "eo_rootsorts eo \<noteq> None \<Longrightarrow> roots1 = roots" by blast
  from Cons.IH [of ridx1 roots1] Cons.prems obtain ridx2 roots2 where
    2: "fold_out (index_func eo eg) fs (ridx1, roots1) = Ok (ridx2, roots2)"
      "\<And>n hs. ridx1 n = Some hs \<Longrightarrow> \<exists>hs'. ridx2 n = Some hs' \<and> set hs \<subseteq> set hs'"
      "\<And>h f ts. (h, f) \<in> set fs \<Longrightarrow> extraction_output_sort eg f = Ok ts \<Longrightarrow> indexed eo f
         \<Longrightarrow> \<exists>hs. ridx2 (as_name ts) = Some hs \<and> h \<in> set hs"
      "\<And>n hs. ridx2 n = Some hs
         \<Longrightarrow> set hs \<subseteq> (case ridx1 n of Some hs \<Rightarrow> set hs | None \<Rightarrow> {}) \<union> {h. \<exists>f. (h, f) \<in> set fs \<and> indexed eo f}"
      "eo_rootsorts eo \<noteq> None \<Longrightarrow> roots2 = roots1" by (fastforce split: prod.splits)
  show ?case
  proof (intro exI conjI)
    show "fold_out (index_func eo eg) (x # fs) (ridx, roots) = Ok (ridx2, roots2)" using 1(1) 2(1) x by simp
    show "\<forall>n hs. ridx n = Some hs \<longrightarrow> (\<exists>hs'. ridx2 n = Some hs' \<and> set hs \<subseteq> set hs')"
      using 1(2) 2(2) by (meson order_trans)
    show "\<forall>(h, f) \<in> set (x # fs). \<forall>ts. extraction_output_sort eg f = Ok ts \<longrightarrow> indexed eo f
         \<longrightarrow> (\<exists>hs. ridx2 (as_name ts) = Some hs \<and> h \<in> set hs)"
      using 1(3) 2(2,3) ts x by fastforce
    show "\<forall>n hs. ridx2 n = Some hs
         \<longrightarrow> set hs \<subseteq> (case ridx n of Some hs \<Rightarrow> set hs | None \<Rightarrow> {}) \<union> {h. \<exists>f. (h, f) \<in> set (x # fs) \<and> indexed eo f}"
    proof (intro allI impI)
      fix n hs assume hs: "ridx2 n = Some hs"
      have "(case ridx1 n of Some hs \<Rightarrow> set hs | None \<Rightarrow> {})
          \<subseteq> (case ridx n of Some hs \<Rightarrow> set hs | None \<Rightarrow> {}) \<union> (if indexed eo f then {h} else {})"
        using 1(4) by (cases "ridx1 n") auto
      with 2(4) [OF hs] show "set hs \<subseteq> (case ridx n of Some hs \<Rightarrow> set hs | None \<Rightarrow> {})
          \<union> {h. \<exists>f. (h, f) \<in> set (x # fs) \<and> indexed eo f}" using x by (auto split: if_splits)
    qed
    show "eo_rootsorts eo \<noteq> None \<longrightarrow> roots2 = roots" using 1(5) 2(5) by simp
  qed
qed

section \<open>The queue\<close>

definition unseen :: "arcsort set \<Rightarrow> arcsort list \<times> string set \<Rightarrow> nat" where
  "unseen U = (\<lambda>(q, seen). card (as_name ` U - seen) + length q)"

definition queued :: "arcsort set \<Rightarrow> arcsort list \<times> string set \<Rightarrow> bool" where
  "queued U = (\<lambda>(q, seen). set q \<subseteq> U \<and> as_name ` set q \<subseteq> seen \<and> seen \<subseteq> as_name ` U)"

definition grows :: "arcsort set \<Rightarrow> arcsort list \<times> string set \<Rightarrow> arcsort list \<times> string set \<Rightarrow> bool" where
  "grows U = (\<lambda>(q, seen) (q', seen'). queued U (q', seen') \<and> set q \<subseteq> set q' \<and> seen \<subseteq> seen'
     \<and> unseen U (q', seen') \<le> unseen U (q, seen)
     \<and> (\<forall>s \<in> U. as_name s \<in> seen' \<longrightarrow> as_name s \<in> seen \<or> s \<in> set q'))"

lemma grows_refl: "queued U x \<Longrightarrow> grows U x x"
  by (auto simp: grows_def)

lemma grows_trans: "grows U x y \<Longrightarrow> grows U y z \<Longrightarrow> grows U x z"
  by (cases x; cases y; cases z; simp add: grows_def) blast

lemma bfs_push_grows:
  assumes U: "finite U" "inj_on as_name U" and s: "s \<in> U" and x: "queued U x"
  shows "grows U x (bfs_push s x) \<and> as_name s \<in> snd (bfs_push s x)"
proof -
  obtain q seen where qs: "x = (q, seen)" by force
  show ?thesis
  proof (cases "as_name s \<in> seen")
    case True
    then show ?thesis using grows_refl [OF x] qs by (simp add: bfs_push_def)
  next
    case False
    have "as_name ` U - seen = insert (as_name s) (as_name ` U - insert (as_name s) seen)" using s False by auto
    moreover have "finite (as_name ` U - insert (as_name s) seen)" using U(1) by simp
    ultimately have "card (as_name ` U - seen) = Suc (card (as_name ` U - insert (as_name s) seen))"
      by (metis Diff_iff card_insert_disjoint insertI1)
    then show ?thesis
      using False s x U(2) qs by (auto simp: bfs_push_def grows_def queued_def unseen_def dest: inj_onD)
  qed
qed

lemma bfs_pushes_grow:
  assumes U: "finite U" "inj_on as_name U"
  shows "set ss \<subseteq> U \<Longrightarrow> queued U x \<Longrightarrow> grows U x (fold bfs_push ss x) \<and> as_name ` set ss \<subseteq> snd (fold bfs_push ss x)"
proof (induction ss arbitrary: x)
  case Nil
  then show ?case by (simp add: grows_refl)
next
  case (Cons s ss)
  have 1: "grows U x (bfs_push s x)" "as_name s \<in> snd (bfs_push s x)"
    using bfs_push_grows [OF U, of s x] Cons.prems by auto
  then have "queued U (bfs_push s x)" by (auto simp: grows_def split: prod.splits)
  with Cons have 2: "grows U (bfs_push s x) (fold bfs_push ss (bfs_push s x))"
    "as_name ` set ss \<subseteq> snd (fold bfs_push ss (bfs_push s x))" by auto
  then have "snd (bfs_push s x) \<subseteq> snd (fold bfs_push ss (bfs_push s x))" by (auto simp: grows_def split: prod.splits)
  with 1 2 grows_trans [OF 1(1) 2(1)] show ?case by auto
qed

section \<open>The search\<close>

definition funcs_ok :: "xegraph \<Rightarrow> string set \<Rightarrow> string list \<Rightarrow> bool" where
  "funcs_ok eg seen funcs \<longleftrightarrow> (\<forall>h \<in> set funcs. \<exists>f. eg_get eg h = Some f
     \<and> as_name ` set (take (extraction_num_children eg f) (xf_input f)) \<subseteq> seen)"

lemma funcs_ok_mono: "funcs_ok eg seen funcs \<Longrightarrow> seen \<subseteq> seen' \<Longrightarrow> funcs_ok eg seen' funcs"
  unfolding funcs_ok_def by (meson order_trans)

text \<open>Every sort seen and no longer in the queue has its inner sorts seen or its tables listed.\<close>

definition visited :: "rev_index \<Rightarrow> string set \<Rightarrow> string list \<Rightarrow> arcsort \<Rightarrow> bool" where
  "visited ridx seen funcs s \<longleftrightarrow>
     (is_container_sort s \<longrightarrow> (\<exists>ss. inner_sorts s = Ok ss \<and> as_name ` set ss \<subseteq> seen))
     \<and> (is_eq_sort s \<longrightarrow> (\<forall>hs. ridx (as_name s) = Some hs \<longrightarrow> set hs \<subseteq> set funcs))"

lemma visited_mono:
  "visited ridx seen funcs s \<Longrightarrow> seen \<subseteq> seen' \<Longrightarrow> set funcs \<subseteq> set funcs' \<Longrightarrow> visited ridx seen' funcs' s"
  unfolding visited_def by (meson order_trans)

definition listed :: "rev_index \<Rightarrow> string list \<Rightarrow> bool" where
  "listed ridx funcs \<longleftrightarrow> (\<forall>h \<in> set funcs. \<exists>n hs. ridx n = Some hs \<and> h \<in> set hs)"

definition settled :: "arcsort set \<Rightarrow> xegraph \<Rightarrow> rev_index \<Rightarrow> bfs_state \<Rightarrow> bool" where
  "settled U eg ridx = (\<lambda>(q, seen, funcs). queued U (q, seen) \<and> funcs_ok eg seen funcs \<and> listed ridx funcs
     \<and> (\<forall>s \<in> U. as_name s \<in> seen \<longrightarrow> s \<notin> set q \<longrightarrow> visited ridx seen funcs s))"

lemma bfs_func_Ok:
  assumes U: "finite U" "sorts_closed U eg" and h: "eg_get eg h \<noteq> None"
    and x: "queued U (q, seen)" "funcs_ok eg seen funcs"
  shows "\<exists>q' seen' funcs'. bfs_func eg h (q, seen, funcs) = Ok (q', seen', funcs')
    \<and> grows U (q, seen) (q', seen') \<and> funcs_ok eg seen' funcs' \<and> set funcs' = insert h (set funcs)"
proof (cases "h \<in> set funcs")
  case True
  then show ?thesis using grows_refl [OF x(1)] x(2) by (auto simp: bfs_func_def)
next
  case False
  obtain f where f: "eg_get eg h = Some f" using h by blast
  let ?ss = "take (extraction_num_children eg f) (xf_input f)"
  have "set ?ss \<subseteq> U" using U(2) f set_take_subset unfolding sorts_closed_def by fastforce
  moreover have "inj_on as_name U" using U(2) by (simp add: sorts_closed_def)
  ultimately have g: "grows U (q, seen) (fold bfs_push ?ss (q, seen))" "as_name ` set ?ss \<subseteq> snd (fold bfs_push ?ss (q, seen))"
    using bfs_pushes_grow [OF U(1) _ _ x(1)] by blast+
  obtain q' seen' where e: "fold bfs_push ?ss (q, seen) = (q', seen')" by force
  have "seen \<subseteq> seen'" using g(1) e by (simp add: grows_def)
  then have "funcs_ok eg seen' (funcs @ [h])"
    using funcs_ok_mono [OF x(2)] g(2) e f by (auto simp: funcs_ok_def)
  then show ?thesis using False f e g(1) by (auto simp: bfs_func_def)
qed

lemma bfs_funcs_Ok:
  assumes U: "finite U" "sorts_closed U eg"
  shows "\<forall>h \<in> set hs. eg_get eg h \<noteq> None \<Longrightarrow> queued U (q, seen) \<Longrightarrow> funcs_ok eg seen funcs
    \<Longrightarrow> \<exists>q' seen' funcs'. fold_out (bfs_func eg) hs (q, seen, funcs) = Ok (q', seen', funcs')
      \<and> grows U (q, seen) (q', seen') \<and> funcs_ok eg seen' funcs' \<and> set funcs' = set hs \<union> set funcs"
proof (induction hs arbitrary: q seen funcs)
  case Nil
  then show ?case by (auto simp: grows_refl)
next
  case (Cons h hs)
  then have "eg_get eg h \<noteq> None" by simp
  from bfs_func_Ok [OF U this Cons.prems(2,3)] obtain q1 seen1 funcs1 where
    1: "bfs_func eg h (q, seen, funcs) = Ok (q1, seen1, funcs1)" "grows U (q, seen) (q1, seen1)"
      "funcs_ok eg seen1 funcs1" "set funcs1 = insert h (set funcs)" by blast
  have "queued U (q1, seen1)" using 1(2) by (simp add: grows_def)
  from Cons.IH [OF _ this 1(3)] Cons.prems(1) obtain q2 seen2 funcs2 where
    2: "fold_out (bfs_func eg) hs (q1, seen1, funcs1) = Ok (q2, seen2, funcs2)" "grows U (q1, seen1) (q2, seen2)"
      "funcs_ok eg seen2 funcs2" "set funcs2 = set hs \<union> set funcs1" by auto
  show ?case using 1 2 grows_trans [OF 1(2) 2(2)] by auto
qed

lemma bfs_step_Ok:
  assumes U: "finite U" "sorts_closed U eg" and ridx: "\<forall>n hs. ridx n = Some hs \<longrightarrow> (\<forall>h \<in> set hs. eg_get eg h \<noteq> None)"
    and st: "settled U eg ridx (q, seen, funcs)" and q: "q \<noteq> []"
  shows "\<exists>q' seen' funcs'. bfs_step eg ridx (q, seen, funcs) = Ok (q', seen', funcs')
    \<and> settled U eg ridx (q', seen', funcs') \<and> unseen U (q', seen') < unseen U (q, seen) \<and> seen \<subseteq> seen'"
proof -
  obtain s q0 where sq: "q = s # q0" using q by (cases q) auto
  have s: "s \<in> U" "as_name s \<in> seen" using st sq by (auto simp: settled_def queued_def)
  have q0: "queued U (q0, seen)" using st sq by (auto simp: settled_def queued_def)
  have inj: "inj_on as_name U" using U(2) by (simp add: sorts_closed_def)
  have funcs: "funcs_ok eg seen funcs" and listed: "listed ridx funcs" using st by (simp_all add: settled_def)
  have less: "unseen U (q0, seen) < unseen U (q, seen)" using sq by (simp add: unseen_def)
  have *: ?thesis
    if step: "bfs_step eg ridx (q, seen, funcs) = Ok (q', seen', funcs')" and g: "grows U (q0, seen) (q', seen')"
      and f: "funcs_ok eg seen' funcs'" "set funcs \<subseteq> set funcs'" and l: "listed ridx funcs'"
      and v: "visited ridx seen' funcs' s" for q' seen' funcs'
  proof -
    have seen: "seen \<subseteq> seen'" "queued U (q', seen')" "unseen U (q', seen') \<le> unseen U (q0, seen)"
      using g by (simp_all add: grows_def)
    have "visited ridx seen' funcs' s'" if s': "s' \<in> U" "as_name s' \<in> seen'" "s' \<notin> set q'" for s'
    proof (cases "s' = s")
      case False
      have "as_name s' \<in> seen" using g s' by (auto simp: grows_def)
      moreover have "s' \<notin> set q" using False s'(3) g sq by (auto simp: grows_def)
      ultimately have "visited ridx seen funcs s'" using st s'(1) by (simp add: settled_def)
      then show ?thesis using visited_mono seen(1) f(2) by blast
    qed (use v in simp)
    then show ?thesis using step seen f(1) l less by (auto simp: settled_def)
  qed
  show ?thesis
  proof (cases "is_container_sort s")
    case True
    then obtain ss where ss: "inner_sorts s = Ok ss" by (cases s) auto
    then have "set ss \<subseteq> U" using U(2) s(1) unfolding sorts_closed_def by blast
    from bfs_pushes_grow [OF U(1) inj this q0] obtain q' seen' where
      g: "fold bfs_push ss (q0, seen) = (q', seen')" "grows U (q0, seen) (q', seen')" "as_name ` set ss \<subseteq> seen'"
      by (metis surj_pair snd_conv)
    show ?thesis
    proof (rule *)
      show "bfs_step eg ridx (q, seen, funcs) = Ok (q', seen', funcs)" using True ss g(1) sq by (simp add: bfs_step_def)
      have "seen \<subseteq> seen'" using g(2) by (simp add: grows_def)
      then show "funcs_ok eg seen' funcs" by (rule funcs_ok_mono [OF funcs])
      have "\<not> is_eq_sort s" using True by (cases s) auto
      then show "visited ridx seen' funcs s" using ss g(3) by (simp add: visited_def)
    qed (use g(2) listed in simp_all)
  next
    case nc: False
    show ?thesis
    proof (cases "is_eq_sort s \<and> ridx (as_name s) \<noteq> None")
      case True
      then obtain hs where hs: "ridx (as_name s) = Some hs" by blast
      with ridx have "\<forall>h \<in> set hs. eg_get eg h \<noteq> None" by blast
      from bfs_funcs_Ok [OF U this q0 funcs] obtain q' seen' funcs' where
        g: "fold_out (bfs_func eg) hs (q0, seen, funcs) = Ok (q', seen', funcs')" "grows U (q0, seen) (q', seen')"
          "funcs_ok eg seen' funcs'" "set funcs' = set hs \<union> set funcs" by blast
      show ?thesis
      proof (rule *)
        show "bfs_step eg ridx (q, seen, funcs) = Ok (q', seen', funcs')"
          using True nc hs g(1) sq by (simp add: bfs_step_def)
        show "visited ridx seen' funcs' s" using nc hs g(4) by (simp add: visited_def)
        show "listed ridx funcs'" using listed hs g(4) unfolding listed_def by blast
      qed (use g in auto)
    next
      case False
      show ?thesis
      proof (rule *)
        show "bfs_step eg ridx (q, seen, funcs) = Ok (q0, seen, funcs)"
          using False nc sq by (auto simp: bfs_step_def)
        show "visited ridx seen funcs s" using nc False by (auto simp: visited_def)
      qed (use funcs listed grows_refl [OF q0] in simp_all)
    qed
  qed
qed

lemma bfs_ends:
  assumes U: "finite U" "sorts_closed U eg" and ridx: "\<forall>n hs. ridx n = Some hs \<longrightarrow> (\<forall>h \<in> set hs. eg_get eg h \<noteq> None)"
    and roots: "set roots \<subseteq> U"
  shows "\<exists>seen funcs. bfs eg ridx roots = Some (Ok ([], seen, funcs)) \<and> settled U eg ridx ([], seen, funcs)
    \<and> as_name ` set roots \<subseteq> seen"
proof -
  let ?P = "\<lambda>r. \<exists>q seen funcs. r = Ok (q, seen, funcs) \<and> settled U eg ridx (q, seen, funcs) \<and> as_name ` set roots \<subseteq> seen"
  let ?m = "\<lambda>r. case r of Ok (q, seen, funcs) \<Rightarrow> unseen U (q, seen) | _ \<Rightarrow> 0"
  let ?b = "\<lambda>r :: (string, bfs_state) outcome. case r of Ok (q, _, _) \<Rightarrow> q \<noteq> [] | _ \<Rightarrow> False"
  let ?c = "\<lambda>r. bind_o r (bfs_step eg ridx)"
  have inj: "inj_on as_name U" using U(2) by (simp add: sorts_closed_def)
  have start: "?P (Ok (roots, set (map as_name roots), []))"
    using roots inj by (auto simp: settled_def queued_def funcs_ok_def listed_def dest: inj_onD)
  have step: "?P (?c r) \<and> ?m (?c r) < ?m r" if P: "?P r" and b: "?b r" for r
  proof -
    obtain q seen funcs where r: "r = Ok (q, seen, funcs)" "settled U eg ridx (q, seen, funcs)" "as_name ` set roots \<subseteq> seen"
      using P by blast
    with b have "q \<noteq> []" by simp
    from bfs_step_Ok [OF U ridx r(2) this] r(1,3) show ?thesis by auto
  qed
  have "\<exists>t. bfs eg ridx roots = Some t" unfolding bfs_def
    by (rule measure_while_option_Some [where P = ?P and f = ?m, OF _ start]) (rule step)
  then obtain t where t: "bfs eg ridx roots = Some t" by blast
  have "?P t"
    by (rule while_option_rule [where P = ?P, OF _ t [unfolded bfs_def] start]) (rule conjunct1 [OF step])
  moreover have "\<not> ?b t" by (rule while_option_stop [OF t [unfolded bfs_def]])
  ultimately show ?thesis using t by auto
qed

end
