(* ===== verification/Extract_Correct.thy ===== *)
theory Extract_Correct
  imports Extract_Reach
begin

text \<open>
  The extractor as a whole: the tree-additive costs satisfy the contract of a strict cost
  model, and extraction with them returns a term of least cost, or fails where the costs
  saturate.
\<close>

section \<open>Terms over the reachable tables\<close>

lemma extracts_mono:
  assumes "F \<subseteq> G"
  shows "extracts cm eg F s v t c \<Longrightarrow> extracts cm eg G s v t c"
    and "extracts_list cm eg F xs ts cs \<Longrightarrow> extracts_list cm eg G xs ts cs"
proof (induction rule: extracts_extracts_list.inducts)
  case (Node s h f row v ts cs)
  moreover have "usable_row eg G h f row (as_name s, v)" using Node assms by (auto simp: usable_row_def)
  ultimately show ?case by (blast intro: extracts_extracts_list.Node)
qed (auto intro: extracts_extracts_list.intros)

lemma child_sort: "(s, v) \<in> set (children eg f vals) \<Longrightarrow> s \<in> set (take (extraction_num_children eg f) (xf_input f))"
  by (fastforce simp: children_def set_zip in_set_conv_nth)

lemma reachable_extracts:
  assumes U: "sorts_closed U eg" and typed: "typed_egraph eg"
    and st: "settled U eg ridx ([], seen, funcs)"
    and ridx: "\<And>h f ts. h \<in> G \<Longrightarrow> eg_get eg h = Some f \<Longrightarrow> extraction_output_sort eg f = Ok ts
      \<Longrightarrow> \<exists>hs. ridx (as_name ts) = Some hs \<and> h \<in> set hs"
  shows "extracts cm eg G s v t c \<Longrightarrow> s \<in> U \<longrightarrow> as_name s \<in> seen \<longrightarrow> has_sort s v
      \<longrightarrow> extracts cm eg (set funcs) s v t c"
    and "extracts_list cm eg G xs ts cs \<Longrightarrow> (\<forall>(s, v) \<in> set xs. s \<in> U \<and> as_name s \<in> seen \<and> has_sort s v)
      \<longrightarrow> extracts_list cm eg (set funcs) xs ts cs"
proof (induction rule: extracts_extracts_list.inducts)
  case (Container s v xs ts cs)
  show ?case
  proof (intro impI)
    assume s: "s \<in> U" "as_name s \<in> seen" "has_sort s v"
    obtain ss where ss: "inner_sorts s = Ok ss" "\<forall>(s', v') \<in> set xs. s' \<in> set ss \<and> has_sort s' v'"
      using has_sort_inner [OF s(3) Container(1)] Container(2) by auto
    moreover have "visited ridx seen funcs s" using st s by (simp add: settled_def)
    moreover have "set ss \<subseteq> U" using U s(1) ss(1) unfolding sorts_closed_def by blast
    ultimately have "\<forall>(s', v') \<in> set xs. s' \<in> U \<and> as_name s' \<in> seen \<and> has_sort s' v'"
      using Container(1) by (fastforce simp: visited_def)
    with Container show "extracts cm eg (set funcs) s v (container_term s v ts) (cm_container cm s v cs)"
      by (blast intro: extracts_extracts_list.Container)
  qed
next
  case (Node s h f row v ts cs)
  show ?case
  proof (intro impI)
    assume s: "s \<in> U" "as_name s \<in> seen" "has_sort s v"
    obtain out where out: "extraction_output_sort eg f = Ok out" "as_name out = as_name s"
      and h: "h \<in> G" "eg_get eg h = Some f" and row: "row \<in> set (xf_rows f)"
      using Node(2) by (auto simp: usable_row_def)
    from ridx [OF h out(1)] out(2) obtain hs where hs: "ridx (as_name s) = Some hs" "h \<in> set hs" by auto
    have "visited ridx seen funcs s" using st s by (simp add: settled_def)
    then have hf: "h \<in> set funcs" using hs Node(1) by (auto simp: visited_def)
    then have seen: "as_name ` set (take (extraction_num_children eg f) (xf_input f)) \<subseteq> seen"
      using st h(2) by (force simp: settled_def funcs_ok_def)
    have "typed_row eg f row" using typed h(2) row by (auto simp: typed_egraph_def)
    then have "\<forall>(s', v') \<in> set (children eg f (row_vals row)). s' \<in> U \<and> as_name s' \<in> seen \<and> has_sort s' v'"
      using seen sorts_closed_children [OF U h(2)] child_sort by (fastforce simp: typed_row_def)
    then have "extracts_list cm eg (set funcs) (children eg f (row_vals row)) ts cs" using Node by blast
    moreover have "usable_row eg (set funcs) h f row (as_name s, v)" using Node(2) hf by (auto simp: usable_row_def)
    ultimately show "extracts cm eg (set funcs) s v (GApp (extraction_term_name f) ts)
        (cm_fold cm (extraction_term_name f) cs (cm_enode cm eg f row))"
      using Node(1) by (blast intro: extracts_extracts_list.Node)
  qed
qed (auto intro: extracts_extracts_list.intros)

section \<open>Computing the costs\<close>

text \<open>The functions of an e-graph are a map: their names are distinct.\<close>

definition wf_egraph :: "arcsort set \<Rightarrow> xegraph \<Rightarrow> bool" where
  "wf_egraph U eg \<longleftrightarrow> finite U \<and> sorts_closed U eg \<and> typed_egraph eg \<and> distinct (map fst (eg_functions eg))"

lemma compute_costs_Ok:
  fixes cm :: "'c::{linorder, finite} cost_model"
  assumes wf: "wf_egraph U eg" and roots: "eo_rootsorts eo = Some roots" "set roots \<subseteq> U"
  shows "\<exists>x. compute_costs_internal cm eo eg = Some (Ok x) \<and> x_rootsorts x = roots
    \<and> bellman_ford cm eg (x_funcs x) = Some (Ok (x_state x)) \<and> set (x_funcs x) \<subseteq> indexed_names eo eg
    \<and> (\<forall>s v t c. s \<in> set roots \<longrightarrow> has_sort s v \<longrightarrow> extracts cm eg (indexed_names eo eg) s v t c
         \<longrightarrow> extracts cm eg (set (x_funcs x)) s v t c)"
proof -
  have names: "\<And>h f. (h, f) \<in> set (eg_functions eg) \<Longrightarrow> \<exists>ts. extraction_output_sort eg f = Ok ts"
    using wf by (auto simp: wf_egraph_def typed_egraph_def eg_get_def)
  have "\<exists>ridx roots'. fold_out (index_func eo eg) (eg_functions eg) (Map.empty, roots) = Ok (ridx, roots')
    \<and> (\<forall>(h, f) \<in> set (eg_functions eg). \<forall>ts. extraction_output_sort eg f = Ok ts \<longrightarrow> indexed eo f
         \<longrightarrow> (\<exists>hs. ridx (as_name ts) = Some hs \<and> h \<in> set hs))
    \<and> (\<forall>n hs. ridx n = Some hs \<longrightarrow> set hs \<subseteq> {h. \<exists>f. (h, f) \<in> set (eg_functions eg) \<and> indexed eo f})
    \<and> (eo_rootsorts eo \<noteq> None \<longrightarrow> roots' = roots)"
    using index_all [of "eg_functions eg" eg eo Map.empty roots] names by (simp del: not_None_eq)
  then obtain ridx roots' where i: "fold_out (index_func eo eg) (eg_functions eg) (Map.empty, roots) = Ok (ridx, roots')"
    and i1: "\<forall>(h, f) \<in> set (eg_functions eg). \<forall>ts. extraction_output_sort eg f = Ok ts \<longrightarrow> indexed eo f
         \<longrightarrow> (\<exists>hs. ridx (as_name ts) = Some hs \<and> h \<in> set hs)"
    and i2: "\<forall>n hs. ridx n = Some hs \<longrightarrow> set hs \<subseteq> {h. \<exists>f. (h, f) \<in> set (eg_functions eg) \<and> indexed eo f}"
    and i3: "roots' = roots" using roots(1) by blast
  have get: "eg_get eg h = Some f \<longleftrightarrow> (h, f) \<in> set (eg_functions eg)" for h f
    using wf by (simp add: wf_egraph_def eg_get_def)
  have ridx_get: "\<forall>n hs. ridx n = Some hs \<longrightarrow> (\<forall>h \<in> set hs. h \<in> indexed_names eo eg)"
    using i2 unfolding indexed_names_def get by blast
  then have known: "\<forall>n hs. ridx n = Some hs \<longrightarrow> (\<forall>h \<in> set hs. eg_get eg h \<noteq> None)"
    unfolding indexed_names_def by blast
  have U: "finite U" "sorts_closed U eg" "typed_egraph eg" using wf by (simp_all add: wf_egraph_def)
  from bfs_ends [OF U(1,2) known roots(2)] obtain seen funcs where
    b: "bfs eg ridx roots = Some (Ok ([], seen, funcs))" "settled U eg ridx ([], seen, funcs)" "as_name ` set roots \<subseteq> seen"
    by blast
  have listed: "\<forall>h \<in> set funcs. h \<in> indexed_names eo eg"
    using b(2) ridx_get unfolding settled_def listed_def by blast
  then have "\<forall>h \<in> set funcs. eg_get eg h \<noteq> None" unfolding indexed_names_def by blast
  from bellman_ford_Ok [OF U(3) this] obtain st :: "'c ext_state" where st: "bellman_ford cm eg funcs = Some (Ok st)"
    by blast
  let ?x = "\<lparr>x_rootsorts = roots, x_funcs = funcs, x_state = st\<rparr>"
  have "compute_costs_internal cm eo eg = Some (Ok ?x)"
    using i i3 roots(1) b(1) st by (simp add: compute_costs_internal_def)
  moreover have "extracts cm eg (set funcs) s v t c"
    if "s \<in> set roots" "has_sort s v" "extracts cm eg (indexed_names eo eg) s v t c" for s v t c
  proof -
    have "\<exists>hs. ridx (as_name ts) = Some hs \<and> h \<in> set hs"
      if "h \<in> indexed_names eo eg" "eg_get eg h = Some f" "extraction_output_sort eg f = Ok ts" for h f ts
    proof -
      have "(h, f) \<in> set (eg_functions eg)" "indexed eo f" using that(1,2) get [of h f] by (simp_all add: indexed_names_def)
      with i1 that(3) show ?thesis by blast
    qed
    note * = reachable_extracts(1) [OF U(2,3) b(2) this that(3)]
    have "s \<in> U" "as_name s \<in> seen" using that(1) b(3) roots(2) by auto
    with * that(2) show ?thesis by simp
  qed
  ultimately show ?thesis using st listed by (intro exI [of _ ?x]) auto
qed

section \<open>Extracting\<close>

context strict_cost
begin

lemma best_term:
  assumes wf: "wf_egraph U eg" and bf: "bellman_ford cm eg (x_funcs x) = Some (Ok (x_state x))"
    and s: "s \<in> U" "has_sort s w" "find_canonical eg v s = Ok w" and d: "wf_dag d"
    and t: "extracts cm eg (set (x_funcs x)) s w t0 c0" "c0 \<noteq> top_cost"
  shows "\<exists>c N. c \<le> c0 \<and> (\<forall>n \<ge> N. \<exists>t d'. extract_best_with_sort n cm eg x v s d = Ok (Some (c, t), d')
    \<and> wf_dag d' \<and> dag_le d d' \<and> t < length (nodes d') \<and> extracts cm eg (set (x_funcs x)) s w (tree d' t) c)
    \<and> (\<forall>t' c'. extracts cm eg (set (x_funcs x)) s w t' c' \<longrightarrow> c \<le> c')"
proof -
  let ?F = "set (x_funcs x)" and ?st = "x_state x"
  have U: "finite U" "sorts_closed U eg" "typed_egraph eg" using wf by (simp_all add: wf_egraph_def)
  have ft: "final_tables cm top_cost eg ?F ?st" by (rule bellman_ford_final [OF U(3) bf])
  obtain r where r: "compute_cost_node cm (ex_costs ?st) s w = Ok r" using cost_node_Ok [OF s(2)] by blast
  then have least: "least_cost cm eg ?F s w r" using ft by (simp add: final_tables_def)
  then obtain c where c: "r = Some c" "\<And>t' c'. extracts cm eg ?F s w t' c' \<Longrightarrow> c \<le> c'"
    using t(1) by (cases r) (auto simp: least_cost_def represented_def)
  have top: "c \<noteq> top_cost" using below_top [OF c(2) [OF t(1)] t(2)] .
  from rebuilds_above [OF ft U(3,2) s(1,2) _ top] r c(1) obtain N
    where N: "\<And>n. n \<ge> N \<Longrightarrow> rebuilds n cm eg ?F U ?st s w c" by blast
  have "\<exists>t d'. extract_best_with_sort n cm eg x v s d = Ok (Some (c, t), d')
      \<and> wf_dag d' \<and> dag_le d d' \<and> t < length (nodes d') \<and> extracts cm eg ?F s w (tree d' t) c" if "n \<ge> N" for n
  proof -
    from N [OF that] d obtain t d' cache' where
      "reconstruct_helper n eg (ex_edge ?st) s w (d, Map.empty) = Ok (t, d', cache')"
      "wf_dag d'" "dag_le d d'" "t < length (nodes d')" "extracts cm eg ?F s w (tree d' t) c"
      unfolding rebuilds_def using cached_empty by blast
    with s(3) r c(1) show ?thesis by (simp add: extract_best_with_sort_def reconstruct_termdag_node_def)
  qed
  with c(2) t(1) show ?thesis by blast
qed

end

section \<open>The default costs\<close>

definition top_u64 :: u64 where
  "top_u64 = - 1"

lemma unat_u64: "unat (a :: u64) < 2 ^ 64"
  using unsigned_less [of a] by simp

lemma unat_top: "unat top_u64 = 2 ^ 64 - 1"
  by (simp add: top_u64_def unsigned_minus_1_eq_mask mask_eq_exp_minus_1)

lemma saturating_add_unat: "saturating_add a b = (if unat a + unat b < 2 ^ 64 then a + b else - 1)"
proof -
  have "uint a + uint b = int (unat a + unat b)" "(2 :: int) ^ 64 = int (2 ^ 64)" by simp_all
  then have "uint a + uint b < 2 ^ 64 \<longleftrightarrow> unat a + unat b < 2 ^ 64" by (simp only: of_nat_less_iff)
  then show ?thesis by (simp add: saturating_add_def)
qed

lemma unat_saturating_add: "unat (saturating_add a b) = min (2 ^ 64 - 1) (unat a + unat b)"
proof (cases "unat a + unat b < 2 ^ 64")
  case True
  then have "unat (a + b) = unat a + unat b" by (simp add: unat_add_lem [symmetric])
  with True show ?thesis by (simp add: saturating_add_unat)
qed (use unat_top in \<open>simp add: saturating_add_unat top_u64_def\<close>)

lemma unat_saturating_sum:
  "unat (foldl saturating_add a cs) = min (2 ^ 64 - 1) (unat a + sum_list (map unat cs))"
proof (induction cs arbitrary: a)
  case Nil
  have "unat a < 2 ^ 64" by (rule unat_u64)
  then show ?case by simp
next
  case (Cons c cs)
  then show ?case by (simp add: unat_saturating_add)
qed

lemma sum_list_unat_mono: "list_all2 (\<le>) cs (ds :: u64 list) \<Longrightarrow> sum_list (map unat cs) \<le> sum_list (map unat ds)"
  by (induction rule: list_all2_induct) (simp_all add: word_le_nat_alt add_mono)

lemma sum_list_unat_strict:
  "list_all2 (\<le>) cs (ds :: u64 list) \<Longrightarrow> sum_list (map unat cs) = sum_list (map unat ds) \<Longrightarrow> cs = ds"
proof (induction rule: list_all2_induct)
  case (Cons c cs d ds)
  have "unat c \<le> unat d" using Cons.hyps(1) by (simp add: word_le_nat_alt)
  moreover have "sum_list (map unat cs) \<le> sum_list (map unat ds)" by (rule sum_list_unat_mono [OF Cons.hyps(2)])
  ultimately have "unat c = unat d" "sum_list (map unat cs) = sum_list (map unat ds)" using Cons.prems by simp_all
  with Cons.IH show ?case by (simp add: word_unat_eq_iff)
qed simp

lemma saturating_mono: "list_all2 (\<le>) cs ds \<Longrightarrow> foldl saturating_add a cs \<le> foldl saturating_add a ds"
  using sum_list_unat_mono [of cs ds] by (simp add: word_le_nat_alt unat_saturating_sum)

lemma saturating_ge: "c \<in> set cs \<Longrightarrow> c \<le> foldl saturating_add a cs"
  using member_le_sum_list [of "unat c" "map unat cs"] unat_u64 [of c]
  by (simp add: word_le_nat_alt unat_saturating_sum trans_le_add2)

lemma saturating_strict:
  assumes "list_all2 (\<le>) cs ds" "foldl saturating_add a cs = foldl saturating_add a ds"
    "foldl saturating_add a ds \<noteq> top_u64"
  shows "cs = ds"
proof -
  have "unat (foldl saturating_add a ds) \<noteq> 2 ^ 64 - 1" using assms(3) by (simp add: word_unat_eq_iff unat_top)
  then have "sum_list (map unat cs) = sum_list (map unat ds)"
    using arg_cong [OF assms(2), of unat] sum_list_unat_mono [OF assms(1)] by (simp add: unat_saturating_sum min_def split: if_splits)
  with assms(1) show ?thesis by (rule sum_list_unat_strict)
qed

interpretation tree_cost: strict_cost tree_additive top_u64
proof
  fix c :: u64
  show "c \<le> top_u64" unfolding top_u64_def by simp
qed (auto simp: tree_additive_def default_container_cost_def u64_cost_def
    intro: saturating_mono saturating_ge saturating_strict)

section \<open>Extraction of a value\<close>

definition user_options :: "arcsort list option \<Rightarrow> ext_options" where
  "user_options roots =
     \<lparr>eo_rootsorts = roots, eo_respect_unextractable = True, eo_skip_view_tables = False, eo_respect_hidden = True\<rparr>"

lemma extract_value_least:
  assumes wf: "wf_egraph U eg" and s: "s \<in> U" "has_sort s w" "find_canonical eg v s = Ok w"
    and t: "extracts tree_additive eg (indexed_names (user_options (Some [s])) eg) s w t0 c0" "c0 \<noteq> top_u64"
  shows "\<exists>N c. \<forall>n \<ge> N. \<exists>t d. extract_value n tree_additive eg s v = Some (Ok (d, t, c))
    \<and> extracts tree_additive eg (indexed_names (user_options (Some [s])) eg) s w (tree d t) c
    \<and> (\<forall>t' c'. extracts tree_additive eg (indexed_names (user_options (Some [s])) eg) s w t' c' \<longrightarrow> c \<le> c')"
proof -
  let ?eo = "user_options (Some [s])"
  have eo: "eo_rootsorts ?eo = Some [s]" "set [s] \<subseteq> U" using s(1) by (simp_all add: user_options_def)
  from compute_costs_Ok [OF wf eo, of tree_additive] obtain x where
    x: "compute_costs_internal tree_additive ?eo eg = Some (Ok x)" "x_rootsorts x = [s]"
      "bellman_ford tree_additive eg (x_funcs x) = Some (Ok (x_state x))" "set (x_funcs x) \<subseteq> indexed_names ?eo eg"
      "\<And>v t c. has_sort s v \<Longrightarrow> extracts tree_additive eg (indexed_names ?eo eg) s v t c
        \<Longrightarrow> extracts tree_additive eg (set (x_funcs x)) s v t c" by auto
  have d: "wf_dag dag_empty" by (simp add: wf_dag_empty)
  from tree_cost.best_term [OF wf x(3) s d x(5) [OF s(2) t(1)] t(2)] obtain c N where
    c: "\<And>n. n \<ge> N \<Longrightarrow> \<exists>t d'. extract_best_with_sort n tree_additive eg x v s dag_empty = Ok (Some (c, t), d')
      \<and> extracts tree_additive eg (set (x_funcs x)) s w (tree d' t) c"
    "\<And>t' c'. extracts tree_additive eg (set (x_funcs x)) s w t' c' \<Longrightarrow> c \<le> c'" by blast
  have "\<exists>t d. extract_value n tree_additive eg s v = Some (Ok (d, t, c))
    \<and> extracts tree_additive eg (indexed_names ?eo eg) s w (tree d t) c" if "n \<ge> N" for n
  proof -
    from c(1) [OF that] obtain t d where
      e: "extract_best_with_sort n tree_additive eg x v s dag_empty = Ok (Some (c, t), d)"
        "extracts tree_additive eg (set (x_funcs x)) s w (tree d t) c" by blast
    have "extract_value n tree_additive eg s v = Some (Ok (d, t, c))"
      using x(1,2) e(1) by (simp add: extract_value_def compute_costs_from_rootsorts_def user_options_def extract_best_def)
    with extracts_mono(1) [OF x(4) e(2)] show ?thesis by blast
  qed
  with c(2) x(5) [OF s(2)] show ?thesis by blast
qed

end
