(* ===== verification/Extract_Variants.thy ===== *)
theory Extract_Variants
  imports Extract_Correct
begin

text \<open>
  Extracting several variants of an e-class: one term for each of its cheapest rows, in the
  order of the costs.
\<close>

section \<open>Sorting\<close>

lemma set_insert_by: "set (insert_by le x xs) = insert x (set xs)"
  by (induction xs) auto

lemma length_insert_by: "length (insert_by le x xs) = Suc (length xs)"
  by (induction xs) auto

lemma sort_by_same [simp]: "set (sort_by le xs) = set xs" "length (sort_by le xs) = length xs"
  unfolding sort_by_def by (induction xs) (auto simp: set_insert_by length_insert_by)

lemma sorted_insert_by:
  "sorted (map fst xs) \<Longrightarrow> sorted (map fst (insert_by (variant_le ids) x xs))"
  by (induction xs) (auto simp: set_insert_by variant_le_def split: prod.splits)

lemma sorted_sort_by: "sorted (map fst (sort_by (variant_le ids) xs))"
  unfolding sort_by_def by (induction xs) (auto intro: sorted_insert_by)

section \<open>The rows of an e-class\<close>

definition root_row :: "'c cost_model \<Rightarrow> xegraph \<Rightarrow> string set \<Rightarrow> 'c ext_state \<Rightarrow> string \<times> xval \<Rightarrow> 'c \<times> string \<times> xval list \<Rightarrow> bool"
where
  "root_row cm eg F st k = (\<lambda>(c, h, vals). \<exists>f row. usable_row eg F h f row k \<and> row_vals row = vals
     \<and> compute_cost_hyperedge cm eg (ex_costs st) row f = Ok (Some c))"

definition priced :: "'c cost_model \<Rightarrow> xegraph \<Rightarrow> string set \<Rightarrow> 'c ext_state \<Rightarrow> string \<times> xval \<Rightarrow> bool" where
  "priced cm eg F st k \<longleftrightarrow> (\<forall>h f row. usable_row eg F h f row k
     \<longrightarrow> (\<exists>c. compute_cost_hyperedge cm eg (ex_costs st) row f = Ok (Some c)))"

lemma root_variant_Ok:
  assumes row: "typed_row eg f row" and h: "h \<in> F" "eg_get eg h = Some f" "extraction_output_sort eg f = Ok ts"
    "as_name ts = as_name s" "row \<in> set (xf_rows f)"
    and all: "priced cm eg F (x_state x) (as_name s, w)"
  shows "\<exists>ws. root_variant cm eg x w h f row vs = Ok (vs @ ws)
    \<and> (\<forall>p \<in> set ws. root_row cm eg F (x_state x) (as_name s, w) p)
    \<and> (usable_row eg F h f row (as_name s, w) \<longrightarrow> (\<exists>c. (c, h, row_vals row) \<in> set ws))"
proof -
  obtain t where t: "nth_opt (row_vals row) (extraction_output_index eg f) = Some t"
    using row by (auto simp: typed_row_def nth_opt_def)
  show ?thesis
  proof (cases "usable_row eg F h f row (as_name s, w)")
    case True
    then obtain c where c: "compute_cost_hyperedge cm eg (ex_costs (x_state x)) row f = Ok (Some c)" using all unfolding priced_def by blast
    then have "root_variant cm eg x w h f row vs = Ok (vs @ [(c, h, row_vals row)])"
      using True t by (auto simp: root_variant_def usable_row_def)
    then show ?thesis using True c by (force simp: root_row_def)
  next
    case False
    then have "row_subsumed row \<or> t \<noteq> w" using t h by (auto simp: usable_row_def)
    then have "root_variant cm eg x w h f row vs = Ok (vs @ [])" using t by (auto simp: root_variant_def)
    then show ?thesis using False by (metis empty_iff list.set(1))
  qed
qed

lemma root_rows_Ok:
  assumes h: "h \<in> F" "eg_get eg h = Some f" "extraction_output_sort eg f = Ok ts" "as_name ts = as_name s"
    and all: "priced cm eg F (x_state x) (as_name s, w)"
  shows "set rows \<subseteq> set (xf_rows f) \<Longrightarrow> \<forall>row \<in> set rows. typed_row eg f row
    \<Longrightarrow> \<exists>ws. fold_out (root_variant cm eg x w h f) rows vs = Ok (vs @ ws)
      \<and> (\<forall>p \<in> set ws. root_row cm eg F (x_state x) (as_name s, w) p)
      \<and> (\<forall>row \<in> set rows. usable_row eg F h f row (as_name s, w) \<longrightarrow> (\<exists>c. (c, h, row_vals row) \<in> set ws))"
proof (induction rows arbitrary: vs)
  case (Cons row rows)
  have row: "typed_row eg f row" "row \<in> set (xf_rows f)" using Cons.prems by auto
  from root_variant_Ok [where vs = vs, OF row(1) h row(2) all] obtain ws where
    1: "root_variant cm eg x w h f row vs = Ok (vs @ ws)" "\<forall>p \<in> set ws. root_row cm eg F (x_state x) (as_name s, w) p"
      "usable_row eg F h f row (as_name s, w) \<longrightarrow> (\<exists>c. (c, h, row_vals row) \<in> set ws)" by blast
  from Cons.IH [of "vs @ ws"] Cons.prems obtain ws' where
    2: "fold_out (root_variant cm eg x w h f) rows (vs @ ws) = Ok ((vs @ ws) @ ws')"
      "\<forall>p \<in> set ws'. root_row cm eg F (x_state x) (as_name s, w) p"
      "\<forall>row \<in> set rows. usable_row eg F h f row (as_name s, w) \<longrightarrow> (\<exists>c. (c, h, row_vals row) \<in> set ws')" by auto
  show ?case
    by (rule exI [of _ "ws @ ws'"]) (use 1 2 in auto)
qed simp

lemma root_variants_Ok:
  assumes typed: "typed_egraph eg" and funcs: "\<forall>h \<in> set (x_funcs x). eg_get eg h \<noteq> None"
    and all: "priced cm eg (set (x_funcs x)) (x_state x) (as_name s, w)"
  shows "\<exists>vs. root_variants cm eg x w s = Ok vs
    \<and> (\<forall>p \<in> set vs. root_row cm eg (set (x_funcs x)) (x_state x) (as_name s, w) p)
    \<and> (\<forall>h f row. usable_row eg (set (x_funcs x)) h f row (as_name s, w) \<longrightarrow> (\<exists>c. (c, h, row_vals row) \<in> set vs))"
proof -
  let ?F = "set (x_funcs x)" and ?k = "(as_name s, w)"
  let ?body = "\<lambda>name vs. bind_o (opt_o Panic (eg_get eg name)) (\<lambda>f.
       bind_o (extraction_output_sort eg f) (\<lambda>ts.
         if as_name ts = as_name s then fold_out (root_variant cm eg x w name f) (xf_rows f) vs else Ok vs))"
  have "set hs \<subseteq> ?F \<Longrightarrow> \<exists>ws. fold_out ?body hs vs = Ok (vs @ ws) \<and> (\<forall>p \<in> set ws. root_row cm eg ?F (x_state x) ?k p)
      \<and> (\<forall>h \<in> set hs. \<forall>f row. usable_row eg ?F h f row ?k \<longrightarrow> (\<exists>c. (c, h, row_vals row) \<in> set ws))" for hs vs
  proof (induction hs arbitrary: vs)
    case (Cons h hs)
    then obtain f ts where f: "h \<in> ?F" "eg_get eg h = Some f" "extraction_output_sort eg f = Ok ts"
      "\<forall>row \<in> set (xf_rows f). typed_row eg f row" using typed funcs by (force simp: typed_egraph_def)
    have "\<exists>ws. ?body h vs = Ok (vs @ ws) \<and> (\<forall>p \<in> set ws. root_row cm eg ?F (x_state x) ?k p)
      \<and> (\<forall>f row. usable_row eg ?F h f row ?k \<longrightarrow> (\<exists>c. (c, h, row_vals row) \<in> set ws))"
    proof (cases "as_name ts = as_name s")
      case True
      from root_rows_Ok [where vs = vs, OF f(1-3) True all subset_refl f(4)] obtain ws where
        "fold_out (root_variant cm eg x w h f) (xf_rows f) vs = Ok (vs @ ws)"
        "\<forall>p \<in> set ws. root_row cm eg ?F (x_state x) ?k p"
        "\<forall>row \<in> set (xf_rows f). usable_row eg ?F h f row ?k \<longrightarrow> (\<exists>c. (c, h, row_vals row) \<in> set ws)" by blast
      then show ?thesis using f(2,3) True by (intro exI [of _ ws]) (auto simp: usable_row_def)
    next
      case False
      then show ?thesis using f(2,3) by (intro exI [of _ "[]"]) (auto simp: usable_row_def)
    qed
    then obtain ws where 1: "?body h vs = Ok (vs @ ws)" "\<forall>p \<in> set ws. root_row cm eg ?F (x_state x) ?k p"
      "\<forall>f row. usable_row eg ?F h f row ?k \<longrightarrow> (\<exists>c. (c, h, row_vals row) \<in> set ws)" by blast
    from Cons.IH [of "vs @ ws"] Cons.prems obtain ws' where 2: "fold_out ?body hs (vs @ ws) = Ok ((vs @ ws) @ ws')"
      "\<forall>p \<in> set ws'. root_row cm eg ?F (x_state x) ?k p"
      "\<forall>h \<in> set hs. \<forall>f row. usable_row eg ?F h f row ?k \<longrightarrow> (\<exists>c. (c, h, row_vals row) \<in> set ws')" by auto
    have "fold_out ?body (h # hs) vs = Ok (vs @ (ws @ ws'))" using 1(1) 2(1) by simp
    moreover have "\<forall>p \<in> set (ws @ ws'). root_row cm eg ?F (x_state x) ?k p" using 1(2) 2(2) by auto
    moreover have "\<forall>h' \<in> set (h # hs). \<forall>f row. usable_row eg ?F h' f row ?k \<longrightarrow> (\<exists>c. (c, h', row_vals row) \<in> set (ws @ ws'))"
      using 1(3) 2(3) by (auto; blast)
    ultimately show ?case by blast
  qed simp
  from this [of "x_funcs x" "[]"] obtain ws where ws: "root_variants cm eg x w s = Ok ws"
    "\<forall>p \<in> set ws. root_row cm eg ?F (x_state x) ?k p"
    "\<forall>h \<in> ?F. \<forall>f row. usable_row eg ?F h f row ?k \<longrightarrow> (\<exists>c. (c, h, row_vals row) \<in> set ws)"
    unfolding root_variants_def by auto
  moreover have "\<exists>c. (c, h, row_vals row) \<in> set ws" if "usable_row eg ?F h f row ?k" for h f row
    using ws(3) that by (meson usable_row_def)
  ultimately show ?thesis by blast
qed

section \<open>Building the variants\<close>

definition variant_term ::
    "'c cost_model \<Rightarrow> xegraph \<Rightarrow> string set \<Rightarrow> arcsort \<Rightarrow> xval \<Rightarrow> 'c \<times> string \<times> xval list \<Rightarrow> 'c \<times> nat \<Rightarrow> termdag \<Rightarrow> bool"
where
  "variant_term cm eg F s w p r d \<longleftrightarrow> fst r = fst p \<and> snd r < length (nodes d) \<and> extracts cm eg F s w (tree d (snd r)) (fst r)"

lemma variant_term_later:
  "variant_term cm eg F s w p r d \<Longrightarrow> wf_dag d \<Longrightarrow> dag_le d d' \<Longrightarrow> variant_term cm eg F s w p r d'"
  using dag_le_length [of d d'] tree_le [of d d' "snd r"] by (auto simp: variant_term_def)

context strict_cost
begin

lemma build_variant_Ok:
  assumes ft: "final_tables cm top_cost eg F st" and typed: "typed_egraph eg" and U: "sorts_closed U eg"
    and s: "is_eq_sort s" and p: "root_row cm eg F st (as_name s, w) (c, h, vals)" "c \<noteq> top_cost"
  shows "\<exists>N. \<forall>n \<ge> N. \<forall>d cache. wf_dag d \<longrightarrow> cached cm eg F U (ex_costs st) d cache
    \<longrightarrow> (\<exists>r d' cache'. build_variant n eg (ex_edge st) (c, h, vals) (d, cache) = Ok (r, d', cache')
          \<and> wf_dag d' \<and> cached cm eg F U (ex_costs st) d' cache' \<and> dag_le d d' \<and> variant_term cm eg F s w (c, h, vals) r d')"
proof -
  obtain f row where row: "usable_row eg F h f row (as_name s, w)" "row_vals row = vals"
    and hc: "compute_cost_hyperedge cm eg (ex_costs st) row f = Ok (Some c)"
    using p(1) by (auto simp: root_row_def)
  have f: "eg_get eg h = Some f" using row by (simp add: usable_row_def)
  have typed_row: "typed_row eg f row" using typed row by (auto simp: typed_egraph_def usable_row_def)
  obtain cs where cs: "collect_some (\<lambda>(s, v). compute_cost_node cm (ex_costs st) s v) (children eg f vals) = Ok (Some cs)"
    "c = cm_fold cm (extraction_term_name f) cs (cm_enode cm eg f row)"
    using hc row(2) by (auto simp: compute_cost_hyperedge_def bind_o_eq_Ok)
  have "\<exists>N. \<forall>n \<ge> N. \<forall>x \<in> set (children eg f vals). \<forall>c \<in> set cs.
      compute_cost_node cm (ex_costs st) (fst x) (snd x) = Ok (Some c) \<longrightarrow> rebuilds n cm eg F U st (fst x) (snd x) c"
  proof (intro rebuilds_mono_list)
    fix x c' assume x: "x \<in> set (children eg f vals)" and c': "c' \<in> set cs"
    obtain s' v' where sv: "x = (s', v')" by force
    have "has_sort s' v'" "s' \<in> U" using typed_row x sv row(2) sorts_closed_children [OF U f, of s' v'] by (auto simp: typed_row_def)
    moreover have "c' \<noteq> top_cost" using collect_below_top(1) [of _ cs _ c'] c' cs(2) p(2) by blast
    ultimately have "compute_cost_node cm (ex_costs st) s' v' = Ok (Some c') \<Longrightarrow> \<exists>N. \<forall>n \<ge> N. rebuilds n cm eg F U st s' v' c'"
      using rebuilds_above [OF ft typed U] by blast
    with sv show "\<exists>N. \<forall>n \<ge> N. compute_cost_node cm (ex_costs st) (fst x) (snd x) = Ok (Some c')
        \<longrightarrow> rebuilds n cm eg F U st (fst x) (snd x) c'" by auto
  qed simp_all
  then obtain N where N: "\<And>n s v c. n \<ge> N \<Longrightarrow> (s, v) \<in> set (children eg f vals)
      \<Longrightarrow> compute_cost_node cm (ex_costs st) s v = Ok (Some c) \<Longrightarrow> c \<in> set cs \<Longrightarrow> rebuilds n cm eg F U st s v c" by fastforce
  have "\<exists>r d' cache'. build_variant n eg (ex_edge st) (c, h, vals) (d, cache) = Ok (r, d', cache')
      \<and> wf_dag d' \<and> cached cm eg F U (ex_costs st) d' cache' \<and> dag_le d d' \<and> variant_term cm eg F s w (c, h, vals) r d'"
    if n: "n \<ge> N" and d: "wf_dag d" "cached cm eg F U (ex_costs st) d cache" for n d cache
  proof -
    from rebuilds_list [OF N [OF n] cs(1) d] obtain ts d1 cache1 where
      ts: "map_out (\<lambda>(s, v) dc. reconstruct_helper n eg (ex_edge st) s v dc) (children eg f vals) (d, cache) = Ok (ts, d1, cache1)"
        "cached cm eg F U (ex_costs st) d1 cache1" "wf_dag d1" "dag_le d d1" "\<forall>t \<in> set ts. t < length (nodes d1)"
        "extracts_list cm eg F (children eg f vals) (map (tree d1) ts) cs" by blast
    obtain t d2 where t: "dag_app (extraction_term_name f) ts d1 = (t, d2)" by force
    note b = builds_app [OF ts(3,5), of "extraction_term_name f", unfolded t]
    have "extracts cm eg F s w (tree d2 t) c"
      using extracts_extracts_list.Node [OF s row(1), unfolded row(2), OF ts(6)] b cs(2) by (simp add: builds_def)
    moreover have "cached cm eg F U (ex_costs st) d2 cache1" "wf_dag d2" "dag_le d d2" "t < length (nodes d2)"
      using b cached_later [OF ts(2,3)] dag_le_trans [OF ts(4)] by (auto simp: builds_def)
    ultimately show ?thesis using f ts(1) t by (simp add: build_variant_def variant_term_def)
  qed
  then show ?thesis by blast
qed

lemma build_variants_Ok:
  assumes ft: "final_tables cm top_cost eg F st" and typed: "typed_egraph eg" and U: "sorts_closed U eg"
    and s: "is_eq_sort s" and ps: "\<forall>p \<in> set ps. root_row cm eg F st (as_name s, w) p \<and> fst p \<noteq> top_cost"
  shows "\<exists>N. \<forall>n \<ge> N. \<forall>d cache. wf_dag d \<longrightarrow> cached cm eg F U (ex_costs st) d cache
    \<longrightarrow> (\<exists>rs d' cache'. map_out (build_variant n eg (ex_edge st)) ps (d, cache) = Ok (rs, d', cache')
          \<and> wf_dag d' \<and> dag_le d d' \<and> list_all2 (\<lambda>p r. variant_term cm eg F s w p r d') ps rs)"
  using ps
proof (induction ps)
  case (Cons p ps)
  obtain c h vals where p: "p = (c, h, vals)" by (cases p)
  with Cons.prems have "root_row cm eg F st (as_name s, w) (c, h, vals)" "c \<noteq> top_cost" by auto
  from build_variant_Ok [OF ft typed U s this] obtain N where
    N: "\<And>n d cache. n \<ge> N \<Longrightarrow> wf_dag d \<Longrightarrow> cached cm eg F U (ex_costs st) d cache
    \<Longrightarrow> \<exists>r d' cache'. build_variant n eg (ex_edge st) p (d, cache) = Ok (r, d', cache')
          \<and> wf_dag d' \<and> cached cm eg F U (ex_costs st) d' cache' \<and> dag_le d d' \<and> variant_term cm eg F s w p r d'"
    unfolding p by blast
  from Cons obtain M where
    M: "\<And>n d cache. n \<ge> M \<Longrightarrow> wf_dag d \<Longrightarrow> cached cm eg F U (ex_costs st) d cache
    \<Longrightarrow> \<exists>rs d' cache'. map_out (build_variant n eg (ex_edge st)) ps (d, cache) = Ok (rs, d', cache')
          \<and> wf_dag d' \<and> dag_le d d' \<and> list_all2 (\<lambda>p r. variant_term cm eg F s w p r d') ps rs"
    by (metis list.set_intros(2))
  have "\<exists>rs d' cache'. map_out (build_variant n eg (ex_edge st)) (p # ps) (d, cache) = Ok (rs, d', cache')
          \<and> wf_dag d' \<and> dag_le d d' \<and> list_all2 (\<lambda>p r. variant_term cm eg F s w p r d') (p # ps) rs"
    if n: "n \<ge> max N M" and d: "wf_dag d" "cached cm eg F U (ex_costs st) d cache" for n d cache
  proof -
    have "n \<ge> N" "n \<ge> M" using n by simp_all
    from N [OF this(1) d] obtain r d1 cache1 where
      1: "build_variant n eg (ex_edge st) p (d, cache) = Ok (r, d1, cache1)" "wf_dag d1"
        "cached cm eg F U (ex_costs st) d1 cache1" "dag_le d d1" "variant_term cm eg F s w p r d1" by blast
    from M [OF \<open>n \<ge> M\<close> 1(2,3)] obtain rs d2 cache2 where
      2: "map_out (build_variant n eg (ex_edge st)) ps (d1, cache1) = Ok (rs, d2, cache2)"
        "wf_dag d2" "dag_le d1 d2" "list_all2 (\<lambda>p r. variant_term cm eg F s w p r d2) ps rs" by blast
    from variant_term_later [OF 1(5,2) 2(3)] dag_le_trans [OF 1(4) 2(3)] 1 2 show ?thesis by simp
  qed
  then show ?case by blast
qed auto

lemma variants_total:
  assumes wf: "wf_egraph U eg" and bf: "bellman_ford cm eg (x_funcs x) = Some (Ok (x_state x))"
    and funcs: "\<forall>h \<in> set (x_funcs x). eg_get eg h \<noteq> None"
    and s: "s \<in> U" "is_eq_sort s" "find_canonical eg v s = Ok w" and d: "wf_dag d"
    and all: "priced cm eg (set (x_funcs x)) (x_state x) (as_name s, w)"
    and below: "\<And>p. root_row cm eg (set (x_funcs x)) (x_state x) (as_name s, w) p \<Longrightarrow> fst p \<noteq> top_cost"
  shows "\<exists>vs N. (\<forall>p \<in> set vs. root_row cm eg (set (x_funcs x)) (x_state x) (as_name s, w) p)
    \<and> (\<forall>h f row. usable_row eg (set (x_funcs x)) h f row (as_name s, w) \<longrightarrow> (\<exists>c. (c, h, row_vals row) \<in> set vs))
    \<and> (\<forall>n \<ge> N. \<exists>res d'. extract_variants_with_sort n cm eg x ids v nv s d = Ok (res, d')
      \<and> list_all2 (\<lambda>p r. variant_term cm eg (set (x_funcs x)) s w p r d') (take nv (sort_by (variant_le ids) vs)) res)"
proof -
  let ?F = "set (x_funcs x)" and ?st = "x_state x"
  have U: "sorts_closed U eg" "typed_egraph eg" using wf by (simp_all add: wf_egraph_def)
  have ft: "final_tables cm top_cost eg ?F ?st" by (rule bellman_ford_final [OF U(2) bf])
  from root_variants_Ok [OF U(2) funcs all] obtain vs where vs: "root_variants cm eg x w s = Ok vs"
    "\<forall>p \<in> set vs. root_row cm eg ?F ?st (as_name s, w) p"
    "\<forall>h f row. usable_row eg ?F h f row (as_name s, w) \<longrightarrow> (\<exists>c. (c, h, row_vals row) \<in> set vs)" by blast
  let ?ps = "take nv (sort_by (variant_le ids) vs)"
  have "\<forall>p \<in> set ?ps. root_row cm eg ?F ?st (as_name s, w) p \<and> fst p \<noteq> top_cost"
    using vs(2) below by (metis in_set_takeD sort_by_same(1))
  from build_variants_Ok [OF ft U(2,1) s(2) this] d cached_empty obtain N where
    "\<And>n. n \<ge> N \<Longrightarrow> \<exists>rs d' cache'. map_out (build_variant n eg (ex_edge ?st)) ?ps (d, Map.empty) = Ok (rs, d', cache')
          \<and> list_all2 (\<lambda>p r. variant_term cm eg ?F s w p r d') ?ps rs" by metis
  then have "\<forall>n \<ge> N. \<exists>res d'. extract_variants_with_sort n cm eg x ids v nv s d = Ok (res, d')
      \<and> list_all2 (\<lambda>p r. variant_term cm eg ?F s w p r d') ?ps res"
    using s(2,3) vs(1) by (fastforce simp: extract_variants_with_sort_def)
  with vs(2,3) show ?thesis by blast
qed

end

lemma list_all2_mem_right: "list_all2 P xs ys \<Longrightarrow> y \<in> set ys \<Longrightarrow> \<exists>x. P x y"
  by (induction rule: list_all2_induct) auto

lemma variants_sorted:
  assumes "list_all2 (\<lambda>p r. variant_term cm eg F s w p r d) (take nv (sort_by (variant_le ids) vs)) res"
  shows "sorted (map fst res)" "length res = min nv (length vs)"
    "\<And>c t. (c, t) \<in> set res \<Longrightarrow> t < length (nodes d) \<and> extracts cm eg F s w (tree d t) c"
proof -
  have "map fst res = map fst (take nv (sort_by (variant_le ids) vs))"
    using assms by (induction rule: list_all2_induct) (simp_all add: variant_term_def)
  then show "sorted (map fst res)" using sorted_wrt_take [OF sorted_sort_by [of ids vs], of nv] by (simp add: take_map)
  show "length res = min nv (length vs)" using list_all2_lengthD [OF assms] by simp
  show "t < length (nodes d) \<and> extracts cm eg F s w (tree d t) c" if r: "(c, t) \<in> set res" for c t
  proof -
    obtain p where "variant_term cm eg F s w p (c, t) d"
      using list_all2_mem_right [OF assms r] by blast
    then show ?thesis unfolding variant_term_def fst_conv snd_conv by blast
  qed
qed

end
