(* ===== verification/Extract_Props.thy ===== *)
theory Extract_Props
  imports Extract_Variants
begin

text \<open>
  What the extractor promises, stated for the default costs, with e-graphs on which each
  statement can be seen to apply.
\<close>

section \<open>Example e-graphs\<close>

text \<open>One sort \<open>T\<close> and constructors over it, each with a cost and its rows.\<close>

definition sample_decl :: "string \<Rightarrow> u64 \<Rightarrow> bool \<Rightarrow> (resolved_call, resolved_var) function_decl" where
  "sample_decl n c un = \<lparr>fd_name = n, fd_subtype = Constructor, fd_impl_kind = Default_Impl, fd_schema = schema_new [] [],
     fd_resolved_schema = RValues [], fd_merge = None, fd_cost = Some c, fd_unextractable = un,
     fd_internal_hidden = False, fd_internal_let = False, fd_span = Span_Panic, fd_term_constructor = None\<rparr>"

definition sample_sort :: arcsort where
  "sample_sort = EqS ''T''"

definition sample_fn :: "string \<Rightarrow> u64 \<Rightarrow> bool \<Rightarrow> arcsort list \<Rightarrow> xval list list \<Rightarrow> string \<times> xfunc" where
  "sample_fn n c un ins rows = (n, \<lparr>xf_decl = sample_decl n c un, xf_input = ins, xf_output = sample_sort,
     xf_extra_outputs = [], xf_rows = map (\<lambda>vs. \<lparr>row_vals = vs, row_subsumed = False\<rparr>) rows, xf_lookup = Map.empty\<rparr>)"

definition sample_egraph :: "(string \<times> xfunc) list \<Rightarrow> xegraph" where
  "sample_egraph fs = \<lparr>eg_functions = fs, eg_fd_views = {}, eg_native_uf = False, eg_native_merge = False,
     eg_proofs_enabled = False, eg_uf_function = Map.empty, eg_uf_parent = Map.empty\<rparr>"

text \<open>The class 0 holds \<open>A\<close> and \<open>F\<close> of class 1, which holds \<open>B\<close> and \<open>F\<close> of class 0.\<close>

definition two_classes :: xegraph where
  "two_classes = sample_egraph [sample_fn ''A'' 5 False [] [[VId 0]],
     sample_fn ''F'' 1 False [sample_sort] [[VId 0, VId 1], [VId 1, VId 0]],
     sample_fn ''B'' 2 False [] [[VId 1]]]"

text \<open>One class of two constants.\<close>

definition two_leaves :: xegraph where
  "two_leaves = sample_egraph [sample_fn ''A'' 5 False [] [[VId 0]], sample_fn ''B'' 2 False [] [[VId 0]]]"

text \<open>\<open>A\<close> and \<open>B\<close> are equal, and \<open>F\<close> of them has the largest cost a constructor can be given.\<close>

definition costly_head :: xegraph where
  "costly_head = sample_egraph [sample_fn ''A'' 5 False [] [[VId 0]], sample_fn ''F'' (- 1) False [sample_sort] [[VId 0, VId 1]],
     sample_fn ''B'' 2 False [] [[VId 0]]]"

text \<open>\<open>F\<close> of \<open>B\<close> and \<open>A\<close> are equal, and \<open>B\<close> is not extractable.\<close>

definition hidden_child :: xegraph where
  "hidden_child = sample_egraph [sample_fn ''A'' 5 False [] [[VId 0]],
     sample_fn ''F'' 1 False [sample_sort] [[VId 1, VId 0]], sample_fn ''B'' 2 True [] [[VId 1]]]"

lemma sample_simps [simp]:
  "fd_name (sample_decl n c un) = n" "fd_subtype (sample_decl n c un) = Constructor" "fd_cost (sample_decl n c un) = Some c"
  "fd_unextractable (sample_decl n c un) = un" "fd_internal_hidden (sample_decl n c un) = False"
  "fd_term_constructor (sample_decl n c un) = None"
  by (simp_all add: sample_decl_def)

lemma sample_has_sort [simp]: "has_sort sample_sort (VId i)"
  by (simp add: has_sort.simps sample_sort_def)

lemma as_name_sample: "as_name sample_sort = ''T''"
  by (simp add: sample_sort_def)

text \<open>Rows with as many children as the function has inputs, all ids, are well typed.\<close>

definition sample_ok :: "string \<times> xfunc \<Rightarrow> bool" where
  "sample_ok = (\<lambda>(n, f). \<exists>c un k rows. (n, f) = sample_fn n c un (replicate k sample_sort) rows
     \<and> (\<forall>vs \<in> set rows. length vs = Suc k \<and> (\<forall>v \<in> set vs. case v of VId _ \<Rightarrow> True | _ \<Rightarrow> False)))"

lemma sample_row:
  assumes "(n, f) = sample_fn n c un (replicate k sample_sort) rows" "row \<in> set (xf_rows f)"
    and vs: "\<forall>vs \<in> set rows. length vs = Suc k \<and> (\<forall>v \<in> set vs. case v of VId _ \<Rightarrow> True | _ \<Rightarrow> False)"
  shows "typed_row (sample_egraph fs) f row"
proof -
  have row: "length (row_vals row) = Suc k" "\<forall>v \<in> set (row_vals row). \<exists>i. v = VId i"
    using assms by (auto simp: sample_fn_def split: xval.splits) (metis xval.exhaust)
  have "has_sort s v" if "(s, v) \<in> set (children (sample_egraph fs) f (row_vals row))" for s v
  proof -
    have "s \<in> set (xf_input f)" "v \<in> set (row_vals row)"
      using that [unfolded children_def] by (auto dest: set_zip_leftD set_zip_rightD in_set_takeD)
    with assms(1) row(2) show ?thesis by (auto simp: sample_fn_def)
  qed
  then show ?thesis
    using assms(1) row(1) by (auto simp: typed_row_def sample_fn_def extraction_output_index_def is_fd_view_def sample_egraph_def)
qed

lemma sample_wf:
  assumes "distinct (map fst fs)" "\<forall>x \<in> set fs. sample_ok x"
  shows "wf_egraph {sample_sort} (sample_egraph fs)"
proof -
  have get: "sample_ok (h, f)" if "eg_get (sample_egraph fs) h = Some f" for h f
    using that assms(2) map_of_SomeD by (fastforce simp: eg_get_def sample_egraph_def)
  have "typed_egraph (sample_egraph fs)"
    unfolding typed_egraph_def
  proof (intro allI impI)
    fix h f assume "eg_get (sample_egraph fs) h = Some f"
    from get [OF this] obtain c un k rows where f: "(h, f) = sample_fn h c un (replicate k sample_sort) rows"
      "\<forall>vs \<in> set rows. length vs = Suc k \<and> (\<forall>v \<in> set vs. case v of VId _ \<Rightarrow> True | _ \<Rightarrow> False)"
      by (auto simp: sample_ok_def)
    then show "fd_name (xf_decl f) = h \<and> (\<exists>ts. extraction_output_sort (sample_egraph fs) f = Ok ts)
        \<and> (\<forall>row \<in> set (xf_rows f). typed_row (sample_egraph fs) f row)"
      using sample_row [OF f(1) _ f(2)]
      by (auto simp: sample_fn_def extraction_output_sort_def is_fd_view_def sample_egraph_def)
  qed
  moreover have "sorts_closed {sample_sort} (sample_egraph fs)"
    unfolding sorts_closed_def
    using get by (fastforce simp: sample_ok_def sample_fn_def sample_sort_def split: if_splits)
  ultimately show ?thesis using assms(1) by (simp add: wf_egraph_def sample_egraph_def)
qed

lemma sample_ok_fn:
  assumes "\<forall>vs \<in> set rows. length vs = Suc k \<and> (\<forall>v \<in> set vs. case v of VId _ \<Rightarrow> True | _ \<Rightarrow> False)"
  shows "sample_ok (sample_fn n c un (replicate k sample_sort) rows)"
proof -
  obtain f where "sample_fn n c un (replicate k sample_sort) rows = (n, f)" by (simp add: sample_fn_def)
  then show ?thesis unfolding sample_ok_def
    by (simp only: case_prod_conv) (intro exI conjI, erule sym, rule assms)
qed

lemmas sample_ok_01 = sample_ok_fn [where k = 0, simplified] sample_ok_fn [where k = "Suc 0", simplified]

lemma fst_sample_fn [simp]: "fst (sample_fn n c un ins rows) = n"
  by (simp add: sample_fn_def)

lemma two_classes_wf: "wf_egraph {sample_sort} two_classes"
  unfolding two_classes_def by (rule sample_wf) (auto intro!: sample_ok_01)

section \<open>The properties\<close>

text \<open>C8: computing the costs ends, whatever 64-bit cost model is used and whatever cycles the
  e-graph has: the search for reachable tables and the Bellman-Ford loop return.\<close>

theorem extraction_ends:
  fixes cm :: "u64 cost_model"
  assumes "wf_egraph U eg" "set roots \<subseteq> U"
  shows "\<exists>x. compute_costs_from_rootsorts (Some roots) eg cm = Some (Ok x)"
  using compute_costs_Ok [OF assms(1), of "user_options (Some roots)" roots cm] assms(2)
  by (auto simp: compute_costs_from_rootsorts_def user_options_def)

theorem extraction_ends_witness:
  "\<exists>x. compute_costs_from_rootsorts (Some [sample_sort]) two_classes tree_additive = Some (Ok x)"
  by (rule extraction_ends [OF two_classes_wf]) simp

text \<open>C7: the recorded cost of a value of a root sort is the least cost of the terms its e-class
  contains, over all functions extraction may use, and there is none exactly when no term can
  be extracted.\<close>

theorem costs_are_least:
  assumes "wf_egraph U eg" "set roots \<subseteq> U" "s \<in> set roots" "has_sort s v"
    and "compute_costs_from_rootsorts (Some roots) eg tree_additive = Some (Ok x)"
  shows "\<exists>r. compute_cost_node tree_additive (ex_costs (x_state x)) s v = Ok r
    \<and> least_cost tree_additive eg (indexed_names (user_options (Some roots)) eg) s v r"
proof -
  let ?G = "indexed_names (user_options (Some roots)) eg"
  have roots: "eo_rootsorts (user_options (Some roots)) = Some roots" by (simp add: user_options_def)
  from compute_costs_Ok [OF assms(1) roots assms(2), of tree_additive] assms(5) have
    bf: "bellman_ford tree_additive eg (x_funcs x) = Some (Ok (x_state x))" and sub: "set (x_funcs x) \<subseteq> ?G"
    and sup: "\<And>s v t c. s \<in> set roots \<Longrightarrow> has_sort s v \<Longrightarrow> extracts tree_additive eg ?G s v t c
      \<Longrightarrow> extracts tree_additive eg (set (x_funcs x)) s v t c"
    by (auto simp: compute_costs_from_rootsorts_def user_options_def)
  obtain r where r: "compute_cost_node tree_additive (ex_costs (x_state x)) s v = Ok r"
    using cost_node_Ok [OF assms(4)] by blast
  have "typed_egraph eg" using assms(1) by (simp add: wf_egraph_def)
  from tree_cost.bellman_ford_final [OF this bf] r
  have "least_cost tree_additive eg (set (x_funcs x)) s v r" by (simp add: final_tables_def)
  moreover have "represented tree_additive eg (set (x_funcs x)) s v = represented tree_additive eg ?G s v"
    unfolding represented_def by (intro ext iff_exI) (rule iffI; erule extracts_mono(1) [OF sub] sup [OF assms(3,4)])
  ultimately have "least_cost tree_additive eg ?G s v r" unfolding least_cost_def by (cases r) simp_all
  with r show ?thesis by blast
qed

theorem costs_are_least_witness:
  "\<exists>(x :: u64 extractor) r. compute_cost_node tree_additive (ex_costs (x_state x)) sample_sort (VId 1) = Ok r
    \<and> least_cost tree_additive two_classes (indexed_names (user_options (Some [sample_sort])) two_classes) sample_sort (VId 1) r"
proof -
  obtain x where "compute_costs_internal tree_additive (user_options (Some [sample_sort])) two_classes = Some (Ok x)"
    using compute_costs_Ok [OF two_classes_wf, of "user_options (Some [sample_sort])" "[sample_sort]" tree_additive]
    by (auto simp: user_options_def)
  then have "compute_costs_from_rootsorts (Some [sample_sort]) two_classes tree_additive = Some (Ok x)"
    by (simp add: compute_costs_from_rootsorts_def user_options_def)
  from costs_are_least [OF two_classes_wf _ _ sample_has_sort [of 1] this] show ?thesis by auto
qed

text \<open>C6: when some term of the value's e-class costs less than the saturation value, extracting
  the value succeeds and returns a term of the e-class, together with its cost, and no term of
  the e-class is cheaper.\<close>

theorem extracted_term_is_least:
  assumes "wf_egraph U eg" "s \<in> U" "has_sort s w" "find_canonical eg v s = Ok w"
    and "extracts tree_additive eg (indexed_names (user_options (Some [s])) eg) s w t0 c0" "c0 \<noteq> top_u64"
  shows "\<exists>N c. \<forall>n \<ge> N. \<exists>t d. extract_value n tree_additive eg s v = Some (Ok (d, t, c))
    \<and> extracts tree_additive eg (indexed_names (user_options (Some [s])) eg) s w (tree d t) c
    \<and> (\<forall>t' c'. extracts tree_additive eg (indexed_names (user_options (Some [s])) eg) s w t' c' \<longrightarrow> c \<le> c')"
  by (rule extract_value_least [OF assms])

lemma sample_row_usable:
  assumes "map_of fs h = Some f" "f = snd (sample_fn h c un ins rows)" "vals \<in> set rows"
    "length vals = Suc (length ins)" "last vals = v" "h \<in> F"
  shows "usable_row (sample_egraph fs) F h f \<lparr>row_vals = vals, row_subsumed = False\<rparr> (''T'', v)"
proof -
  have "vals ! length ins = v" using assms(4,5) last_conv_nth [of vals] by (cases vals) auto
  with assms show ?thesis
  by (auto simp: usable_row_def eg_get_def sample_egraph_def sample_fn_def extraction_output_sort_def is_fd_view_def
      sample_sort_def extraction_output_index_def nth_opt_def)
qed

theorem extracted_term_is_least_witness:
  "\<exists>N c. \<forall>n \<ge> N. \<exists>t d. extract_value n tree_additive two_classes sample_sort (VId 1) = Some (Ok (d, t, c))"
proof -
  let ?G = "indexed_names (user_options (Some [sample_sort])) two_classes"
  have "''B'' \<in> ?G"
    by (auto simp: indexed_names_def two_classes_def eg_get_def sample_egraph_def sample_fn_def indexed_def)
  then have row: "usable_row two_classes ?G ''B'' (snd (sample_fn ''B'' 2 False [] [[VId 1]]))
      \<lparr>row_vals = [VId 1], row_subsumed = False\<rparr> (as_name sample_sort, VId 1)"
    unfolding two_classes_def as_name_sample
    by (intro sample_row_usable [where c = 2 and un = False and ins = "[]" and rows = "[[VId 1]]"])
      (auto simp: sample_fn_def)
  have "is_eq_sort sample_sort" by (simp add: sample_sort_def)
  from extracts_extracts_list.Node [OF this row, of tree_additive "[]" "[]"]
  have t: "extracts tree_additive two_classes ?G sample_sort (VId 1) (GApp ''B'' []) 2"
    by (simp add: sample_fn_def children_def extracts_extracts_list.Nil extraction_term_name_def tree_additive_def
        extraction_head_cost_def)
  have "find_canonical two_classes (VId 1) sample_sort = Ok (VId 1)"
    by (simp add: find_canonical_def two_classes_def sample_egraph_def)
  note ends = extracted_term_is_least [OF two_classes_wf _ sample_has_sort this t]
  have "\<exists>N c. \<forall>n \<ge> N. \<exists>t d. extract_value n tree_additive two_classes sample_sort (VId 1) = Some (Ok (d, t, c))
    \<and> extracts tree_additive two_classes ?G sample_sort (VId 1) (tree d t) c
    \<and> (\<forall>t' c'. extracts tree_additive two_classes ?G sample_sort (VId 1) t' c' \<longrightarrow> c \<le> c')"
    by (rule ends) (simp_all add: top_u64_def)
  then show ?thesis by meson
qed


lemma two_leaves_cost:
  assumes "usable_row two_leaves F h f row k"
  shows "\<exists>c. compute_cost_hyperedge tree_additive two_leaves costs row f = Ok (Some c) \<and> c \<noteq> top_u64"
    "compute_cost_hyperedge tree_additive two_leaves costs row f = Ok (Some top_u64) \<Longrightarrow> False"
proof -
  have "f = snd (sample_fn ''A'' 5 False [] [[VId 0]]) \<or> f = snd (sample_fn ''B'' 2 False [] [[VId 0]])"
    using assms by (auto simp: usable_row_def eg_get_def two_leaves_def sample_egraph_def sample_fn_def split: if_splits)
  then have "compute_cost_hyperedge tree_additive two_leaves costs row f = Ok (Some 5)
      \<or> compute_cost_hyperedge tree_additive two_leaves costs row f = Ok (Some 2)"
    by (auto simp: compute_cost_hyperedge_def children_def sample_fn_def tree_additive_def extraction_head_cost_def)
  then show "\<exists>c. compute_cost_hyperedge tree_additive two_leaves costs row f = Ok (Some c) \<and> c \<noteq> top_u64"
    "compute_cost_hyperedge tree_additive two_leaves costs row f = Ok (Some top_u64) \<Longrightarrow> False"
    by (auto simp: top_u64_def)
qed


lemma costly_head_wf: "wf_egraph {sample_sort} costly_head"
  unfolding costly_head_def by (rule sample_wf) (auto intro!: sample_ok_01)

lemma costly_head_costs:
  "map_option (\<lambda>r. bind_o r (\<lambda>x. bind_o (compute_cost_node tree_additive (ex_costs (x_state x)) sample_sort (VId 1)) (\<lambda>c.
     Ok (c, ex_edge (x_state x) (as_name sample_sort, VId 1)))))
     (compute_costs_from_rootsorts (Some [sample_sort]) costly_head tree_additive) = Some (Ok (Some top_u64, None))"
  by code_simp

lemma hidden_child_variants:
  "map_option (\<lambda>r. bind_o r (\<lambda>x. root_variants tree_additive hidden_child x (VId 0) sample_sort))
     (compute_costs_from_rootsorts (Some [sample_sort]) hidden_child tree_additive) = Some Panic"
  by code_simp



end
