(* ===== verification/Row_Offsets.thy ===== *)
theory Row_Offsets
  imports Egg_Prelude
begin

text \<open>
  \<open>core-relations/src/offsets/mod.rs\<close>: subsets of the rows of a table, as a range or a
  sorted vector of row ids. A row id is a 32-bit number that is built from a \<open>usize\<close> with a
  check; ids are natural numbers here and \<open>row_id\<close> is the check. Pools of vectors are
  allocation only. Debug assertions are not part of the model.
\<close>

section \<open>Row ids and searching\<close>

definition row_id :: "nat \<Rightarrow> (string, nat) outcome" where
  "row_id n = (if int n < 2 ^ 32 then Ok n else Panic)"

text \<open>The result of a search: the index of a match, or where one would be inserted.\<close>

datatype search = Found nat | Absent nat

text \<open>The binary search of slices, which the standard library leaves free to return any match.\<close>

function bsearch :: "nat list \<Rightarrow> nat \<Rightarrow> nat \<Rightarrow> nat \<Rightarrow> search" where
  "bsearch xs t lo hi =
     (if hi \<le> lo then Absent lo
      else let m = (lo + hi) div 2 in
        if xs ! m = t then Found m
        else if xs ! m < t then bsearch xs t (Suc m) hi
        else bsearch xs t lo m)"
  by pat_completeness auto
termination
  by (relation "measure (\<lambda>(xs, t, lo, hi). hi - lo)") auto

declare bsearch.simps [simp del]

definition binary_search :: "nat list \<Rightarrow> nat \<Rightarrow> search" where
  "binary_search xs t = bsearch xs t 0 (length xs)"

fun back_up :: "nat list \<Rightarrow> nat \<Rightarrow> nat \<Rightarrow> nat \<Rightarrow> nat" where
  "back_up xs t start 0 = 0"
| "back_up xs t start (Suc n) = (if start < Suc n \<and> xs ! n = t then back_up xs t start n else Suc n)"

definition binary_search_from :: "nat list \<Rightarrow> nat \<Rightarrow> nat \<Rightarrow> (string, nat) outcome" where
  "binary_search_from xs start t =
     (if length xs < start then Panic
      else (case binary_search (drop start xs) t of
              Found i \<Rightarrow> Ok (back_up xs t 0 (start + i))
            | Absent i \<Rightarrow> Ok (start + i)))"

definition binary_search_by_id :: "nat list \<Rightarrow> nat \<Rightarrow> (string, nat) outcome" where
  "binary_search_by_id xs t = binary_search_from xs 0 t"

text \<open>Galloping: the step is \<open>Suc k\<close>, doubled up to the largest \<open>usize\<close>.\<close>

datatype gallop_result = Hit nat | Narrow nat nat

function gallop :: "nat list \<Rightarrow> nat \<Rightarrow> nat \<Rightarrow> nat \<Rightarrow> gallop_result" where
  "gallop xs t lo k =
     (let probe = lo + Suc k in
      if length xs \<le> probe then Narrow lo (length xs)
      else if xs ! probe < t then gallop xs t probe (nat (min (2 ^ 64 - 2) (2 * int k + 1)))
      else if xs ! probe = t then Hit probe
      else Narrow lo probe)"
  by pat_completeness auto
termination
  by (relation "measure (\<lambda>(xs, t, lo, k). length xs - lo)") auto

declare gallop.simps [simp del]

definition scan_for_offset :: "nat list \<Rightarrow> nat \<Rightarrow> nat \<Rightarrow> search" where
  "scan_for_offset xs start t =
     (if length xs \<le> start then Absent (length xs)
      else if xs ! start = t then Found start
      else if t < xs ! start then Absent start
      else (case gallop xs t start 0 of
              Hit p \<Rightarrow> Found (back_up xs t start p)
            | Narrow lo hi \<Rightarrow>
                (case binary_search (take (hi - Suc lo) (drop (Suc lo) xs)) t of
                   Found i \<Rightarrow> Found (back_up xs t start (Suc lo + i))
                 | Absent i \<Rightarrow> Absent (Suc lo + i))))"

section \<open>Subsets\<close>

record offset_range =
  or_start :: nat
  or_end :: nat

datatype subset = Dense offset_range | Sparse "nat list"

definition range_size :: "offset_range \<Rightarrow> nat" where
  "range_size r = or_end r - or_start r"

fun subset_size :: "subset \<Rightarrow> nat" where
  "subset_size (Dense r) = range_size r"
| "subset_size (Sparse xs) = length xs"

fun is_dense :: "subset \<Rightarrow> bool" where
  "is_dense (Dense _) = True"
| "is_dense (Sparse _) = False"

fun subset_bounds :: "subset \<Rightarrow> (string, (nat \<times> nat) option) outcome" where
  "subset_bounds (Dense r) = Ok (Some (or_start r, or_end r))"
| "subset_bounds (Sparse xs) =
     (if xs = [] then Ok None else bind_o (row_id (Suc (last xs))) (\<lambda>e. Ok (Some (hd xs, e))))"

definition subset_is_empty :: "subset \<Rightarrow> (string, bool) outcome" where
  "subset_is_empty s = bind_o (subset_bounds s) (\<lambda>b. Ok (case b of None \<Rightarrow> True | Some (lo, hi) \<Rightarrow> lo = hi))"

text \<open>The sequence a closure passed to \<open>offsets\<close> sees.\<close>

fun offsets :: "subset \<Rightarrow> nat list" where
  "offsets (Dense r) = [or_start r..<or_end r]"
| "offsets (Sparse xs) = xs"

definition empty_subset :: subset where
  "empty_subset = Dense \<lparr>or_start = 0, or_end = 0\<rparr>"

definition sorted_push :: "nat list \<Rightarrow> nat \<Rightarrow> (string, nat list) outcome" where
  "sorted_push xs x = (if xs = [] \<or> last xs \<le> x then Ok (xs @ [x]) else Panic)"

definition extend_nonoverlapping :: "nat list \<Rightarrow> nat list \<Rightarrow> (string, nat list) outcome" where
  "extend_nonoverlapping xs ys =
     (if ys = [] then Ok xs
      else if xs = [] then Ok ys
      else if last xs \<le> hd ys then Ok (xs @ ys)
      else Panic)"

definition fill_from_dense :: "offset_range \<Rightarrow> nat list" where
  "fill_from_dense r = [or_start r..<or_end r]"

definition subset_to_owned :: "subset \<Rightarrow> (string, subset) outcome" where
  "subset_to_owned s =
     (case s of Dense r \<Rightarrow> Ok (Dense r) | Sparse xs \<Rightarrow> bind_o (extend_nonoverlapping [] xs) (\<lambda>v. Ok (Sparse v)))"

fun add_row_sorted :: "subset \<Rightarrow> nat \<Rightarrow> (string, subset) outcome" where
  "add_row_sorted (Dense r) row =
     (if or_end r = or_start r
      then bind_o (row_id (Suc row)) (\<lambda>e. Ok (Dense \<lparr>or_start = row, or_end = e\<rparr>))
      else if or_end r = row then bind_o (row_id (Suc row)) (\<lambda>e. Ok (Dense (r\<lparr>or_end := e\<rparr>)))
      else bind_o (sorted_push (fill_from_dense r) row) (\<lambda>v. Ok (Sparse v)))"
| "add_row_sorted (Sparse xs) row = bind_o (sorted_push xs row) (\<lambda>v. Ok (Sparse v))"

fun subset_retain :: "(nat \<Rightarrow> bool) \<Rightarrow> subset \<Rightarrow> (string, subset) outcome" where
  "subset_retain f (Dense r) =
     fold_out (\<lambda>row s. if f row then add_row_sorted s row else Ok s) (offsets (Dense r)) empty_subset"
| "subset_retain f (Sparse xs) = Ok (Sparse (filter f xs))"

fun iter_bounded :: "subset \<Rightarrow> nat \<Rightarrow> nat \<Rightarrow> (string, nat list \<times> nat option) outcome" where
  "iter_bounded (Dense r) start e =
     (let rows = [or_start r + start..<min (or_start r + e) (or_end r)]; cur = start + length rows
      in Ok (rows, if cur + or_start r < or_end r then Some cur else None))"
| "iter_bounded (Sparse xs) start e =
     (let e' = min (length xs) e in
      if e' < start then Panic
      else Ok (take (e' - start) (drop start xs), if e' = length xs then None else Some e'))"

section \<open>Intersection\<close>

text \<open>The vectors are overwritten in place: \<open>w\<close> is the number of entries kept so far.\<close>

function skip_less :: "nat list \<Rightarrow> nat \<Rightarrow> nat \<Rightarrow> nat" where
  "skip_less ys t oi = (if oi < length ys \<and> ys ! oi < t then skip_less ys t (Suc oi) else oi)"
  by pat_completeness auto
termination
  by (relation "measure (\<lambda>(ys, t, oi). length ys - oi)") auto

declare skip_less.simps [simp del]

function two_pointer :: "nat list \<Rightarrow> nat list \<Rightarrow> nat \<Rightarrow> nat \<Rightarrow> nat \<Rightarrow> nat list \<times> nat" where
  "two_pointer cur other ci w oi =
     (if length cur \<le> ci then (cur, w)
      else let t = cur ! ci; oi1 = skip_less other t oi in
        if oi1 = length other then (cur, w)
        else if other ! oi1 = t then two_pointer (cur[w := t]) other (Suc ci) (Suc w) (Suc oi1)
        else two_pointer cur other (Suc ci) w oi1)"
  by pat_completeness auto
termination
  by (relation "measure (\<lambda>(cur, other, ci, w, oi). length cur - ci)") auto

declare two_pointer.simps [simp del]

fun gallop_cur :: "nat list \<Rightarrow> nat list \<Rightarrow> nat \<Rightarrow> nat \<Rightarrow> nat list \<times> nat" where
  "gallop_cur [] cur w ci = (cur, w)"
| "gallop_cur (t # ts) cur w ci =
     (if length cur \<le> ci then (cur, w)
      else case scan_for_offset cur ci t of
             Found i \<Rightarrow> gallop_cur ts (cur[w := t]) (Suc w) (Suc i)
           | Absent i \<Rightarrow> gallop_cur ts cur w i)"

fun gallop_other :: "nat list \<Rightarrow> nat list \<Rightarrow> nat \<Rightarrow> nat list" where
  "gallop_other [] other off = []"
| "gallop_other (x # xs) other off =
     (case scan_for_offset other off x of
        Found i \<Rightarrow> x # gallop_other xs other (Suc i)
      | Absent i \<Rightarrow> gallop_other xs other i)"

definition copy_within_front :: "nat list \<Rightarrow> nat \<Rightarrow> nat \<Rightarrow> (string, nat list) outcome" where
  "copy_within_front xs l r =
     (if r < l \<or> length xs < r then Panic else Ok (take (r - l) (drop l xs) @ drop (r - l) xs))"

definition intersect_sparse :: "nat list \<Rightarrow> nat list \<Rightarrow> nat list" where
  "intersect_sparse cur other =
     (let m = length cur; n = length other in
      if m \<le> 16 \<and> n \<le> 16 \<or> m div 4 \<le> n \<and> n \<le> m * 4
      then (let (xs, w) = two_pointer cur other 0 0 0 in take w xs)
      else if n < m then (let (xs, w) = gallop_cur other cur 0 0 in take w xs)
      else gallop_other cur other 0)"

fun subset_intersect :: "subset \<Rightarrow> subset \<Rightarrow> (string, subset) outcome" where
  "subset_intersect (Dense a) (Dense b) =
     (let l = max (or_start a) (or_start b); r = min (or_end a) (or_end b) in
      Ok (if r \<le> l then Dense \<lparr>or_start = l, or_end = l\<rparr> else Dense \<lparr>or_start = l, or_end = r\<rparr>))"
| "subset_intersect (Dense a) (Sparse ys) =
     bind_o (subset_bounds (Sparse ys)) (\<lambda>b.
       if b = None then Ok empty_subset
       else bind_o (binary_search_by_id ys (or_start a)) (\<lambda>l.
         bind_o (binary_search_by_id ys (or_end a)) (\<lambda>r.
           if r \<le> l then Ok empty_subset
           else bind_o (extend_nonoverlapping [] (take (r - l) (drop l ys))) (\<lambda>v. Ok (Sparse v)))))"
| "subset_intersect (Sparse xs) (Dense b) =
     bind_o (binary_search_by_id xs (or_start b)) (\<lambda>l.
       bind_o (binary_search_from xs l (or_end b)) (\<lambda>r.
         if l = 0 then Ok (Sparse (take r xs))
         else bind_o (copy_within_front xs l r) (\<lambda>v. Ok (Sparse (take (r - l) v)))))"
| "subset_intersect (Sparse xs) (Sparse ys) = Ok (Sparse (intersect_sparse xs ys))"

end
