(* ===== verification/Row_Sets.thy ===== *)
theory Row_Sets
  imports Row_Offsets
begin

text \<open>
  Subsets of rows as sets: the searches find the first place of an id, and the intersection
  of two subsets, whichever of the algorithms runs, lists the ids in both, in order.
\<close>

section \<open>Searching\<close>

lemma bsearch_spec:
  "sorted xs \<Longrightarrow> hi \<le> length xs \<Longrightarrow> \<forall>j < lo. xs ! j < t \<Longrightarrow> \<forall>j. hi \<le> j \<longrightarrow> j < length xs \<longrightarrow> t < xs ! j \<Longrightarrow> lo \<le> hi
    \<Longrightarrow> case bsearch xs t lo hi of
          Found i \<Rightarrow> i < length xs \<and> xs ! i = t
        | Absent i \<Rightarrow> i \<le> length xs \<and> (\<forall>j < i. xs ! j < t) \<and> (\<forall>j. i \<le> j \<longrightarrow> j < length xs \<longrightarrow> t < xs ! j)"
proof (induction xs t lo hi rule: bsearch.induct)
  case (1 xs t lo hi)
  show ?case
  proof (cases "hi \<le> lo")
    case True
    with 1 have "lo = hi" by simp
    with 1 show ?thesis by (simp add: bsearch.simps [of xs t hi hi])
  next
    case False
    define m where "m = (lo + hi) div 2"
    have m: "lo \<le> m" "m < hi" using False by (simp_all add: m_def)
    have step: "bsearch xs t lo hi = (if xs ! m = t then Found m else if xs ! m < t then bsearch xs t (Suc m) hi else bsearch xs t lo m)"
      using False by (subst bsearch.simps) (simp add: m_def Let_def)
    consider "xs ! m = t" | "xs ! m < t" | "t < xs ! m" by linarith
    then show ?thesis
    proof cases
      case 1
      with m "1.prems" step show ?thesis by simp
    next
      case 2
      have "\<forall>j < Suc m. xs ! j < t"
      proof (intro allI impI)
        fix j assume "j < Suc m"
        then have "xs ! j \<le> xs ! m" using m "1.prems"(1,2) by (simp add: sorted_nth_mono)
        with 2 show "xs ! j < t" by simp
      qed
      with "1.IH"(1) [OF False m_def _ 2] 2 "1.prems" m step show ?thesis by simp
    next
      case 3
      have "\<forall>j. m \<le> j \<longrightarrow> j < length xs \<longrightarrow> t < xs ! j"
      proof (intro allI impI)
        fix j assume "m \<le> j" "j < length xs"
        then have "xs ! m \<le> xs ! j" using "1.prems"(1) by (simp add: sorted_nth_mono)
        with 3 show "t < xs ! j" by simp
      qed
      moreover have "\<not> xs ! m < t" "xs ! m \<noteq> t" using 3 by simp_all
      ultimately show ?thesis using "1.IH"(2) [OF False m_def] "1.prems" m step by simp
    qed
  qed
qed

lemma binary_search_spec:
  "sorted xs \<Longrightarrow> case binary_search xs t of
      Found i \<Rightarrow> i < length xs \<and> xs ! i = t
    | Absent i \<Rightarrow> i \<le> length xs \<and> (\<forall>j < i. xs ! j < t) \<and> (\<forall>j. i \<le> j \<longrightarrow> j < length xs \<longrightarrow> t < xs ! j)"
  unfolding binary_search_def by (rule bsearch_spec) simp_all

text \<open>The first position of an id not below the target.\<close>

definition lower_bound :: "nat list \<Rightarrow> nat \<Rightarrow> nat" where
  "lower_bound xs t = length (takeWhile (\<lambda>x. x < t) xs)"

lemma lower_bound_eqI:
  assumes "i \<le> length xs" "\<forall>j < i. xs ! j < t" "i < length xs \<Longrightarrow> t \<le> xs ! i"
  shows "lower_bound xs t = i"
proof -
  have "takeWhile (\<lambda>x. x < t) xs = take i xs"
    using assms by (intro takeWhile_eq_take_P_nth) auto
  then show ?thesis using assms(1) by (simp add: lower_bound_def)
qed

lemma lower_bound_le: "lower_bound xs t \<le> length xs"
  by (simp add: lower_bound_def length_takeWhile_le)

lemma lower_bound_less: "j < lower_bound xs t \<Longrightarrow> xs ! j < t"
  unfolding lower_bound_def by (metis nth_mem set_takeWhileD takeWhile_nth)

lemma lower_bound_ge: "sorted xs \<Longrightarrow> lower_bound xs t \<le> j \<Longrightarrow> j < length xs \<Longrightarrow> t \<le> xs ! j"
  unfolding lower_bound_def
  by (metis leI nth_length_takeWhile order_trans sorted_nth_mono leD le_less_trans)

lemma back_up_spec:
  assumes "sorted xs" "start \<le> n" "n < length xs" "xs ! n = t" "\<forall>j < start. xs ! j < t"
  shows "back_up xs t start n = lower_bound xs t"
  using assms
proof (induction n)
  case 0
  then have "lower_bound xs t = 0" by (intro lower_bound_eqI) auto
  then show ?case by simp
next
  case (Suc n)
  show ?case
  proof (cases "start < Suc n \<and> xs ! n = t")
    case True
    with Suc show ?thesis by simp
  next
    case False
    have "\<forall>j < Suc n. xs ! j < t"
    proof (intro allI impI)
      fix j assume j: "j < Suc n"
      show "xs ! j < t"
      proof (cases "start = Suc n")
        case True
        with j Suc.prems(5) show ?thesis by simp
      next
        case neq: False
        then have "xs ! n \<noteq> t" using False Suc.prems(2) by simp
        moreover have "xs ! j \<le> xs ! n" "xs ! n \<le> xs ! Suc n"
          using j Suc.prems(1,3) by (simp_all add: sorted_nth_mono)
        ultimately show ?thesis using Suc.prems(4) by simp
      qed
    qed
    then have "lower_bound xs t = Suc n" using Suc.prems by (intro lower_bound_eqI) auto
    moreover have "back_up xs t start (Suc n) = Suc n" using False by auto
    ultimately show ?thesis by simp
  qed
qed

lemma binary_search_from_spec:
  assumes "sorted xs" "start \<le> length xs" "\<forall>j < start. xs ! j < t"
  shows "binary_search_from xs start t = Ok (lower_bound xs t)"
proof -
  have d: "sorted (drop start xs)" using assms(1) by (rule sorted_wrt_drop)
  show ?thesis
  proof (cases "binary_search (drop start xs) t")
    case (Found i)
    with binary_search_spec [OF d, of t] have i: "i < length (drop start xs)" "drop start xs ! i = t" by simp_all
    then have "start + i < length xs" "xs ! (start + i) = t" by simp_all
    with back_up_spec [OF assms(1), of 0 "start + i" t] Found assms(2) show ?thesis
      by (simp add: binary_search_from_def)
  next
    case (Absent i)
    with binary_search_spec [OF d, of t] have i: "i \<le> length xs - start" "\<forall>j < i. xs ! (start + j) < t"
      "\<forall>j. i \<le> j \<longrightarrow> j < length xs - start \<longrightarrow> t < xs ! (start + j)" using assms(2) by (auto simp: nth_drop)
    have "xs ! j < t" if "j < start + i" for j
      using assms(3) i(2) that by (cases "j < start") (auto dest: spec [of _ "j - start"])
    then have "lower_bound xs t = start + i"
      using i(1,3) assms(2) by (intro lower_bound_eqI) (auto dest: spec [of _ i])
    then show ?thesis using Absent assms(2) by (simp add: binary_search_from_def)
  qed
qed

lemma gallop_spec:
  "sorted xs \<Longrightarrow> lo < length xs \<Longrightarrow> xs ! lo < t \<Longrightarrow>
    case gallop xs t lo k of
      Hit p \<Rightarrow> lo < p \<and> p < length xs \<and> xs ! p = t
    | Narrow l h \<Rightarrow> lo \<le> l \<and> l < h \<and> h \<le> length xs \<and> xs ! l < t \<and> (h < length xs \<longrightarrow> t < xs ! h)"
proof (induction xs t lo k rule: gallop.induct)
  case (1 xs t lo k)
  let ?p = "lo + Suc k"
  show ?case
  proof (cases "length xs \<le> ?p")
    case True
    with "1.prems" show ?thesis by (subst gallop.simps) (simp add: Let_def)
  next
    case False
    show ?thesis
    proof (cases "xs ! ?p < t")
      case True
      from "1.IH" [OF refl False True] False True "1.prems"(1)
      show ?thesis by (subst gallop.simps) (force simp: Let_def split: gallop_result.splits)
    next
      case ge: False
      with False "1.prems" show ?thesis by (subst gallop.simps) (auto simp: Let_def)
    qed
  qed
qed

lemma lower_bound_drop:
  "\<forall>j < start. xs ! j < t \<Longrightarrow> start \<le> length xs \<Longrightarrow> start + lower_bound (drop start xs) t = lower_bound xs t"
  unfolding lower_bound_def
  by (metis (no_types, lifting) append_take_drop_id in_set_conv_nth length_append length_take min.absorb2 nth_take takeWhile_append2)

lemma scan_for_offset_spec:
  fixes t
  assumes xs: "sorted xs" "start \<le> length xs"
  defines "i \<equiv> start + lower_bound (drop start xs) t"
  shows "scan_for_offset xs start t = (if i < length xs \<and> xs ! i = t then Found i else Absent i)"
proof -
  consider "start = length xs" | "start < length xs" "xs ! start = t" | "start < length xs" "t < xs ! start"
    | "start < length xs" "xs ! start < t" using xs(2) by linarith
  then show ?thesis
  proof cases
    case 1
    then show ?thesis by (simp add: scan_for_offset_def i_def lower_bound_def)
  next
    case 2
    then have "lower_bound (drop start xs) t = 0" by (intro lower_bound_eqI) auto
    with 2 show ?thesis by (simp add: scan_for_offset_def i_def)
  next
    case 3
    then have "lower_bound (drop start xs) t = 0" by (intro lower_bound_eqI) auto
    with 3 show ?thesis by (simp add: scan_for_offset_def i_def)
  next
    case 4
    have before: "xs ! j < t" if "j \<le> l" "l < length xs" "xs ! l < t" for j l
      using sorted_nth_mono [OF xs(1) that(1,2)] that(3) by simp
    have i: "i = lower_bound xs t"
      unfolding i_def using before [OF _ 4] xs(2) by (intro lower_bound_drop) auto
    have found: "Found (back_up xs t start p) = (if i < length xs \<and> xs ! i = t then Found i else Absent i)"
      if p: "start \<le> p" "p < length xs" "xs ! p = t" for p
    proof -
      have "back_up xs t start p = i"
        using back_up_spec [OF xs(1) p] before [OF _ 4] i by simp
      moreover have "i \<le> p" using lower_bound_less [of p xs t] p(3) i by (metis leI less_irrefl)
      moreover have "xs ! i = t"
        using lower_bound_ge [OF xs(1), of t i] sorted_nth_mono [OF xs(1) \<open>i \<le> p\<close> p(2)] p(2,3) i \<open>i \<le> p\<close> by simp
      ultimately show ?thesis using p(2) by simp
    qed
    show ?thesis
    proof (cases "gallop xs t start 0")
      case (Hit p)
      with gallop_spec [OF xs(1) 4, of 0] found [of p] 4 show ?thesis by (simp add: scan_for_offset_def)
    next
      case (Narrow l h)
      with gallop_spec [OF xs(1) 4, of 0] have n: "start \<le> l" "l < h" "h \<le> length xs" "xs ! l < t"
        "h < length xs \<longrightarrow> t < xs ! h" by simp_all
      let ?ys = "take (h - Suc l) (drop (Suc l) xs)"
      have ys: "sorted ?ys" "length ?ys = h - Suc l" using xs(1) n by (simp_all add: sorted_wrt_take sorted_wrt_drop)
      have scan: "scan_for_offset xs start t = (case binary_search ?ys t of
          Found i \<Rightarrow> Found (back_up xs t start (Suc l + i)) | Absent i \<Rightarrow> Absent (Suc l + i))"
        using 4 Narrow by (simp add: scan_for_offset_def)
      show ?thesis
      proof (cases "binary_search ?ys t")
        case (Found p)
        with binary_search_spec [OF ys(1), of t] ys(2) have p: "p < h - Suc l" "xs ! (Suc l + p) = t" by auto
        with found [of "Suc l + p"] n scan Found show ?thesis by simp
      next
        case (Absent p)
        with binary_search_spec [OF ys(1), of t] ys(2) n have p: "p \<le> h - Suc l" "\<forall>j < p. xs ! (Suc l + j) < t"
          "\<forall>j. p \<le> j \<longrightarrow> j < h - Suc l \<longrightarrow> t < xs ! (Suc l + j)" by auto
        have 1: "xs ! j < t" if "j < Suc l + p" for j
        proof (cases "j \<le> l")
          case True
          with before n show ?thesis by simp
        next
          case False
          then have "Suc l + (j - Suc l) = j" "j - Suc l < p" using that by auto
          with p(2) show ?thesis by metis
        qed
        have 2: "t < xs ! (Suc l + p)" if "Suc l + p < length xs"
        proof (cases "Suc l + p < h")
          case True
          with p(3) show ?thesis by simp
        next
          case False
          then have "Suc l + p = h" using p(1) n(2) by simp
          with n(5) that show ?thesis by simp
        qed
        have "i = Suc l + p" unfolding i using 1 2 p(1) n by (intro lower_bound_eqI) auto
        with 2 scan Absent show ?thesis by auto
      qed
    qed
  qed
qed

text \<open>What remains of the vector after the search.\<close>

lemma scan_cases:
  assumes "sorted xs" "start \<le> length xs"
  obtains (End) "dropWhile (\<lambda>x. x < t) (drop start xs) = []" "scan_for_offset xs start t = Absent (length xs)"
    | (Rest) i y ys where "dropWhile (\<lambda>x. x < t) (drop start xs) = y # ys" "drop i xs = y # ys" "start \<le> i" "i < length xs"
        "t \<le> y" "scan_for_offset xs start t = (if y = t then Found i else Absent i)"
proof -
  let ?i = "start + lower_bound (drop start xs) t"
  have d: "dropWhile (\<lambda>x. x < t) (drop start xs) = drop ?i xs"
    unfolding lower_bound_def by (metis add.commute drop_drop dropWhile_eq_drop)
  have le: "?i \<le> length xs" using lower_bound_le [of "drop start xs" t] assms(2) by simp
  note scan = scan_for_offset_spec [OF assms, of t]
  show thesis
  proof (cases "?i < length xs")
    case True
    then have r: "drop ?i xs = xs ! ?i # drop (Suc ?i) xs" by (metis Cons_nth_drop_Suc)
    then have "t \<le> xs ! ?i" using d by (metis hd_dropWhile leI list.distinct(1) list.sel(1))
    with Rest [OF d [unfolded r] r _ True] scan True show thesis by simp
  next
    case False
    with le have "?i = length xs" by simp
    with End d scan show thesis by simp
  qed
qed

section \<open>Intersection of sorted vectors\<close>

text \<open>The reference: merging two lists, keeping what occurs in both.\<close>

fun sorted_inter :: "nat list \<Rightarrow> nat list \<Rightarrow> nat list" where
  "sorted_inter [] ys = []"
| "sorted_inter (x # xs) [] = []"
| "sorted_inter (x # xs) (y # ys) =
     (if x = y then x # sorted_inter xs ys
      else if x < y then sorted_inter xs (y # ys)
      else sorted_inter (x # xs) ys)"

lemma sorted_inter_Nil [simp]: "sorted_inter xs [] = []"
  by (cases xs) simp_all

lemma sorted_inter_skip_right: "sorted_inter (x # xs) (dropWhile (\<lambda>y. y < x) ys) = sorted_inter (x # xs) ys"
  by (induction ys) auto

lemma sorted_inter_skip_left: "sorted_inter (dropWhile (\<lambda>x. x < y) xs) (y # ys) = sorted_inter xs (y # ys)"
  by (induction xs) auto

lemma set_sorted_inter: "sorted xs \<Longrightarrow> sorted ys \<Longrightarrow> set (sorted_inter xs ys) = set xs \<inter> set ys"
  by (induction xs ys rule: sorted_inter.induct) auto

lemma sorted_inter_filter:
  "sorted_wrt (<) xs \<Longrightarrow> sorted_wrt (<) ys \<Longrightarrow> sorted_inter xs ys = filter (\<lambda>x. x \<in> set ys) xs"
proof (induction xs ys rule: sorted_inter.induct)
  case (3 x xs y ys)
  consider "x = y" | "x < y" | "y < x" by linarith
  then show ?case
  proof cases
    case 1
    have "filter (\<lambda>z. z \<in> set ys) xs = filter (\<lambda>z. z \<in> set (y # ys)) xs"
      using 3 1 by (intro filter_cong) auto
    with 1 3 show ?thesis by simp
  next
    case 2
    with 3 show ?thesis by auto
  next
    case 3
    then have "filter (\<lambda>z. z \<in> set ys) (x # xs) = filter (\<lambda>z. z \<in> set (y # ys)) (x # xs)"
      using "3.prems" by (intro filter_cong) auto
    with 3 "3.IH"(3) "3.prems" show ?thesis by simp
  qed
qed simp_all

lemma skip_less_drop:
  "oi \<le> length ys \<Longrightarrow> drop (skip_less ys t oi) ys = dropWhile (\<lambda>y. y < t) (drop oi ys) \<and> skip_less ys t oi \<le> length ys"
proof (induction ys t oi rule: skip_less.induct)
  case (1 ys t oi)
  show ?case
  proof (cases "oi < length ys")
    case True
    then have "drop oi ys = ys ! oi # drop (Suc oi) ys" by (metis Cons_nth_drop_Suc)
    with 1 True show ?thesis by (subst (1 2) skip_less.simps) auto
  next
    case False
    with 1 show ?thesis by (subst (1 2) skip_less.simps) simp
  qed
qed

text \<open>Each loop keeps the entries already accepted and appends the rest of the intersection.\<close>

lemma two_pointer_spec:
  "w \<le> ci \<Longrightarrow> oi \<le> length other \<Longrightarrow>
    (case two_pointer cur other ci w oi of (xs, n) \<Rightarrow>
      take n xs = take w cur @ sorted_inter (drop ci cur) (drop oi other))"
proof (induction cur other ci w oi rule: two_pointer.induct)
  case (1 cur other ci w oi)
  show ?case
  proof (cases "ci < length cur")
    case True
    define t oi1 where "t = cur ! ci" and "oi1 = skip_less other t oi"
    have cur: "drop ci cur = t # drop (Suc ci) cur" using True by (simp add: t_def Cons_nth_drop_Suc)
    have oi1: "drop oi1 other = dropWhile (\<lambda>y. y < t) (drop oi other)" "oi1 \<le> length other"
      using skip_less_drop [OF "1.prems"(2), of t] by (simp_all add: oi1_def)
    have inter: "sorted_inter (drop ci cur) (drop oi other) = sorted_inter (t # drop (Suc ci) cur) (drop oi1 other)"
      by (simp add: cur oi1(1) sorted_inter_skip_right)
    have step: "two_pointer cur other ci w oi =
        (if oi1 = length other then (cur, w)
         else if other ! oi1 = t then two_pointer (cur[w := t]) other (Suc ci) (Suc w) (Suc oi1)
         else two_pointer cur other (Suc ci) w oi1)"
      using True by (subst two_pointer.simps) (simp add: t_def oi1_def Let_def)
    show ?thesis
    proof (cases "oi1 = length other")
      case True
      with step inter show ?thesis by simp
    next
      case False
      then have o: "drop oi1 other = other ! oi1 # drop (Suc oi1) other" using oi1(2) by (simp add: Cons_nth_drop_Suc)
      have ge: "t \<le> other ! oi1"
        using hd_dropWhile [of "\<lambda>y. y < t" "drop oi other"] oi1(1) o by (metis leI list.distinct(1) list.sel(1))
      have nc: "\<not> length cur \<le> ci" using True by simp
      show ?thesis
      proof (cases "other ! oi1 = t")
        case eq: True
        have "take (Suc w) (cur[w := t]) = take w cur @ [t]" "drop (Suc ci) (cur[w := t]) = drop (Suc ci) cur"
          using "1.prems"(1) True by (simp_all add: take_Suc_conv_app_nth)
        with "1.IH"(1) [OF nc t_def oi1_def False eq] "1.prems" oi1(2) False step eq inter o
        show ?thesis by (auto split: prod.splits)
      next
        case neq: False
        with ge have "t < other ! oi1" by simp
        then have "sorted_inter (t # drop (Suc ci) cur) (drop oi1 other) = sorted_inter (drop (Suc ci) cur) (drop oi1 other)"
          by (simp add: o)
        with "1.IH"(2) [OF nc t_def oi1_def False neq] "1.prems" oi1(2) False step neq inter
        show ?thesis by (auto split: prod.splits)
      qed
    qed
  next
    case False
    then show ?thesis by (subst two_pointer.simps) simp
  qed
qed

lemma drop_Suc_tl: "drop i xs = y # ys \<Longrightarrow> drop (Suc i) xs = ys"
  by (metis drop_Suc list.sel(3) tl_drop)

text \<open>A search from \<open>start\<close> sees only the entries from there on.\<close>

lemma gallop_cong:
  "length xs = length ys \<Longrightarrow> \<forall>j. start \<le> j \<longrightarrow> j < length xs \<longrightarrow> xs ! j = ys ! j \<Longrightarrow> start \<le> lo
    \<Longrightarrow> gallop xs t lo k = gallop ys t lo k"
proof (induction xs t lo k rule: gallop.induct)
  case (1 xs t lo k)
  show ?case
  proof (cases "length xs \<le> lo + Suc k \<or> \<not> xs ! (lo + Suc k) < t")
    case True
    with "1.prems" show ?thesis by (subst (1 2) gallop.simps) (auto simp: Let_def)
  next
    case False
    with "1.IH" [OF refl] "1.prems" show ?thesis by (subst (1 2) gallop.simps) (auto simp: Let_def)
  qed
qed

lemma gallop_range:
  "lo < length xs \<Longrightarrow> case gallop xs t lo k of Hit p \<Rightarrow> p < length xs | Narrow l h \<Rightarrow> lo \<le> l \<and> l < h \<and> h \<le> length xs"
proof (induction xs t lo k rule: gallop.induct)
  case (1 xs t lo k)
  show ?case
  proof (cases "length xs \<le> lo + Suc k \<or> \<not> xs ! (lo + Suc k) < t")
    case True
    with "1.prems" show ?thesis by (subst gallop.simps) (auto simp: Let_def)
  next
    case False
    with "1.IH" [OF refl] show ?thesis
      by (subst gallop.simps) (force simp: Let_def split: gallop_result.splits)
  qed
qed

lemma bsearch_range: "bsearch xs t lo hi = Found i \<Longrightarrow> i < hi"
proof (induction xs t lo hi rule: bsearch.induct)
  case (1 xs t lo hi)
  define m where "m = (lo + hi) div 2"
  from "1.prems" have "\<not> hi \<le> lo" by (subst (asm) bsearch.simps) (auto split: if_splits)
  then show ?case using "1.IH" [OF _ m_def] "1.prems" m_def
    by (subst (asm) bsearch.simps) (auto simp: Let_def split: if_splits)
qed

lemma back_up_cong:
  "\<forall>j. start \<le> j \<longrightarrow> j < length xs \<longrightarrow> xs ! j = ys ! j \<Longrightarrow> n \<le> length xs
    \<Longrightarrow> back_up xs t start n = back_up ys t start n"
  by (induction n) auto

lemma scan_for_offset_cong:
  assumes d: "drop start xs = drop start ys" "length xs = length ys"
  shows "scan_for_offset xs start t = scan_for_offset ys start t"
proof (cases "start < length xs")
  case True
  have nth: "\<forall>j. start \<le> j \<longrightarrow> j < length xs \<longrightarrow> xs ! j = ys ! j"
  proof (intro allI impI)
    fix j assume "start \<le> j" "j < length xs"
    then show "xs ! j = ys ! j" using arg_cong [OF d(1), of "\<lambda>l. l ! (j - start)"] d(2) by simp
  qed
  note g = gallop_cong [OF d(2) nth order_refl, of t 0]
  show ?thesis
  proof (cases "gallop xs t start 0")
    case (Hit p)
    then have "back_up xs t start p = back_up ys t start p"
      using gallop_range [OF True, of t 0] nth by (intro back_up_cong) auto
    with Hit g nth True d(2) show ?thesis by (simp add: scan_for_offset_def)
  next
    case (Narrow l h)
    with gallop_range [OF True, of t 0] have l: "start \<le> l" "l < h" "h \<le> length xs" by simp_all
    have "drop (Suc l) xs = drop (Suc l) ys"
      using arg_cong [OF d(1), of "drop (Suc l - start)"] l(1) by simp
    moreover have "back_up xs t start (Suc l + i) = back_up ys t start (Suc l + i)"
      if "binary_search (take (h - Suc l) (drop (Suc l) ys)) t = Found i" for i
      using bsearch_range [OF that [unfolded binary_search_def]] l d(2) nth by (intro back_up_cong) auto
    ultimately show ?thesis using Narrow g nth True d(2)
      by (auto simp: scan_for_offset_def split: search.splits)
  qed
qed (use d in \<open>simp add: scan_for_offset_def\<close>)

lemma gallop_cur_spec:
  "sorted cur0 \<Longrightarrow> drop ci cur = drop ci cur0 \<Longrightarrow> length cur = length cur0 \<Longrightarrow> w \<le> ci \<Longrightarrow> ci \<le> length cur0 \<Longrightarrow>
    (case gallop_cur ts cur w ci of (xs, n) \<Rightarrow> take n xs = take w cur @ sorted_inter (drop ci cur0) ts)"
proof (induction ts arbitrary: cur w ci)
  case (Cons t ts)
  show ?case
  proof (cases "length cur \<le> ci")
    case True
    with Cons.prems show ?thesis by simp
  next
    case False
    have scan: "scan_for_offset cur ci t = scan_for_offset cur0 ci t"
      by (rule scan_for_offset_cong [OF Cons.prems(2,3)])
    from Cons.prems(1,5) show ?thesis
    proof (cases rule: scan_cases [where t = t])
      case End
      then have "sorted_inter (drop ci cur0) (t # ts) = []" by (metis sorted_inter.simps(1) sorted_inter_skip_left)
      moreover have "sorted_inter (drop (length cur0) cur0) ts = []" by simp
      ultimately show ?thesis
        using Cons.IH [OF Cons.prems(1), of "length cur0" cur w] Cons.prems False scan End by simp
    next
      case (Rest i y ys)
      have inter: "sorted_inter (drop ci cur0) (t # ts) = sorted_inter (y # ys) (t # ts)"
        using Rest(1) by (metis sorted_inter_skip_left)
      have tl: "drop (Suc i) cur0 = ys" by (rule drop_Suc_tl [OF Rest(2)])
      have rest: "drop i cur = drop i cur0"
        using arg_cong [OF Cons.prems(2), of "drop (i - ci)"] Rest(3) by simp
      show ?thesis
      proof (cases "y = t")
        case True
        have "drop (Suc i) (cur[w := t]) = drop (Suc i) cur0"
          using arg_cong [OF rest, of "drop 1"] Cons.prems(4) Rest(3) by simp
        moreover have "take (Suc w) (cur[w := t]) = take w cur @ [t]"
          using Cons.prems(3,4) Rest(3,4) by (simp add: take_Suc_conv_app_nth)
        ultimately show ?thesis
          using Cons.IH [OF Cons.prems(1), of "Suc i" "cur[w := t]" "Suc w"] Cons.prems Rest False scan True inter tl
          by (auto split: prod.splits)
      next
        case neq: False
        then have "sorted_inter (y # ys) (t # ts) = sorted_inter (drop i cur0) ts" using Rest(2,5) by simp
        then show ?thesis
          using Cons.IH [OF Cons.prems(1) rest Cons.prems(3)] Cons.prems Rest False scan neq inter
          by (auto split: prod.splits)
      qed
    qed
  qed
qed simp

lemma gallop_other_spec:
  "sorted other \<Longrightarrow> off \<le> length other \<Longrightarrow> gallop_other xs other off = sorted_inter xs (drop off other)"
proof (induction xs arbitrary: off)
  case (Cons x xs)
  from Cons.prems show ?case
  proof (cases rule: scan_cases [where t = x])
    case End
    then have "sorted_inter (x # xs) (drop off other) = []" by (metis sorted_inter_Nil sorted_inter_skip_right)
    with End Cons.IH [OF Cons.prems(1), of "length other"] show ?thesis by simp
  next
    case (Rest i y ys)
    have "sorted_inter (x # xs) (drop off other) = sorted_inter (x # xs) (y # ys)"
      using Rest(1) by (metis sorted_inter_skip_right)
    with Rest Cons.IH [OF Cons.prems(1), of i] Cons.IH [OF Cons.prems(1), of "Suc i"] drop_Suc_tl [OF Rest(2)]
    show ?thesis by auto
  qed
qed simp

lemma intersect_sparse_eq: "sorted xs \<Longrightarrow> sorted ys \<Longrightarrow> intersect_sparse xs ys = sorted_inter xs ys"
  using two_pointer_spec [of 0 0 0 ys xs] gallop_cur_spec [of xs 0 xs 0 ys] gallop_other_spec [of ys 0 xs]
  by (auto simp: intersect_sparse_def Let_def split: prod.splits)

section \<open>Subsets as sets of rows\<close>

text \<open>Well-formed subsets have increasing ids whose successors are ids too.\<close>

fun wf_subset :: "subset \<Rightarrow> bool" where
  "wf_subset (Dense r) \<longleftrightarrow> or_start r \<le> or_end r \<and> int (or_end r) < 2 ^ 32"
| "wf_subset (Sparse xs) \<longleftrightarrow> sorted_wrt (<) xs \<and> (\<forall>x \<in> set xs. int (Suc x) < 2 ^ 32)"

lemma wf_offsets: "wf_subset s \<Longrightarrow> sorted_wrt (<) (offsets s) \<and> (\<forall>x \<in> set (offsets s). int (Suc x) < 2 ^ 32)"
  by (cases s) auto

lemma strict_sorted: "sorted_wrt (<) (xs :: nat list) \<Longrightarrow> sorted xs"
  by (simp add: strict_sorted_iff)

lemma filter_none: "\<forall>x \<in> set xs. \<not> P x \<Longrightarrow> filter P xs = []"
  by (simp add: filter_empty_conv)

lemma filter_all: "\<forall>x \<in> set xs. P x \<Longrightarrow> filter P xs = xs"
  by (simp add: filter_id_conv)

lemma take_lower_bound: "sorted xs \<Longrightarrow> take (lower_bound xs t) xs = filter (\<lambda>x. x < t) xs"
  unfolding lower_bound_def by (induction xs) (auto intro!: filter_none [symmetric])

lemma drop_lower_bound: "sorted xs \<Longrightarrow> drop (lower_bound xs t) xs = filter (\<lambda>x. t \<le> x) xs"
  unfolding lower_bound_def by (induction xs) (auto intro!: filter_all [symmetric])

lemma lower_bound_mono: "s \<le> t \<Longrightarrow> lower_bound xs s \<le> lower_bound xs t"
  unfolding lower_bound_def by (induction xs) auto

lemma between_bounds:
  assumes "sorted xs" "s \<le> t"
  shows "take (lower_bound xs t - lower_bound xs s) (drop (lower_bound xs s) xs) = filter (\<lambda>x. s \<le> x \<and> x < t) xs"
proof -
  have "take (lower_bound xs t - lower_bound xs s) (drop (lower_bound xs s) xs) = drop (lower_bound xs s) (take (lower_bound xs t) xs)"
    by (simp add: drop_take)
  also have "\<dots> = filter (\<lambda>x. s \<le> x) (filter (\<lambda>x. x < t) xs)"
  proof -
    have "lower_bound (filter (\<lambda>x. x < t) xs) s = lower_bound xs s"
      using assms unfolding lower_bound_def
    proof (induction xs)
      case (Cons x xs)
      show ?case
      proof (cases "x < t")
        case False
        then have "filter (\<lambda>x. x < t) (x # xs) = []" using Cons.prems(1) by (intro filter_none) auto
        with False Cons.prems(2) show ?thesis by simp
      qed (use Cons in auto)
    qed simp
    then show ?thesis
      using drop_lower_bound [of "filter (\<lambda>x. x < t) xs" s] assms(1) take_lower_bound [OF assms(1), of t]
      by (simp add: sorted_filter [of id, simplified])
  qed
  finally show ?thesis by (simp add: conj_commute)
qed

lemma intersect_rows:
  assumes "wf_subset a" "wf_subset b"
  shows "\<exists>s. subset_intersect a b = Ok s \<and> wf_subset s \<and> offsets s = filter (\<lambda>x. x \<in> set (offsets b)) (offsets a)"
proof (cases a)
  case a: (Dense r)
  show ?thesis
  proof (cases b)
    case (Dense r')
    have "filter (\<lambda>x. or_start r' \<le> x \<and> x < or_end r') [or_start r..<or_end r]
        = [max (or_start r) (or_start r')..<min (or_end r) (or_end r')]"
      by (intro sorted_distinct_set_unique) (auto simp: sorted_wrt_filter)
    then show ?thesis using assms a Dense by (auto simp: Let_def)
  next
    case (Sparse ys)
    have ys: "sorted_wrt (<) ys" "\<forall>x \<in> set ys. int (Suc x) < 2 ^ 32" "sorted ys"
      using assms(2) Sparse strict_sorted by auto
    have flt: "filter (\<lambda>x. x \<in> set ys) [or_start r..<or_end r] = filter (\<lambda>x. or_start r \<le> x \<and> x < or_end r) ys"
      using ys(1,3) by (intro sorted_distinct_set_unique) (auto simp: sorted_wrt_filter strict_sorted_iff)
    show ?thesis
    proof (cases "ys = []")
      case True
      with a Sparse show ?thesis by (simp add: empty_subset_def)
    next
      case False
      define l h where "l = lower_bound ys (or_start r)" and "h = lower_bound ys (or_end r)"
      have "subset_bounds (Sparse ys) = Ok (Some (hd ys, Suc (last ys)))"
        using ys(2) False by (simp add: row_id_def)
      moreover have "binary_search_by_id ys (or_start r) = Ok l" "binary_search_by_id ys (or_end r) = Ok h"
        using binary_search_from_spec [OF ys(3), of 0] by (simp_all add: binary_search_by_id_def l_def h_def)
      moreover have "take (h - l) (drop l ys) = filter (\<lambda>x. or_start r \<le> x \<and> x < or_end r) ys"
        using between_bounds [OF ys(3)] assms(1) a by (simp add: l_def h_def)
      ultimately show ?thesis
        using a Sparse flt ys by (auto simp: empty_subset_def extend_nonoverlapping_def sorted_wrt_filter)
    qed
  qed
next
  case a: (Sparse xs)
  have xs: "sorted_wrt (<) xs" "\<forall>x \<in> set xs. int (Suc x) < 2 ^ 32" "sorted xs"
    using assms(1) a strict_sorted by auto
  show ?thesis
  proof (cases b)
    case (Dense r)
    define l h where "l = lower_bound xs (or_start r)" and "h = lower_bound xs (or_end r)"
    have le: "or_start r \<le> or_end r" using assms(2) Dense by simp
    have "\<forall>j < l. xs ! j < or_end r" using lower_bound_less [of _ xs "or_start r"] le unfolding l_def by (metis order_less_le_trans)
    then have "binary_search_from xs l (or_end r) = Ok h" "binary_search_by_id xs (or_start r) = Ok l"
      using binary_search_from_spec [OF xs(3)] lower_bound_le by (simp_all add: binary_search_by_id_def l_def h_def)
    moreover have "take (h - l) (drop l xs) = filter (\<lambda>x. or_start r \<le> x \<and> x < or_end r) xs"
      using between_bounds [OF xs(3) le] by (simp add: l_def h_def)
    moreover have "l \<le> h" "h \<le> length xs" using lower_bound_mono [OF le] lower_bound_le by (simp_all add: l_def h_def)
    moreover from this have "\<exists>v. copy_within_front xs l h = Ok v \<and> take (h - l) v = take (h - l) (drop l xs)"
      by (simp add: copy_within_front_def)
    ultimately have "subset_intersect a b = Ok (Sparse (filter (\<lambda>x. or_start r \<le> x \<and> x < or_end r) xs))"
      using a Dense by (cases "l = 0") auto
    then show ?thesis using a Dense xs by (auto simp: sorted_wrt_filter)
  next
    case (Sparse ys)
    then have ys: "sorted_wrt (<) ys" "sorted ys" using assms(2) strict_sorted by auto
    have "intersect_sparse xs ys = filter (\<lambda>x. x \<in> set ys) xs"
      using intersect_sparse_eq [OF xs(3) ys(2)] sorted_inter_filter [OF xs(1) ys(1)] by simp
    then show ?thesis using a Sparse xs by (auto simp: sorted_wrt_filter)
  qed
qed

lemma add_row_sorted_rows:
  assumes "wf_subset s" "\<forall>x \<in> set (offsets s). x < row" "int (Suc row) < 2 ^ 32"
  shows "\<exists>s'. add_row_sorted s row = Ok s' \<and> wf_subset s' \<and> offsets s' = offsets s @ [row]"
proof (cases s)
  case (Dense r)
  show ?thesis
  proof (cases "or_end r = or_start r")
    case False
    then have lt: "or_start r < or_end r" using assms(1) Dense by simp
    then have "or_end r - 1 < row" using assms(2) Dense by auto
    then have le: "or_end r \<le> row" by simp
    show ?thesis
    proof (cases "or_end r = row")
      case True
      with lt Dense assms(3) show ?thesis by (simp add: row_id_def upt_Suc_append)
    next
      case False
      with lt le Dense assms show ?thesis
        by (auto simp: fill_from_dense_def sorted_push_def sorted_wrt_append)
    qed
  qed (use Dense assms(3) in \<open>simp add: row_id_def upt_Suc_append\<close>)
next
  case (Sparse xs)
  then have "xs = [] \<or> last xs < row" using assms(2) by (cases "xs = []") simp_all
  with Sparse assms show ?thesis by (auto simp: sorted_push_def sorted_wrt_append)
qed

lemma retain_rows:
  assumes "wf_subset s"
  shows "\<exists>s'. subset_retain f s = Ok s' \<and> wf_subset s' \<and> offsets s' = filter f (offsets s)"
proof (cases s)
  case (Dense r)
  have "\<exists>s'. fold_out (\<lambda>row s. if f row then add_row_sorted s row else Ok s) xs s0 = Ok s' \<and> wf_subset s'
      \<and> offsets s' = offsets s0 @ filter f xs"
    if "sorted_wrt (<) xs" "\<forall>x \<in> set xs. int (Suc x) < 2 ^ 32" "wf_subset s0" "\<forall>x \<in> set (offsets s0). \<forall>y \<in> set xs. x < y" for xs s0
    using that
  proof (induction xs arbitrary: s0)
    case (Cons x xs)
    show ?case
    proof (cases "f x")
      case True
      from add_row_sorted_rows [OF Cons.prems(3), of x] Cons.prems obtain s1 where
        s1: "add_row_sorted s0 x = Ok s1" "wf_subset s1" "offsets s1 = offsets s0 @ [x]" by auto
      with Cons.IH [of s1] Cons.prems True show ?thesis by auto
    next
      case False
      with Cons.IH [of s0] Cons.prems show ?thesis by auto
    qed
  qed simp
  from this [of "offsets s" empty_subset] Dense wf_offsets [OF assms] show ?thesis
    by (auto simp: empty_subset_def)
qed (use assms in \<open>auto simp: sorted_wrt_filter\<close>)

lemma subset_size_offsets: "subset_size s = length (offsets s)"
  by (cases s) (simp_all add: range_size_def)

lemma iter_bounded_rows:
  assumes "wf_subset s" "start \<le> length (offsets s)" "start \<le> e"
  shows "iter_bounded s start e =
    Ok (take (e - start) (drop start (offsets s)), if e < length (offsets s) then Some e else None)"
proof (cases s)
  case (Dense r)
  have "[or_start r + start..<min (or_start r + e) (or_end r)] = take (e - start) (drop start [or_start r..<or_end r])"
  proof (cases "or_start r + e \<le> or_end r")
    case True
    with take_upt [of "or_start r + start" "e - start" "or_end r"] assms(3) show ?thesis by (simp add: min_def)
  qed simp
  then show ?thesis using Dense assms by (auto simp: Let_def min_def)
next
  case (Sparse xs)
  then show ?thesis using assms by (auto simp: Let_def min_def)
qed

section \<open>Properties\<close>

text \<open>C24: intersecting two subsets succeeds and lists exactly the rows of the first that are in the
  second, in order, for ranges and vectors and whichever of the three vector algorithms the sizes
  select.\<close>

theorem intersection_lists_common_rows:
  assumes "wf_subset a" "wf_subset b"
  shows "\<exists>s. subset_intersect a b = Ok s \<and> wf_subset s \<and> offsets s = filter (\<lambda>x. x \<in> set (offsets b)) (offsets a)"
  by (rule intersect_rows [OF assms])

theorem intersection_lists_common_rows_witness:
  "\<exists>s. subset_intersect (Sparse [2, 3, 7, 9]) (Sparse [0..<20]) = Ok s \<and> offsets s = [2, 3, 7, 9]"
  using intersection_lists_common_rows [of "Sparse [2, 3, 7, 9]" "Sparse [0..<20]"] by auto

end
