(* ===== verification/Row_Buffer.thy ===== *)
theory Row_Buffer
  imports Row_Offsets
begin

text \<open>
  \<open>core-relations/src/row_buffer/mod.rs\<close>: batches of rows in one flat vector, row after
  row, and the variant that keeps the id of each row's source in an extra last column. Values are
  32-bit ids without arithmetic, so they are natural numbers; the largest one marks a stale row.
  Pools, capacities and the shared cells of parallel writers are not part of the model.
\<close>

section \<open>Values and slices\<close>

type_synonym 'a result = "(string, 'a) outcome"

definition is_stale :: "nat \<Rightarrow> bool" where
  "is_stale v = (int v = 4294967295)"

definition stale_value :: nat where
  "stale_value = nat 4294967295"

lemma is_stale_value [simp]: "is_stale stale_value"
  by (simp add: is_stale_def stale_value_def)

definition at_o :: "'a list \<Rightarrow> nat \<Rightarrow> 'a result" where
  "at_o xs i = (if i < length xs then Ok (xs ! i) else Panic)"

lemma at_o_Ok [outcome_simps]: "at_o xs i = Ok x \<longleftrightarrow> i < length xs \<and> x = xs ! i"
  by (auto simp: at_o_def)

lemma at_o_in [simp]: "i < length xs \<Longrightarrow> at_o xs i = Ok (xs ! i)"
  by (simp add: at_o_def)

definition slice_o :: "'a list \<Rightarrow> nat \<Rightarrow> nat \<Rightarrow> 'a list result" where
  "slice_o xs a b = (if a \<le> b \<and> b \<le> length xs then Ok (take (b - a) (drop a xs)) else Panic)"

function chunks :: "nat \<Rightarrow> 'a list \<Rightarrow> 'a list list" where
  "chunks n xs = (if xs = [] \<or> n = 0 then [] else take n xs # chunks n (drop n xs))"
  by pat_completeness auto
termination
  by (relation "measure (\<lambda>(n, xs). length xs)") auto

declare chunks.simps [simp del]

lemma chunks_Nil [simp]: "chunks n [] = []"
  by (simp add: chunks.simps)

lemma chunks_row: "length r = n \<Longrightarrow> 0 < n \<Longrightarrow> chunks n (r @ xs) = r # chunks n xs"
  by (subst chunks.simps) auto

lemma chunks_concat:
  "\<forall>r \<in> set rows. length r = n \<Longrightarrow> 0 < n \<Longrightarrow> chunks n (concat rows) = rows"
  by (induction rows) (auto simp: chunks_row)

lemma concat_chunks: "0 < n \<Longrightarrow> concat (chunks n xs) = xs"
proof (induction n xs rule: chunks.induct)
  case (1 n xs)
  then show ?case by (cases "xs = []") (simp_all add: chunks.simps [of n xs])
qed

lemma chunks_lengths:
  "0 < n \<Longrightarrow> length xs = k * n \<Longrightarrow> length (chunks n xs) = k \<and> (\<forall>r \<in> set (chunks n xs). length r = n)"
proof (induction k arbitrary: xs)
  case (Suc k)
  then have xs: "n \<le> length xs" "length (drop n xs) = k * n" "xs \<noteq> []" by auto
  then have c: "chunks n xs = take n xs # chunks n (drop n xs)" using Suc.prems(1)
    by (subst chunks.simps) simp
  have "length (take n xs) = n" using xs(1) by simp
  then show ?case unfolding c using Suc.IH [OF Suc.prems(1) xs(2)] by (simp del: length_take)
qed auto

lemma bind_o_Ok_id [simp]: "bind_o m Ok = m"
  by (cases m) auto

section \<open>Row buffers\<close>

record row_buffer =
  rb_cols :: nat
  rb_total :: nat
  rb_data :: "nat list"

definition rb_new :: "nat \<Rightarrow> row_buffer result" where
  "rb_new n = (if n = 0 then Panic else Ok \<lparr>rb_cols = n, rb_total = 0, rb_data = []\<rparr>)"

definition rb_clear :: "row_buffer \<Rightarrow> row_buffer" where
  "rb_clear b = b\<lparr>rb_data := [], rb_total := 0\<rparr>"

definition rb_iter :: "row_buffer \<Rightarrow> nat list list" where
  "rb_iter b = chunks (rb_cols b) (rb_data b)"

definition rb_get_row :: "row_buffer \<Rightarrow> nat \<Rightarrow> nat list result" where
  "rb_get_row b i = slice_o (rb_data b) (i * rb_cols b) (Suc i * rb_cols b)"

definition rb_non_stale :: "row_buffer \<Rightarrow> nat list list" where
  "rb_non_stale b = filter (\<lambda>r. \<not> is_stale (r ! 0)) (chunks (rb_cols b) (rb_data b))"

definition rb_set_stale :: "row_buffer \<Rightarrow> nat \<Rightarrow> (row_buffer \<times> bool) result" where
  "rb_set_stale b i =
     bind_o (rb_get_row b i) (\<lambda>r. bind_o (at_o r 0) (\<lambda>v.
       Ok (b\<lparr>rb_data := (rb_data b)[i * rb_cols b := stale_value]\<rparr>, is_stale v)))"

definition rb_add_row :: "row_buffer \<Rightarrow> nat list \<Rightarrow> (row_buffer \<times> nat) result" where
  "rb_add_row b r =
     bind_o (row_id (rb_total b)) (\<lambda>i.
       Ok (b\<lparr>rb_data := rb_data b @ r, rb_total := Suc (rb_total b)\<rparr>, i))"

text \<open>
  \<open>remove_stale\<close> is one pass of \<open>retain\<close> over the values: \<open>w\<close> counts them within a
  row, \<open>i\<close> and \<open>k\<close> the rows read and kept, \<open>sc\<close> collects the current row for the callback
  \<open>f\<close>, which changes a state of its own.
\<close>

fun stale_loop :: "nat \<Rightarrow> (nat list \<Rightarrow> nat \<Rightarrow> nat \<Rightarrow> 's \<Rightarrow> 's result) \<Rightarrow> nat list \<Rightarrow> nat \<Rightarrow> nat \<Rightarrow> nat \<Rightarrow>
    bool \<Rightarrow> nat list \<Rightarrow> 's \<Rightarrow> (nat list \<times> nat \<times> 's) result" where
  "stale_loop n f [] w i k keep sc s = Ok ([], k, s)"
| "stale_loop n f (x # xs) w i k keep sc s =
     (let keep1 = (if w = 0 then \<not> is_stale x else keep);
          i1 = (if w = 0 then Suc i else i);
          k1 = (if w = 0 \<and> keep1 then Suc k else k);
          sc1 = (if keep1 then sc @ [x] else sc) in
      bind_o
        (if Suc w = n
         then bind_o (if keep1 then f sc1 (i1 - 1) (k1 - 1) s else Ok s)
                (\<lambda>s1. stale_loop n f xs 0 i1 k1 keep1 (if keep1 then [] else sc1) s1)
         else stale_loop n f xs (Suc w) i1 k1 keep1 sc1 s)
        (\<lambda>(ys, k2, s2). Ok (if keep1 then x # ys else ys, k2, s2)))"

definition rb_remove_stale ::
    "(nat list \<Rightarrow> nat \<Rightarrow> nat \<Rightarrow> 's \<Rightarrow> 's result) \<Rightarrow> row_buffer \<Rightarrow> 's \<Rightarrow> (row_buffer \<times> 's) result" where
  "rb_remove_stale f b s =
     bind_o (stale_loop (rb_cols b) f (rb_data b) 0 0 0 True [] s) (\<lambda>(ys, k, s1).
       Ok (b\<lparr>rb_data := ys, rb_total := k\<rparr>, s1))"

section \<open>Tagged row buffers\<close>

text \<open>The buffer of a \<open>TaggedRowBuffer\<close> has one column more than its rows.\<close>

definition trb_new :: "nat \<Rightarrow> row_buffer result" where
  "trb_new n = rb_new (Suc n)"

definition trb_add_row :: "row_buffer \<Rightarrow> nat \<Rightarrow> nat list \<Rightarrow> row_buffer result" where
  "trb_add_row b i r =
     bind_o (row_id (rb_total b)) (\<lambda>_.
       Ok (b\<lparr>rb_data := rb_data b @ r @ [i], rb_total := Suc (rb_total b)\<rparr>))"

definition trb_unwrap :: "row_buffer \<Rightarrow> nat list \<Rightarrow> (nat \<times> nat list) result" where
  "trb_unwrap b r = bind_o (at_o r (rb_cols b - 1)) (\<lambda>i. Ok (i, take (rb_cols b - 1) r))"

definition trb_get_row :: "row_buffer \<Rightarrow> nat \<Rightarrow> (nat \<times> nat list) result" where
  "trb_get_row b i = bind_o (rb_get_row b i) (trb_unwrap b)"

text \<open>Writing through \<open>get_row_mut\<close> replaces the values of a row and keeps its tag.\<close>

definition trb_put_row :: "row_buffer \<Rightarrow> nat \<Rightarrow> nat list \<Rightarrow> row_buffer" where
  "trb_put_row b i r =
     b\<lparr>rb_data := take (i * rb_cols b) (rb_data b) @ r @ drop (i * rb_cols b + length r) (rb_data b)\<rparr>"

definition trb_iter :: "row_buffer \<Rightarrow> (nat \<times> nat list) list" where
  "trb_iter b = map (\<lambda>r. (r ! (rb_cols b - 1), take (rb_cols b - 1) r)) (rb_iter b)"

definition trb_non_stale :: "row_buffer \<Rightarrow> (nat \<times> nat list) list" where
  "trb_non_stale b = map (\<lambda>r. (r ! (rb_cols b - 1), take (rb_cols b - 1) r)) (rb_non_stale b)"

section \<open>The flat vector is a list of rows\<close>

definition rb_wf :: "row_buffer \<Rightarrow> bool" where
  "rb_wf b \<longleftrightarrow> 0 < rb_cols b \<and> length (rb_data b) = rb_total b * rb_cols b"

lemma rb_rows_length [simp]: "rb_wf b \<Longrightarrow> length (rb_iter b) = rb_total b"
  using chunks_lengths by (auto simp: rb_wf_def rb_iter_def)

lemma rb_row_arity: "rb_wf b \<Longrightarrow> r \<in> set (rb_iter b) \<Longrightarrow> length r = rb_cols b"
  using chunks_lengths by (auto simp: rb_wf_def rb_iter_def)

lemma rb_data_concat: "rb_wf b \<Longrightarrow> rb_data b = concat (rb_iter b)"
  by (simp add: rb_wf_def rb_iter_def concat_chunks)

lemma rb_iterI:
  "rb_data b = concat rows \<Longrightarrow> \<forall>r \<in> set rows. length r = rb_cols b \<Longrightarrow> 0 < rb_cols b
     \<Longrightarrow> rb_iter b = rows"
  by (simp add: rb_iter_def chunks_concat)

lemma rb_wfI:
  assumes "rb_data b = concat rows" "\<forall>r \<in> set rows. length r = rb_cols b" "0 < rb_cols b"
    "rb_total b = length rows"
  shows "rb_wf b \<and> rb_iter b = rows"
proof -
  have "length (concat rows) = length rows * rb_cols b" using assms(2)
    by (induction rows) auto
  then show ?thesis using assms rb_iterI [OF assms(1,2,3)] by (simp add: rb_wf_def)
qed

lemma concat_row_at:
  "\<forall>r \<in> set rows. length r = n \<Longrightarrow> i < length rows \<Longrightarrow>
     concat rows = concat (take i rows) @ rows ! i @ concat (drop (Suc i) rows)"
  by (metis concat.simps(2) concat_append append_take_drop_id Cons_nth_drop_Suc)

lemma concat_take_length:
  "\<forall>r \<in> set rows. length r = n \<Longrightarrow> i \<le> length rows \<Longrightarrow> length (concat (take i rows)) = i * n"
proof (induction rows arbitrary: i)
  case (Cons r rows)
  then show ?case by (cases i) auto
qed simp

lemma rb_get_row_eq:
  assumes "rb_wf b"
  shows "rb_get_row b i = (if i < rb_total b then Ok (rb_iter b ! i) else Panic)"
proof (cases "i < rb_total b")
  case True
  let ?n = "rb_cols b"
  have rows: "\<forall>r \<in> set (rb_iter b). length r = ?n" using rb_row_arity [OF assms] by simp
  have i: "i < length (rb_iter b)" using True assms by simp
  have d: "rb_data b = concat (take i (rb_iter b)) @ rb_iter b ! i @ concat (drop (Suc i) (rb_iter b))"
    using concat_row_at [OF rows i] rb_data_concat [OF assms] by simp
  have l: "length (concat (take i (rb_iter b))) = i * ?n" "length (rb_iter b ! i) = ?n"
    using concat_take_length [OF rows, of i] i rows by auto
  show ?thesis using True l by (simp add: rb_get_row_def slice_o_def d)
next
  case False
  then have "rb_total b * rb_cols b < Suc i * rb_cols b" using assms
    by (intro mult_strict_right_mono) (auto simp: rb_wf_def)
  then show ?thesis using False assms by (simp add: rb_get_row_def slice_o_def rb_wf_def)
qed

lemma rb_new_wf: "0 < n \<Longrightarrow> \<exists>b. rb_new n = Ok b \<and> rb_wf b \<and> rb_iter b = [] \<and> rb_cols b = n \<and> rb_total b = 0"
  by (simp add: rb_new_def rb_wf_def rb_iter_def)

lemma rb_clear_wf: "rb_wf b \<Longrightarrow> rb_wf (rb_clear b) \<and> rb_iter (rb_clear b) = [] \<and> rb_cols (rb_clear b) = rb_cols b"
  by (simp add: rb_clear_def rb_wf_def rb_iter_def)

lemma rb_add_row_eq:
  assumes "rb_wf b" "length r = rb_cols b" "int (rb_total b) < 2 ^ 32"
  shows "\<exists>b'. rb_add_row b r = Ok (b', rb_total b) \<and> rb_wf b' \<and> rb_iter b' = rb_iter b @ [r]
     \<and> rb_cols b' = rb_cols b \<and> rb_total b' = Suc (rb_total b)"
proof -
  let ?b = "b\<lparr>rb_data := rb_data b @ r, rb_total := Suc (rb_total b)\<rparr>"
  have "rb_wf ?b \<and> rb_iter ?b = rb_iter b @ [r]"
  proof (rule rb_wfI)
    show "rb_data ?b = concat (rb_iter b @ [r])" using rb_data_concat [OF assms(1)] by simp
    show "\<forall>x \<in> set (rb_iter b @ [r]). length x = rb_cols ?b"
      using assms(2) rb_row_arity [OF assms(1)] by auto
    show "0 < rb_cols ?b" using assms(1) by (simp add: rb_wf_def)
    show "rb_total ?b = length (rb_iter b @ [r])" using assms(1) by simp
  qed
  then show ?thesis using assms by (simp add: rb_add_row_def row_id_def)
qed

lemma rb_set_stale_eq:
  assumes "rb_wf b" "i < rb_total b"
  shows "\<exists>b'. rb_set_stale b i = Ok (b', is_stale (rb_iter b ! i ! 0)) \<and> rb_wf b'
     \<and> rb_iter b' = (rb_iter b)[i := stale_value # tl (rb_iter b ! i)] \<and> rb_cols b' = rb_cols b
     \<and> rb_total b' = rb_total b"
proof -
  let ?n = "rb_cols b" and ?rows = "rb_iter b"
  let ?b = "b\<lparr>rb_data := (rb_data b)[i * ?n := stale_value]\<rparr>"
  let ?rows' = "?rows[i := stale_value # tl (?rows ! i)]"
  have rows: "\<forall>r \<in> set ?rows. length r = ?n" using rb_row_arity [OF assms(1)] by simp
  have i: "i < length ?rows" and n: "0 < ?n" using assms by (simp_all add: rb_wf_def [of b])
  then have li: "length (?rows ! i) = ?n" using rows by simp
  then obtain x xs where r: "?rows ! i = x # xs" using n by (cases "?rows ! i") auto
  have rows': "\<forall>r \<in> set ?rows'. length r = ?n"
    using rows li r n by (auto dest!: set_update_subset_insert [THEN subsetD])
  have "rb_data b = concat (take i ?rows) @ (x # xs) @ concat (drop (Suc i) ?rows)"
    using concat_row_at [OF rows i] rb_data_concat [OF assms(1)] r by simp
  moreover have "concat ?rows' = concat (take i ?rows) @ (stale_value # xs) @ concat (drop (Suc i) ?rows)"
    using concat_row_at [OF rows', of i] i r by simp
  ultimately have "rb_data ?b = concat ?rows'"
    using concat_take_length [OF rows, of i] i by (simp add: list_update_append)
  then have "rb_wf ?b \<and> rb_iter ?b = ?rows'"
    using rows' n i assms by (intro rb_wfI) simp_all
  then show ?thesis using assms li n
    by (simp add: rb_set_stale_def rb_get_row_eq)
qed

text \<open>What \<open>remove_stale\<close> does, row by row.\<close>

fun remap_rows :: "(nat list \<Rightarrow> nat \<Rightarrow> nat \<Rightarrow> 's \<Rightarrow> 's result) \<Rightarrow> nat list list \<Rightarrow> nat \<Rightarrow> nat \<Rightarrow> 's \<Rightarrow> 's result" where
  "remap_rows f [] i k s = Ok s"
| "remap_rows f (r # rs) i k s =
     (if is_stale (r ! 0) then remap_rows f rs (Suc i) k s
      else bind_o (f r i k s) (remap_rows f rs (Suc i) (Suc k)))"

abbreviation live_rows :: "nat list list \<Rightarrow> nat list list" where
  "live_rows rows \<equiv> filter (\<lambda>r. \<not> is_stale (r ! 0)) rows"

lemma stale_loop_tail:
  assumes "0 < w" "w + length ys = n" "ys \<noteq> []"
  shows "stale_loop n f (ys @ xs) w i k keep sc s =
    bind_o (bind_o (if keep then f (sc @ ys) (i - 1) (k - 1) s else Ok s)
             (\<lambda>s1. stale_loop n f xs 0 i k keep (if keep then [] else sc) s1))
      (\<lambda>(zs, k2, s2). Ok (if keep then ys @ zs else zs, k2, s2))"
  using assms
proof (induction ys arbitrary: w sc)
  case (Cons y ys)
  show ?case
  proof (cases "ys = []")
    case True
    then show ?thesis using Cons.prems by (simp add: Let_def case_prod_unfold)
  next
    case False
    with Cons.prems have "Suc w < n" by (cases ys) auto
    with Cons.IH [of "Suc w" "if keep then sc @ [y] else sc"] Cons.prems False show ?thesis
      by (simp add: Let_def bind_o_assoc case_prod_unfold)
  qed
qed simp

lemma stale_loop_row:
  assumes "length r = n" "0 < n"
  shows "stale_loop n f (r @ xs) 0 i k keep [] s =
    (if is_stale (r ! 0) then stale_loop n f xs 0 (Suc i) k False [] s
     else bind_o (f r i k s) (\<lambda>s1. bind_o (stale_loop n f xs 0 (Suc i) (Suc k) True [] s1)
            (\<lambda>(zs, k2, s2). Ok (r @ zs, k2, s2))))"
proof -
  obtain x ys where r: "r = x # ys" using assms by (cases r) auto
  show ?thesis
  proof (cases "ys = []")
    case True
    then have "n = Suc 0" using assms r by simp
    then show ?thesis using True r by (simp add: Let_def bind_o_assoc case_prod_unfold)
  next
    case False
    then have "Suc 0 + length ys = n" "n \<noteq> Suc 0" using assms r by auto
    then show ?thesis using r False stale_loop_tail [of "Suc 0" ys n f xs]
      by (simp add: Let_def bind_o_assoc case_prod_unfold) 
  qed
qed

lemma stale_loop_rows:
  assumes "\<forall>r \<in> set rows. length r = n" "0 < n"
  shows "stale_loop n f (concat rows) 0 i k keep [] s =
    bind_o (remap_rows f rows i k s)
      (\<lambda>s1. Ok (concat (live_rows rows), k + length (live_rows rows), s1))"
  using assms
proof (induction rows arbitrary: i k keep s)
  case (Cons r rows)
  then show ?case by (simp add: stale_loop_row bind_o_assoc)
qed simp

lemma rb_remove_stale_eq:
  assumes "rb_wf b"
  shows "\<exists>b'. rb_remove_stale f b s = bind_o (remap_rows f (rb_iter b) 0 0 s) (\<lambda>s1. Ok (b', s1))
     \<and> rb_wf b' \<and> rb_iter b' = live_rows (rb_iter b) \<and> rb_cols b' = rb_cols b
     \<and> rb_total b' = length (live_rows (rb_iter b))"
proof -
  let ?rows = "rb_iter b"
  let ?b = "b\<lparr>rb_data := concat (live_rows ?rows), rb_total := length (live_rows ?rows)\<rparr>"
  have rows: "\<forall>r \<in> set ?rows. length r = rb_cols b" using rb_row_arity [OF assms] by simp
  have n: "0 < rb_cols b" using assms by (simp add: rb_wf_def)
  have "rb_wf ?b \<and> rb_iter ?b = live_rows ?rows" using rows n by (intro rb_wfI) auto
  moreover have "rb_remove_stale f b s = bind_o (remap_rows f ?rows 0 0 s) (\<lambda>s1. Ok (?b, s1))"
    using stale_loop_rows [OF rows n, of f 0 0 True s] rb_data_concat [OF assms]
    by (simp add: rb_remove_stale_def bind_o_assoc)
  ultimately show ?thesis by auto
qed

lemma trb_add_row_eq:
  assumes "rb_wf b" "rb_cols b = Suc (length r)" "int (rb_total b) < 2 ^ 32"
  shows "\<exists>b'. trb_add_row b i r = Ok b' \<and> rb_wf b' \<and> rb_cols b' = rb_cols b
     \<and> rb_total b' = Suc (rb_total b) \<and> trb_iter b' = trb_iter b @ [(i, r)]"
proof -
  from rb_add_row_eq [OF assms(1), of "r @ [i]"] assms(2,3) obtain b' where
    "rb_add_row b (r @ [i]) = Ok (b', rb_total b)" "rb_wf b'" "rb_iter b' = rb_iter b @ [r @ [i]]"
    "rb_cols b' = rb_cols b" "rb_total b' = Suc (rb_total b)" by auto
  then show ?thesis using assms by (auto simp: rb_add_row_def trb_add_row_def row_id_def trb_iter_def nth_append)
qed

end
