(* ===== verification/Table_Spec.thy ===== *)
theory Table_Spec
  imports Row_Sets Row_Buffer
begin

text \<open>
  \<open>core-relations/src/table_spec.rs\<close>: the interface of tables. Constraints on rows, the
  default methods that tables inherit (refining a subset, splitting constraints into those a table
  answers from its sort order and the others, projections), and versions. The locale
  \<open>table_queries\<close> is the contract of a table towards the query planner; what the defaults
  compute is proved from it once.
\<close>

section \<open>Constraints\<close>

datatype constr =
    CEq nat nat
  | CEqConst nat nat
  | CLtConst nat nat
  | CGtConst nat nat
  | CLeConst nat nat
  | CGeConst nat nat

fun eval_constraint :: "nat list \<Rightarrow> constr \<Rightarrow> bool result" where
  "eval_constraint r (CEq a b) = bind_o (at_o r a) (\<lambda>x. bind_o (at_o r b) (\<lambda>y. Ok (x = y)))"
| "eval_constraint r (CEqConst c v) = bind_o (at_o r c) (\<lambda>x. Ok (x = v))"
| "eval_constraint r (CLtConst c v) = bind_o (at_o r c) (\<lambda>x. Ok (x < v))"
| "eval_constraint r (CGtConst c v) = bind_o (at_o r c) (\<lambda>x. Ok (v < x))"
| "eval_constraint r (CLeConst c v) = bind_o (at_o r c) (\<lambda>x. Ok (x \<le> v))"
| "eval_constraint r (CGeConst c v) = bind_o (at_o r c) (\<lambda>x. Ok (v \<le> x))"

text \<open>\<open>all\<close> stops at the first constraint that fails.\<close>

fun eval_constraints :: "constr list \<Rightarrow> nat list \<Rightarrow> bool result" where
  "eval_constraints [] r = Ok True"
| "eval_constraints (c # cs) r =
     bind_o (eval_constraint r c) (\<lambda>b. if b then eval_constraints cs r else Ok False)"

section \<open>Default methods\<close>

text \<open>\<open>retain\<close> with a closure that can panic.\<close>

definition retain_o :: "(nat \<Rightarrow> bool result) \<Rightarrow> subset \<Rightarrow> subset result" where
  "retain_o f s =
     bind_o (map_out (\<lambda>row u. bind_o (f row) (\<lambda>b. Ok (b, u))) (offsets s) ())
       (\<lambda>_. subset_retain (\<lambda>row. f row = Ok True) s)"

definition refine :: "(subset \<Rightarrow> constr \<Rightarrow> subset result) \<Rightarrow> subset \<Rightarrow> constr list \<Rightarrow> subset result" where
  "refine refine_one s cs = fold_out (\<lambda>c s. refine_one s c) cs s"

definition refine_live :: "(subset \<Rightarrow> constr \<Rightarrow> subset result) \<Rightarrow> subset \<Rightarrow> subset result" where
  "refine_live refine_one s = refine_one s (CLtConst 0 stale_value)"

definition split_fast_slow ::
    "subset result \<Rightarrow> (constr \<Rightarrow> subset option result) \<Rightarrow> constr list
      \<Rightarrow> (subset \<times> constr list \<times> constr list) result" where
  "split_fast_slow all_rows fast cs =
     bind_o all_rows (\<lambda>s0.
       fold_out (\<lambda>c (s, quick, slow).
         bind_o (fast c) (\<lambda>r. case r of
             Some sub \<Rightarrow> bind_o (subset_intersect s sub) (\<lambda>s'. Ok (s', quick @ [c], slow))
           | None \<Rightarrow> Ok (s, quick, slow @ [c]))) cs (s0, [], []))"

text \<open>
  A bounded scan lists the rows it passes to its callback, with their ids, and where to go on.
  Projections write the chosen columns to a sink; without columns nothing is scanned.
\<close>

type_synonym scanned = "(nat \<times> nat list) list \<times> nat option"

definition project :: "nat list \<Rightarrow> nat list \<Rightarrow> nat list result" where
  "project cols r = bind_o (map_out (\<lambda>c u. bind_o (at_o r c) (\<lambda>v. Ok (v, u))) cols ()) (\<lambda>(vs, _). Ok vs)"

definition scan_project :: "scanned result \<Rightarrow> nat list \<Rightarrow> scanned result" where
  "scan_project scan cols =
     (if cols = [] then Ok ([], None)
      else bind_o scan (\<lambda>(rows, next).
        bind_o (map_out (\<lambda>(i, r) u. bind_o (project cols r) (\<lambda>vs. Ok ((i, vs), u))) rows ())
          (\<lambda>(rows', _). Ok (rows', next))))"

definition scan_into :: "scanned result \<Rightarrow> row_buffer \<Rightarrow> (row_buffer \<times> nat option) result" where
  "scan_into scan out =
     bind_o scan (\<lambda>(rows, next).
       bind_o (fold_out (\<lambda>(i, r) b. trb_add_row b i r) rows out) (\<lambda>b. Ok (b, next)))"

record table_version =
  tv_major :: nat
  tv_minor :: nat

text \<open>\<open>SubsetTracker\<close>: the versions at which tables were last looked at.\<close>

definition recent_updates ::
    "(nat \<rightharpoonup> table_version) \<Rightarrow> nat \<Rightarrow> table_version \<Rightarrow> subset result \<Rightarrow> (nat \<Rightarrow> subset result)
      \<Rightarrow> ((nat \<rightharpoonup> table_version) \<times> subset) result" where
  "recent_updates tracked t cur all_rows updates_since =
     bind_o (case tracked t of
         Some v \<Rightarrow> (if tv_major cur = tv_major v then updates_since (tv_minor v) else all_rows)
       | None \<Rightarrow> all_rows)
       (\<lambda>s. Ok (tracked(t \<mapsto> cur), s))"

section \<open>Facts about constraints\<close>

fun constr_cols :: "constr \<Rightarrow> nat set" where
  "constr_cols (CEq a b) = {a, b}"
| "constr_cols (CEqConst c _) = {c}"
| "constr_cols (CLtConst c _) = {c}"
| "constr_cols (CGtConst c _) = {c}"
| "constr_cols (CLeConst c _) = {c}"
| "constr_cols (CGeConst c _) = {c}"

fun satisfies :: "nat list \<Rightarrow> constr \<Rightarrow> bool" where
  "satisfies r (CEq a b) = (r ! a = r ! b)"
| "satisfies r (CEqConst c v) = (r ! c = v)"
| "satisfies r (CLtConst c v) = (r ! c < v)"
| "satisfies r (CGtConst c v) = (v < r ! c)"
| "satisfies r (CLeConst c v) = (r ! c \<le> v)"
| "satisfies r (CGeConst c v) = (v \<le> r ! c)"

abbreviation in_cols :: "nat \<Rightarrow> constr \<Rightarrow> bool" where
  "in_cols n c \<equiv> \<forall>k \<in> constr_cols c. k < n"

lemma eval_constraint_eq: "in_cols (length r) c \<Longrightarrow> eval_constraint r c = Ok (satisfies r c)"
  by (cases c) auto

lemma eval_constraints_eq:
  "\<forall>c \<in> set cs. in_cols (length r) c \<Longrightarrow> eval_constraints cs r = Ok (\<forall>c \<in> set cs. satisfies r c)"
  by (induction cs) (auto simp: eval_constraint_eq)

lemma retain_o_eq:
  assumes "wf_subset s" "\<forall>i \<in> set (offsets s). f i = Ok (p i)"
  shows "\<exists>s'. retain_o f s = Ok s' \<and> wf_subset s' \<and> offsets s' = filter p (offsets s)"
proof -
  have "map_out (\<lambda>row u. bind_o (f row) (\<lambda>b. Ok (b, u))) (offsets s) () = Ok (map p (offsets s), ())"
    using assms(2) by (intro map_out_pure_at) simp
  moreover have "filter (\<lambda>i. f i = Ok True) (offsets s) = filter p (offsets s)"
    using assms(2) by (intro filter_cong) auto
  ultimately show ?thesis using retain_rows [OF assms(1), of "\<lambda>i. f i = Ok True"] by (simp add: retain_o_def)
qed

section \<open>The contract of a table\<close>

text \<open>
  \<open>row_at t i\<close> is the live row with id \<open>i\<close>. A table with invariant \<open>inv\<close> has ids below
  \<open>n_rows\<close>; what it answers quickly is right on live rows.
\<close>

locale table_queries =
  fixes inv :: "'t \<Rightarrow> bool"
    and n_rows :: "'t \<Rightarrow> nat"
    and arity :: "'t \<Rightarrow> nat"
    and row_at :: "'t \<Rightarrow> nat \<Rightarrow> nat list option"
    and all_rows :: "'t \<Rightarrow> subset result"
    and fast :: "'t \<Rightarrow> constr \<Rightarrow> subset option result"
    and refine_one :: "'t \<Rightarrow> subset \<Rightarrow> constr \<Rightarrow> subset result"
  assumes all_rows: "inv t \<Longrightarrow> \<exists>s. all_rows t = Ok s \<and> wf_subset s \<and> offsets s = [0..<n_rows t]"
    and fast: "inv t \<Longrightarrow> in_cols (arity t) c \<Longrightarrow> \<exists>r. fast t c = Ok r \<and>
      (\<forall>s. r = Some s \<longrightarrow> wf_subset s \<and> (\<forall>i row. row_at t i = Some row \<longrightarrow> (i \<in> set (offsets s) \<longleftrightarrow> satisfies row c)))"
    and refine_one: "inv t \<Longrightarrow> in_cols (arity t) c \<Longrightarrow> wf_subset s \<Longrightarrow> set (offsets s) \<subseteq> {..<n_rows t} \<Longrightarrow>
      \<exists>s'. refine_one t s c = Ok s' \<and> wf_subset s' \<and>
        offsets s' = filter (\<lambda>i. \<exists>row. row_at t i = Some row \<and> satisfies row c) (offsets s)"
begin

definition live :: "'t \<Rightarrow> nat list \<Rightarrow> nat list" where
  "live t is = filter (\<lambda>i. row_at t i \<noteq> None) is"

definition matching :: "'t \<Rightarrow> constr set \<Rightarrow> nat \<Rightarrow> bool" where
  "matching t cs i \<longleftrightarrow> (\<exists>row. row_at t i = Some row \<and> (\<forall>c \<in> cs. satisfies row c))"

lemma refine_all:
  assumes "inv t" "\<forall>c \<in> set cs. in_cols (arity t) c" "wf_subset s" "set (offsets s) \<subseteq> {..<n_rows t}"
  shows "\<exists>s'. refine (refine_one t) s cs = Ok s' \<and> wf_subset s' \<and> set (offsets s') \<subseteq> {..<n_rows t} \<and>
    live t (offsets s') = filter (matching t (set cs)) (offsets s)"
  using assms(2,3,4)
proof (induction cs arbitrary: s)
  case Nil
  then show ?case by (simp add: refine_def live_def matching_def)
next
  case (Cons c cs)
  from refine_one [OF assms(1), of c s] Cons.prems obtain s1 where
    s1: "refine_one t s c = Ok s1" "wf_subset s1"
      "offsets s1 = filter (\<lambda>i. \<exists>row. row_at t i = Some row \<and> satisfies row c) (offsets s)" by auto
  have "set (offsets s1) \<subseteq> {..<n_rows t}" using s1(3) Cons.prems by auto
  from Cons.IH [OF _ s1(2) this] Cons.prems obtain s2 where
    s2: "refine (refine_one t) s1 cs = Ok s2" "wf_subset s2" "set (offsets s2) \<subseteq> {..<n_rows t}"
      "live t (offsets s2) = filter (matching t (set cs)) (offsets s1)" by auto
  have "filter (matching t (set cs)) (offsets s1) = filter (matching t (set (c # cs))) (offsets s)"
    unfolding s1(3) filter_filter by (rule filter_cong) (auto simp: matching_def)
  with s1 s2 show ?case by (auto simp: refine_def)
qed

lemma split_steps:
  assumes "inv t" "\<forall>c \<in> set cs. in_cols (arity t) c" "wf_subset s" "set (offsets s) \<subseteq> {..<n_rows t}"
  shows "\<exists>s' quick' slow'. fold_out (\<lambda>c (s, quick, slow).
         bind_o (fast t c) (\<lambda>r. case r of
             Some sub \<Rightarrow> bind_o (subset_intersect s sub) (\<lambda>s'. Ok (s', quick @ [c], slow))
           | None \<Rightarrow> Ok (s, quick, slow @ [c]))) cs (s, quick, slow)
       = Ok (s', quick @ quick', slow @ slow')
     \<and> wf_subset s' \<and> set (offsets s') \<subseteq> {..<n_rows t} \<and> set quick' \<union> set slow' = set cs
     \<and> live t (offsets s') = filter (matching t (set quick')) (offsets s)"
  using assms(2,3,4)
proof (induction cs arbitrary: s quick slow)
  case Nil
  then show ?case by (simp add: live_def matching_def)
next
  case (Cons c cs)
  from fast [OF assms(1), of c] Cons.prems obtain r where
    r: "fast t c = Ok r" "\<And>s i row. r = Some s \<Longrightarrow> wf_subset s"
      "\<And>s i row. r = Some s \<Longrightarrow> row_at t i = Some row \<Longrightarrow> (i \<in> set (offsets s) \<longleftrightarrow> satisfies row c)" by auto
  show ?case
  proof (cases r)
    case None
    from Cons.IH [of s quick "slow @ [c]"] Cons.prems obtain s' quick' slow' where
      "fold_out (\<lambda>c (s, quick, slow).
         bind_o (fast t c) (\<lambda>r. case r of
             Some sub \<Rightarrow> bind_o (subset_intersect s sub) (\<lambda>s'. Ok (s', quick @ [c], slow))
           | None \<Rightarrow> Ok (s, quick, slow @ [c]))) cs (s, quick, slow @ [c])
       = Ok (s', quick @ quick', (slow @ [c]) @ slow')"
      "wf_subset s'" "set (offsets s') \<subseteq> {..<n_rows t}" "set quick' \<union> set slow' = set cs"
      "live t (offsets s') = filter (matching t (set quick')) (offsets s)" by auto
    with r None show ?thesis
      by (intro exI [of _ s'] exI [of _ quick'] exI [of _ "c # slow'"]) auto
  next
    case (Some sub)
    from intersect_rows [OF Cons.prems(2) r(2) [OF Some]] obtain s1 where
      s1: "subset_intersect s sub = Ok s1" "wf_subset s1"
        "offsets s1 = filter (\<lambda>x. x \<in> set (offsets sub)) (offsets s)" by auto
    have "set (offsets s1) \<subseteq> {..<n_rows t}" using s1(3) Cons.prems(3) by auto
    with Cons.IH [of s1 "quick @ [c]" slow] Cons.prems s1(2) obtain s' quick' slow' where
      s': "fold_out (\<lambda>c (s, quick, slow).
         bind_o (fast t c) (\<lambda>r. case r of
             Some sub \<Rightarrow> bind_o (subset_intersect s sub) (\<lambda>s'. Ok (s', quick @ [c], slow))
           | None \<Rightarrow> Ok (s, quick, slow @ [c]))) cs (s1, quick @ [c], slow)
       = Ok (s', (quick @ [c]) @ quick', slow @ slow')"
      "wf_subset s'" "set (offsets s') \<subseteq> {..<n_rows t}" "set quick' \<union> set slow' = set cs"
      "live t (offsets s') = filter (matching t (set quick')) (offsets s1)" by auto
    have "filter (matching t (set quick')) (offsets s1) = filter (matching t (set (c # quick'))) (offsets s)"
      unfolding s1(3) filter_filter by (rule filter_cong) (auto simp: matching_def r(3) [OF Some])
    with s' r(1) s1(1) Some show ?thesis
      by (intro exI [of _ s'] exI [of _ "c # quick'"] exI [of _ slow']) auto
  qed
qed

text \<open>Splitting, then refining by the slow constraints, finds exactly the live rows that match.\<close>

lemma split_then_refine:
  assumes "inv t" "\<forall>c \<in> set cs. in_cols (arity t) c"
  shows "\<exists>s quick slow s'. split_fast_slow (all_rows t) (fast t) cs = Ok (s, quick, slow)
    \<and> set quick \<union> set slow = set cs \<and> refine (refine_one t) s slow = Ok s' \<and> set (offsets s') \<subseteq> {..<n_rows t}
    \<and> live t (offsets s') = filter (matching t (set cs)) [0..<n_rows t]"
proof -
  from all_rows [OF assms(1)] obtain s0 where
    s0: "all_rows t = Ok s0" "wf_subset s0" "offsets s0 = [0..<n_rows t]" by auto
  from split_steps [OF assms s0(2), of "[]" "[]"] s0 obtain s quick slow where
    s: "split_fast_slow (all_rows t) (fast t) cs = Ok (s, quick, slow)" "wf_subset s"
      "set (offsets s) \<subseteq> {..<n_rows t}" "set quick \<union> set slow = set cs"
      "live t (offsets s) = filter (matching t (set quick)) [0..<n_rows t]"
    by (auto simp: split_fast_slow_def atLeast0LessThan)
  have "\<forall>c \<in> set slow. in_cols (arity t) c" using assms(2) s(4) by auto
  from refine_all [OF assms(1) this s(2,3)] obtain s' where
    s': "refine (refine_one t) s slow = Ok s'" "set (offsets s') \<subseteq> {..<n_rows t}" "live t (offsets s') = filter (matching t (set slow)) (offsets s)"
    by auto
  have "filter (matching t (set slow)) (offsets s) = filter (matching t (set slow)) (live t (offsets s))"
    unfolding live_def filter_filter by (rule filter_cong) (auto simp: matching_def)
  also have "\<dots> = filter (matching t (set cs)) [0..<n_rows t]"
    unfolding s(5) filter_filter s(4) [symmetric] by (intro filter_cong) (auto simp: matching_def)
  finally show ?thesis using s s' by auto
qed

end

end
