(* ===== verification/Displaced_Table.thy ===== *)
theory Displaced_Table
  imports Union_Find Table_Spec
begin

text \<open>
  \<open>core-relations/src/uf/mod.rs\<close>: the table that answers queries about a union-find. Its
  rows are the values that are no longer canonical, with their leader (computed when the row is
  read) and the timestamp at which they were displaced. Staged writes are row buffers in a queue.
  The callback for changes of leaders acts on the execution state, whose type is a parameter
  \<open>'x\<close>; the code runs it with the table taken out of the database, so it does not change the
  table. A union-find query that would not return is a panic here; on tables that the operations
  build there is none.
\<close>

section \<open>The table\<close>

record leader_change =
  write_lhs :: nat
  lhs_leader :: nat
  write_rhs :: nat
  rhs_leader :: nat
  change_ts :: nat
  write_proof :: nat

definition new_leader :: "leader_change \<Rightarrow> nat" where
  "new_leader c = min (lhs_leader c) (rhs_leader c)"

type_synonym 'x callback = "('x \<Rightarrow> leader_change \<Rightarrow> 'x) option"

record displaced_table =
  dt_uf :: uf
  dt_displaced :: "(nat \<times> nat) list"
  dt_changed :: bool
  dt_lookup :: "nat \<rightharpoonup> nat"
  dt_buffered :: "row_buffer list"

definition dt_new :: displaced_table where
  "dt_new = \<lparr>dt_uf = uf_new, dt_displaced = [], dt_changed = False, dt_lookup = Map.empty, dt_buffered = []\<rparr>"

definition dt_clear :: "displaced_table \<Rightarrow> displaced_table" where
  "dt_clear t = t\<lparr>dt_uf := uf_reset (dt_uf t), dt_displaced := []\<rparr>"

text \<open>A clone does not share the pending writes.\<close>

definition dt_clone :: "displaced_table \<Rightarrow> displaced_table" where
  "dt_clone t = t\<lparr>dt_buffered := []\<rparr>"

text \<open>Staging goes to a buffer of its own, which joins the queue when it is dropped.\<close>

definition dt_new_buffer :: "row_buffer result" where
  "dt_new_buffer = rb_new 3"

definition ufb_stage_insert :: "nat list \<Rightarrow> row_buffer \<Rightarrow> row_buffer result" where
  "ufb_stage_insert r b = bind_o (rb_add_row b r) (\<lambda>(b', _). Ok b')"

definition ufb_stage_remove :: "nat list \<Rightarrow> row_buffer \<Rightarrow> row_buffer result" where
  "ufb_stage_remove r b = Panic"

definition ufb_drop :: "row_buffer \<Rightarrow> displaced_table \<Rightarrow> displaced_table" where
  "ufb_drop b t = t\<lparr>dt_buffered := dt_buffered t @ [b]\<rparr>"

section \<open>Reading\<close>

definition dt_find :: "displaced_table \<Rightarrow> nat \<Rightarrow> nat result" where
  "dt_find t v = opt_o Panic (uf_find_naive (dt_uf t) v)"

definition dt_expand :: "displaced_table \<Rightarrow> nat \<Rightarrow> nat list result" where
  "dt_expand t i =
     bind_o (at_o (dt_displaced t) i) (\<lambda>(child, ts).
       bind_o (dt_find t child) (\<lambda>leader. Ok [child, leader, ts]))"

definition dt_eval :: "displaced_table \<Rightarrow> constr \<Rightarrow> nat \<Rightarrow> bool result" where
  "dt_eval t c i = bind_o (dt_expand t i) (\<lambda>vals. eval_constraint vals c)"

function scan_up :: "nat list \<Rightarrow> nat \<Rightarrow> nat \<Rightarrow> nat" where
  "scan_up xs v next = (if next < length xs \<and> xs ! next = v then scan_up xs v (Suc next) else next)"
  by pat_completeness auto
termination
  by (relation "measure (\<lambda>(xs, v, next). length xs - next)") auto

declare scan_up.simps [simp del]

datatype ts_bounds = Within nat nat | Between nat

definition timestamp_bounds :: "displaced_table \<Rightarrow> nat \<Rightarrow> ts_bounds result" where
  "timestamp_bounds t v =
     (let tss = map snd (dt_displaced t) in
      case binary_search tss v of
        Found i \<Rightarrow> bind_o (row_id (back_up tss v 0 i)) (\<lambda>a. bind_o (row_id (scan_up tss v i)) (\<lambda>b. Ok (Within a b)))
      | Absent i \<Rightarrow> bind_o (row_id i) (\<lambda>a. Ok (Between a)))"

definition dense :: "nat \<Rightarrow> nat \<Rightarrow> subset" where
  "dense a b = Dense \<lparr>or_start = a, or_end = b\<rparr>"

definition dt_all :: "displaced_table \<Rightarrow> subset result" where
  "dt_all t = bind_o (row_id (length (dt_displaced t))) (\<lambda>n. Ok (dense 0 n))"

definition dt_len :: "displaced_table \<Rightarrow> nat" where
  "dt_len t = length (dt_displaced t)"

definition dt_version :: "displaced_table \<Rightarrow> table_version" where
  "dt_version t = \<lparr>tv_major = 0, tv_minor = length (dt_displaced t)\<rparr>"

definition dt_updates_since :: "displaced_table \<Rightarrow> nat \<Rightarrow> subset result" where
  "dt_updates_since t off =
     bind_o (row_id off) (\<lambda>a. bind_o (row_id (length (dt_displaced t))) (\<lambda>b. Ok (dense a b)))"

definition dt_scan :: "displaced_table \<Rightarrow> subset \<Rightarrow> nat \<Rightarrow> nat \<Rightarrow> constr list \<Rightarrow> scanned result" where
  "dt_scan t s start n cs =
     bind_o (iter_bounded s start (start + n)) (\<lambda>(is, next).
       bind_o (fold_out (\<lambda>i out.
           bind_o (if cs = [] then Ok True else bind_o (dt_expand t i) (eval_constraints cs)) (\<lambda>b.
             if b then bind_o (dt_expand t i) (\<lambda>r. Ok (out @ [(i, r)])) else Ok out)) is [])
         (\<lambda>out. Ok (out, next)))"

definition dt_refine_one :: "displaced_table \<Rightarrow> subset \<Rightarrow> constr \<Rightarrow> subset result" where
  "dt_refine_one t s c = retain_o (dt_eval t c) s"

fun dt_fast_subset :: "displaced_table \<Rightarrow> constr \<Rightarrow> subset option result" where
  "dt_fast_subset t (CEq _ _) = Ok None"
| "dt_fast_subset t (CEqConst col v) =
     (if col = 1 then Ok None
      else if col = 0
      then (case dt_lookup t v of
              Some i \<Rightarrow> bind_o (row_id (Suc i)) (\<lambda>e. Ok (Some (dense i e)))
            | None \<Rightarrow> Ok (Some empty_subset))
      else bind_o (timestamp_bounds t v) (\<lambda>b. case b of
              Within a e \<Rightarrow> Ok (Some (dense a e)) | Between _ \<Rightarrow> Ok None))"
| "dt_fast_subset t (CLtConst col v) =
     (if col \<noteq> 2 then Ok None
      else bind_o (timestamp_bounds t v) (\<lambda>b. case b of
              Within a _ \<Rightarrow> Ok (Some (dense 0 a)) | Between a \<Rightarrow> Ok (Some (dense 0 a))))"
| "dt_fast_subset t (CGtConst col v) =
     (if col \<noteq> 2 then Ok None
      else bind_o (timestamp_bounds t v) (\<lambda>b.
             bind_o (row_id (length (dt_displaced t))) (\<lambda>n. case b of
               Within _ e \<Rightarrow> Ok (Some (dense e n)) | Between a \<Rightarrow> Ok (Some (dense a n)))))"
| "dt_fast_subset t (CLeConst col v) =
     (if col \<noteq> 2 then Ok None
      else bind_o (timestamp_bounds t v) (\<lambda>b. case b of
              Within _ e \<Rightarrow> Ok (Some (dense 0 e)) | Between a \<Rightarrow> Ok (Some (dense 0 a))))"
| "dt_fast_subset t (CGeConst col v) =
     (if col \<noteq> 2 then Ok None
      else bind_o (timestamp_bounds t v) (\<lambda>b.
             bind_o (row_id (length (dt_displaced t))) (\<lambda>n. case b of
               Within a _ \<Rightarrow> Ok (Some (dense a n)) | Between a \<Rightarrow> Ok (Some (dense a n)))))"

definition dt_get_row :: "displaced_table \<Rightarrow> nat list \<Rightarrow> (nat \<times> nat list) option result" where
  "dt_get_row t key =
     (if length key \<noteq> 1 then Panic
      else case dt_lookup t (key ! 0) of
             None \<Rightarrow> Ok None
           | Some i \<Rightarrow> bind_o (dt_expand t i) (\<lambda>r. Ok (Some (i, r))))"

definition dt_get_row_column :: "displaced_table \<Rightarrow> nat list \<Rightarrow> nat \<Rightarrow> nat option result" where
  "dt_get_row_column t key col =
     (if length key \<noteq> 1 then Panic
      else if col = 1 then bind_o (dt_find t (key ! 0)) (\<lambda>v. Ok (Some v))
      else case dt_lookup t (key ! 0) of
             None \<Rightarrow> Ok None
           | Some i \<Rightarrow> bind_o (dt_expand t i) (\<lambda>r. bind_o (at_o r col) (\<lambda>v. Ok (Some v))))"

section \<open>Writing\<close>

definition dt_insert_with_proof ::
    "'x callback \<Rightarrow> nat list \<Rightarrow> nat \<Rightarrow> bool \<Rightarrow> displaced_table \<times> 'x
      \<Rightarrow> ((nat \<times> nat \<times> leader_change) option \<times> displaced_table \<times> 'x) result" where
  "dt_insert_with_proof cb r proof_value defer_callback tx =
     (let (t, x) = tx in
      if length r \<noteq> 3 then Panic
      else
        bind_o (opt_o Panic (uf_find (dt_uf t) (r ! 0))) (\<lambda>(u1, l).
        bind_o (opt_o Panic (uf_find u1 (r ! 1))) (\<lambda>(u2, m).
        if l = m then Ok (None, t\<lparr>dt_uf := u2\<rparr>, x)
        else
          bind_o (opt_o Panic (uf_union u2 (r ! 0) (r ! 1))) (\<lambda>(u3, parent, child).
          bind_o (opt_o Panic (uf_find u3 parent)) (\<lambda>(u4, _).
          bind_o (opt_o Panic (uf_find u4 child)) (\<lambda>(u5, _).
            let ts = r ! 2;
                change = \<lparr>write_lhs = r ! 0, lhs_leader = l, write_rhs = r ! 1, rhs_leader = m,
                          change_ts = ts, write_proof = proof_value\<rparr>;
                x1 = (case cb of Some f \<Rightarrow> if defer_callback then x else f x change | None \<Rightarrow> x)
            in if dt_displaced t \<noteq> [] \<and> \<not> snd (last (dt_displaced t)) \<le> ts then Panic
               else bind_o (row_id (length (dt_displaced t))) (\<lambda>next.
                 Ok (Some (parent, child, change),
                     t\<lparr>dt_uf := u5, dt_displaced := dt_displaced t @ [(child, ts)],
                       dt_lookup := (dt_lookup t)(child \<mapsto> next)\<rparr>, x1))))))))"

definition dt_insert ::
    "'x callback \<Rightarrow> nat list \<Rightarrow> displaced_table \<times> 'x \<Rightarrow> ((nat \<times> nat) option \<times> displaced_table \<times> 'x) result"
where
  "dt_insert cb r tx =
     (if length r \<noteq> 3 then Panic
      else bind_o (dt_insert_with_proof cb r 0 False tx) (\<lambda>(res, t, x).
        Ok (map_option (\<lambda>(parent, child, _). (parent, child)) res, t, x)))"

definition dt_insert_rows :: "'x callback \<Rightarrow> nat list list \<Rightarrow> displaced_table \<times> 'x \<Rightarrow> (displaced_table \<times> 'x) result" where
  "dt_insert_rows cb =
     fold_out (\<lambda>r tx. bind_o (dt_insert cb r tx) (\<lambda>(res, t, x).
       Ok (t\<lparr>dt_changed := dt_changed t \<or> res \<noteq> None\<rparr>, x)))"

text \<open>\<open>merge\<close> empties the queue and reports whether a union changed something.\<close>

definition dt_merge :: "'x callback \<Rightarrow> displaced_table \<times> 'x \<Rightarrow> (bool \<times> displaced_table \<times> 'x) result" where
  "dt_merge cb tx =
     (let (t, x) = tx in
      bind_o (fold_out (\<lambda>b. dt_insert_rows cb (rb_iter b)) (dt_buffered t) (t\<lparr>dt_buffered := []\<rparr>, x))
        (\<lambda>(t1, x1). Ok (dt_changed t1, t1\<lparr>dt_changed := False\<rparr>, x1)))"

text \<open>A round of the table: rows are staged in one buffer, which is dropped; then a merge.\<close>

definition dt_stage :: "nat list list \<Rightarrow> displaced_table \<Rightarrow> displaced_table result" where
  "dt_stage rows t =
     bind_o dt_new_buffer (\<lambda>b. bind_o (fold_out ufb_stage_insert rows b) (\<lambda>b'. Ok (ufb_drop b' t)))"

definition dt_round :: "'x callback \<Rightarrow> nat list list \<Rightarrow> displaced_table \<times> 'x \<Rightarrow> (displaced_table \<times> 'x) result" where
  "dt_round cb rows tx =
     (let (t, x) = tx in
      bind_o (dt_stage rows t) (\<lambda>t1. bind_o (dt_merge cb (t1, x)) (\<lambda>(_, t2, x2). Ok (t2, x2))))"

section \<open>Rebuilding rows of other tables\<close>

text \<open>
  The code has loops of their own for one, two and three columns, and a general one. Each
  computes the canonical row, or nothing when no column changes.
\<close>

definition rebuild_one :: "displaced_table \<Rightarrow> nat \<Rightarrow> nat list \<Rightarrow> nat list option result" where
  "rebuild_one t c r =
     bind_o (at_o r c) (\<lambda>v. bind_o (dt_find t v) (\<lambda>v'.
       Ok (if v' \<noteq> v then Some (r[c := v']) else None)))"

definition rebuild_two :: "displaced_table \<Rightarrow> nat \<Rightarrow> nat \<Rightarrow> nat list \<Rightarrow> nat list option result" where
  "rebuild_two t c1 c2 r =
     bind_o (at_o r c1) (\<lambda>v1. bind_o (at_o r c2) (\<lambda>v2.
     bind_o (dt_find t v1) (\<lambda>w1. bind_o (dt_find t v2) (\<lambda>w2.
       Ok (if w1 \<noteq> v1 \<or> w2 \<noteq> v2 then Some (r[c1 := w1, c2 := w2]) else None)))))"

definition rebuild_three :: "displaced_table \<Rightarrow> nat \<Rightarrow> nat \<Rightarrow> nat \<Rightarrow> nat list \<Rightarrow> nat list option result" where
  "rebuild_three t c1 c2 c3 r =
     bind_o (at_o r c1) (\<lambda>v1. bind_o (at_o r c2) (\<lambda>v2. bind_o (at_o r c3) (\<lambda>v3.
     bind_o (dt_find t v1) (\<lambda>w1. bind_o (dt_find t v2) (\<lambda>w2. bind_o (dt_find t v3) (\<lambda>w3.
       Ok (if w1 \<noteq> v1 \<or> w2 \<noteq> v2 \<or> w3 \<noteq> v3 then Some (r[c1 := w1, c2 := w2, c3 := w3]) else None)))))))"

definition rebuild_step :: "displaced_table \<Rightarrow> nat \<Rightarrow> nat list \<times> bool \<Rightarrow> (nat list \<times> bool) result" where
  "rebuild_step t c rb =
     (let (r, changed) = rb in
      bind_o (at_o r c) (\<lambda>v. bind_o (dt_find t v) (\<lambda>v'. Ok (r[c := v'], changed \<or> v' \<noteq> v))))"

definition rebuild_many :: "displaced_table \<Rightarrow> nat list \<Rightarrow> nat list \<Rightarrow> nat list option result" where
  "rebuild_many t cs r =
     bind_o (fold_out (rebuild_step t) cs (r, False)) (\<lambda>(r', changed). Ok (if changed then Some r' else None))"

fun rebuild_row :: "displaced_table \<Rightarrow> nat list \<Rightarrow> nat list \<Rightarrow> nat list option result" where
  "rebuild_row t [c] r = rebuild_one t c r"
| "rebuild_row t [c1, c2] r = rebuild_two t c1 c2 r"
| "rebuild_row t [c1, c2, c3] r = rebuild_three t c1 c2 c3 r"
| "rebuild_row t cs r = rebuild_many t cs r"

definition rebuild_buf :: "displaced_table \<Rightarrow> nat list \<Rightarrow> row_buffer \<Rightarrow> nat \<Rightarrow> nat \<Rightarrow> row_buffer \<Rightarrow> row_buffer result" where
  "rebuild_buf t cols b start e out =
     (if e \<le> start then Ok out
      else if rb_total b < e then Panic
      else fold_out (\<lambda>i out. bind_o (rb_get_row b i) (\<lambda>r.
             bind_o (rebuild_row t cols r) (\<lambda>r'. case r' of
               None \<Rightarrow> Ok out | Some row \<Rightarrow> trb_add_row out i row))) [start..<e] out)"

text \<open>
  \<open>rebuild_subset\<close> first copies the rows of a subset of the other table (what its scan
  lists), then rewrites them in place; rows that do not change are marked stale.
\<close>

definition rebuild_copied :: "displaced_table \<Rightarrow> nat list \<Rightarrow> nat \<Rightarrow> row_buffer \<Rightarrow> row_buffer result" where
  "rebuild_copied t cols i out =
     bind_o (trb_get_row out i) (\<lambda>(_, r).
     bind_o (fold_out (rebuild_step t) cols (r, False)) (\<lambda>(r', changed).
       if changed then Ok (trb_put_row out i r')
       else bind_o (rb_set_stale (trb_put_row out i r') i) (\<lambda>(out', _). Ok out')))"

definition rebuild_subset :: "displaced_table \<Rightarrow> nat list \<Rightarrow> scanned result \<Rightarrow> row_buffer \<Rightarrow> row_buffer result" where
  "rebuild_subset t cols scan out =
     bind_o (row_id (rb_total out)) (\<lambda>old.
     bind_o (scan_into scan out) (\<lambda>(out1, _).
     bind_o (row_id (rb_total out1)) (\<lambda>n.
       fold_out (rebuild_copied t cols) [old..<n] out1)))"

definition rebuild_slice :: "displaced_table \<Rightarrow> nat list \<Rightarrow> (nat list \<times> bool) result" where
  "rebuild_slice t vs =
     fold_out (\<lambda>v (vs', changed). bind_o (dt_find t v) (\<lambda>v'. Ok (vs' @ [v'], changed \<or> v' \<noteq> v)))
       vs ([], False)"

end
