(* ===== verification/Displaced_Correct.thy ===== *)
theory Displaced_Correct
  imports Displaced_Table
begin

text \<open>
  The displaced table implements the equivalence that its writes generate: its rows are the
  values that are not the least of their class, with the least one and the time at which they
  were displaced. It fulfils the contract of tables towards the query planner.
\<close>

section \<open>Invariant\<close>

definition dt_inv :: "displaced_table \<Rightarrow> bool" where
  "dt_inv t \<longleftrightarrow> uf_inv (dt_uf t) \<and> distinct (map fst (dt_displaced t)) \<and> sorted (map snd (dt_displaced t))
     \<and> int (length (dt_displaced t)) < 2 ^ 32
     \<and> dt_lookup t = (\<lambda>v. index_of v (map fst (dt_displaced t)))
     \<and> (\<forall>v. v \<in> fst ` set (dt_displaced t) \<longleftrightarrow> uf_rep (dt_uf t) v \<noteq> v)"

lemma dt_inv_uf: "dt_inv t \<Longrightarrow> uf_inv (dt_uf t)"
  by (simp add: dt_inv_def)

lemma dt_find_eq [simp]: "dt_inv t \<Longrightarrow> dt_find t v = Ok (uf_rep (dt_uf t) v)"
  by (simp add: dt_find_def dt_inv_uf uf_find_naive_correct)

lemma dt_inv_new: "dt_inv dt_new"
  by (auto simp: dt_inv_def dt_new_def uf_rep_new)

lemma dt_inv_frame: "dt_inv (t\<lparr>dt_changed := c\<rparr>) = dt_inv t" "dt_inv (t\<lparr>dt_buffered := bs\<rparr>) = dt_inv t"
  by (simp_all add: dt_inv_def)

lemma index_of_snoc:
  "x \<notin> set xs \<Longrightarrow> index_of v (xs @ [x]) = (if v = x then Some (length xs) else index_of v xs)"
  by (induction xs) auto

section \<open>Inserting\<close>

lemma uf_find_same:
  assumes "uf_inv u"
  obtains u' where "uf_find u i = Some (u', uf_rep u i)" "uf_inv u'" "uf_rep u' = uf_rep u"
  using uf_find_correct [OF assms, of i] by (auto simp: fun_eq_iff)

text \<open>What a write changes: nothing when its values are already equal.\<close>

definition join_reps :: "uf \<Rightarrow> nat \<Rightarrow> nat \<Rightarrow> nat \<Rightarrow> nat" where
  "join_reps u a b v =
     (if uf_rep u v \<in> {uf_rep u a, uf_rep u b} then min (uf_rep u a) (uf_rep u b) else uf_rep u v)"

definition notify :: "'x callback \<Rightarrow> 'x \<Rightarrow> leader_change \<Rightarrow> 'x" where
  "notify cb x change = (case cb of None \<Rightarrow> x | Some f \<Rightarrow> f x change)"

lemma dt_insert_with_proof_same:
  assumes inv: "dt_inv t" and r: "length r = 3"
    and same: "uf_rep (dt_uf t) (r ! 0) = uf_rep (dt_uf t) (r ! 1)"
  shows "\<exists>t'. dt_insert_with_proof cb r p defer (t, x) = Ok (None, t', x) \<and> dt_inv t'
     \<and> uf_rep (dt_uf t') = uf_rep (dt_uf t) \<and> dt_displaced t' = dt_displaced t
     \<and> dt_buffered t' = dt_buffered t \<and> dt_changed t' = dt_changed t"
proof -
  from uf_find_same [OF dt_inv_uf [OF inv], of "r ! 0"] obtain u1 where
    u1: "uf_find (dt_uf t) (r ! 0) = Some (u1, uf_rep (dt_uf t) (r ! 0))" "uf_inv u1" "uf_rep u1 = uf_rep (dt_uf t)" .
  from uf_find_same [OF u1(2), of "r ! 1"] obtain u2 where
    u2: "uf_find u1 (r ! 1) = Some (u2, uf_rep u1 (r ! 1))" "uf_inv u2" "uf_rep u2 = uf_rep u1" .
  show ?thesis using inv r same u1 u2
    by (intro exI [of _ "t\<lparr>dt_uf := u2\<rparr>"]) (simp add: dt_insert_with_proof_def dt_inv_def)
qed

lemma dt_inv_displace:
  assumes inv: "dt_inv t" and ne: "ra \<noteq> rb" and r: "ra = uf_rep (dt_uf t) a" "rb = uf_rep (dt_uf t) b"
    and ts: "\<forall>y \<in> snd ` set (dt_displaced t). y \<le> ts"
    and size: "int (Suc (length (dt_displaced t))) < 2 ^ 32"
    and u: "uf_inv u" "uf_rep u = join_reps (dt_uf t) a b"
  shows "dt_inv (t\<lparr>dt_uf := u, dt_displaced := dt_displaced t @ [(max ra rb, ts)],
     dt_lookup := (dt_lookup t)(max ra rb \<mapsto> length (dt_displaced t))\<rparr>)"
proof -
  let ?D = "dt_displaced t" and ?c = "max ra rb"
  have c: "uf_rep (dt_uf t) ?c = ?c" using inv r by (auto simp: max_def dt_inv_uf uf_rep_idem)
  then have new: "?c \<notin> set (map fst ?D)" using inv by (auto simp: dt_inv_def)
  have lookup: "(dt_lookup t)(?c \<mapsto> length ?D) = (\<lambda>v. index_of v (map fst ?D @ [?c]))"
    using inv index_of_snoc [OF new] by (auto simp: dt_inv_def fun_eq_iff)
  have rep: "uf_rep u v \<noteq> v \<longleftrightarrow> uf_rep (dt_uf t) v \<noteq> v \<or> v = ?c" for v
  proof (cases "uf_rep (dt_uf t) v = v")
    case True
    then show ?thesis using ne r by (auto simp: u(2) join_reps_def min_def max_def)
  next
    case False
    have "min ra rb \<noteq> v" if "uf_rep (dt_uf t) v \<in> {ra, rb}"
    proof
      assume "min ra rb = v"
      then have "uf_rep (dt_uf t) v = v" using inv r by (auto simp: min_def dt_inv_uf uf_rep_idem split: if_splits)
      with False show False by simp
    qed
    with False show ?thesis using r by (auto simp: u(2) join_reps_def)
  qed
  have "sorted (map snd (?D @ [(?c, ts)]))" using inv ts by (auto simp: dt_inv_def sorted_append)
  then show ?thesis using inv size u(1) new lookup rep by (auto simp: dt_inv_def)
qed

lemma dt_insert_with_proof_union:
  fixes p :: nat
  assumes inv: "dt_inv t" and r: "length r = 3"
    and ne: "uf_rep (dt_uf t) (r ! 0) \<noteq> uf_rep (dt_uf t) (r ! 1)"
    and ts: "\<forall>y \<in> snd ` set (dt_displaced t). y \<le> r ! 2"
    and size: "int (Suc (length (dt_displaced t))) < 2 ^ 32"
  defines "la \<equiv> uf_rep (dt_uf t) (r ! 0)" and "lb \<equiv> uf_rep (dt_uf t) (r ! 1)"
  defines "change \<equiv> \<lparr>write_lhs = r ! 0, lhs_leader = la, write_rhs = r ! 1, rhs_leader = lb,
                     change_ts = r ! 2, write_proof = p\<rparr>"
  shows "\<exists>t'. dt_insert_with_proof cb r p defer (t, x)
       = Ok (Some (min la lb, max la lb, change), t', if defer then x else notify cb x change)
     \<and> dt_inv t' \<and> uf_rep (dt_uf t') = join_reps (dt_uf t) (r ! 0) (r ! 1)
     \<and> dt_displaced t' = dt_displaced t @ [(max la lb, r ! 2)]
     \<and> dt_buffered t' = dt_buffered t \<and> dt_changed t' = dt_changed t"
proof -
  from uf_find_same [OF dt_inv_uf [OF inv], of "r ! 0"] obtain u1 where
    u1: "uf_find (dt_uf t) (r ! 0) = Some (u1, la)" "uf_inv u1" "uf_rep u1 = uf_rep (dt_uf t)"
    unfolding la_def .
  from uf_find_same [OF u1(2), of "r ! 1"] obtain u2 where
    u2: "uf_find u1 (r ! 1) = Some (u2, lb)" "uf_inv u2" "uf_rep u2 = uf_rep (dt_uf t)"
    unfolding lb_def u1(3) .
  from uf_union_correct [OF u2(2) refl refl, of "r ! 0" "r ! 1"] obtain u3 where
    u3: "uf_union u2 (r ! 0) (r ! 1) = Some (u3, min la lb, max la lb)" "uf_inv u3"
      "uf_rep u3 = join_reps (dt_uf t) (r ! 0) (r ! 1)"
    by (auto simp: u2(3) la_def lb_def join_reps_def fun_eq_iff)
  from uf_find_same [OF u3(2), of "min la lb"] obtain u4 where
    u4: "uf_find u3 (min la lb) = Some (u4, uf_rep u3 (min la lb))" "uf_inv u4" "uf_rep u4 = uf_rep u3" .
  from uf_find_same [OF u4(2), of "max la lb"] obtain u5 where
    u5: "uf_find u4 (max la lb) = Some (u5, uf_rep u4 (max la lb))" "uf_inv u5" "uf_rep u5 = uf_rep u3"
    unfolding u4(3) .
  have last: "dt_displaced t = [] \<or> snd (last (dt_displaced t)) \<le> r ! 2"
    using ts last_in_set [of "dt_displaced t"] by blast
  let ?t = "t\<lparr>dt_uf := u5, dt_displaced := dt_displaced t @ [(max la lb, r ! 2)],
     dt_lookup := (dt_lookup t)(max la lb \<mapsto> length (dt_displaced t))\<rparr>"
  have "la \<noteq> lb" using ne by (simp add: la_def lb_def)
  then have "dt_inv ?t" using u5 u3 ts size
    by (intro dt_inv_displace [OF inv, of _ _ "r ! 0" "r ! 1"]) (simp_all add: la_def lb_def)
  moreover have "dt_insert_with_proof cb r p defer (t, x)
       = Ok (Some (min la lb, max la lb, change), ?t, if defer then x else notify cb x change)"
    using r u1 u2 u3 u4 u5 last size \<open>la \<noteq> lb\<close>
    by (auto simp: dt_insert_with_proof_def change_def notify_def Let_def row_id_def split: option.split)
  ultimately show ?thesis using u5(3) u3(3) by (intro exI [of _ ?t]) simp
qed

section \<open>The equivalence of the writes\<close>

type_synonym writes = "(nat \<times> nat \<times> nat) list"

definition joined :: "writes \<Rightarrow> nat \<Rightarrow> nat \<Rightarrow> bool" where
  "joined ws = equivclp (\<lambda>a b. \<exists>ts. (a, b, ts) \<in> set ws)"

definition leader :: "writes \<Rightarrow> nat \<Rightarrow> nat" where
  "leader ws v = (LEAST j. joined ws v j)"

text \<open>The write with index \<open>k\<close> displaces \<open>v\<close>.\<close>

definition displaced_by :: "writes \<Rightarrow> nat \<Rightarrow> nat \<Rightarrow> bool" where
  "displaced_by ws k v \<longleftrightarrow> k < length ws \<and> leader (take k ws) v = v \<and> leader (take (Suc k) ws) v \<noteq> v"

definition write_of :: "nat list \<Rightarrow> nat \<times> nat \<times> nat" where
  "write_of r = (r ! 0, r ! 1, r ! 2)"

definition dt_repr :: "writes \<Rightarrow> displaced_table \<Rightarrow> bool" where
  "dt_repr ws t \<longleftrightarrow> dt_inv t \<and> (\<forall>x y. uf_rep (dt_uf t) x = uf_rep (dt_uf t) y \<longleftrightarrow> joined ws x y)
     \<and> (\<forall>v ts. (v, ts) \<in> set (dt_displaced t) \<longleftrightarrow> (\<exists>k. displaced_by ws k v \<and> ts = snd (snd (ws ! k))))
     \<and> length (dt_displaced t) \<le> length ws"

lemma joined_nil: "joined [] x y \<longleftrightarrow> x = y"
proof
  assume "joined [] x y"
  then show "x = y" unfolding joined_def by (induction rule: equivclp_induct) auto
qed (simp add: joined_def)

lemma joined_snoc:
  "joined (ws @ [(a, b, ts)]) = equivclp (\<lambda>x y. (\<exists>ts. (x, y, ts) \<in> set ws) \<or> x = a \<and> y = b)"
  unfolding joined_def by (rule arg_cong [of _ _ equivclp]) (auto simp: fun_eq_iff)

lemma leader_rep: "dt_repr ws t \<Longrightarrow> leader ws v = uf_rep (dt_uf t) v"
  using uf_rep_least [OF dt_inv_uf, of t "joined ws" v] by (simp add: dt_repr_def leader_def)

lemma dt_repr_frame: "dt_repr ws (t\<lparr>dt_changed := c\<rparr>) = dt_repr ws t" "dt_repr ws (t\<lparr>dt_buffered := bs\<rparr>) = dt_repr ws t"
  by (simp_all add: dt_repr_def dt_inv_frame)

lemma dt_repr_new: "dt_repr [] dt_new"
  by (simp add: dt_repr_def dt_inv_new joined_nil displaced_by_def) (simp add: dt_new_def uf_rep_new)

lemma join_reps_joined:
  assumes "uf_inv u" "\<And>x y. uf_rep u x = uf_rep u y \<longleftrightarrow> joined ws x y" "uf_rep u' = join_reps u a b"
  shows "uf_rep u' x = uf_rep u' y \<longleftrightarrow> joined (ws @ [(a, b, ts)]) x y"
proof -
  from uf_union_correct [OF assms(1) refl refl, of a b] obtain v where
    v: "uf_merge u a b = Some v" "uf_rep v = join_reps u a b"
    by (auto simp: uf_merge_def join_reps_def fun_eq_iff)
  from ufm.merge_closure [OF assms(1) v(1) assms(2) [unfolded joined_def], of x y]
  show ?thesis unfolding joined_snoc assms(3) v(2) .
qed

lemma displaced_snoc:
  "displaced_by (ws @ [w]) k v \<longleftrightarrow> displaced_by ws k v \<or> k = length ws \<and> leader ws v = v \<and> leader (ws @ [w]) v \<noteq> v"
  by (auto simp: displaced_by_def less_Suc_eq)

lemma dt_repr_snoc:
  assumes repr: "dt_repr ws t" and inv: "dt_inv t'"
    and u: "uf_rep (dt_uf t') = join_reps (dt_uf t) a b"
    and d: "dt_displaced t' = dt_displaced t @ (if la = lb then [] else [(max la lb, ts)])"
    and l: "la = uf_rep (dt_uf t) a" "lb = uf_rep (dt_uf t) b"
  shows "dt_repr (ws @ [(a, b, ts)]) t'"
proof -
  have ti: "dt_inv t" and tj: "\<And>x y. uf_rep (dt_uf t) x = uf_rep (dt_uf t) y \<longleftrightarrow> joined ws x y"
    and td: "\<And>v ts. (v, ts) \<in> set (dt_displaced t) \<longleftrightarrow> (\<exists>k. displaced_by ws k v \<and> ts = snd (snd (ws ! k)))"
    using repr by (auto simp: dt_repr_def)
  have j: "uf_rep (dt_uf t') x = uf_rep (dt_uf t') y \<longleftrightarrow> joined (ws @ [(a, b, ts)]) x y" for x y
    using join_reps_joined [OF dt_inv_uf [OF ti] tj u] .
  have lead: "leader ws v = uf_rep (dt_uf t) v" "leader (ws @ [(a, b, ts)]) v = uf_rep (dt_uf t') v" for v
    using leader_rep [OF repr] uf_rep_least [OF dt_inv_uf [OF inv] j, of v] by (simp_all add: leader_def)
  have new: "leader ws v = v \<and> leader (ws @ [(a, b, ts)]) v \<noteq> v \<longleftrightarrow> la \<noteq> lb \<and> v = max la lb" for v
  proof -
    have "uf_rep (dt_uf t) la = la" "uf_rep (dt_uf t) lb = lb"
      using ti l by (simp_all add: dt_inv_uf uf_rep_idem)
    then show ?thesis unfolding lead u join_reps_def l [symmetric]
      by (auto simp: min_def max_def split: if_splits)
  qed
  have idx: "displaced_by ws k v \<Longrightarrow> (ws @ [(a, b, ts)]) ! k = ws ! k" for k v
    by (simp add: displaced_by_def nth_append)
  have "(v, s) \<in> set (dt_displaced t') \<longleftrightarrow>
      (\<exists>k. displaced_by (ws @ [(a, b, ts)]) k v \<and> s = snd (snd ((ws @ [(a, b, ts)]) ! k)))" for v s
  proof -
    have "(v, s) \<in> set (dt_displaced t') \<longleftrightarrow>
        (\<exists>k. displaced_by ws k v \<and> s = snd (snd (ws ! k))) \<or> la \<noteq> lb \<and> v = max la lb \<and> s = ts"
      using td by (auto simp: d)
    also have "\<dots> \<longleftrightarrow> (\<exists>k. displaced_by ws k v \<and> s = snd (snd ((ws @ [(a, b, ts)]) ! k)))
        \<or> (leader ws v = v \<and> leader (ws @ [(a, b, ts)]) v \<noteq> v) \<and> s = ts"
      using idx unfolding new [of v] by auto
    also have "\<dots> \<longleftrightarrow> (\<exists>k. displaced_by (ws @ [(a, b, ts)]) k v \<and> s = snd (snd ((ws @ [(a, b, ts)]) ! k)))"
      unfolding displaced_snoc by auto
    finally show ?thesis .
  qed
  moreover have "length (dt_displaced t') \<le> length (ws @ [(a, b, ts)])" using repr by (simp add: d dt_repr_def)
  ultimately show ?thesis using inv j by (simp add: dt_repr_def)
qed

lemma dt_insert_repr:
  assumes repr: "dt_repr ws t" and r: "length r = 3"
    and ts: "\<forall>w \<in> set ws. snd (snd w) \<le> r ! 2" and size: "int (Suc (length ws)) < 2 ^ 32"
  shows "\<exists>res t' x'. dt_insert cb r (t, x) = Ok (res, t', x') \<and> dt_repr (ws @ [write_of r]) t'
     \<and> dt_buffered t' = dt_buffered t \<and> dt_changed t' = dt_changed t
     \<and> (res \<noteq> None \<longleftrightarrow> \<not> joined ws (r ! 0) (r ! 1))"
proof -
  let ?l = "uf_rep (dt_uf t) (r ! 0)" and ?m = "uf_rep (dt_uf t) (r ! 1)"
  have inv: "dt_inv t" and len: "length (dt_displaced t) \<le> length ws"
    and j: "?l = ?m \<longleftrightarrow> joined ws (r ! 0) (r ! 1)" using repr by (auto simp: dt_repr_def)
  have old: "\<forall>y \<in> snd ` set (dt_displaced t). y \<le> r ! 2"
    using repr ts by (fastforce simp: dt_repr_def displaced_by_def)
  show ?thesis
  proof (cases "?l = ?m")
    case True
    from dt_insert_with_proof_same [OF inv r True, of cb 0 False x] obtain t' where
      t': "dt_insert_with_proof cb r 0 False (t, x) = Ok (None, t', x)" "dt_inv t'"
        "uf_rep (dt_uf t') = uf_rep (dt_uf t)" "dt_displaced t' = dt_displaced t"
        "dt_buffered t' = dt_buffered t" "dt_changed t' = dt_changed t" by auto
    have "join_reps (dt_uf t) (r ! 0) (r ! 1) = uf_rep (dt_uf t)" using True by (auto simp: join_reps_def)
    with t' True have "dt_repr (ws @ [write_of r]) t'"
      unfolding write_of_def by (intro dt_repr_snoc [OF repr t'(2) _ _ refl refl]) simp_all
    with t' r True j show ?thesis by (simp add: dt_insert_def)
  next
    case False
    have "int (Suc (length (dt_displaced t))) < 2 ^ 32" using size len by simp
    from dt_insert_with_proof_union [OF inv r False old this, of cb 0 False x] obtain t' c where
      t': "dt_insert_with_proof cb r 0 False (t, x) = Ok (Some (min ?l ?m, max ?l ?m, c), t', notify cb x c)"
        "dt_inv t'" "uf_rep (dt_uf t') = join_reps (dt_uf t) (r ! 0) (r ! 1)"
        "dt_displaced t' = dt_displaced t @ [(max ?l ?m, r ! 2)]"
        "dt_buffered t' = dt_buffered t" "dt_changed t' = dt_changed t" by auto
    then have "dt_repr (ws @ [write_of r]) t'" using False
      unfolding write_of_def by (intro dt_repr_snoc [OF repr t'(2,3) _ refl refl]) simp
    with t' r False j show ?thesis by (simp add: dt_insert_def)
  qed
qed

text \<open>A loop of insertions, the merge of the queue and a round of staging and merging.\<close>

definition in_time :: "writes \<Rightarrow> bool" where
  "in_time ws \<longleftrightarrow> sorted (map (\<lambda>w. snd (snd w)) ws) \<and> int (length ws) < 2 ^ 32"

lemma in_time_append: "in_time (ws @ vs) \<Longrightarrow> in_time ws"
  by (auto simp: in_time_def sorted_append)

lemma dt_insert_rows_repr:
  assumes "dt_repr ws t" "\<forall>r \<in> set rows. length r = 3" "in_time (ws @ map write_of rows)"
  shows "\<exists>t' x'. dt_insert_rows cb rows (t, x) = Ok (t', x') \<and> dt_repr (ws @ map write_of rows) t'
     \<and> dt_buffered t' = dt_buffered t"
  using assms
proof (induction rows arbitrary: ws t x)
  case Nil
  then show ?case by (simp add: dt_insert_rows_def)
next
  case (Cons r rows)
  have "\<forall>w \<in> set ws. snd (snd w) \<le> r ! 2" "int (Suc (length ws)) < 2 ^ 32"
    using Cons.prems(3) by (auto simp: in_time_def sorted_append write_of_def)
  from dt_insert_repr [OF Cons.prems(1) _ this, of cb x] Cons.prems(2) obtain res t1 x1 where
    1: "dt_insert cb r (t, x) = Ok (res, t1, x1)" "dt_repr (ws @ [write_of r]) t1"
      "dt_buffered t1 = dt_buffered t" by auto
  let ?t = "t1\<lparr>dt_changed := dt_changed t1 \<or> res \<noteq> None\<rparr>"
  from Cons.IH [of "ws @ [write_of r]" ?t x1] Cons.prems 1(2) obtain t2 x2 where
    "dt_insert_rows cb rows (?t, x1) = Ok (t2, x2)" "dt_repr (ws @ map write_of (r # rows)) t2"
    "dt_buffered t2 = dt_buffered ?t" by (auto simp: dt_repr_frame)
  with 1 show ?case by (simp add: dt_insert_rows_def)
qed

lemma dt_stage_eq:
  assumes "\<forall>r \<in> set rows. length r = 3" "int (length rows) < 2 ^ 32"
  shows "\<exists>b. dt_stage rows t = Ok (ufb_drop b t) \<and> rb_iter b = rows"
proof -
  have "\<exists>b'. fold_out ufb_stage_insert rows b = Ok b' \<and> rb_iter b' = rb_iter b @ rows"
    if "rb_wf b" "rb_cols b = 3" "int (rb_total b + length rows) < 2 ^ 32" for b
    using assms(1) that
  proof (induction rows arbitrary: b)
    case (Cons r rows)
    from rb_add_row_eq [of b r] Cons.prems obtain b1 where
      "rb_add_row b r = Ok (b1, rb_total b)" "rb_wf b1" "rb_iter b1 = rb_iter b @ [r]"
      "rb_cols b1 = 3" "rb_total b1 = Suc (rb_total b)" by auto
    with Cons.IH [of b1] Cons.prems show ?case by (auto simp: ufb_stage_insert_def)
  qed simp
  moreover obtain b where "rb_new 3 = Ok b" "rb_wf b" "rb_iter b = []" "rb_cols b = 3" "rb_total b = 0"
    using rb_new_wf [of 3] by auto
  ultimately show ?thesis using assms(2) by (force simp: dt_stage_def dt_new_buffer_def)
qed

lemma dt_round_repr:
  assumes "dt_repr ws t" "\<forall>r \<in> set rows. length r = 3" "in_time (ws @ map write_of rows)" "dt_buffered t = []"
  shows "\<exists>t' x'. dt_round cb rows (t, x) = Ok (t', x') \<and> dt_repr (ws @ map write_of rows) t' \<and> dt_buffered t' = []"
proof -
  have "int (length rows) < 2 ^ 32" using assms(3) by (simp add: in_time_def)
  from dt_stage_eq [OF assms(2) this, of t] obtain b where
    b: "dt_stage rows t = Ok (ufb_drop b t)" "rb_iter b = rows" by auto
  have "dt_repr ws (t\<lparr>dt_buffered := []\<rparr>)" using assms(1) by (simp add: dt_repr_frame)
  from dt_insert_rows_repr [OF this assms(2,3), of cb x] obtain t1 x1 where
    "dt_insert_rows cb rows (t\<lparr>dt_buffered := []\<rparr>, x) = Ok (t1, x1)"
    "dt_repr (ws @ map write_of rows) t1" "dt_buffered t1 = []" by auto
  with b assms(4) show ?thesis
    by (auto simp: dt_round_def dt_merge_def ufb_drop_def dt_repr_frame)
qed

definition dt_rounds :: "'x callback \<Rightarrow> nat list list list \<Rightarrow> displaced_table \<times> 'x \<Rightarrow> (displaced_table \<times> 'x) result" where
  "dt_rounds cb = fold_out (dt_round cb)"

lemma dt_rounds_repr:
  assumes "dt_repr ws t" "\<forall>r \<in> set (concat batches). length r = 3"
    "in_time (ws @ map write_of (concat batches))" "dt_buffered t = []"
  shows "\<exists>t' x'. dt_rounds cb batches (t, x) = Ok (t', x') \<and> dt_repr (ws @ map write_of (concat batches)) t'"
  using assms
proof (induction batches arbitrary: ws t x)
  case Nil
  then show ?case by (simp add: dt_rounds_def)
next
  case (Cons rows batches)
  have "in_time (ws @ map write_of rows)"
    using in_time_append [of "ws @ map write_of rows" "map write_of (concat batches)"] Cons.prems(3) by simp
  from dt_round_repr [OF Cons.prems(1) _ this Cons.prems(4), of cb x] Cons.prems(2) obtain t1 x1 where
    1: "dt_round cb rows (t, x) = Ok (t1, x1)" "dt_repr (ws @ map write_of rows) t1" "dt_buffered t1 = []"
    by auto
  from Cons.IH [OF 1(2) _ _ 1(3), of x1] Cons.prems(2,3) obtain t2 x2 where
    "dt_rounds cb batches (t1, x1) = Ok (t2, x2)" "dt_repr (ws @ map write_of (concat (rows # batches))) t2"
    by auto
  with 1 show ?case by (auto simp: dt_rounds_def)
qed

section \<open>Reading rows\<close>

lemma dt_expand_eq:
  assumes "dt_inv t" "i < length (dt_displaced t)"
  shows "dt_expand t i = Ok [fst (dt_displaced t ! i), uf_rep (dt_uf t) (fst (dt_displaced t ! i)), snd (dt_displaced t ! i)]"
  using assms by (simp add: dt_expand_def case_prod_unfold)

lemma dt_lookup_cases:
  assumes "dt_inv t"
  obtains "dt_lookup t v = None" "uf_rep (dt_uf t) v = v"
  | i where "dt_lookup t v = Some i" "i < length (dt_displaced t)" "fst (dt_displaced t ! i) = v" "uf_rep (dt_uf t) v \<noteq> v"
proof (cases "dt_lookup t v")
  case None
  then have "v \<notin> fst ` set (dt_displaced t)" using assms by (auto simp: dt_inv_def)
  with None show thesis using assms that(1) by (auto simp: dt_inv_def)
next
  case (Some i)
  then have "i < length (dt_displaced t)" "fst (dt_displaced t ! i) = v"
    using assms index_of_Some [of v "map fst (dt_displaced t)" i] by (auto simp: dt_inv_def)
  moreover from this have "uf_rep (dt_uf t) v \<noteq> v" using assms nth_mem by (force simp: dt_inv_def)
  ultimately show thesis using Some that(2) by blast
qed

lemma dt_get_row_repr:
  assumes "dt_repr ws t"
  shows "if leader ws v = v then dt_get_row t [v] = Ok None
     else \<exists>i k. displaced_by ws k v \<and> dt_get_row t [v] = Ok (Some (i, [v, leader ws v, snd (snd (ws ! k))]))"
proof -
  have inv: "dt_inv t" using assms by (simp add: dt_repr_def)
  show ?thesis
  proof (rule dt_lookup_cases [OF inv, of v])
    assume "dt_lookup t v = None" "uf_rep (dt_uf t) v = v"
    then show ?thesis by (simp add: dt_get_row_def leader_rep [OF assms])
  next
    fix i assume i: "dt_lookup t v = Some i" "i < length (dt_displaced t)" "fst (dt_displaced t ! i) = v"
      "uf_rep (dt_uf t) v \<noteq> v"
    have "(v, snd (dt_displaced t ! i)) \<in> set (dt_displaced t)" using i nth_mem by force
    then obtain k where "displaced_by ws k v" "snd (dt_displaced t ! i) = snd (snd (ws ! k))"
      using assms by (auto simp: dt_repr_def)
    with i inv show ?thesis by (auto simp: dt_get_row_def leader_rep [OF assms] dt_expand_eq)
  qed
qed

end
