(* ===== verification/Displaced_Props.thy ===== *)
theory Displaced_Props
  imports Displaced_Correct
begin

text \<open>
  Queries to the displaced table: the searches in its sorted timestamps, the contract of tables,
  rebuilding rows with its leaders, and the properties of the component.
\<close>

section \<open>Searching timestamps\<close>

lemma lower_bound_iff: "sorted xs \<Longrightarrow> j < length xs \<Longrightarrow> j < lower_bound xs t \<longleftrightarrow> xs ! j < t"
  using lower_bound_less lower_bound_ge by (metis leI not_less)

lemma scan_up_spec:
  assumes "sorted xs" "i \<le> length xs" "\<forall>j < i. xs ! j \<le> v"
  shows "scan_up xs v i = lower_bound xs (Suc v) \<or> i < length xs \<and> xs ! i < v"
  using assms
proof (induction xs v i rule: scan_up.induct)
  case (1 xs v i)
  show ?case
  proof (cases "i < length xs \<and> xs ! i = v")
    case True
    then have "scan_up xs v (Suc i) = lower_bound xs (Suc v) \<or> Suc i < length xs \<and> xs ! Suc i < v"
      using 1 by (auto simp: less_Suc_eq)
    moreover have "\<not> (Suc i < length xs \<and> xs ! Suc i < v)"
      using True sorted_nth_mono [OF 1(2), of i "Suc i"] by auto
    ultimately show ?thesis using True by (subst scan_up.simps) simp
  next
    case False
    then have "scan_up xs v i = i" by (subst scan_up.simps) (rule if_not_P)
    moreover have "lower_bound xs (Suc v) = i" if "\<not> (i < length xs \<and> xs ! i < v)"
      using False that 1(3,4) by (intro lower_bound_eqI) (auto simp: le_less_Suc_eq)
    ultimately show ?thesis by auto
  qed
qed

lemma search_bounds:
  assumes "sorted xs"
  shows "case binary_search xs v of
      Found i \<Rightarrow> back_up xs v 0 i = lower_bound xs v \<and> scan_up xs v i = lower_bound xs (Suc v)
    | Absent i \<Rightarrow> i = lower_bound xs v \<and> i = lower_bound xs (Suc v)"
proof (cases "binary_search xs v")
  case (Found i)
  then have i: "i < length xs" "xs ! i = v" using binary_search_spec [OF assms, of v] by auto
  have "\<forall>j < i. xs ! j \<le> v" using i assms sorted_nth_mono by fastforce
  with scan_up_spec [OF assms, of i v] i show ?thesis
    using back_up_spec [OF assms, of 0 i v] Found by auto
next
  case (Absent i)
  then have i: "i \<le> length xs" "\<forall>j < i. xs ! j < v" "\<forall>j. i \<le> j \<longrightarrow> j < length xs \<longrightarrow> v < xs ! j"
    using binary_search_spec [OF assms, of v] by auto
  then have "lower_bound xs v = i" "lower_bound xs (Suc v) = i"
    by (auto intro!: lower_bound_eqI simp: less_SucI Suc_leI less_imp_le)
  with Absent show ?thesis by simp
qed

definition timestamps :: "displaced_table \<Rightarrow> nat list" where
  "timestamps t = map snd (dt_displaced t)"

lemma timestamps_sorted [simp]: "dt_inv t \<Longrightarrow> sorted (timestamps t)"
  by (simp add: dt_inv_def timestamps_def)

lemma ids_fit: "dt_inv t \<Longrightarrow> n \<le> length (dt_displaced t) \<Longrightarrow> row_id n = Ok n"
  by (simp add: dt_inv_def row_id_def)

lemma timestamp_bounds_eq:
  fixes v :: nat
  assumes "dt_inv t"
  defines "a \<equiv> lower_bound (timestamps t) v" and "b \<equiv> lower_bound (timestamps t) (Suc v)"
  shows "timestamp_bounds t v = Ok (Within a b) \<or> timestamp_bounds t v = Ok (Between a) \<and> a = b"
proof -
  have "row_id a = Ok a" "row_id b = Ok b"
    using ids_fit [OF assms(1)] lower_bound_le [of "timestamps t"] by (simp_all add: a_def b_def timestamps_def)
  then show ?thesis using search_bounds [OF timestamps_sorted [OF assms(1)], of v]
    by (auto simp: timestamp_bounds_def a_def b_def timestamps_def [symmetric] Let_def split: search.splits)
qed

section \<open>The contract of tables\<close>

definition dt_row :: "displaced_table \<Rightarrow> nat \<Rightarrow> nat list option" where
  "dt_row t i = (case dt_expand t i of Ok r \<Rightarrow> Some r | _ \<Rightarrow> None)"

lemma dt_row_eq:
  "dt_inv t \<Longrightarrow> dt_row t i = (if i < length (dt_displaced t)
     then Some [fst (dt_displaced t ! i), uf_rep (dt_uf t) (fst (dt_displaced t ! i)), timestamps t ! i] else None)"
  by (auto simp: dt_row_def dt_expand_eq timestamps_def) (simp add: dt_expand_def at_o_def)

lemma wf_dense: "dt_inv t \<Longrightarrow> a \<le> b \<Longrightarrow> b \<le> length (dt_displaced t) \<Longrightarrow> wf_subset (dense a b)"
  by (simp add: dense_def dt_inv_def)

lemma offsets_dense [simp]: "offsets (dense a b) = [a..<b]"
  by (simp add: dense_def)

lemma dt_timestamp_range:
  assumes "dt_inv t" "dt_row t i = Some r"
  shows "i < lower_bound (timestamps t) v \<longleftrightarrow> r ! 2 < v" "i < length (dt_displaced t)"
  using assms lower_bound_iff [OF timestamps_sorted [OF assms(1)], of i v]
  by (auto simp: dt_row_eq timestamps_def split: if_splits)

lemma dt_fast_right:
  assumes inv: "dt_inv t" and cols: "in_cols 3 c"
  shows "\<exists>f. dt_fast_subset t c = Ok f \<and> (\<forall>s. f = Some s \<longrightarrow> wf_subset s \<and>
    (\<forall>i row. dt_row t i = Some row \<longrightarrow> (i \<in> set (offsets s) \<longleftrightarrow> satisfies row c)))"
proof -
  let ?n = "length (dt_displaced t)" and ?lb = "lower_bound (timestamps t)"
  have le: "?lb v \<le> ?n" for v using lower_bound_le [of "timestamps t" v] by (simp add: timestamps_def)
  have mono: "?lb v \<le> ?lb (Suc v)" for v by (intro lower_bound_mono) simp
  have n: "row_id ?n = Ok ?n" using ids_fit [OF inv] by simp
  have rng: "i < ?lb v \<longleftrightarrow> r ! 2 < v" "?lb v \<le> i \<longleftrightarrow> v \<le> r ! 2" "i < ?n" if "dt_row t i = Some r" for i r v
    using dt_timestamp_range [OF inv that] by (auto simp: not_less [symmetric])
  note facts = wf_dense [OF inv] le mono n rng
  show ?thesis
  proof (cases c)
    case (CEqConst col v)
    with cols consider "col = 0" | "col = 1" | "col = 2" by fastforce
    then show ?thesis
    proof cases
      case 1
      show ?thesis
      proof (rule dt_lookup_cases [OF inv, of v])
        assume "dt_lookup t v = None" "uf_rep (dt_uf t) v = v"
        moreover from this have "v \<notin> fst ` set (dt_displaced t)" using inv by (auto simp: dt_inv_def)
        ultimately show ?thesis using CEqConst 1 inv
          by (auto simp: empty_subset_def dt_row_eq split: if_splits)
      next
        fix k assume k: "dt_lookup t v = Some k" "k < ?n" "fst (dt_displaced t ! k) = v" "uf_rep (dt_uf t) v \<noteq> v"
        have "fst (dt_displaced t ! i) = v \<longleftrightarrow> i = k" if "i < ?n" for i
          using inv k(2,3) that nth_eq_iff_index_eq [of "map fst (dt_displaced t)" i k] by (auto simp: dt_inv_def)
        moreover have "row_id (Suc k) = Ok (Suc k)" using ids_fit [OF inv] k(2) by simp
        ultimately show ?thesis using CEqConst 1 k(1,2) inv
          by (auto simp: dt_row_eq split: if_splits intro: wf_dense)
      qed
    next
      case 2
      with CEqConst show ?thesis by simp
    next
      case 3
      then show ?thesis using CEqConst timestamp_bounds_eq [OF inv, of v] facts
        by (auto simp: rng less_Suc_eq_le)
    qed
  next
    case (CLtConst col v)
    then show ?thesis using timestamp_bounds_eq [OF inv, of v] facts by auto (metis rng(1))
  next
    case (CGtConst col v)
    then show ?thesis using timestamp_bounds_eq [OF inv, of v] facts by auto
  next
    case (CLeConst col v)
    then show ?thesis using timestamp_bounds_eq [OF inv, of v] facts by auto
  next
    case (CGeConst col v)
    then show ?thesis using timestamp_bounds_eq [OF inv, of v] facts by auto (metis rng(2))
  qed simp
qed

lemma dt_eval_eq:
  assumes "dt_inv t" "in_cols 3 c" "i < length (dt_displaced t)"
  shows "dt_eval t c i = Ok (\<exists>row. dt_row t i = Some row \<and> satisfies row c)"
proof -
  have "in_cols (length [a, b, d :: nat]) c" for a b d using assms(2) by (simp add: numeral_3_eq_3)
  from eval_constraint_eq [OF this] show ?thesis using assms(1,3) by (simp add: dt_eval_def dt_row_def dt_expand_eq)
qed

interpretation dtq: table_queries dt_inv dt_len "\<lambda>_. 3" dt_row dt_all dt_fast_subset dt_refine_one
proof
  fix t c s
  assume inv: "dt_inv t"
  show "\<exists>s. dt_all t = Ok s \<and> wf_subset s \<and> offsets s = [0..<dt_len t]"
    using ids_fit [OF inv order_refl] wf_dense [OF inv] by (simp add: dt_all_def dt_len_def)
  assume cols: "in_cols 3 c"
  show "\<exists>r. dt_fast_subset t c = Ok r \<and> (\<forall>s. r = Some s \<longrightarrow> wf_subset s \<and>
      (\<forall>i row. dt_row t i = Some row \<longrightarrow> (i \<in> set (offsets s) \<longleftrightarrow> satisfies row c)))"
    by (rule dt_fast_right [OF inv cols])
  assume s: "wf_subset s" "set (offsets s) \<subseteq> {..<dt_len t}"
  show "\<exists>s'. dt_refine_one t s c = Ok s' \<and> wf_subset s' \<and>
      offsets s' = filter (\<lambda>i. \<exists>row. dt_row t i = Some row \<and> satisfies row c) (offsets s)"
    unfolding dt_refine_one_def
    using s dt_eval_eq [OF inv cols] by (intro retain_o_eq) (auto simp: dt_len_def)
qed

lemma dt_live [simp]: "dt_inv t \<Longrightarrow> set is \<subseteq> {..<dt_len t} \<Longrightarrow> dtq.live t is = is"
  by (auto simp: dtq.live_def dt_row_eq dt_len_def intro!: filter_True)

section \<open>Rebuilding\<close>

text \<open>The canonical row and the loops that compute it.\<close>

definition canonical :: "displaced_table \<Rightarrow> nat list \<Rightarrow> nat list \<Rightarrow> nat list" where
  "canonical t cols r = map (\<lambda>k. if k \<in> set cols then uf_rep (dt_uf t) (r ! k) else r ! k) [0..<length r]"

lemma canonical_nth: "k < length r \<Longrightarrow> canonical t cols r ! k = (if k \<in> set cols then uf_rep (dt_uf t) (r ! k) else r ! k)"
  by (simp add: canonical_def)

lemma canonical_length [simp]: "length (canonical t cols r) = length r"
  by (simp add: canonical_def)

lemma canonical_snoc:
  "c < length r \<Longrightarrow> dt_inv t \<Longrightarrow> (canonical t cols r)[c := uf_rep (dt_uf t) (canonical t cols r ! c)] = canonical t (cols @ [c]) r"
  by (rule nth_equalityI) (auto simp: canonical_nth nth_list_update dt_inv_uf uf_rep_idem)

lemma rebuild_steps:
  assumes "dt_inv t" "\<forall>c \<in> set cs. c < length r"
  shows "fold_out (rebuild_step t) cs (canonical t done_cols r, changed)
    = Ok (canonical t (done_cols @ cs) r, changed \<or> canonical t (done_cols @ cs) r \<noteq> canonical t done_cols r)"
  using assms(2)
proof (induction cs arbitrary: done_cols changed)
  case (Cons c cs)
  let ?r = "canonical t done_cols r" and ?r1 = "canonical t (done_cols @ [c]) r"
  have c: "c < length r" using Cons.prems by simp
  have eq: "?r1 = ?r[c := uf_rep (dt_uf t) (?r ! c)]" using canonical_snoc [OF c assms(1)] by simp
  have "uf_rep (dt_uf t) (?r ! c) \<noteq> ?r ! c \<longleftrightarrow> ?r1 \<noteq> ?r"
    unfolding eq using c by (metis canonical_length list_update_id nth_list_update_eq)
  then have "rebuild_step t c (?r, changed) = Ok (?r1, changed \<or> ?r1 \<noteq> ?r)"
    using c assms(1) eq by (simp add: rebuild_step_def)
  moreover have "canonical t (done_cols @ c # cs) r \<noteq> ?r \<longleftrightarrow> ?r1 \<noteq> ?r \<or> canonical t (done_cols @ c # cs) r \<noteq> ?r1"
  proof -
    have "canonical t (done_cols @ c # cs) r = ?r \<Longrightarrow> ?r1 = ?r"
      by (rule nth_equalityI) (auto simp: list_eq_iff_nth_eq canonical_nth split: if_splits)
    then show ?thesis by auto
  qed
  ultimately show ?case using Cons.IH [of "done_cols @ [c]"] Cons.prems by auto
qed simp

lemma canonical_nil [simp]: "canonical t [] r = r"
  by (simp add: canonical_def map_nth)

lemma rebuild_many_eq:
  assumes "dt_inv t" "\<forall>c \<in> set cs. c < length r"
  shows "rebuild_many t cs r = Ok (if canonical t cs r \<noteq> r then Some (canonical t cs r) else None)"
  using rebuild_steps [OF assms, of "[]" False] by (simp add: rebuild_many_def)

text \<open>The loops for one, two and three columns agree with the general one.\<close>

lemma canonical_update:
  "dt_inv t \<Longrightarrow> c < length r \<Longrightarrow>
    canonical t (cols @ [c]) r = (canonical t cols r)[c := uf_rep (dt_uf t) (r ! c)]"
  by (rule nth_equalityI) (auto simp: canonical_nth nth_list_update)

lemma rebuild_row_eq:
  assumes "dt_inv t" "\<forall>c \<in> set cs. c < length r"
  shows "rebuild_row t cs r = Ok (if canonical t cs r \<noteq> r then Some (canonical t cs r) else None)"
proof -
  have changed: "canonical t cs r \<noteq> r \<longleftrightarrow> (\<exists>c \<in> set cs. uf_rep (dt_uf t) (r ! c) \<noteq> r ! c)"
    using assms(2) by (auto simp: list_eq_iff_nth_eq canonical_nth)
  consider c where "cs = [c]" | c1 c2 where "cs = [c1, c2]" | c1 c2 c3 where "cs = [c1, c2, c3]"
    | "rebuild_row t cs r = rebuild_many t cs r"
    by (rule rebuild_row.cases [of "(t, cs, r)"]) auto
  then show ?thesis
  proof cases
    case 1
    then have "canonical t cs r = r[c := uf_rep (dt_uf t) (r ! c)]"
      using canonical_update [OF assms(1), of c r "[]"] assms(2) by simp
    then show ?thesis using 1 changed assms by (simp add: rebuild_one_def)
  next
    case 2
    then have "canonical t cs r = r[c1 := uf_rep (dt_uf t) (r ! c1), c2 := uf_rep (dt_uf t) (r ! c2)]"
      using canonical_update [OF assms(1), of c1 r "[]"] canonical_update [OF assms(1), of c2 r "[c1]"] assms(2) by simp
    then show ?thesis using 2 changed assms by (simp add: rebuild_two_def)
  next
    case 3
    then have "canonical t cs r = r[c1 := uf_rep (dt_uf t) (r ! c1), c2 := uf_rep (dt_uf t) (r ! c2), c3 := uf_rep (dt_uf t) (r ! c3)]"
      using canonical_update [OF assms(1), of c1 r "[]"] canonical_update [OF assms(1), of c2 r "[c1]"]
        canonical_update [OF assms(1), of c3 r "[c1, c2]"] assms(2) by simp
    then show ?thesis using 3 changed assms by (simp add: rebuild_three_def)
  next
    case 4
    then show ?thesis using rebuild_many_eq [OF assms] by simp
  qed
qed

lemma rebuild_buf_eq:
  assumes inv: "dt_inv t" and b: "rb_wf b" "\<forall>c \<in> set cols. c < rb_cols b"
    and out: "rb_wf out" "rb_cols out = Suc (rb_cols b)" "int (rb_total out + (e - start)) < 2 ^ 32"
    and e: "e \<le> rb_total b"
  shows "\<exists>out'. rebuild_buf t cols b start e out = Ok out' \<and> rb_wf out' \<and> rb_cols out' = rb_cols out
    \<and> trb_iter out' = trb_iter out @ map (\<lambda>i. (i, canonical t cols (rb_iter b ! i)))
        (filter (\<lambda>i. canonical t cols (rb_iter b ! i) \<noteq> rb_iter b ! i) [start..<e])"
proof -
  let ?f = "\<lambda>i out. bind_o (rb_get_row b i) (\<lambda>r. bind_o (rebuild_row t cols r) (\<lambda>r'. case r' of
               None \<Rightarrow> Ok out | Some row \<Rightarrow> trb_add_row out i row))"
  have "\<exists>out'. fold_out ?f is out = Ok out' \<and> rb_wf out' \<and> rb_cols out' = rb_cols out
    \<and> trb_iter out' = trb_iter out @ map (\<lambda>i. (i, canonical t cols (rb_iter b ! i)))
        (filter (\<lambda>i. canonical t cols (rb_iter b ! i) \<noteq> rb_iter b ! i) is)"
    if "\<forall>i \<in> set is. i < rb_total b" "rb_wf out" "rb_cols out = Suc (rb_cols b)"
      "int (rb_total out + length is) < 2 ^ 32" for "is" out
    using that
  proof (induction "is" arbitrary: out)
    case (Cons i "is")
    let ?r = "rb_iter b ! i"
    have i: "i < length (rb_iter b)" using Cons.prems(1) b by simp
    then have l: "length ?r = rb_cols b" using b(1) by (intro rb_row_arity) simp_all
    then have r: "rebuild_row t cols ?r = Ok (if canonical t cols ?r \<noteq> ?r then Some (canonical t cols ?r) else None)"
      using b by (intro rebuild_row_eq [OF inv]) simp
    show ?case
    proof (cases "canonical t cols ?r = ?r")
      case True
      then show ?thesis using Cons i b(1) r by (simp add: rb_get_row_eq)
    next
      case False
      have "int (rb_total out) < 2 ^ 32" using Cons.prems(4) by simp
      with trb_add_row_eq [of out "canonical t cols ?r" i] Cons.prems l obtain out1 where
        o1: "trb_add_row out i (canonical t cols ?r) = Ok out1" "rb_wf out1" "rb_cols out1 = rb_cols out"
          "rb_total out1 = Suc (rb_total out)" "trb_iter out1 = trb_iter out @ [(i, canonical t cols ?r)]" by auto
      with Cons.IH [of out1] Cons.prems obtain out2 where
        "fold_out ?f is out1 = Ok out2" "rb_wf out2" "rb_cols out2 = rb_cols out"
        "trb_iter out2 = trb_iter out1 @ map (\<lambda>i. (i, canonical t cols (rb_iter b ! i)))
          (filter (\<lambda>i. canonical t cols (rb_iter b ! i) \<noteq> rb_iter b ! i) is)" by auto
      then show ?thesis using o1 r False i b(1) by (simp add: rb_get_row_eq)
    qed
  qed simp
  from this [of "[start..<e]" out] show ?thesis using out e
    by (cases "e \<le> start") (auto simp: rebuild_buf_def)
qed

section \<open>Properties\<close>

abbreviation staged_writes :: "nat list list list \<Rightarrow> writes" where
  "staged_writes batches \<equiv> map write_of (concat batches)"

text \<open>C20: whatever is staged in however many rounds, with timestamps that do not decrease, the
  merges succeed and the table is the equivalence of its writes: a value that is the least of its
  class has no row, every other one has a row with the least value and the timestamp of the write
  that displaced it, and looking up the leader column of any value gives the least of its class.\<close>

theorem displaced_table_refines_equivalence:
  assumes "\<forall>r \<in> set (concat batches). length r = 3" "in_time (staged_writes batches)"
  shows "\<exists>t x'. dt_rounds cb batches (dt_new, x) = Ok (t, x')
    \<and> (\<forall>v. dt_get_row_column t [v] 1 = Ok (Some (leader (staged_writes batches) v)))
    \<and> (\<forall>v. if leader (staged_writes batches) v = v then dt_get_row t [v] = Ok None
         else \<exists>i k. displaced_by (staged_writes batches) k v \<and>
           dt_get_row t [v] = Ok (Some (i, [v, leader (staged_writes batches) v, snd (snd (staged_writes batches ! k))])))"
proof -
  from dt_rounds_repr [OF dt_repr_new assms(1), of cb x] assms(2) obtain t x' where
    t: "dt_rounds cb batches (dt_new, x) = Ok (t, x')" "dt_repr (staged_writes batches) t"
    by (auto simp: dt_new_def)
  then have "dt_inv t" by (simp add: dt_repr_def)
  then have "dt_get_row_column t [v] 1 = Ok (Some (leader (staged_writes batches) v))" for v
    using leader_rep [OF t(2)] by (simp add: dt_get_row_column_def)
  with t show ?thesis using dt_get_row_repr [OF t(2)] by blast
qed

theorem displaced_table_refines_equivalence_witness:
  "\<exists>t x'. dt_rounds None [[[3, 1, 5], [4, 3, 5]], [[1, 0, 6]]] (dt_new, ()) = Ok (t, x')
    \<and> dt_get_row_column t [4] 1 = Ok (Some (leader [(3, 1, 5), (4, 3, 5), (1, 0, 6)] 4))"
  using displaced_table_refines_equivalence [of "[[[3, 1, 5], [4, 3, 5]], [[1, 0, 6]]]" None "()"]
  by (auto simp: in_time_def write_of_def)

text \<open>C21: on every table that rounds of writes build, splitting the constraints of a query into
  those answered from the lookup table and the sorted timestamps and the rest, then filtering by the
  rest, lists exactly the rows that satisfy all of them.\<close>

theorem displaced_queries_exact:
  assumes "\<forall>r \<in> set (concat batches). length r = 3" "in_time (staged_writes batches)"
    and "\<forall>c \<in> set cs. in_cols 3 c"
  shows "\<exists>t x' s quick slow s'. dt_rounds cb batches (dt_new, x) = Ok (t, x')
    \<and> split_fast_slow (dt_all t) (dt_fast_subset t) cs = Ok (s, quick, slow)
    \<and> refine (dt_refine_one t) s slow = Ok s'
    \<and> offsets s' = filter (\<lambda>i. \<exists>row. dt_expand t i = Ok row \<and> (\<forall>c \<in> set cs. satisfies row c)) [0..<dt_len t]"
proof -
  from dt_rounds_repr [OF dt_repr_new assms(1), of cb x] assms(2) obtain t x' where
    t: "dt_rounds cb batches (dt_new, x) = Ok (t, x')" "dt_inv t"
    by (auto simp: dt_new_def dt_repr_def)
  from dtq.split_then_refine [OF t(2) assms(3)] obtain s quick slow s' where
    s: "split_fast_slow (dt_all t) (dt_fast_subset t) cs = Ok (s, quick, slow)"
      "refine (dt_refine_one t) s slow = Ok s'"
      "set (offsets s') \<subseteq> {..<dt_len t}"
      "dtq.live t (offsets s') = filter (dtq.matching t (set cs)) [0..<dt_len t]" by blast
  have "dtq.matching t (set cs) = (\<lambda>i. \<exists>row. dt_expand t i = Ok row \<and> (\<forall>c \<in> set cs. satisfies row c))"
    by (auto simp: dtq.matching_def dt_row_def fun_eq_iff split: outcome.splits)
  then have "offsets s' = filter (\<lambda>i. \<exists>row. dt_expand t i = Ok row \<and> (\<forall>c \<in> set cs. satisfies row c)) [0..<dt_len t]"
    using s(4) dt_live [OF t(2) s(3)] by simp
  with t s show ?thesis by blast
qed

theorem displaced_queries_exact_witness:
  "\<exists>t x' s quick slow s'. dt_rounds None [[[3, 1, 5], [4, 3, 6]]] (dt_new, ()) = Ok (t, x')
    \<and> split_fast_slow (dt_all t) (dt_fast_subset t) [CGtConst 2 5, CEq 0 1] = Ok (s, quick, slow)
    \<and> refine (dt_refine_one t) s slow = Ok s'"
  using displaced_queries_exact [of "[[[3, 1, 5], [4, 3, 6]]]" "[CGtConst 2 5, CEq 0 1]" None "()"]
  by (auto simp: in_time_def write_of_def)

text \<open>C23: clearing the table keeps its lookup table, so that asking a cleared table for a value
  that was displaced before panics.\<close>

theorem cleared_displaced_table_panics:
  assumes "\<forall>r \<in> set (concat batches). length r = 3" "in_time (staged_writes batches)"
  shows "\<exists>t x'. dt_rounds cb batches (dt_new, x) = Ok (t, x') \<and> dt_len (dt_clear t) = 0
    \<and> (\<forall>v. leader (staged_writes batches) v \<noteq> v \<longrightarrow> dt_get_row (dt_clear t) [v] = Panic)"
proof -
  from dt_rounds_repr [OF dt_repr_new assms(1), of cb x] assms(2) obtain t x' where
    t: "dt_rounds cb batches (dt_new, x) = Ok (t, x')" "dt_repr (staged_writes batches) t"
    by (auto simp: dt_new_def)
  then have inv: "dt_inv t" by (simp add: dt_repr_def)
  have "dt_get_row (dt_clear t) [v] = Panic" if "uf_rep (dt_uf t) v \<noteq> v" for v
    by (rule dt_lookup_cases [OF inv, of v])
      (use that in \<open>simp_all add: dt_get_row_def dt_clear_def dt_expand_def at_o_def\<close>)
  then show ?thesis using t leader_rep [OF t(2)] by (auto simp: dt_len_def dt_clear_def)
qed

theorem cleared_displaced_table_panics_witness:
  "\<exists>t x'. dt_rounds None [[[0, 1, 5]]] (dt_new, ()) = Ok (t, x') \<and> dt_get_row (dt_clear t) [1] = Panic"
proof -
  have "joined [(0, 1, 5)] 0 1" unfolding joined_def by (rule r_into_equivclp) auto
  then have "joined [(0, 1, 5)] 1 0" unfolding joined_def by (rule equivclp_sym)
  then have "leader [(0, 1, 5)] 1 \<noteq> 1" using Least_le [of "joined [(0, 1, 5)] 1" 0] by (simp add: leader_def)
  then show ?thesis using cleared_displaced_table_panics [of "[[[0, 1, 5]]]" None "()"]
    by (auto simp: in_time_def write_of_def)
qed

text \<open>C22: rebuilding a range of a buffer's rows with the table's leaders reports exactly the rows with
  a value in a rebuilt column that is not canonical, each with its id and all its rebuilt columns
  replaced by leaders, whichever of the loops the number of columns selects.\<close>

theorem rebuild_reports_changed_rows:
  assumes "dt_repr ws t" "rb_wf b" "\<forall>c \<in> set cols. c < rb_cols b" "e \<le> rb_total b"
    and "rb_wf out" "rb_cols out = Suc (rb_cols b)" "int (rb_total out + (e - start)) < 2 ^ 32"
  defines "canon \<equiv> \<lambda>r. map (\<lambda>k. if k \<in> set cols then leader ws (r ! k) else r ! k) [0..<length r]"
  shows "\<exists>out'. rebuild_buf t cols b start e out = Ok out' \<and> trb_iter out' = trb_iter out @
    map (\<lambda>i. (i, canon (rb_iter b ! i))) (filter (\<lambda>i. canon (rb_iter b ! i) \<noteq> rb_iter b ! i) [start..<e])"
proof -
  have "dt_inv t" using assms(1) by (simp add: dt_repr_def)
  moreover have "canon = canonical t cols"
    by (simp add: canon_def canonical_def leader_rep [OF assms(1)] fun_eq_iff)
  ultimately show ?thesis using rebuild_buf_eq [OF _ assms(2,3,5,6,7,4)] by auto
qed

theorem rebuild_reports_changed_rows_witness:
  "\<exists>out'. rebuild_buf dt_new [0, 1] \<lparr>rb_cols = 2, rb_total = 1, rb_data = [7, 8]\<rparr> 0 1
     \<lparr>rb_cols = 3, rb_total = 0, rb_data = []\<rparr> = Ok out' \<and> trb_iter out' = []"
proof -
  let ?b = "\<lparr>rb_cols = 2, rb_total = 1, rb_data = [7, 8 :: nat]\<rparr>"
  have b: "rb_iter \<lparr>rb_cols = 2, rb_total = Suc 0, rb_data = [7, 8]\<rparr> = [[7, 8]]" by (simp add: rb_iter_def chunks.simps)
  have l: "leader [] v = v" for v by (simp add: leader_def joined_nil Least_equality)
  have out: "trb_iter \<lparr>rb_cols = 3, rb_total = 0, rb_data = []\<rparr> = []" by (simp add: trb_iter_def rb_iter_def)
  show ?thesis
    using rebuild_reports_changed_rows [OF dt_repr_new, of ?b "[0, 1]" 1 "\<lparr>rb_cols = 3, rb_total = 0, rb_data = []\<rparr>" 0]
    by (simp add: rb_wf_def b out l)
qed

end
