(* ===== verification/Sorted_Table.thy ===== *)
theory Sorted_Table
  imports Table_Spec
begin

text \<open>
  \<open>core-relations/src/table/mod.rs\<close>: tables with a primary key whose rows are appended in
  the order of a sort column. A row that is overwritten or removed is marked stale; sharded hash
  tables point from keys to live rows; compaction removes stale rows. Writes are staged in buffers
  that are sharded by key and applied by \<open>merge\<close>, serially, or shard by shard when many are
  pending and several threads run (here: in the order of the shards).

  The hash of a key comes from the crate rustc-hash and is a parameter \<open>hf\<close>. The hash tables
  of hashbrown are lists of entries: looking up returns an entry that passes the test, inserting
  adds one. A merge function, given the execution state, the current and the new row, may fill a
  row that replaces the current one; it is a parameter too.
\<close>

section \<open>State\<close>

type_synonym 'x merge_fn = "'x \<Rightarrow> nat list \<Rightarrow> nat list \<Rightarrow> 'x \<times> nat list option"

type_synonym hash_fn = "nat list \<Rightarrow> 64 word"

record table_entry =
  te_hash :: "64 word"
  te_row :: nat

record rows =
  r_data :: row_buffer
  r_stale :: nat

text \<open>Buffers of keys must also hold keys without columns, of which only the number is kept.\<close>

datatype key_buffer = NonEmpty row_buffer | Empty nat

record pending_state =
  pending_rows :: "row_buffer list list"
  pending_removals :: "key_buffer list list"
  total_rows :: nat
  total_removals :: nat

record sorted_table =
  st_generation :: nat
  st_rows :: rows
  st_shards :: "table_entry list list"
  st_shard_bits :: nat
  st_keys :: nat
  st_columns :: nat
  st_sort_by :: "nat option"
  st_offsets :: "(nat \<times> nat) list"
  st_pending :: pending_state

section \<open>Shards\<close>

text \<open>\<open>ShardData\<close>: the shard of a hash is given by bits below its highest seven.\<close>

definition shard_id :: "nat \<Rightarrow> 64 word \<Rightarrow> nat" where
  "shard_id bits h =
     (if bits = 0 then 0
      else unat (and (drop_bit ((64 - (bits + 7)) mod 64) h) (2 ^ bits - 1)))"

definition n_shards :: "nat \<Rightarrow> nat" where
  "n_shards bits = 2 ^ bits"

definition hash_code :: "hash_fn \<Rightarrow> nat \<Rightarrow> nat list \<Rightarrow> nat \<Rightarrow> (nat \<times> 64 word) result" where
  "hash_code hf bits row n_keys =
     bind_o (slice_o row 0 n_keys) (\<lambda>key. Ok (shard_id bits (hf key), hf key))"

section \<open>Rows\<close>

definition rows_new :: "row_buffer \<Rightarrow> rows" where
  "rows_new b = \<lparr>r_data = b, r_stale = 0\<rparr>"

definition rows_clear :: "rows \<Rightarrow> rows" where
  "rows_clear r = r\<lparr>r_data := rb_clear (r_data r), r_stale := 0\<rparr>"

definition next_row :: "rows \<Rightarrow> nat result" where
  "next_row r = row_id (rb_total (r_data r))"

definition rows_set_stale :: "rows \<Rightarrow> nat \<Rightarrow> rows result" where
  "rows_set_stale r i =
     bind_o (rb_set_stale (r_data r) i) (\<lambda>(b, was).
       Ok (r\<lparr>r_data := b, r_stale := (if was then r_stale r else Suc (r_stale r))\<rparr>))"

definition rows_get :: "rows \<Rightarrow> nat \<Rightarrow> nat list option result" where
  "rows_get r i =
     bind_o (rb_get_row (r_data r) i) (\<lambda>row. bind_o (at_o row 0) (\<lambda>v.
       Ok (if is_stale v then None else Some row)))"

definition rows_add :: "rows \<Rightarrow> nat list \<Rightarrow> (rows \<times> nat) result" where
  "rows_add r row =
     bind_o (at_o row 0) (\<lambda>v. bind_o (rb_add_row (r_data r) row) (\<lambda>(b, i).
       Ok (r\<lparr>r_data := b, r_stale := (if is_stale v then Suc (r_stale r) else r_stale r)\<rparr>, i)))"

definition rows_remove_stale ::
    "(nat list \<Rightarrow> nat \<Rightarrow> nat \<Rightarrow> 's \<Rightarrow> 's result) \<Rightarrow> rows \<Rightarrow> 's \<Rightarrow> (rows \<times> 's) result" where
  "rows_remove_stale f r s =
     bind_o (rb_remove_stale f (r_data r) s) (\<lambda>(b, s'). Ok (r\<lparr>r_data := b, r_stale := 0\<rparr>, s'))"

section \<open>Staging\<close>

definition kb_new :: "nat \<Rightarrow> key_buffer result" where
  "kb_new n = (if n = 0 then Ok (Empty 0) else bind_o (rb_new n) (\<lambda>b. Ok (NonEmpty b)))"

fun kb_add :: "key_buffer \<Rightarrow> nat list \<Rightarrow> key_buffer result" where
  "kb_add (NonEmpty b) row = bind_o (rb_add_row b row) (\<lambda>(b', _). Ok (NonEmpty b'))"
| "kb_add (Empty n) row = Ok (Empty (Suc n))"

fun kb_len :: "key_buffer \<Rightarrow> nat" where
  "kb_len (NonEmpty b) = rb_total b"
| "kb_len (Empty n) = n"

fun kb_rows :: "key_buffer \<Rightarrow> nat list list" where
  "kb_rows (NonEmpty b) = rb_iter b"
| "kb_rows (Empty n) = replicate n []"

text \<open>A mutation buffer holds its rows and keys by shard until it is dropped.\<close>

record mutation_buffer =
  mb_rows :: "nat \<rightharpoonup> row_buffer"
  mb_removals :: "nat \<rightharpoonup> key_buffer"
  mb_cols :: nat
  mb_keys :: nat
  mb_bits :: nat

definition mb_stage_insert :: "hash_fn \<Rightarrow> nat list \<Rightarrow> mutation_buffer \<Rightarrow> mutation_buffer result" where
  "mb_stage_insert hf row mb =
     bind_o (hash_code hf (mb_bits mb) row (mb_keys mb)) (\<lambda>(shard, _).
     bind_o (case mb_rows mb shard of Some b \<Rightarrow> Ok b | None \<Rightarrow> rb_new (mb_cols mb)) (\<lambda>b.
     bind_o (rb_add_row b row) (\<lambda>(b', _). Ok (mb\<lparr>mb_rows := (mb_rows mb)(shard \<mapsto> b')\<rparr>))))"

definition mb_stage_remove :: "hash_fn \<Rightarrow> nat list \<Rightarrow> mutation_buffer \<Rightarrow> mutation_buffer result" where
  "mb_stage_remove hf key mb =
     bind_o (hash_code hf (mb_bits mb) key (mb_keys mb)) (\<lambda>(shard, _).
     bind_o (case mb_removals mb shard of Some b \<Rightarrow> Ok b | None \<Rightarrow> kb_new (mb_keys mb)) (\<lambda>b.
     bind_o (kb_add b key) (\<lambda>b'. Ok (mb\<lparr>mb_removals := (mb_removals mb)(shard \<mapsto> b')\<rparr>))))"

definition mb_drop :: "mutation_buffer \<Rightarrow> sorted_table \<Rightarrow> sorted_table" where
  "mb_drop mb t =
     (let p = st_pending t; ids = [0..<n_shards (st_shard_bits t)];
          new_rows = map (mb_rows mb) ids; new_removals = map (mb_removals mb) ids in
      t\<lparr>st_pending := p\<lparr>
          pending_rows := map (\<lambda>(q, b). case b of None \<Rightarrow> q | Some b \<Rightarrow> q @ [b]) (zip (pending_rows p) new_rows),
          total_rows := total_rows p + sum_list (map (\<lambda>b. case b of None \<Rightarrow> 0 | Some b \<Rightarrow> rb_total b) new_rows),
          pending_removals := map (\<lambda>(q, b). case b of None \<Rightarrow> q | Some b \<Rightarrow> q @ [b]) (zip (pending_removals p) new_removals),
          total_removals := total_removals p + sum_list (map (\<lambda>b. case b of None \<Rightarrow> 0 | Some b \<Rightarrow> kb_len b) new_removals)\<rparr>\<rparr>)"

section \<open>The table\<close>

definition pending_new :: "nat \<Rightarrow> pending_state" where
  "pending_new bits =
     \<lparr>pending_rows = replicate (n_shards bits) [], pending_removals = replicate (n_shards bits) [],
      total_rows = 0, total_removals = 0\<rparr>"

definition st_new :: "nat \<Rightarrow> nat \<Rightarrow> nat \<Rightarrow> nat option \<Rightarrow> sorted_table result" where
  "st_new bits n_keys n_columns sort_by =
     bind_o (rb_new n_columns) (\<lambda>b. Ok
       \<lparr>st_generation = 0, st_rows = rows_new b, st_shards = replicate (n_shards bits) [],
        st_shard_bits = bits, st_keys = n_keys, st_columns = n_columns, st_sort_by = sort_by,
        st_offsets = [], st_pending = pending_new bits\<rparr>)"

definition st_new_buffer :: "sorted_table \<Rightarrow> mutation_buffer" where
  "st_new_buffer t =
     \<lparr>mb_rows = Map.empty, mb_removals = Map.empty, mb_cols = st_columns t, mb_keys = st_keys t,
      mb_bits = st_shard_bits t\<rparr>"

text \<open>Clearing drops what is pending, but not the counts of it.\<close>

definition st_clear :: "sorted_table \<Rightarrow> sorted_table" where
  "st_clear t =
     (let p = st_pending t;
          t1 = t\<lparr>st_pending := p\<lparr>pending_rows := map (\<lambda>_. []) (pending_rows p),
                                 pending_removals := map (\<lambda>_. []) (pending_removals p)\<rparr>\<rparr> in
      if rb_total (r_data (st_rows t1)) = 0 then t1
      else t1\<lparr>st_offsets := [], st_rows := rows_clear (st_rows t1),
              st_shards := map (\<lambda>_. []) (st_shards t1), st_generation := Suc (st_generation t1)\<rparr>)"

definition st_version :: "sorted_table \<Rightarrow> table_version result" where
  "st_version t = bind_o (next_row (st_rows t)) (\<lambda>n. Ok \<lparr>tv_major = st_generation t, tv_minor = n\<rparr>)"

definition dense_range :: "nat \<Rightarrow> nat \<Rightarrow> subset" where
  "dense_range a b = Dense \<lparr>or_start = a, or_end = b\<rparr>"

definition st_updates_since :: "sorted_table \<Rightarrow> nat \<Rightarrow> subset result" where
  "st_updates_since t off =
     bind_o (row_id off) (\<lambda>a. bind_o (next_row (st_rows t)) (\<lambda>b. Ok (dense_range a b)))"

definition st_all :: "sorted_table \<Rightarrow> subset result" where
  "st_all t = bind_o (next_row (st_rows t)) (\<lambda>n. Ok (dense_range 0 n))"

definition st_has_stale_rows :: "sorted_table \<Rightarrow> bool" where
  "st_has_stale_rows t = (0 < r_stale (st_rows t))"

definition st_len :: "sorted_table \<Rightarrow> nat" where
  "st_len t = rb_total (r_data (st_rows t)) - r_stale (st_rows t)"

section \<open>Hash tables\<close>

text \<open>The position of the first entry that passes a test which can panic.\<close>

fun find_entry :: "(table_entry \<Rightarrow> bool result) \<Rightarrow> table_entry list \<Rightarrow> nat option result" where
  "find_entry test [] = Ok None"
| "find_entry test (e # es) =
     bind_o (test e) (\<lambda>b. if b then Ok (Some 0)
       else bind_o (find_entry test es) (\<lambda>r. Ok (map_option Suc r)))"

definition entry_test :: "64 word \<Rightarrow> (nat \<Rightarrow> bool result) \<Rightarrow> table_entry \<Rightarrow> bool result" where
  "entry_test hash test e = (if te_hash e = hash then test (te_row e) else Ok False)"

definition row_has_key :: "rows \<Rightarrow> nat \<Rightarrow> nat list \<Rightarrow> nat \<Rightarrow> bool result" where
  "row_has_key r n_keys key i =
     bind_o (rows_get r i) (\<lambda>row. bind_o (opt_o Panic row) (\<lambda>row.
       bind_o (slice_o row 0 n_keys) (\<lambda>k. Ok (k = key))))"

text \<open>While inserting, entries of stale rows do not match instead of panicking.\<close>

definition row_has_key_or_stale :: "rows \<Rightarrow> nat \<Rightarrow> nat list \<Rightarrow> nat \<Rightarrow> bool result" where
  "row_has_key_or_stale r n_keys key i =
     bind_o (rows_get r i) (\<lambda>row. case row of
       None \<Rightarrow> Ok False | Some row \<Rightarrow> bind_o (slice_o row 0 n_keys) (\<lambda>k. Ok (k = key)))"

text \<open>The shard, the position there, and the row of the entry that is found.\<close>

definition get_entry ::
    "hash_fn \<Rightarrow> nat list \<Rightarrow> nat \<Rightarrow> nat \<Rightarrow> table_entry list list \<Rightarrow> (nat \<Rightarrow> bool result)
      \<Rightarrow> (nat \<times> nat \<times> nat) option result" where
  "get_entry hf row n_keys bits shards test =
     bind_o (hash_code hf bits row n_keys) (\<lambda>(shard, hash).
     bind_o (at_o shards shard) (\<lambda>es.
     bind_o (find_entry (entry_test hash test) es) (\<lambda>r.
       Ok (map_option (\<lambda>k. (shard, k, te_row (es ! k))) r))))"

definition point_entry :: "nat \<times> nat \<Rightarrow> nat \<Rightarrow> table_entry list list \<Rightarrow> table_entry list list" where
  "point_entry p row shards =
     (let (shard, k) = p; es = shards ! shard in
      shards[shard := es[k := (es ! k)\<lparr>te_row := row\<rparr>]])"

section \<open>Removing\<close>

definition delete_key :: "hash_fn \<Rightarrow> nat \<Rightarrow> nat list \<Rightarrow> sorted_table \<times> bool \<Rightarrow> (sorted_table \<times> bool) result" where
  "delete_key hf shard_no key tb =
     (let (t, changed) = tb in
      bind_o (hash_code hf (st_shard_bits t) key (st_keys t)) (\<lambda>(actual, hash).
        if actual \<noteq> shard_no then Panic
        else bind_o (at_o (st_shards t) shard_no) (\<lambda>es.
          bind_o (find_entry (entry_test hash (row_has_key (st_rows t) (st_keys t) key)) es) (\<lambda>r.
            case r of
              None \<Rightarrow> Ok (t, changed)
            | Some k \<Rightarrow>
                bind_o (rows_set_stale (st_rows t) (te_row (es ! k))) (\<lambda>rs.
                  Ok (t\<lparr>st_rows := rs, st_shards := (st_shards t)[shard_no := take k es @ drop (Suc k) es]\<rparr>, True))))))"

definition take_removals :: "nat \<Rightarrow> sorted_table \<Rightarrow> nat list list \<times> sorted_table" where
  "take_removals s t =
     (let p = st_pending t in
      (concat (map kb_rows (pending_removals p ! s)), t\<lparr>st_pending := p\<lparr>pending_removals := (pending_removals p)[s := []]\<rparr>\<rparr>))"

definition serial_delete :: "hash_fn \<Rightarrow> sorted_table \<Rightarrow> (sorted_table \<times> bool) result" where
  "serial_delete hf t =
     fold_out (\<lambda>s (t, changed).
       let (keys, t1) = take_removals s t in fold_out (delete_key hf s) keys (t1, changed))
       [0..<length (st_shards t)] (t, False)"

text \<open>Several threads only ever touch the entries and the rows of their own shards.\<close>

definition parallelize_table_op :: "nat \<Rightarrow> nat \<Rightarrow> bool" where
  "parallelize_table_op threads n = (20000 < n \<and> 1 < threads)"

definition do_delete :: "hash_fn \<Rightarrow> sorted_table \<Rightarrow> (sorted_table \<times> bool) result" where
  "do_delete hf t =
     (let p = st_pending t in serial_delete hf (t\<lparr>st_pending := p\<lparr>total_removals := 0\<rparr>\<rparr>))"

section \<open>Inserting\<close>

definition push_offset :: "nat \<Rightarrow> nat \<Rightarrow> (nat \<times> nat) list \<Rightarrow> (nat \<times> nat) list result" where
  "push_offset v row offs =
     (if offs = [] then Ok [(v, row)]
      else if v < fst (last offs) then Panic
      else Ok (if fst (last offs) < v then offs @ [(v, row)] else offs))"

definition offsets_after :: "nat option \<Rightarrow> nat list \<Rightarrow> nat \<Rightarrow> (nat \<times> nat) list \<Rightarrow> (nat \<times> nat) list result" where
  "offsets_after sort_by query row offs =
     (case sort_by of None \<Rightarrow> Ok offs | Some c \<Rightarrow> bind_o (at_o query c) (\<lambda>v. push_offset v row offs))"

definition insert_query ::
    "hash_fn \<Rightarrow> 'x merge_fn \<Rightarrow> nat list \<Rightarrow> sorted_table \<times> 'x \<times> bool \<Rightarrow> (sorted_table \<times> 'x \<times> bool) result" where
  "insert_query hf m query txc =
     (let (t, x, changed) = txc in
      bind_o (slice_o query 0 (st_keys t)) (\<lambda>key.
      bind_o (get_entry hf query (st_keys t) (st_shard_bits t) (st_shards t)
                (row_has_key_or_stale (st_rows t) (st_keys t) key)) (\<lambda>entry.
        case entry of
          Some (shard, k, row) \<Rightarrow>
            bind_o (rows_get (st_rows t) row) (\<lambda>cur. bind_o (opt_o Panic cur) (\<lambda>cur.
              case m x cur query of
                (x1, None) \<Rightarrow> Ok (t, x1, changed)
              | (x1, Some merged) \<Rightarrow>
                  bind_o (rows_add (st_rows t) merged) (\<lambda>(rs, new).
                  bind_o (offsets_after (st_sort_by t) query new (st_offsets t)) (\<lambda>offs.
                  bind_o (rows_set_stale rs row) (\<lambda>rs1.
                    Ok (t\<lparr>st_rows := rs1, st_offsets := offs,
                          st_shards := point_entry (shard, k) new (st_shards t)\<rparr>, x1, True))))))
        | None \<Rightarrow>
            bind_o (rows_add (st_rows t) query) (\<lambda>(rs, new).
            bind_o (offsets_after (st_sort_by t) query new (st_offsets t)) (\<lambda>offs.
            bind_o (hash_code hf (st_shard_bits t) query (st_keys t)) (\<lambda>(shard, hash).
            bind_o (at_o (st_shards t) shard) (\<lambda>es.
              Ok (t\<lparr>st_rows := rs, st_offsets := offs,
                    st_shards := (st_shards t)[shard := es @ [\<lparr>te_hash = hash, te_row = new\<rparr>]]\<rparr>, x, True))))))))"

definition take_rows :: "nat \<Rightarrow> sorted_table \<Rightarrow> nat list list \<times> sorted_table" where
  "take_rows s t =
     (let p = st_pending t in
      (concat (map rb_non_stale (pending_rows p ! s)), t\<lparr>st_pending := p\<lparr>pending_rows := (pending_rows p)[s := []]\<rparr>\<rparr>))"

definition serial_insert :: "hash_fn \<Rightarrow> 'x merge_fn \<Rightarrow> sorted_table \<times> 'x \<Rightarrow> (sorted_table \<times> 'x \<times> bool) result" where
  "serial_insert hf m tx =
     (let (t, x) = tx in
      fold_out (\<lambda>s (t, x, changed).
        let (queries, t1) = take_rows s t in fold_out (insert_query hf m) queries (t1, x, changed))
        [0..<length (pending_rows (st_pending t))] (t, x, False))"

section \<open>Compaction\<close>

text \<open>
  Each live row is moved to the front in order: the entry that points to its old place (which
  must exist) is redirected, and the offsets of the sort column are built anew.
\<close>

definition remap_entry ::
    "hash_fn \<Rightarrow> nat \<Rightarrow> nat \<Rightarrow> nat list \<Rightarrow> nat \<Rightarrow> nat \<Rightarrow> table_entry list list \<Rightarrow> table_entry list list result" where
  "remap_entry hf n_keys bits row old new shards =
     bind_o (get_entry hf row n_keys bits shards (\<lambda>i. Ok (i = old))) (\<lambda>r.
     bind_o (opt_o Panic r) (\<lambda>(shard, k, _). Ok (point_entry (shard, k) new shards)))"

definition rebuild_offsets :: "nat option \<Rightarrow> nat list \<Rightarrow> nat \<Rightarrow> (nat \<times> nat) list \<Rightarrow> (nat \<times> nat) list result" where
  "rebuild_offsets sort_by row new offs =
     (case sort_by of None \<Rightarrow> Ok offs
      | Some c \<Rightarrow> bind_o (at_o row c) (\<lambda>v.
          Ok (if offs = [] \<or> fst (last offs) < v then offs @ [(v, new)] else offs)))"

definition rehash_impl :: "hash_fn \<Rightarrow> sorted_table \<Rightarrow> sorted_table result" where
  "rehash_impl hf t =
     bind_o (rows_remove_stale (\<lambda>row old new (shards, offs).
         bind_o (remap_entry hf (st_keys t) (st_shard_bits t) row old new shards) (\<lambda>shards'.
         bind_o (rebuild_offsets (st_sort_by t) row new offs) (\<lambda>offs'. Ok (shards', offs'))))
         (st_rows t) (st_shards t, if st_sort_by t = None then st_offsets t else []))
       (\<lambda>(rs, shards, offs). Ok (t\<lparr>st_rows := rs, st_shards := shards, st_offsets := offs\<rparr>))"

definition rehash :: "hash_fn \<Rightarrow> sorted_table \<Rightarrow> sorted_table result" where
  "rehash hf t = rehash_impl hf (t\<lparr>st_generation := Suc (st_generation t)\<rparr>)"

definition maybe_rehash :: "hash_fn \<Rightarrow> sorted_table \<Rightarrow> sorted_table result" where
  "maybe_rehash hf t =
     (if r_stale (st_rows t) \<le> max 16 (rb_total (r_data (st_rows t)) div 2) then Ok t else rehash hf t)"

record table_change =
  tc_added :: bool
  tc_removed :: bool

text \<open>The merge of a table whose pending writes are few, or with one thread.\<close>

definition st_merge :: "hash_fn \<Rightarrow> 'x merge_fn \<Rightarrow> sorted_table \<times> 'x \<Rightarrow> (table_change \<times> sorted_table \<times> 'x) result" where
  "st_merge hf m tx =
     (let (t, x) = tx in
      bind_o (do_delete hf t) (\<lambda>(t1, removed).
      bind_o (serial_insert hf m (t1\<lparr>st_pending := (st_pending t1)\<lparr>total_rows := 0\<rparr>\<rparr>, x)) (\<lambda>(t2, x2, added).
      bind_o (maybe_rehash hf t2) (\<lambda>t3.
        Ok (\<lparr>tc_added = added, tc_removed = removed\<rparr>, t3, x2)))))"

section \<open>Reading\<close>

definition st_find :: "hash_fn \<Rightarrow> sorted_table \<Rightarrow> nat list \<Rightarrow> nat option result" where
  "st_find hf t key =
     bind_o (get_entry hf key (st_keys t) (st_shard_bits t) (st_shards t)
               (row_has_key (st_rows t) (st_keys t) key))
       (\<lambda>r. Ok (map_option (\<lambda>(_, _, row). row) r))"

definition st_get_row :: "hash_fn \<Rightarrow> sorted_table \<Rightarrow> nat list \<Rightarrow> (nat \<times> nat list) option result" where
  "st_get_row hf t key =
     bind_o (st_find hf t key) (\<lambda>r. case r of
         None \<Rightarrow> Ok None
       | Some i \<Rightarrow> bind_o (rows_get (st_rows t) i) (\<lambda>row. bind_o (opt_o Panic row) (\<lambda>row. Ok (Some (i, row)))))"

definition st_get_row_column :: "hash_fn \<Rightarrow> sorted_table \<Rightarrow> nat list \<Rightarrow> nat \<Rightarrow> nat option result" where
  "st_get_row_column hf t key col =
     bind_o (st_get_row hf t key) (\<lambda>r. case r of
         None \<Rightarrow> Ok None
       | Some (_, row) \<Rightarrow> bind_o (at_o row col) (\<lambda>v. Ok (Some v)))"

datatype sort_bounds = InRange nat nat | Before nat

definition offset_row :: "sorted_table \<Rightarrow> nat \<Rightarrow> nat result" where
  "offset_row t k = (if k < length (st_offsets t) then Ok (snd (st_offsets t ! k)) else next_row (st_rows t))"

definition binary_search_sort_val :: "sorted_table \<Rightarrow> nat \<Rightarrow> sort_bounds result" where
  "binary_search_sort_val t v =
     (case binary_search (map fst (st_offsets t)) v of
        Found k \<Rightarrow> bind_o (offset_row t (Suc k)) (\<lambda>e. Ok (InRange (snd (st_offsets t ! k)) e))
      | Absent k \<Rightarrow> bind_o (offset_row t k) (\<lambda>e. Ok (Before e)))"

definition on_sort_col :: "sorted_table \<Rightarrow> nat \<Rightarrow> nat \<Rightarrow> (sort_bounds \<Rightarrow> subset result) \<Rightarrow> subset option result" where
  "on_sort_col t col v f =
     (if Some col \<noteq> st_sort_by t then Ok None
      else bind_o (binary_search_sort_val t v) (\<lambda>b. bind_o (f b) (\<lambda>s. Ok (Some s))))"

fun st_fast_subset :: "sorted_table \<Rightarrow> constr \<Rightarrow> subset option result" where
  "st_fast_subset t (CEq _ _) = Ok None"
| "st_fast_subset t (CEqConst col v) = on_sort_col t col v (\<lambda>b. case b of
       InRange a e \<Rightarrow> Ok (dense_range a e) | Before _ \<Rightarrow> Ok empty_subset)"
| "st_fast_subset t (CLtConst col v) = on_sort_col t col v (\<lambda>b. case b of
       InRange a _ \<Rightarrow> Ok (dense_range 0 a) | Before a \<Rightarrow> Ok (dense_range 0 a))"
| "st_fast_subset t (CGtConst col v) = on_sort_col t col v (\<lambda>b. bind_o (next_row (st_rows t)) (\<lambda>n. case b of
       InRange _ e \<Rightarrow> Ok (dense_range e n) | Before a \<Rightarrow> Ok (dense_range a n)))"
| "st_fast_subset t (CLeConst col v) = on_sort_col t col v (\<lambda>b. case b of
       InRange _ e \<Rightarrow> Ok (dense_range 0 e) | Before a \<Rightarrow> Ok (dense_range 0 a))"
| "st_fast_subset t (CGeConst col v) = on_sort_col t col v (\<lambda>b. bind_o (next_row (st_rows t)) (\<lambda>n. case b of
       InRange a _ \<Rightarrow> Ok (dense_range a n) | Before a \<Rightarrow> Ok (dense_range a n)))"

definition get_if :: "sorted_table \<Rightarrow> constr list \<Rightarrow> nat \<Rightarrow> nat list option result" where
  "get_if t cs i =
     bind_o (rows_get (st_rows t) i) (\<lambda>r. case r of
         None \<Rightarrow> Ok None
       | Some row \<Rightarrow> bind_o (eval_constraints cs row) (\<lambda>b. Ok (if b then Some row else None)))"

definition st_eval :: "sorted_table \<Rightarrow> constr list \<Rightarrow> nat \<Rightarrow> bool result" where
  "st_eval t cs i = bind_o (get_if t cs i) (\<lambda>r. Ok (r \<noteq> None))"

definition st_refine_one :: "sorted_table \<Rightarrow> subset \<Rightarrow> constr \<Rightarrow> subset result" where
  "st_refine_one t s c = retain_o (st_eval t [c]) s"

text \<open>The variant of \<open>get_if\<close> that bounded scans use does not look at staleness.\<close>

definition get_if_unchecked :: "sorted_table \<Rightarrow> constr list \<Rightarrow> nat \<Rightarrow> nat list option result" where
  "get_if_unchecked t cs i =
     bind_o (rb_get_row (r_data (st_rows t)) i) (\<lambda>row.
     bind_o (eval_constraints cs row) (\<lambda>b. Ok (if b then Some row else None)))"

definition scan_rows :: "(nat \<Rightarrow> nat list option result) \<Rightarrow> nat list \<Rightarrow> (nat \<times> nat list) list result" where
  "scan_rows f is =
     fold_out (\<lambda>i out. bind_o (f i) (\<lambda>r. Ok (case r of None \<Rightarrow> out | Some row \<Rightarrow> out @ [(i, row)]))) is []"

definition in_table :: "sorted_table \<Rightarrow> subset \<Rightarrow> bool result" where
  "in_table t s =
     bind_o (subset_bounds s) (\<lambda>b. case b of
       None \<Rightarrow> Ok False
     | Some (_, hi) \<Rightarrow> if hi \<le> rb_total (r_data (st_rows t)) then Ok True else Panic)"

definition row_or_stale :: "sorted_table \<Rightarrow> nat \<Rightarrow> nat list option result" where
  "row_or_stale t i =
     (if r_stale (st_rows t) = 0 then bind_o (rb_get_row (r_data (st_rows t)) i) (\<lambda>r. Ok (Some r))
      else rows_get (st_rows t) i)"

definition st_scan_generic :: "sorted_table \<Rightarrow> subset \<Rightarrow> (nat \<times> nat list) list result" where
  "st_scan_generic t s =
     bind_o (in_table t s) (\<lambda>b. if b then scan_rows (row_or_stale t) (offsets s) else Ok [])"

definition st_scan :: "sorted_table \<Rightarrow> subset \<Rightarrow> nat \<Rightarrow> nat \<Rightarrow> constr list \<Rightarrow> scanned result" where
  "st_scan t s start n cs =
     bind_o (in_table t s) (\<lambda>b.
       if \<not> b then Ok ([], None)
       else bind_o (iter_bounded s start (start + n)) (\<lambda>(is, next).
         bind_o (scan_rows (if cs = [] then row_or_stale t else get_if_unchecked t cs) is)
           (\<lambda>out. Ok (out, next))))"

end
