(* ===== verification/Sorted_Rows.thy ===== *)
theory Sorted_Rows
  imports Sorted_Table
begin

text \<open>
  What the rows, the hash tables and the offsets of a sorted table mean: the invariants of each
  and how the basic operations act on them.
\<close>

section \<open>Rows\<close>

abbreviation live :: "nat list \<Rightarrow> bool" where
  "live r \<equiv> \<not> is_stale (r ! 0)"

abbreviation row_list :: "rows \<Rightarrow> nat list list" where
  "row_list r \<equiv> rb_iter (r_data r)"

definition rows_inv :: "nat \<Rightarrow> rows \<Rightarrow> bool" where
  "rows_inv n r \<longleftrightarrow> rb_wf (r_data r) \<and> rb_cols (r_data r) = n \<and> int (rb_total (r_data r)) < 2 ^ 32
     \<and> r_stale r + length (live_rows (row_list r)) = rb_total (r_data r)"

lemma rows_inv_total: "rows_inv n r \<Longrightarrow> rb_total (r_data r) = length (row_list r)"
  by (simp add: rows_inv_def)

lemma rows_inv_pos: "rows_inv n r \<Longrightarrow> 0 < n"
  by (auto simp: rows_inv_def rb_wf_def)

lemma rows_inv_arity: "rows_inv n r \<Longrightarrow> i < length (row_list r) \<Longrightarrow> length (row_list r ! i) = n"
  using rb_row_arity by (auto simp: rows_inv_def)

lemma next_row_eq: "rows_inv n r \<Longrightarrow> next_row r = Ok (length (row_list r))"
  by (simp add: rows_inv_def next_row_def row_id_def)

lemma rows_get_eq:
  assumes "rows_inv n r"
  shows "rows_get r i = (if i < length (row_list r) then Ok (if live (row_list r ! i) then Some (row_list r ! i) else None) else Panic)"
  using assms rows_inv_arity [OF assms, of i] rows_inv_pos [OF assms]
  by (auto simp: rows_get_def rb_get_row_eq rows_inv_def)

lemma rows_add_eq:
  assumes "rows_inv n r" "length row = n" "int (Suc (length (row_list r))) < 2 ^ 32"
  shows "\<exists>r'. rows_add r row = Ok (r', length (row_list r)) \<and> rows_inv n r' \<and> row_list r' = row_list r @ [row]"
proof -
  have wf: "rb_wf (r_data r)" "rb_cols (r_data r) = n" using assms(1) by (simp_all add: rows_inv_def)
  have "length row = rb_cols (r_data r)" "int (rb_total (r_data r)) < 2 ^ 32"
    using assms(2,3) wf by simp_all
  from rb_add_row_eq [OF wf(1) this] obtain b where
    "rb_add_row (r_data r) row = Ok (b, rb_total (r_data r))" "rb_wf b" "rb_iter b = row_list r @ [row]"
    "rb_cols b = rb_cols (r_data r)" "rb_total b = Suc (rb_total (r_data r))" by blast
  moreover have "at_o row 0 = Ok (row ! 0)" using assms(2) rows_inv_pos [OF assms(1)] by simp
  ultimately show ?thesis using assms(1,3) by (simp add: rows_add_def rows_inv_def)
qed

lemma live_rows_update:
  "i < length rows \<Longrightarrow> live (rows ! i) \<Longrightarrow> is_stale (r ! 0) \<Longrightarrow>
     Suc (length (live_rows (rows[i := r]))) = length (live_rows rows)"
proof (induction rows arbitrary: i)
  case (Cons x rows)
  then show ?case by (cases i) auto
qed simp

lemma rows_set_stale_eq:
  assumes "rows_inv n r" "i < length (row_list r)" "live (row_list r ! i)"
  shows "\<exists>r'. rows_set_stale r i = Ok r' \<and> rows_inv n r'
     \<and> row_list r' = (row_list r)[i := stale_value # tl (row_list r ! i)]"
proof -
  have "rb_wf (r_data r)" "i < rb_total (r_data r)" using assms by (simp_all add: rows_inv_def)
  from rb_set_stale_eq [OF this] obtain b where
    "rb_set_stale (r_data r) i = Ok (b, is_stale (row_list r ! i ! 0))" "rb_wf b"
    "rb_iter b = (row_list r)[i := stale_value # tl (row_list r ! i)]" "rb_cols b = rb_cols (r_data r)"
    "rb_total b = rb_total (r_data r)" by auto
  then show ?thesis using assms live_rows_update [OF assms(2,3), of "stale_value # tl (row_list r ! i)"]
    by (auto simp: rows_set_stale_def rows_inv_def)
qed

section \<open>Keys\<close>

text \<open>The index of the live row with a key, and the map from keys to rows.\<close>

definition holds_at :: "nat \<Rightarrow> nat list list \<Rightarrow> nat list \<Rightarrow> nat \<Rightarrow> bool" where
  "holds_at nk rows key i \<longleftrightarrow> i < length rows \<and> live (rows ! i) \<and> take nk (rows ! i) = key"

definition unique_keys :: "nat \<Rightarrow> nat list list \<Rightarrow> bool" where
  "unique_keys nk rows \<longleftrightarrow> (\<forall>key i j. holds_at nk rows key i \<longrightarrow> holds_at nk rows key j \<longrightarrow> i = j)"

definition rows_map :: "nat \<Rightarrow> nat list list \<Rightarrow> nat list \<rightharpoonup> nat list" where
  "rows_map nk rows = map_of (map (\<lambda>r. (take nk r, r)) (live_rows rows))"

lemma rows_map_live [simp]: "rows_map nk (live_rows rows) = rows_map nk rows"
  by (simp add: rows_map_def)

lemma rows_map_None: "rows_map nk rows key = None \<longleftrightarrow> (\<forall>i. \<not> holds_at nk rows key i)"
  by (fastforce simp: rows_map_def holds_at_def map_of_eq_None_iff in_set_conv_nth image_image)

lemma rows_map_Some:
  assumes "unique_keys nk rows"
  shows "rows_map nk rows key = Some r \<longleftrightarrow> (\<exists>i. holds_at nk rows key i \<and> rows ! i = r)"
proof
  assume "rows_map nk rows key = Some r"
  then show "\<exists>i. holds_at nk rows key i \<and> rows ! i = r"
    by (auto simp: rows_map_def holds_at_def in_set_conv_nth dest!: map_of_SomeD)
next
  assume "\<exists>i. holds_at nk rows key i \<and> rows ! i = r"
  then obtain i where i: "holds_at nk rows key i" "rows ! i = r" by blast
  then have "rows_map nk rows key \<noteq> None" by (auto simp: rows_map_None)
  then obtain r' where "rows_map nk rows key = Some r'" by blast
  moreover from this obtain j where "holds_at nk rows key j" "rows ! j = r'"
    by (auto simp: rows_map_def holds_at_def in_set_conv_nth dest!: map_of_SomeD)
  ultimately show "rows_map nk rows key = Some r" using i assms by (auto simp: unique_keys_def)
qed

lemma rows_map_same:
  assumes "unique_keys nk rows" "unique_keys nk rows'"
    and "\<And>j. holds_at nk rows' key j \<longleftrightarrow> holds_at nk rows key j"
    and "\<And>j. holds_at nk rows key j \<Longrightarrow> rows' ! j = rows ! j"
  shows "rows_map nk rows' key = rows_map nk rows key"
proof (cases "rows_map nk rows key")
  case None
  then have "\<forall>i. \<not> holds_at nk rows' key i" using assms(3) by (simp add: rows_map_None)
  then show ?thesis using None by (simp add: rows_map_None [THEN iffD2])
next
  case (Some r)
  then obtain i where "holds_at nk rows key i" "rows ! i = r" using rows_map_Some [OF assms(1)] by blast
  then have "rows_map nk rows' key = Some r" using rows_map_Some [OF assms(2)] assms(3,4) by blast
  then show ?thesis using Some by simp
qed

text \<open>Appending a row with a new key, or one that replaces the row at \<open>i\<close>.\<close>

lemma holds_at_append:
  "holds_at nk (rows @ [r]) key i \<longleftrightarrow> holds_at nk rows key i \<or> i = length rows \<and> live r \<and> take nk r = key"
  by (auto simp: holds_at_def nth_append)

lemma holds_at_replace:
  assumes "i < length rows" "is_stale (r0 ! 0)"
  shows "holds_at nk (rows[i := r0]) key j \<longleftrightarrow> holds_at nk rows key j \<and> j \<noteq> i"
  using assms by (auto simp: holds_at_def nth_list_update)

lemma append_new_key:
  assumes "unique_keys nk rows" "live r" "rows_map nk rows (take nk r) = None"
  shows "unique_keys nk (rows @ [r])" "rows_map nk (rows @ [r]) = (rows_map nk rows)(take nk r \<mapsto> r)"
proof -
  show "unique_keys nk (rows @ [r])"
    using assms by (auto simp: unique_keys_def holds_at_append rows_map_None)
  show "rows_map nk (rows @ [r]) = (rows_map nk rows)(take nk r \<mapsto> r)"
    using assms(2,3) by (auto simp: rows_map_def fun_eq_iff map_add_def split: option.split)
qed

lemma replace_key:
  assumes u: "unique_keys nk rows" and i: "holds_at nk rows (take nk r) i" and r: "live r" and r0: "is_stale (r0 ! 0)"
  shows "unique_keys nk ((rows @ [r])[i := r0])"
    "rows_map nk ((rows @ [r])[i := r0]) = (rows_map nk rows)(take nk r \<mapsto> r)"
proof -
  have "i < length (rows @ [r])" using i by (simp add: holds_at_def)
  note h = holds_at_replace [OF this r0] holds_at_append
  have ne: "i \<noteq> length rows" using i by (simp add: holds_at_def)
  show u': "unique_keys nk ((rows @ [r])[i := r0])"
    using u i by (auto simp: unique_keys_def h)
  show "rows_map nk ((rows @ [r])[i := r0]) = (rows_map nk rows)(take nk r \<mapsto> r)"
  proof (rule ext)
    fix key
    show "rows_map nk ((rows @ [r])[i := r0]) key = ((rows_map nk rows)(take nk r \<mapsto> r)) key"
    proof (cases "key = take nk r")
      case True
      then have "holds_at nk ((rows @ [r])[i := r0]) key (length rows)" "(rows @ [r])[i := r0] ! length rows = r"
        using r ne by (simp_all add: h nth_append)
      then show ?thesis using rows_map_Some [OF u'] True by auto
    next
      case False
      have same: "holds_at nk ((rows @ [r])[i := r0]) key j \<longleftrightarrow> holds_at nk rows key j" for j
        using False i by (auto simp: h) (auto simp: holds_at_def)
      have row: "(rows @ [r])[i := r0] ! j = rows ! j" if "holds_at nk rows key j" for j
        using that False i by (auto simp: holds_at_def nth_append nth_list_update)
      have "rows_map nk ((rows @ [r])[i := r0]) key = rows_map nk rows key"
        by (rule rows_map_same [OF u u' same row])
      with False show ?thesis by simp
    qed
  qed
qed

lemma remove_key:
  assumes u: "unique_keys nk rows" and i: "holds_at nk rows key i" and r0: "is_stale (r0 ! 0)"
  shows "unique_keys nk (rows[i := r0])" "rows_map nk (rows[i := r0]) = (rows_map nk rows)(key := None)"
proof -
  have "i < length rows" using i by (simp add: holds_at_def)
  note h = holds_at_replace [OF this r0]
  show u': "unique_keys nk (rows[i := r0])" using u by (auto simp: unique_keys_def h)
  show "rows_map nk (rows[i := r0]) = (rows_map nk rows)(key := None)"
  proof (rule ext)
    fix k
    show "rows_map nk (rows[i := r0]) k = ((rows_map nk rows)(key := None)) k"
    proof (cases "k = key")
      case True
      then show ?thesis using u i by (auto simp: rows_map_None h unique_keys_def)
    next
      case False
      have same: "holds_at nk (rows[i := r0]) k j \<longleftrightarrow> holds_at nk rows k j" for j
        using False i by (auto simp: h) (auto simp: holds_at_def)
      have row: "rows[i := r0] ! j = rows ! j" if "holds_at nk rows k j" for j
        using that False i by (auto simp: holds_at_def nth_list_update)
      have "rows_map nk (rows[i := r0]) k = rows_map nk rows k"
        by (rule rows_map_same [OF u u' same row])
      with False show ?thesis by simp
    qed
  qed
qed

section \<open>Hash tables\<close>

lemma shard_id_less: "shard_id bits h < 2 ^ bits"
proof (cases "bits = 0")
  case False
  have "unat (take_bit bits w) < 2 ^ bits" for w :: "64 word"
    by (simp add: unsigned_take_bit_eq)
  then show ?thesis using False
    by (simp add: shard_id_def take_bit_eq_mask mask_eq_exp_minus_1)
qed (simp add: shard_id_def)

text \<open>
  Entries are in the shard of their hash, which is that of the key of a live row, and every
  live row has one entry.
\<close>

definition entry_ok :: "hash_fn \<Rightarrow> nat \<Rightarrow> nat \<Rightarrow> nat list list \<Rightarrow> nat \<Rightarrow> table_entry \<Rightarrow> bool" where
  "entry_ok hf nk bits rows s e \<longleftrightarrow> te_row e < length rows \<and> live (rows ! te_row e)
     \<and> te_hash e = hf (take nk (rows ! te_row e)) \<and> s = shard_id bits (te_hash e)"

definition hash_inv :: "hash_fn \<Rightarrow> nat \<Rightarrow> nat \<Rightarrow> nat list list \<Rightarrow> table_entry list list \<Rightarrow> bool" where
  "hash_inv hf nk bits rows shards \<longleftrightarrow> length shards = 2 ^ bits
     \<and> (\<forall>s < length shards. (\<forall>e \<in> set (shards ! s). entry_ok hf nk bits rows s e) \<and> distinct (map te_row (shards ! s)))
     \<and> (\<forall>i < length rows. live (rows ! i) \<longrightarrow> (\<exists>s < length shards. \<exists>e \<in> set (shards ! s). te_row e = i))"

lemma length_takeWhile_less: "x \<in> set xs \<Longrightarrow> \<not> P x \<Longrightarrow> length (takeWhile P xs) < length xs"
  by (induction xs) auto

lemma find_entry_total:
  assumes "\<And>e. e \<in> set es \<Longrightarrow> test e = Ok (p e)"
  shows "find_entry test es = Ok (if \<exists>e \<in> set es. p e then Some (length (takeWhile (\<lambda>e. \<not> p e) es)) else None)"
  using assms by (induction es) auto

lemma key_tests:
  assumes "rows_inv n r" "nk \<le> n" "i < length (row_list r)" "live (row_list r ! i)"
  shows "row_has_key r nk key i = Ok (take nk (row_list r ! i) = key)"
    "row_has_key_or_stale r nk key i = Ok (take nk (row_list r ! i) = key)"
  using assms rows_inv_arity [OF assms(1,3)]
  by (simp_all add: row_has_key_def row_has_key_or_stale_def rows_get_eq slice_o_def)

text \<open>Looking up a key finds the entry of its row, or nothing when there is no such row.\<close>

lemma get_entry_eq:
  assumes hash: "hash_inv hf nk bits rows shards" and u: "unique_keys nk rows" and row: "nk \<le> length row"
    and test: "\<And>i. i < length rows \<Longrightarrow> live (rows ! i) \<Longrightarrow> test i = Ok (take nk (rows ! i) = take nk row)"
  shows "(\<forall>i. \<not> holds_at nk rows (take nk row) i) \<and> get_entry hf row nk bits shards test = Ok None \<or>
    (\<exists>i s k. holds_at nk rows (take nk row) i \<and> get_entry hf row nk bits shards test = Ok (Some (s, k, i))
      \<and> s = shard_id bits (hf (take nk row)) \<and> k < length (shards ! s) \<and> te_row (shards ! s ! k) = i)"
proof -
  let ?key = "take nk row"
  let ?s = "shard_id bits (hf ?key)"
  let ?es = "shards ! ?s"
  let ?p = "\<lambda>e. take nk (rows ! te_row e) = ?key"
  have s: "?s < length shards" using hash shard_id_less by (simp add: hash_inv_def)
  have hc: "hash_code hf bits row nk = Ok (?s, hf ?key)" using row by (simp add: hash_code_def slice_o_def)
  have ok: "entry_ok hf nk bits rows ?s e" if "e \<in> set ?es" for e using hash s that by (auto simp: hash_inv_def)
  have "entry_test (hf ?key) test e = Ok (?p e)" if "e \<in> set ?es" for e
    using ok [OF that] test [of "te_row e"] by (auto simp: entry_test_def entry_ok_def)
  from find_entry_total [of ?es "entry_test (hf ?key) test" ?p, OF this]
  have find: "find_entry (entry_test (hf ?key) test) ?es =
      Ok (if \<exists>e \<in> set ?es. ?p e then Some (length (takeWhile (\<lambda>e. \<not> ?p e) ?es)) else None)" .
  show ?thesis
  proof (cases "\<exists>e \<in> set ?es. ?p e")
    case True
    let ?k = "length (takeWhile (\<lambda>e. \<not> ?p e) ?es)"
    have k: "?k < length ?es" using True
      by (auto intro: length_takeWhile_less)
    then have pk: "?p (?es ! ?k)" using nth_length_takeWhile [of "\<lambda>e. \<not> ?p e" ?es] by simp
    have "entry_ok hf nk bits rows ?s (?es ! ?k)" using ok k by simp
    with pk have "holds_at nk rows ?key (te_row (?es ! ?k))" by (simp add: entry_ok_def holds_at_def)
    moreover have "get_entry hf row nk bits shards test = Ok (Some (?s, ?k, te_row (?es ! ?k)))"
      using True s find by (simp add: get_entry_def hc)
    ultimately show ?thesis using k by blast
  next
    case False
    have "\<not> holds_at nk rows ?key i" for i
    proof
      assume i: "holds_at nk rows ?key i"
      then obtain s e where e: "s < length shards" "e \<in> set (shards ! s)" "te_row e = i"
        using hash by (auto simp: hash_inv_def holds_at_def)
      then have "entry_ok hf nk bits rows s e" using hash by (auto simp: hash_inv_def)
      with i e have "s = ?s" by (simp add: entry_ok_def holds_at_def)
      with e i False show False by (auto simp: holds_at_def)
    qed
    moreover have "get_entry hf row nk bits shards test = Ok None"
      using False s find by (simp add: get_entry_def hc)
    ultimately show ?thesis by blast
  qed
qed

end
