(* ===== verification/Sorted_Correct.thy ===== *)
theory Sorted_Correct
  imports Sorted_Rows
begin

text \<open>
  The invariant of sorted tables, and that inserting, removing and compacting keep it while they
  act on the map from keys to rows the way an association does.
\<close>

section \<open>Offsets of the sort column\<close>

text \<open>
  An offset gives the first row of a value of the sort column. The value of a live row is that of
  the last offset not after it.
\<close>

fun sort_ok :: "nat option \<Rightarrow> (nat \<times> nat) list \<Rightarrow> nat list list \<Rightarrow> bool" where
  "sort_ok None offs rows = True"
| "sort_ok (Some c) offs rows \<longleftrightarrow>
     sorted_wrt (<) (map fst offs) \<and> sorted_wrt (<) (map snd offs) \<and> (\<forall>p \<in> set offs. snd p < length rows)
     \<and> (\<forall>i < length rows. live (rows ! i) \<longrightarrow>
          (\<exists>p \<in> set offs. snd p \<le> i \<and> fst p = rows ! i ! c \<and> (\<forall>q \<in> set offs. snd q \<le> i \<longrightarrow> fst q \<le> fst p)))"

lemma sort_ok_stale:
  assumes "sort_ok c offs rows" "is_stale (r ! 0)"
  shows "sort_ok c offs (rows[i := r])"
proof (cases c)
  case (Some k)
  have same: "rows[i := r] ! j = rows ! j \<and> live (rows ! j)" if "j < length rows" "live (rows[i := r] ! j)" for j
    using that assms(2) by (cases "j = i") simp_all
  have "\<exists>p \<in> set offs. snd p \<le> j \<and> fst p = rows[i := r] ! j ! k \<and> (\<forall>q \<in> set offs. snd q \<le> j \<longrightarrow> fst q \<le> fst p)"
    if "j < length rows" "live (rows[i := r] ! j)" for j
    using same [OF that] that(1) assms(1) Some by simp
  then show ?thesis using assms(1) Some by simp
qed simp

lemma last_greatest:
  "sorted_wrt (<) (map fst (offs :: (nat \<times> nat) list)) \<Longrightarrow> offs \<noteq> [] \<Longrightarrow> q \<in> set offs \<Longrightarrow> fst q \<le> fst (last offs)"
  by (induction offs) (auto simp: less_imp_le)

lemma push_offset_ok:
  assumes ok: "sort_ok (Some c) offs rows" and v: "\<forall>q \<in> set offs. fst q \<le> v" and r: "r ! c = v"
  shows "\<exists>offs'. push_offset v (length rows) offs = Ok offs' \<and> sort_ok (Some c) offs' (rows @ [r])
    \<and> fst ` set offs' = insert v (fst ` set offs)"
proof -
  have old: "\<exists>p \<in> set offs. snd p \<le> i \<and> fst p = rows ! i ! c \<and> (\<forall>q \<in> set offs. snd q \<le> i \<longrightarrow> fst q \<le> fst p)"
    if "i < length rows" "live (rows ! i)" for i using ok that by simp
  have less: "\<forall>p \<in> set offs. snd p < length rows" and
    s: "sorted_wrt (<) (map fst offs)" "sorted_wrt (<) (map snd offs)" using ok by simp_all
  consider "offs = []" | "offs \<noteq> []" "fst (last offs) < v" | "offs \<noteq> []" "fst (last offs) = v"
  proof (cases "offs = []")
    case False
    then have "fst (last offs) \<le> v" using v by simp
    with False show ?thesis using that(2,3) by (auto simp: le_less)
  qed (use that in blast)
  then show ?thesis
  proof cases
    case 1
    then have "\<not> live (rows ! i)" if "i < length rows" for i using old that by auto
    then show ?thesis using 1 r by (auto simp: push_offset_def nth_append less_Suc_eq)
  next
    case 2
    have new: "\<forall>q \<in> set offs. fst q < v" using last_greatest [OF s(1) 2(1)] 2(2) by fastforce
    have "\<exists>p \<in> set (offs @ [(v, length rows)]). snd p \<le> i \<and> fst p = (rows @ [r]) ! i ! c
        \<and> (\<forall>q \<in> set (offs @ [(v, length rows)]). snd q \<le> i \<longrightarrow> fst q \<le> fst p)"
      if "i < length (rows @ [r])" "live ((rows @ [r]) ! i)" for i
    proof (cases "i = length rows")
      case True
      then show ?thesis using r new by (intro bexI [of _ "(v, length rows)"]) (auto simp: nth_append less_imp_le)
    next
      case False
      then have i: "i < length rows" "live (rows ! i)" using that by (auto simp: nth_append)
      from old [OF this] obtain p where p: "p \<in> set offs" "snd p \<le> i" "fst p = rows ! i ! c"
        "\<forall>q \<in> set offs. snd q \<le> i \<longrightarrow> fst q \<le> fst p" by blast
      then show ?thesis using i(1) by (intro bexI [of _ p]) (auto simp: nth_append)
    qed
    moreover have "push_offset v (length rows) offs = Ok (offs @ [(v, length rows)])"
      using 2 by (simp add: push_offset_def)
    ultimately show ?thesis using new less s by (auto simp: sorted_wrt_append less_SucI)
  next
    case 3
    have "\<exists>p \<in> set offs. snd p \<le> i \<and> fst p = (rows @ [r]) ! i ! c \<and> (\<forall>q \<in> set offs. snd q \<le> i \<longrightarrow> fst q \<le> fst p)"
      if "i < length (rows @ [r])" "live ((rows @ [r]) ! i)" for i
    proof (cases "i = length rows")
      case True
      then show ?thesis using 3 r v less last_in_set [OF 3(1)]
        by (intro bexI [of _ "last offs"]) (auto simp: nth_append less_imp_le)
    next
      case False
      then have i: "i < length rows" "live (rows ! i)" using that by (auto simp: nth_append)
      from old [OF this] i(1) show ?thesis by (simp add: nth_append)
    qed
    moreover have "insert v (fst ` set offs) = fst ` set offs" using 3 last_in_set [OF 3(1)] by force
    ultimately show ?thesis using 3 less s by (intro exI [of _ offs]) (auto simp: push_offset_def less_SucI)
  qed
qed

section \<open>Hash tables under updates\<close>

lemma entry_ok_append: "entry_ok hf nk bits rows s e \<Longrightarrow> entry_ok hf nk bits (rows @ [r]) s e"
  by (simp add: entry_ok_def nth_append)

lemma entry_ok_update:
  "entry_ok hf nk bits rows s e \<Longrightarrow> te_row e \<noteq> i \<Longrightarrow> entry_ok hf nk bits (rows[i := r]) s e"
  by (simp add: entry_ok_def)

lemma hash_inv_entry:
  "hash_inv hf nk bits rows shards \<Longrightarrow> s < length shards \<Longrightarrow> e \<in> set (shards ! s) \<Longrightarrow> entry_ok hf nk bits rows s e"
  by (simp add: hash_inv_def)

lemma hash_inv_row:
  "hash_inv hf nk bits rows shards \<Longrightarrow> i < length rows \<Longrightarrow> live (rows ! i) \<Longrightarrow>
    \<exists>s < length shards. \<exists>e \<in> set (shards ! s). te_row e = i"
  unfolding hash_inv_def by blast

text \<open>A row has a single entry.\<close>

lemma hash_inv_unique:
  assumes "hash_inv hf nk bits rows shards" "s < length shards" "k < length (shards ! s)"
    "s' < length shards" "k' < length (shards ! s')" "te_row (shards ! s' ! k') = te_row (shards ! s ! k)"
  shows "s' = s \<and> k' = k"
proof -
  have "entry_ok hf nk bits rows s (shards ! s ! k)" "entry_ok hf nk bits rows s' (shards ! s' ! k')"
    using assms by (simp_all add: hash_inv_def)
  then have s: "s' = s" using assms(6) unfolding entry_ok_def by metis
  have "distinct (map te_row (shards ! s))" using assms(1,2) by (simp add: hash_inv_def)
  then have "k' = k" using s assms nth_eq_iff_index_eq [of "map te_row (shards ! s)" k' k] by simp
  with s show ?thesis by simp
qed

lemma hash_inv_append:
  assumes inv: "hash_inv hf nk bits rows shards" and r: "live r"
  defines "h \<equiv> hf (take nk r)"
  defines "s \<equiv> shard_id bits h"
  shows "hash_inv hf nk bits (rows @ [r]) (shards[s := shards ! s @ [\<lparr>te_hash = h, te_row = length rows\<rparr>]])"
    (is "hash_inv hf nk bits ?rows ?shards")
proof -
  let ?e = "\<lparr>te_hash = h, te_row = length rows\<rparr>"
  have s: "s < length shards" using inv shard_id_less by (simp add: hash_inv_def s_def)
  have new: "entry_ok hf nk bits ?rows s ?e" using r by (simp add: entry_ok_def h_def s_def)
  have old: "entry_ok hf nk bits rows s' e" if "s' < length shards" "e \<in> set (shards ! s')" for s' e
    using inv that by (rule hash_inv_entry)
  have "\<forall>e \<in> set (?shards ! s'). entry_ok hf nk bits ?rows s' e" if "s' < length shards" for s'
    using that new old [OF that] s by (cases "s' = s") (auto intro: entry_ok_append)
  moreover have "distinct (map te_row (?shards ! s'))" if "s' < length shards" for s'
  proof -
    note s' = that
    have "distinct (map te_row (shards ! s'))" using inv that by (simp add: hash_inv_def)
    moreover have "te_row e < length rows" if e: "e \<in> set (shards ! s')" for e
      using old [OF s' e] by (simp add: entry_ok_def)
    then have "length rows \<notin> te_row ` set (shards ! s')" by (metis imageE less_irrefl)
    ultimately show ?thesis using that s by (cases "s' = s") auto
  qed
  moreover have "\<exists>s' < length shards. \<exists>e \<in> set (?shards ! s'). te_row e = i"
    if "i < length ?rows" "live (?rows ! i)" for i
  proof (cases "i = length rows")
    case True
    then show ?thesis using s by (intro exI [of _ s]) auto
  next
    case False
    then have "i < length rows" "live (rows ! i)" using that by (auto simp: nth_append)
    from hash_inv_row [OF inv this] obtain s' e where e: "s' < length shards" "e \<in> set (shards ! s')" "te_row e = i" by blast
    then show ?thesis using s by (intro exI [of _ s'] conjI bexI [of _ e]) (auto simp: nth_list_update)
  qed
  ultimately show ?thesis using inv by (simp add: hash_inv_def)
qed

text \<open>Both replacing and removing a row touch its only entry.\<close>

lemma hash_inv_replace:
  assumes inv: "hash_inv hf nk bits rows shards" and p: "s < length shards" "k < length (shards ! s)"
    and i: "te_row (shards ! s ! k) = i" and r: "live r" "take nk r = take nk (rows ! i)" and r0: "is_stale (r0 ! 0)"
  shows "hash_inv hf nk bits ((rows @ [r])[i := r0]) (point_entry (s, k) (length rows) shards)"
    (is "hash_inv hf nk bits ?rows ?shards")
proof -
  let ?es = "shards ! s"
  let ?e = "(?es ! k)\<lparr>te_row := length rows\<rparr>"
  have sh: "?shards = shards[s := ?es[k := ?e]]" by (simp add: point_entry_def Let_def)
  have ek: "entry_ok hf nk bits rows s (?es ! k)" using hash_inv_entry [OF inv p(1)] p(2) by simp
  then have il: "i < length rows" using i by (simp add: entry_ok_def)
  have "te_hash (?es ! k) = hf (take nk r)" "shard_id bits (te_hash (?es ! k)) = s"
    using ek i r(2) unfolding entry_ok_def by metis+
  then have new: "entry_ok hf nk bits ?rows s ?e" using r(1) il by (simp add: entry_ok_def)
  have other: "te_row (shards ! s' ! k') \<noteq> i" if "s' < length shards" "k' < length (shards ! s')" "s' \<noteq> s \<or> k' \<noteq> k" for s' k'
    using hash_inv_unique [OF inv p that(1,2)] that(3) i by auto
  have keep: "entry_ok hf nk bits ?rows s' (shards ! s' ! k')"
    if "s' < length shards" "k' < length (shards ! s')" "s' \<noteq> s \<or> k' \<noteq> k" for s' k'
    using hash_inv_entry [OF inv that(1)] other [OF that] that(2) by (intro entry_ok_update entry_ok_append) simp_all
  have "\<forall>e \<in> set (?shards ! s'). entry_ok hf nk bits ?rows s' e" if "s' < length shards" for s'
  proof (cases "s' = s")
    case True
    then show ?thesis using new keep p by (auto simp: sh in_set_conv_nth nth_list_update)
  next
    case False
    then show ?thesis using keep [OF that] by (auto simp: sh in_set_conv_nth)
  qed
  moreover have "distinct (map te_row (?shards ! s'))" if "s' < length shards" for s'
  proof (cases "s' = s")
    case True
    have "distinct (map te_row ?es)" using inv p(1) by (simp add: hash_inv_def)
    moreover have "te_row e < length rows" if e: "e \<in> set ?es" for e
      using hash_inv_entry [OF inv p(1) e] by (simp add: entry_ok_def)
    then have "length rows \<notin> set (map te_row ?es)" by (metis imageE less_irrefl set_map)
    ultimately show ?thesis using True p(1) by (auto simp: sh map_update intro: distinct_list_update)
  next
    case False
    then show ?thesis using inv that by (simp add: sh hash_inv_def)
  qed
  moreover have "\<exists>s' < length shards. \<exists>e \<in> set (?shards ! s'). te_row e = j"
    if j: "j < length ?rows" "live (?rows ! j)" for j
  proof (cases "j = length rows")
    case True
    have "?e \<in> set (?shards ! s)" using p by (auto simp: sh intro: set_update_memI)
    with True p(1) show ?thesis by (intro exI [of _ s] conjI bexI [of _ ?e]) simp_all
  next
    case False
    have "j \<noteq> i" using j r0 il by auto
    with False j have "j < length rows" "live (rows ! j)" by (auto simp: nth_append)
    from hash_inv_row [OF inv this] obtain s' k' where
      e: "s' < length shards" "k' < length (shards ! s')" "te_row (shards ! s' ! k') = j"
      by (auto simp: in_set_conv_nth)
    then have ne: "s' \<noteq> s \<or> k' \<noteq> k" using i \<open>j \<noteq> i\<close> by auto
    have "shards ! s' ! k' \<in> set (?shards ! s')"
    proof (cases "s' = s")
      case True
      then have "?shards ! s' ! k' = shards ! s' ! k'" "k' < length (?shards ! s')"
        using ne p(1) e(2) by (simp_all add: sh)
      then show ?thesis by (metis nth_mem)
    next
      case False
      then show ?thesis using e(2) by (simp add: sh)
    qed
    with e show ?thesis by blast
  qed
  ultimately show ?thesis using inv by (simp add: hash_inv_def sh)
qed

lemma hash_inv_remove:
  assumes inv: "hash_inv hf nk bits rows shards" and p: "s < length shards" "k < length (shards ! s)"
    and i: "te_row (shards ! s ! k) = i" and r0: "is_stale (r0 ! 0)"
  shows "hash_inv hf nk bits (rows[i := r0]) (shards[s := take k (shards ! s) @ drop (Suc k) (shards ! s)])"
    (is "hash_inv hf nk bits ?rows ?shards")
proof -
  let ?es = "shards ! s"
  let ?del = "take k ?es @ drop (Suc k) ?es"
  have es: "?es = take k ?es @ ?es ! k # drop (Suc k) ?es" using p(2) by (simp add: id_take_nth_drop)
  have d: "distinct (map te_row ?es)" using inv p(1) by (simp add: hash_inv_def)
  have "map te_row ?es = map te_row (take k ?es) @ i # map te_row (drop (Suc k) ?es)"
    by (subst es) (simp add: i)
  with d have del: "distinct (map te_row ?del)" "i \<notin> te_row ` set ?del" by (auto simp del: take_map drop_map)
  have sub: "set ?del \<subseteq> set ?es" by (auto dest: in_set_takeD in_set_dropD)
  have ek: "entry_ok hf nk bits rows s (?es ! k)" using hash_inv_entry [OF inv p(1)] p(2) by simp
  then have il: "i < length rows" using i by (simp add: entry_ok_def)
  have other: "te_row e \<noteq> i" if "s' < length shards" "e \<in> set (shards ! s')" "s' \<noteq> s" for s' e
  proof -
    have "entry_ok hf nk bits rows s' e" using inv that(1,2) by (rule hash_inv_entry)
    then show ?thesis using ek that(3) i by (auto simp: entry_ok_def)
  qed
  have "\<forall>e \<in> set (?shards ! s'). entry_ok hf nk bits ?rows s' e" if "s' < length shards" for s'
  proof (cases "s' = s")
    case True
    have "entry_ok hf nk bits ?rows s e" if "e \<in> set ?del" for e
      using hash_inv_entry [OF inv p(1)] sub del(2) that by (intro entry_ok_update) auto
    then show ?thesis using True p(1) by simp
  next
    case False
    have "entry_ok hf nk bits ?rows s' e" if "e \<in> set (shards ! s')" for e
      using hash_inv_entry [OF inv \<open>s' < length shards\<close> that] other [OF \<open>s' < length shards\<close> that False]
      by (rule entry_ok_update)
    then show ?thesis using False by simp
  qed
  moreover have "distinct (map te_row (?shards ! s'))" if "s' < length shards" for s'
    using that inv del(1) p(1) by (cases "s' = s") (simp_all add: hash_inv_def)
  moreover have "\<exists>s' < length shards. \<exists>e \<in> set (?shards ! s'). te_row e = j"
    if j: "j < length ?rows" "live (?rows ! j)" for j
  proof -
    have ne: "j \<noteq> i" using j r0 il by auto
    with j have "j < length rows" "live (rows ! j)" by auto
    from hash_inv_row [OF inv this] obtain s' e where
      e: "s' < length shards" "e \<in> set (shards ! s')" "te_row e = j" by blast
    have "e \<in> set (?shards ! s')"
    proof (cases "s' = s")
      case True
      have "e \<noteq> ?es ! k" using e(3) ne i by auto
      moreover have "set ?es = insert (?es ! k) (set ?del)" by (subst es) auto
      ultimately show ?thesis using e(2) True p(1) by auto
    next
      case False
      then show ?thesis using e(2) by simp
    qed
    with e show ?thesis by blast
  qed
  ultimately show ?thesis using inv by (simp add: hash_inv_def)
qed

section \<open>The invariant\<close>

abbreviation table_rows :: "sorted_table \<Rightarrow> nat list list" where
  "table_rows t \<equiv> row_list (st_rows t)"

definition table_inv :: "hash_fn \<Rightarrow> sorted_table \<Rightarrow> bool" where
  "table_inv hf t \<longleftrightarrow> rows_inv (st_columns t) (st_rows t) \<and> st_keys t \<le> st_columns t
     \<and> (\<forall>c. st_sort_by t = Some c \<longrightarrow> c < st_columns t)
     \<and> unique_keys (st_keys t) (table_rows t)
     \<and> hash_inv hf (st_keys t) (st_shard_bits t) (table_rows t) (st_shards t)
     \<and> sort_ok (st_sort_by t) (st_offsets t) (table_rows t)"

definition table_map :: "sorted_table \<Rightarrow> nat list \<rightharpoonup> nat list" where
  "table_map t = rows_map (st_keys t) (table_rows t)"

text \<open>
  While writes are applied the schema stays, and as long as the generation does, live rows stay where
  they are and new ones are appended.
\<close>

definition rows_extend :: "nat list list \<Rightarrow> nat list list \<Rightarrow> bool" where
  "rows_extend rows rows' \<longleftrightarrow> length rows \<le> length rows'
     \<and> (\<forall>i < length rows. live (rows' ! i) \<longrightarrow> rows' ! i = rows ! i)"

lemma rows_extend_refl [simp]: "rows_extend rows rows"
  by (simp add: rows_extend_def)

lemma rows_extend_append [simp]: "rows_extend rows (rows @ rows')"
  by (simp add: rows_extend_def nth_append)

lemma rows_extend_stale: "rows_extend rows rows' \<Longrightarrow> is_stale (r ! 0) \<Longrightarrow> rows_extend rows (rows'[i := r])"
  unfolding rows_extend_def by (metis length_list_update nth_list_update_eq nth_list_update_neq order_less_le_trans)

lemma rows_extend_trans: "rows_extend rows rows' \<Longrightarrow> rows_extend rows' rows'' \<Longrightarrow> rows_extend rows rows''"
  by (auto simp: rows_extend_def)

definition evolves :: "sorted_table \<Rightarrow> sorted_table \<Rightarrow> bool" where
  "evolves t t' \<longleftrightarrow> st_columns t' = st_columns t \<and> st_keys t' = st_keys t \<and> st_sort_by t' = st_sort_by t
     \<and> st_shard_bits t' = st_shard_bits t \<and> st_generation t \<le> st_generation t'
     \<and> (st_generation t' = st_generation t \<longrightarrow> rows_extend (table_rows t) (table_rows t'))"

lemma evolves_refl [simp]: "evolves t t"
  by (simp add: evolves_def)

lemma evolves_trans: "evolves t t' \<Longrightarrow> evolves t' t'' \<Longrightarrow> evolves t t''"
  using rows_extend_trans by (auto simp: evolves_def)

lemma table_inv_pending [simp]: "table_inv hf (t\<lparr>st_pending := p\<rparr>) = table_inv hf t"
  "table_map (t\<lparr>st_pending := p\<rparr>) = table_map t" "evolves t (t\<lparr>st_pending := p\<rparr>)"
  "evolves (t\<lparr>st_pending := p\<rparr>) t' = evolves t t'"
  by (simp_all add: table_inv_def table_map_def evolves_def)

text \<open>
  A merge function must return a row of the table with the same key, that is not marked stale, and
  with the new row's value in the sort column; this is what its callers build.
\<close>

definition merge_ok :: "sorted_table \<Rightarrow> 'x merge_fn \<Rightarrow> bool" where
  "merge_ok t m \<longleftrightarrow> (\<forall>x cur new x' r. m x cur new = (x', Some r) \<longrightarrow>
     length cur = st_columns t \<longrightarrow> length new = st_columns t \<longrightarrow> live cur \<longrightarrow> live new \<longrightarrow> take (st_keys t) cur = take (st_keys t) new \<longrightarrow>
     length r = st_columns t \<and> take (st_keys t) r = take (st_keys t) new \<and> live r
       \<and> (\<forall>c. st_sort_by t = Some c \<longrightarrow> r ! c = new ! c))"

lemma merge_ok_schema: "evolves t t' \<Longrightarrow> merge_ok t' m = merge_ok t m"
  by (simp add: merge_ok_def evolves_def)

text \<open>A row can be inserted when it is live and not before the sort values of the table.\<close>

definition query_ok :: "sorted_table \<Rightarrow> nat list \<Rightarrow> bool" where
  "query_ok t q \<longleftrightarrow> length q = st_columns t \<and> live q
     \<and> (\<forall>c. st_sort_by t = Some c \<longrightarrow> (\<forall>p \<in> set (st_offsets t). fst p \<le> q ! c))"

section \<open>Inserting a row\<close>

text \<open>On the map: insert, or let the merge function decide.\<close>

definition map_insert ::
    "'x merge_fn \<Rightarrow> nat \<Rightarrow> nat list \<Rightarrow> (nat list \<rightharpoonup> nat list) \<times> 'x \<Rightarrow> (nat list \<rightharpoonup> nat list) \<times> 'x" where
  "map_insert m nk q mx =
     (let (mp, x) = mx; key = take nk q in
      case mp key of
        None \<Rightarrow> (mp(key \<mapsto> q), x)
      | Some cur \<Rightarrow> (case m x cur q of (x', None) \<Rightarrow> (mp, x') | (x', Some r) \<Rightarrow> (mp(key \<mapsto> r), x')))"

text \<open>The sort values after an insertion.\<close>

definition offset_values :: "sorted_table \<Rightarrow> nat set" where
  "offset_values t = fst ` set (st_offsets t)"

lemma offsets_after_ok:
  assumes "sort_ok c offs rows" "\<forall>k. c = Some k \<longrightarrow> k < length q \<and> (\<forall>p \<in> set offs. fst p \<le> q ! k) \<and> r ! k = q ! k"
  shows "\<exists>offs'. offsets_after c q (length rows) offs = Ok offs' \<and> sort_ok c offs' (rows @ [r])
    \<and> fst ` set offs' \<subseteq> fst ` set offs \<union> {q ! k | k. c = Some k}"
proof (cases c)
  case (Some k)
  then obtain offs' where "push_offset (q ! k) (length rows) offs = Ok offs'"
    "sort_ok (Some k) offs' (rows @ [r])" "fst ` set offs' = insert (q ! k) (fst ` set offs)"
    using push_offset_ok [of k offs rows "q ! k" r] assms by auto
  then show ?thesis using Some assms(2) by (auto simp: offsets_after_def)
qed (simp add: offsets_after_def)

lemma insert_query_new:
  assumes inv: "table_inv hf t" and q: "query_ok t q" and size: "int (Suc (length (table_rows t))) < 2 ^ 32"
    and new: "table_map t (take (st_keys t) q) = None"
  shows "\<exists>t'. insert_query hf m q (t, x, ch) = Ok (t', x, True) \<and> table_inv hf t' \<and> evolves t t'
    \<and> table_map t' = (table_map t)(take (st_keys t) q \<mapsto> q) \<and> st_pending t' = st_pending t
    \<and> length (table_rows t') = Suc (length (table_rows t))
    \<and> offset_values t' \<subseteq> offset_values t \<union> {q ! c | c. st_sort_by t = Some c}"
proof -
  let ?nk = "st_keys t" and ?rows = "table_rows t" and ?bits = "st_shard_bits t"
  let ?key = "take ?nk q"
  have R: "rows_inv (st_columns t) (st_rows t)" and nk: "?nk \<le> st_columns t" and u: "unique_keys ?nk ?rows"
    and H: "hash_inv hf ?nk ?bits ?rows (st_shards t)" and S: "sort_ok (st_sort_by t) (st_offsets t) ?rows"
    and sc: "\<And>c. st_sort_by t = Some c \<Longrightarrow> c < st_columns t"
    using inv by (simp_all add: table_inv_def)
  have ql: "length q = st_columns t" "live q" using q by (simp_all add: query_ok_def)
  have none: "rows_map ?nk ?rows ?key = None" using new by (simp add: table_map_def)
  have key: "slice_o q 0 ?nk = Ok ?key" using ql nk by (simp add: slice_o_def)
  have "get_entry hf q ?nk ?bits (st_shards t) (row_has_key_or_stale (st_rows t) ?nk ?key) = Ok None"
    using get_entry_eq [OF H u, of q "row_has_key_or_stale (st_rows t) ?nk ?key"] key_tests(2) [OF R nk]
      ql nk none by (auto simp: rows_map_None)
  moreover obtain rs where rs: "rows_add (st_rows t) q = Ok (rs, length ?rows)" "rows_inv (st_columns t) rs"
    "row_list rs = ?rows @ [q]"
    using rows_add_eq [OF R ql(1) size] by blast
  moreover obtain offs where offs: "offsets_after (st_sort_by t) q (length ?rows) (st_offsets t) = Ok offs"
    "sort_ok (st_sort_by t) offs (?rows @ [q])"
    "fst ` set offs \<subseteq> offset_values t \<union> {q ! k | k. st_sort_by t = Some k}"
    using offsets_after_ok [OF S, of q q] q sc ql(1) by (auto simp: query_ok_def offset_values_def)
  moreover have s: "shard_id ?bits (hf ?key) < length (st_shards t)"
    using H shard_id_less by (simp add: hash_inv_def)
  moreover have "hash_code hf ?bits q ?nk = Ok (shard_id ?bits (hf ?key), hf ?key)"
    using key by (simp add: hash_code_def)
  ultimately have run: "insert_query hf m q (t, x, ch) = Ok (t\<lparr>st_rows := rs, st_offsets := offs,
      st_shards := (st_shards t)[shard_id ?bits (hf ?key) := st_shards t ! shard_id ?bits (hf ?key)
        @ [\<lparr>te_hash = hf ?key, te_row = length ?rows\<rparr>]]\<rparr>, x, True)"
    (is "_ = Ok (?t, x, True)")
    by (simp add: insert_query_def key)
  have "table_inv hf ?t"
    using rs nk sc offs(2) append_new_key(1) [OF u ql(2) none] hash_inv_append [OF H ql(2)]
    by (simp add: table_inv_def)
  moreover have "table_map ?t = (table_map t)(?key \<mapsto> q)"
    using rs(3) append_new_key(2) [OF u ql(2) none] by (simp add: table_map_def)
  moreover have "length (table_rows ?t) = Suc (length ?rows)" "rows_extend ?rows (row_list rs)" using rs(3) by simp_all
  ultimately show ?thesis using run offs(3)
    by (intro exI [of _ ?t]) (simp add: evolves_def offset_values_def [of ?t])
qed

text \<open>The row of a key that is in the table, and its entry.\<close>

lemma table_entry_of:
  assumes inv: "table_inv hf t" and q: "st_keys t \<le> length q"
    and test: "\<And>i. i < length (table_rows t) \<Longrightarrow> live (table_rows t ! i) \<Longrightarrow>
      test i = Ok (take (st_keys t) (table_rows t ! i) = take (st_keys t) q)"
    and cur: "table_map t (take (st_keys t) q) = Some cur"
  obtains i s k where "i < length (table_rows t)" "live (table_rows t ! i)" "table_rows t ! i = cur"
    "holds_at (st_keys t) (table_rows t) (take (st_keys t) q) i"
    "get_entry hf q (st_keys t) (st_shard_bits t) (st_shards t) test = Ok (Some (s, k, i))"
    "s = shard_id (st_shard_bits t) (hf (take (st_keys t) q))" "s < length (st_shards t)"
    "k < length (st_shards t ! s)" "te_row (st_shards t ! s ! k) = i"
proof -
  have u: "unique_keys (st_keys t) (table_rows t)"
    and H: "hash_inv hf (st_keys t) (st_shard_bits t) (table_rows t) (st_shards t)"
    using inv by (simp_all add: table_inv_def)
  obtain j where j: "holds_at (st_keys t) (table_rows t) (take (st_keys t) q) j" "table_rows t ! j = cur"
    using cur rows_map_Some [OF u] by (auto simp: table_map_def)
  from get_entry_eq [OF H u q test] j(1) obtain i s k where
    i: "holds_at (st_keys t) (table_rows t) (take (st_keys t) q) i"
      "get_entry hf q (st_keys t) (st_shard_bits t) (st_shards t) test = Ok (Some (s, k, i))"
      "s = shard_id (st_shard_bits t) (hf (take (st_keys t) q))"
      "k < length (st_shards t ! s)" "te_row (st_shards t ! s ! k) = i" by blast
  have "i = j" using u i(1) j(1) by (auto simp: unique_keys_def)
  moreover have "s < length (st_shards t)" using H i(3) shard_id_less by (simp add: hash_inv_def)
  ultimately show thesis using that i j by (auto simp: holds_at_def)
qed

lemma insert_query_merge:
  assumes inv: "table_inv hf t" and q: "query_ok t q" and size: "int (Suc (length (table_rows t))) < 2 ^ 32"
    and m: "merge_ok t m" and cur: "table_map t (take (st_keys t) q) = Some cur" and merged: "m x cur q = (x', Some r)"
  shows "\<exists>t'. insert_query hf m q (t, x, ch) = Ok (t', x', True) \<and> table_inv hf t' \<and> evolves t t'
    \<and> table_map t' = (table_map t)(take (st_keys t) q \<mapsto> r) \<and> st_pending t' = st_pending t
    \<and> length (table_rows t') = Suc (length (table_rows t))
    \<and> offset_values t' \<subseteq> offset_values t \<union> {q ! c | c. st_sort_by t = Some c}"
proof -
  let ?nk = "st_keys t" and ?rows = "table_rows t" and ?bits = "st_shard_bits t"
  let ?key = "take ?nk q"
  have R: "rows_inv (st_columns t) (st_rows t)" and nk: "?nk \<le> st_columns t" and u: "unique_keys ?nk ?rows"
    and H: "hash_inv hf ?nk ?bits ?rows (st_shards t)" and S: "sort_ok (st_sort_by t) (st_offsets t) ?rows"
    and sc: "\<And>c. st_sort_by t = Some c \<Longrightarrow> c < st_columns t"
    using inv by (simp_all add: table_inv_def)
  have ql: "length q = st_columns t" and lq: "live q" using q by (simp_all add: query_ok_def)
  have key: "slice_o q 0 ?nk = Ok ?key" and nkq: "?nk \<le> length q" using ql nk by (simp_all add: slice_o_def)
  have test: "row_has_key_or_stale (st_rows t) ?nk ?key i = Ok (take ?nk (?rows ! i) = ?key)"
    if "i < length ?rows" "live (?rows ! i)" for i using key_tests(2) [OF R nk that] .
  obtain i s k where i: "i < length ?rows" "live (?rows ! i)" "?rows ! i = cur" "holds_at ?nk ?rows ?key i"
    "get_entry hf q ?nk ?bits (st_shards t) (row_has_key_or_stale (st_rows t) ?nk ?key) = Ok (Some (s, k, i))"
    "s < length (st_shards t)" "k < length (st_shards t ! s)" "te_row (st_shards t ! s ! k) = i"
    using table_entry_of [OF inv _ test cur] nkq by blast
  have lcur: "live cur" using i(2,3) by simp
  have "length cur = st_columns t" using rows_inv_arity [OF R i(1)] i(3) by simp
  moreover have "take ?nk cur = ?key" using i(3,4) by (simp add: holds_at_def)
  ultimately have r: "length r = st_columns t" "take ?nk r = ?key" "live r" "\<And>c. st_sort_by t = Some c \<Longrightarrow> r ! c = q ! c"
    using m merged ql lq lcur unfolding merge_ok_def by blast+
  obtain rs where rs: "rows_add (st_rows t) r = Ok (rs, length ?rows)" "rows_inv (st_columns t) rs" "row_list rs = ?rows @ [r]"
    using rows_add_eq [OF R r(1) size] by blast
  have il: "i < length (row_list rs)" "live (row_list rs ! i)" "row_list rs ! i = cur"
    using i by (simp_all add: rs(3) nth_append)
  let ?r0 = "stale_value # tl cur"
  from rows_set_stale_eq [OF rs(2) il(1,2)] obtain rs1 where
    "rows_set_stale rs i = Ok rs1" "rows_inv (st_columns t) rs1"
    "row_list rs1 = (row_list rs)[i := stale_value # tl (row_list rs ! i)]" by blast
  then have rs1: "rows_set_stale rs i = Ok rs1" "rows_inv (st_columns t) rs1" "row_list rs1 = (?rows @ [r])[i := ?r0]"
    by (simp_all only: il(3)) (simp only: rs(3))
  obtain offs where offs: "offsets_after (st_sort_by t) q (length ?rows) (st_offsets t) = Ok offs"
    "sort_ok (st_sort_by t) offs (?rows @ [r])"
    "fst ` set offs \<subseteq> offset_values t \<union> {q ! k | k. st_sort_by t = Some k}"
    using offsets_after_ok [OF S, of q r] q r(4) sc ql by (auto simp: query_ok_def offset_values_def)
  have get: "rows_get (st_rows t) i = Ok (Some cur)" using rows_get_eq [OF R, of i] i by simp
  let ?t = "t\<lparr>st_rows := rs1, st_offsets := offs, st_shards := point_entry (s, k) (length ?rows) (st_shards t)\<rparr>"
  have run: "insert_query hf m q (t, x, ch) = Ok (?t, x', True)"
    using i(5) get rs(1) rs1(1) offs(1) by (simp add: insert_query_def key merged)
  have st0: "is_stale (?r0 ! 0)" by simp
  have h: "holds_at ?nk ?rows (take ?nk r) i" using i(4) r(2) by simp
  have "take ?nk r = take ?nk (?rows ! i)" using h by (simp add: holds_at_def)
  from hash_inv_replace [OF H i(6,7,8) r(3) this st0]
  have "table_inv hf ?t"
    using rs1 nk sc sort_ok_stale [OF offs(2) st0] replace_key(1) [OF u h r(3) st0]
    by (simp add: table_inv_def)
  moreover have "table_map ?t = (table_map t)(?key \<mapsto> r)"
    using replace_key(2) [OF u h r(3) st0] rs1(3) r(2) by (simp add: table_map_def)
  moreover have "length (table_rows ?t) = Suc (length ?rows)" "rows_extend ?rows (row_list rs1)"
    using rs1(3) rows_extend_stale [OF rows_extend_append st0] by simp_all
  ultimately show ?thesis using run offs(3)
    by (intro exI [of _ ?t]) (simp add: evolves_def offset_values_def [of ?t])
qed

lemma insert_query_kept:
  assumes inv: "table_inv hf t" and q: "query_ok t q"
    and cur: "table_map t (take (st_keys t) q) = Some cur" and merged: "m x cur q = (x', None)"
  shows "insert_query hf m q (t, x, ch) = Ok (t, x', ch)"
proof -
  let ?nk = "st_keys t" and ?rows = "table_rows t"
  let ?key = "take ?nk q"
  have R: "rows_inv (st_columns t) (st_rows t)" and nk: "?nk \<le> st_columns t" using inv by (simp_all add: table_inv_def)
  have ql: "length q = st_columns t" using q by (simp add: query_ok_def)
  have key: "slice_o q 0 ?nk = Ok ?key" and nkq: "?nk \<le> length q" using ql nk by (simp_all add: slice_o_def)
  have test: "row_has_key_or_stale (st_rows t) ?nk ?key i = Ok (take ?nk (?rows ! i) = ?key)"
    if "i < length ?rows" "live (?rows ! i)" for i using key_tests(2) [OF R nk that] .
  obtain i s k where i: "i < length ?rows" "live (?rows ! i)" "?rows ! i = cur"
    "get_entry hf q ?nk (st_shard_bits t) (st_shards t) (row_has_key_or_stale (st_rows t) ?nk ?key) = Ok (Some (s, k, i))"
    using table_entry_of [OF inv _ test cur] nkq by blast
  moreover have "rows_get (st_rows t) i = Ok (Some cur)" using rows_get_eq [OF R, of i] i by simp
  ultimately show ?thesis by (simp add: insert_query_def key merged)
qed

text \<open>One insertion refines an insertion into the map.\<close>

lemma insert_query_refines:
  assumes inv: "table_inv hf t" and q: "query_ok t q" and size: "int (Suc (length (table_rows t))) < 2 ^ 32"
    and m: "merge_ok t m"
  shows "\<exists>t' x' ch'. insert_query hf m q (t, x, ch) = Ok (t', x', ch') \<and> table_inv hf t' \<and> evolves t t'
    \<and> (table_map t', x') = map_insert m (st_keys t) q (table_map t, x) \<and> st_pending t' = st_pending t
    \<and> length (table_rows t') \<le> Suc (length (table_rows t))
    \<and> offset_values t' \<subseteq> offset_values t \<union> {q ! c | c. st_sort_by t = Some c}"
proof (cases "table_map t (take (st_keys t) q)")
  case None
  from insert_query_new [OF inv q size None, of m x ch] show ?thesis by (auto simp: map_insert_def None)
next
  case (Some cur)
  obtain x' r where r: "m x cur q = (x', r)" by force
  show ?thesis
  proof (cases r)
    case None
    with insert_query_kept [OF inv q Some, of m x x' ch] r inv show ?thesis
      by (auto simp: map_insert_def Some)
  next
    case (Some row)
    with r have "m x cur q = (x', Some row)" by simp
    from insert_query_merge [OF inv q size m \<open>table_map t (take (st_keys t) q) = Some cur\<close> this, of ch]
    show ?thesis using \<open>table_map t (take (st_keys t) q) = Some cur\<close> r Some by (auto simp: map_insert_def)
  qed
qed

text \<open>Many insertions, whose sort values all are the same and not before those of the table.\<close>

definition queries_ok :: "sorted_table \<Rightarrow> nat list list \<Rightarrow> bool" where
  "queries_ok t qs \<longleftrightarrow> (\<forall>q \<in> set qs. query_ok t q) \<and> (\<forall>c. st_sort_by t = Some c \<longrightarrow> (\<forall>q \<in> set qs. \<forall>q' \<in> set qs. q ! c = q' ! c))"

lemma queries_ok_after:
  assumes "queries_ok t (q # qs)" "evolves t t'" "offset_values t' \<subseteq> offset_values t \<union> {q ! c | c. st_sort_by t = Some c}"
  shows "queries_ok t' qs"
proof -
  have "fst p \<le> q' ! c" if q': "q' \<in> set qs" and c: "st_sort_by t = Some c" and p: "p \<in> set (st_offsets t')" for q' c p
  proof -
    have "fst p \<in> offset_values t \<or> fst p = q ! c" using assms(3) p c by (fastforce simp: offset_values_def)
    moreover have "q ! c = q' ! c"
      using assms(1) q' c unfolding queries_ok_def by (meson list.set_intros)
    moreover have "query_ok t q'" using assms(1) q' by (simp add: queries_ok_def)
    then have "\<forall>v \<in> offset_values t. v \<le> q' ! c" using c by (auto simp: query_ok_def offset_values_def)
    ultimately show ?thesis by auto
  qed
  moreover have "query_ok t q'" if "q' \<in> set qs" for q' using assms(1) that by (simp add: queries_ok_def)
  ultimately have "\<forall>q' \<in> set qs. query_ok t' q'" using assms(2) by (simp add: query_ok_def evolves_def)
  moreover have "\<forall>c. st_sort_by t' = Some c \<longrightarrow> (\<forall>q \<in> set qs. \<forall>q' \<in> set qs. q ! c = q' ! c)"
    using assms(1,2) unfolding queries_ok_def evolves_def by (metis list.set_intros(2))
  ultimately show ?thesis by (simp only: queries_ok_def)
qed

lemma insert_queries_refine:
  assumes "table_inv hf t" "queries_ok t qs" "int (length qs + length (table_rows t)) < 2 ^ 32" "merge_ok t m"
  shows "\<exists>t' x' ch'. fold_out (insert_query hf m) qs (t, x, ch) = Ok (t', x', ch') \<and> table_inv hf t' \<and> evolves t t'
    \<and> (table_map t', x') = fold (map_insert m (st_keys t)) qs (table_map t, x) \<and> st_pending t' = st_pending t
    \<and> length (table_rows t') \<le> length qs + length (table_rows t)
    \<and> offset_values t' \<subseteq> offset_values t \<union> {q ! c | q c. q \<in> set qs \<and> st_sort_by t = Some c}"
  using assms
proof (induction qs arbitrary: t x ch)
  case Nil
  then show ?case by simp
next
  case (Cons q qs)
  have "query_ok t q" "int (Suc (length (table_rows t))) < 2 ^ 32" using Cons.prems(2,3) by (simp_all add: queries_ok_def)
  from insert_query_refines [OF Cons.prems(1) this Cons.prems(4), of x ch] obtain t1 x1 ch1 where
    1: "insert_query hf m q (t, x, ch) = Ok (t1, x1, ch1)" "table_inv hf t1" "evolves t t1"
      "(table_map t1, x1) = map_insert m (st_keys t) q (table_map t, x)" "st_pending t1 = st_pending t"
      "length (table_rows t1) \<le> Suc (length (table_rows t))"
      "offset_values t1 \<subseteq> offset_values t \<union> {q ! c | c. st_sort_by t = Some c}" by blast
  have k: "st_keys t1 = st_keys t" "st_sort_by t1 = st_sort_by t" using 1(3) by (simp_all add: evolves_def)
  have "int (length qs + length (table_rows t1)) < 2 ^ 32" using Cons.prems(3) 1(6) by simp
  from Cons.IH [OF 1(2) queries_ok_after [OF Cons.prems(2) 1(3,7)] this merge_ok_schema [OF 1(3), THEN iffD2, OF Cons.prems(4)], of x1 ch1]
  obtain t2 x2 ch2 where
    2: "fold_out (insert_query hf m) qs (t1, x1, ch1) = Ok (t2, x2, ch2)" "table_inv hf t2" "evolves t1 t2"
      "(table_map t2, x2) = fold (map_insert m (st_keys t1)) qs (table_map t1, x1)" "st_pending t2 = st_pending t1"
      "length (table_rows t2) \<le> length qs + length (table_rows t1)"
      "offset_values t2 \<subseteq> offset_values t1 \<union> {q ! c | q c. q \<in> set qs \<and> st_sort_by t1 = Some c}" by blast
  have "offset_values t2 \<subseteq> offset_values t \<union> {q' ! c | q' c. q' \<in> set (q # qs) \<and> st_sort_by t = Some c}"
    using 2(7) 1(7) unfolding k by fastforce
  moreover have "evolves t t2" using evolves_trans 1(3) 2(3) by blast
  moreover have "length (table_rows t2) \<le> length (q # qs) + length (table_rows t)" using 1(6) 2(6) by simp
  moreover have "(table_map t2, x2) = fold (map_insert m (st_keys t)) (q # qs) (table_map t, x)"
    using 2(4) 1(4) [symmetric] k by simp
  moreover have "fold_out (insert_query hf m) (q # qs) (t, x, ch) = Ok (t2, x2, ch2)" using 1(1) 2(1) by simp
  moreover have "st_pending t2 = st_pending t" using 1(5) 2(5) by simp
  ultimately show ?case using 2(2) by blast
qed

end
