(* ===== verification/Sorted_Rehash.thy ===== *)
theory Sorted_Rehash
  imports Sorted_Correct
begin

text \<open>
  Removing rows, and compaction: after it the live rows are the whole table in their order, the
  entries point to their new places and the offsets are those of the shorter table.
\<close>

section \<open>Removing\<close>

lemma get_entry_found:
  assumes "get_entry hf row nk bits shards test = Ok r" "hash_code hf bits row nk = Ok (s, h)" "s < length shards"
  shows "find_entry (entry_test h test) (shards ! s) = Ok (map_option (\<lambda>(_, k, _). k) r)"
proof -
  obtain f where "find_entry (entry_test h test) (shards ! s) = Ok f"
    "r = map_option (\<lambda>k. (s, k, te_row (shards ! s ! k))) f"
    using assms by (auto simp: get_entry_def bind_o_eq_Ok)
  then show ?thesis by (cases f) simp_all
qed

lemma delete_key_refines:
  assumes inv: "table_inv hf t" and key: "length key = st_keys t" "shard_id (st_shard_bits t) (hf key) = s"
  shows "\<exists>t' ch'. delete_key hf s key (t, ch) = Ok (t', ch') \<and> table_inv hf t' \<and> evolves t t'
    \<and> table_map t' = (table_map t)(key := None) \<and> st_pending t' = st_pending t
    \<and> length (table_rows t') = length (table_rows t) \<and> st_offsets t' = st_offsets t"
proof -
  let ?nk = "st_keys t" and ?rows = "table_rows t" and ?bits = "st_shard_bits t"
  let ?test = "row_has_key (st_rows t) ?nk key"
  have R: "rows_inv (st_columns t) (st_rows t)" and nk: "?nk \<le> st_columns t" and u: "unique_keys ?nk ?rows"
    and H: "hash_inv hf ?nk ?bits ?rows (st_shards t)" and S: "sort_ok (st_sort_by t) (st_offsets t) ?rows"
    using inv by (simp_all add: table_inv_def)
  have hc: "hash_code hf ?bits key ?nk = Ok (s, hf key)" using key by (simp add: hash_code_def slice_o_def)
  have s: "s < length (st_shards t)" using H shard_id_less key(2) by (auto simp: hash_inv_def)
  have test: "?test i = Ok (take ?nk (?rows ! i) = take ?nk key)" if "i < length ?rows" "live (?rows ! i)" for i
    using key_tests(1) [OF R nk that] key(1) by simp
  show ?thesis
  proof (cases "table_map t key")
    case None
    then have "\<forall>i. \<not> holds_at ?nk ?rows (take ?nk key) i" using key(1) by (simp add: table_map_def rows_map_None)
    with get_entry_eq [OF H u _ test] key(1) have "get_entry hf key ?nk ?bits (st_shards t) ?test = Ok None" by auto
    from get_entry_found [OF this hc s] have "delete_key hf s key (t, ch) = Ok (t, ch)"
      using s by (simp add: delete_key_def hc)
    moreover have "(table_map t)(key := None) = table_map t" using None by (simp add: fun_upd_idem)
    ultimately show ?thesis using inv by simp
  next
    case (Some cur)
    then have "table_map t (take ?nk key) = Some cur" and le: "?nk \<le> length key" using key(1) by simp_all
    note cur = this(1)
    obtain i s' k where
      i: "i < length ?rows" "live (?rows ! i)" "?rows ! i = cur" "holds_at ?nk ?rows (take ?nk key) i"
        "get_entry hf key ?nk ?bits (st_shards t) ?test = Ok (Some (s', k, i))"
        "s' = shard_id ?bits (hf (take ?nk key))" "s' < length (st_shards t)"
        "k < length (st_shards t ! s')" "te_row (st_shards t ! s' ! k) = i"
      using table_entry_of [OF inv _ test cur] le by blast
    have s': "s' = s" using i(6) key by simp
    have h: "holds_at ?nk ?rows key i" using i(4) key(1) by simp
    from get_entry_found [OF i(5) hc s]
    have find: "find_entry (entry_test (hf key) ?test) (st_shards t ! s) = Ok (Some k)" by simp
    let ?r0 = "stale_value # tl (?rows ! i)"
    from rows_set_stale_eq [OF R i(1,2)] obtain rs where
      rs: "rows_set_stale (st_rows t) i = Ok rs" "rows_inv (st_columns t) rs" "row_list rs = ?rows[i := ?r0]" by blast
    let ?t = "t\<lparr>st_rows := rs, st_shards := (st_shards t)[s := take k (st_shards t ! s) @ drop (Suc k) (st_shards t ! s)]\<rparr>"
    have st0: "is_stale (?r0 ! 0)" by simp
    have run: "delete_key hf s key (t, ch) = Ok (?t, True)"
      using s find rs(1) i(9) by (simp add: delete_key_def hc s')
    have k: "k < length (st_shards t ! s)" "te_row (st_shards t ! s ! k) = i" using i(8,9) s' by simp_all
    have "table_inv hf ?t"
      using rs nk inv sort_ok_stale [OF S st0] remove_key(1) [OF u h st0] hash_inv_remove [OF H s k st0]
      by (simp add: table_inv_def)
    moreover have "table_map ?t = (table_map t)(key := None)"
      using rs(3) remove_key(2) [OF u h st0] by (simp add: table_map_def)
    moreover have "length (table_rows ?t) = length ?rows" "rows_extend ?rows (row_list rs)"
      using rs(3) rows_extend_stale [OF rows_extend_refl st0] by simp_all
    ultimately show ?thesis using run by (intro exI [of _ ?t] exI [of _ True]) (simp add: evolves_def)
  qed
qed

lemma delete_keys_refine:
  assumes "table_inv hf t" "\<forall>key \<in> set keys. length key = st_keys t \<and> shard_id (st_shard_bits t) (hf key) = s"
  shows "\<exists>t' ch'. fold_out (delete_key hf s) keys (t, ch) = Ok (t', ch') \<and> table_inv hf t' \<and> evolves t t'
    \<and> table_map t' = fold (\<lambda>key mp. mp(key := None)) keys (table_map t) \<and> st_pending t' = st_pending t
    \<and> length (table_rows t') = length (table_rows t) \<and> st_offsets t' = st_offsets t"
  using assms
proof (induction keys arbitrary: t ch)
  case Nil
  then show ?case by simp
next
  case (Cons key keys)
  from delete_key_refines [OF Cons.prems(1), of key s ch] Cons.prems(2) obtain t1 ch1 where
    1: "delete_key hf s key (t, ch) = Ok (t1, ch1)" "table_inv hf t1" "evolves t t1"
      "table_map t1 = (table_map t)(key := None)" "st_pending t1 = st_pending t"
      "length (table_rows t1) = length (table_rows t)" "st_offsets t1 = st_offsets t" by auto
  have "\<forall>key \<in> set keys. length key = st_keys t1 \<and> shard_id (st_shard_bits t1) (hf key) = s"
    using Cons.prems(2) 1(3) by (simp add: evolves_def)
  from Cons.IH [OF 1(2) this, of ch1] obtain t2 ch2 where
    2: "fold_out (delete_key hf s) keys (t1, ch1) = Ok (t2, ch2)" "table_inv hf t2" "evolves t1 t2"
      "table_map t2 = fold (\<lambda>key mp. mp(key := None)) keys (table_map t1)" "st_pending t2 = st_pending t1"
      "length (table_rows t2) = length (table_rows t1)" "st_offsets t2 = st_offsets t1" by blast
  have "evolves t t2" using evolves_trans 1(3) 2(3) by blast
  moreover have "fold_out (delete_key hf s) (key # keys) (t, ch) = Ok (t2, ch2)" using 1(1) 2(1) by simp
  moreover have "table_map t2 = fold (\<lambda>key mp. mp(key := None)) (key # keys) (table_map t)"
    unfolding 2(4) 1(4) by (simp only: fold_simps)
  moreover have "st_pending t2 = st_pending t" "length (table_rows t2) = length (table_rows t)" "st_offsets t2 = st_offsets t"
    using 1(5-7) 2(5-7) by simp_all
  ultimately show ?case using 2(2) by blast
qed

section \<open>Places of kept rows\<close>

definition new_index :: "nat list list \<Rightarrow> nat \<Rightarrow> nat" where
  "new_index rows j = length (live_rows (take j rows))"

lemma new_index_le: "new_index rows j \<le> j"
  unfolding new_index_def by (rule order_trans [OF length_filter_le]) simp

lemma new_index_nth:
  assumes "j < length rows" "live (rows ! j)"
  shows "new_index rows j < length (live_rows rows)" "live_rows rows ! new_index rows j = rows ! j"
proof -
  have "rows = take j rows @ rows ! j # drop (Suc j) rows" using assms(1) by (simp add: id_take_nth_drop)
  then have "live_rows rows = live_rows (take j rows) @ rows ! j # live_rows (drop (Suc j) rows)"
    using assms(2) by (metis (no_types, lifting) filter.simps(2) filter_append)
  then show "new_index rows j < length (live_rows rows)" "live_rows rows ! new_index rows j = rows ! j"
    by (simp_all add: new_index_def)
qed

lemma new_index_Suc:
  "j < length rows \<Longrightarrow> new_index rows (Suc j) = (if live (rows ! j) then Suc (new_index rows j) else new_index rows j)"
  by (simp add: new_index_def take_Suc_conv_app_nth)

lemma new_index_mono: "i \<le> j \<Longrightarrow> j \<le> length rows \<Longrightarrow> new_index rows i \<le> new_index rows j"
proof (induction j rule: dec_induct)
  case (step j)
  then show ?case by (simp add: new_index_Suc)
qed simp

lemma new_index_inj:
  assumes "i < length rows" "j < length rows" "live (rows ! i)" "live (rows ! j)" "new_index rows i = new_index rows j"
  shows "i = j"
proof (rule ccontr)
  have strict: "new_index rows a < new_index rows b" if "a < b" "b < length rows" "live (rows ! a)" for a b
    using new_index_mono [of "Suc a" b rows] that by (simp add: new_index_Suc)
  assume "i \<noteq> j"
  with assms strict show False by (metis less_irrefl nat_neq_iff)
qed

lemma new_index_onto:
  "i < length (live_rows rows) \<Longrightarrow> \<exists>j < length rows. live (rows ! j) \<and> new_index rows j = i"
proof (induction rows rule: rev_induct)
  case (snoc r rows)
  have ix: "new_index (rows @ [r]) j = new_index rows j" if "j \<le> length rows" for j
    using that by (simp add: new_index_def)
  show ?case
  proof (cases "i < length (live_rows rows)")
    case True
    from snoc.IH [OF this] obtain j where "j < length rows" "live (rows ! j)" "new_index rows j = i" by blast
    then show ?thesis using ix by (intro exI [of _ j]) (simp add: nth_append)
  next
    case False
    with snoc.prems have "live r" "i = length (live_rows rows)" by (auto split: if_splits)
    then show ?thesis using ix [of "length rows"] by (intro exI [of _ "length rows"]) (simp add: new_index_def)
  qed
qed simp

section \<open>Redirecting entries\<close>

definition redirect :: "nat list list \<Rightarrow> nat \<Rightarrow> table_entry \<Rightarrow> table_entry" where
  "redirect rows n e = (if te_row e < n then e\<lparr>te_row := new_index rows (te_row e)\<rparr> else e)"

definition redirect_all :: "nat list list \<Rightarrow> nat \<Rightarrow> table_entry list list \<Rightarrow> table_entry list list" where
  "redirect_all rows n shards = map (map (redirect rows n)) shards"

lemma redirect_hash [simp]: "te_hash (redirect rows n e) = te_hash e"
  by (simp add: redirect_def)

lemma redirect_at: "te_row (redirect rows n e) = n \<longleftrightarrow> te_row e = n"
  using new_index_le [of rows "te_row e"] by (auto simp: redirect_def)

lemma redirect_zero: "redirect_all rows 0 shards = shards"
proof -
  have "redirect rows 0 = (\<lambda>e. e)" by (simp add: redirect_def fun_eq_iff)
  then show ?thesis by (simp add: redirect_all_def)
qed

lemma redirect_Suc_other: "te_row e \<noteq> n \<Longrightarrow> redirect rows (Suc n) e = redirect rows n e"
  by (simp add: redirect_def less_Suc_eq)

lemma redirect_skip:
  assumes "hash_inv hf nk bits rows shards" "\<not> live (rows ! n)"
  shows "redirect_all rows (Suc n) shards = redirect_all rows n shards"
proof -
  have "redirect rows (Suc n) e = redirect rows n e" if "es \<in> set shards" "e \<in> set es" for es e
  proof (rule redirect_Suc_other)
    from that(1) obtain s where "s < length shards" "shards ! s = es" by (meson in_set_conv_nth)
    then have "entry_ok hf nk bits rows s e" using assms(1) that(2) by (simp add: hash_inv_entry)
    then show "te_row e \<noteq> n" using assms(2) by (auto simp: entry_ok_def)
  qed
  then show ?thesis by (simp add: redirect_all_def)
qed

lemma remap_entry_eq:
  assumes H: "hash_inv hf nk bits rows shards" and n: "n < length rows" "live (rows ! n)" "nk \<le> length (rows ! n)"
  shows "remap_entry hf nk bits (rows ! n) n (new_index rows n) (redirect_all rows n shards)
    = Ok (redirect_all rows (Suc n) shards)"
proof -
  let ?key = "take nk (rows ! n)"
  let ?s = "shard_id bits (hf ?key)"
  let ?es = "shards ! ?s"
  let ?p = "\<lambda>e. te_hash e = hf ?key \<and> te_row e = n"
  have hc: "hash_code hf bits (rows ! n) nk = Ok (?s, hf ?key)" using n(3) by (simp add: hash_code_def slice_o_def)
  obtain s k where sk: "s < length shards" "k < length (shards ! s)" "te_row (shards ! s ! k) = n"
    using hash_inv_row [OF H n(1,2)] by (auto simp: in_set_conv_nth)
  then have "entry_ok hf nk bits rows s (shards ! s ! k)" using hash_inv_entry [OF H sk(1)] by simp
  then have hash: "te_hash (shards ! s ! k) = hf ?key" and s: "s = ?s"
    using sk(3) unfolding entry_ok_def by metis+
  have only: "te_row (shards ! s' ! k') \<noteq> n" if "s' < length shards" "k' < length (shards ! s')" "s' \<noteq> s \<or> k' \<noteq> k" for s' k'
    using hash_inv_unique [OF H sk(1,2) that(1,2)] that(3) sk(3) by auto
  let ?red = "redirect_all rows n shards"
  have red: "?red ! s = map (redirect rows n) (shards ! s)" using sk(1) by (simp add: redirect_all_def)
  have "find_entry (entry_test (hf ?key) (\<lambda>i. Ok (i = n))) (?red ! s)
      = Ok (if \<exists>e \<in> set (?red ! s). ?p e then Some (length (takeWhile (\<lambda>e. \<not> ?p e) (?red ! s))) else None)"
    by (intro find_entry_total) (simp add: entry_test_def)
  moreover have "?p (redirect rows n (shards ! s ! k))" using hash sk(3) by (simp add: redirect_at)
  then have "\<exists>e \<in> set (?red ! s). ?p e" using sk(2) by (auto simp: red)
  moreover have "length (takeWhile (\<lambda>e. \<not> ?p e) (?red ! s)) = k"
  proof -
    have "\<not> ?p (?red ! s ! k')" if "k' < k" for k'
      using only [OF sk(1), of k'] that sk(2) by (simp add: red redirect_at)
    moreover have "?p (?red ! s ! k)" using hash sk(2,3) by (simp add: red redirect_at)
    ultimately show ?thesis using sk(2)
      by (subst takeWhile_eq_take_P_nth [of k]) (auto simp: red)
  qed
  ultimately have get: "get_entry hf (rows ! n) nk bits ?red (\<lambda>i. Ok (i = n)) = Ok (Some (s, k, te_row (?red ! s ! k)))"
    using sk(1) s by (simp add: get_entry_def hc redirect_all_def)
  have "point_entry (s, k) (new_index rows n) ?red = redirect_all rows (Suc n) shards"
  proof (rule nth_equalityI)
    show "length (point_entry (s, k) (new_index rows n) ?red) = length (redirect_all rows (Suc n) shards)"
      by (simp add: point_entry_def Let_def redirect_all_def)
    fix s' assume "s' < length (point_entry (s, k) (new_index rows n) ?red)"
    then have s': "s' < length shards" by (simp add: point_entry_def Let_def redirect_all_def)
    show "point_entry (s, k) (new_index rows n) ?red ! s' = redirect_all rows (Suc n) shards ! s'"
    proof (cases "s' = s")
      case True
      have "(?red ! s)[k := (?red ! s ! k)\<lparr>te_row := new_index rows n\<rparr>] = map (redirect rows (Suc n)) (shards ! s)"
      proof (rule nth_equalityI)
        fix k' assume "k' < length ((?red ! s)[k := (?red ! s ! k)\<lparr>te_row := new_index rows n\<rparr>])"
        then have k': "k' < length (shards ! s)" by (simp add: red)
        show "(?red ! s)[k := (?red ! s ! k)\<lparr>te_row := new_index rows n\<rparr>] ! k' = map (redirect rows (Suc n)) (shards ! s) ! k'"
        proof (cases "k' = k")
          case True
          then show ?thesis using sk by (simp add: red redirect_def)
        next
          case False
          then show ?thesis using only [OF sk(1) k'] k' by (simp add: red redirect_Suc_other)
        qed
      qed (simp add: red)
      then show ?thesis using True sk(1) by (simp add: point_entry_def Let_def) (simp add: redirect_all_def)
    next
      case False
      have "map (redirect rows n) (shards ! s') = map (redirect rows (Suc n)) (shards ! s')"
        using only [OF s'] False by (auto simp: in_set_conv_nth redirect_Suc_other)
      then show ?thesis using False s' by (simp add: point_entry_def Let_def) (simp add: redirect_all_def)
    qed
  qed
  then show ?thesis by (simp add: remap_entry_def get)
qed


section \<open>Compaction\<close>

definition remap_step ::
    "hash_fn \<Rightarrow> nat \<Rightarrow> nat \<Rightarrow> nat option \<Rightarrow> nat list \<Rightarrow> nat \<Rightarrow> nat
      \<Rightarrow> table_entry list list \<times> (nat \<times> nat) list \<Rightarrow> (table_entry list list \<times> (nat \<times> nat) list) result" where
  "remap_step hf nk bits c = (\<lambda>row i k (shards, offs).
     bind_o (remap_entry hf nk bits row i k shards) (\<lambda>shards'.
     bind_o (rebuild_offsets c row k offs) (\<lambda>offs'. Ok (shards', offs'))))"

text \<open>The offsets of the compacted rows before row \<open>n\<close>.\<close>

definition compacted_offsets ::
    "nat option \<Rightarrow> (nat \<times> nat) list \<Rightarrow> nat list list \<Rightarrow> nat \<Rightarrow> (nat \<times> nat) list \<Rightarrow> bool" where
  "compacted_offsets c offs0 rows n offs \<longleftrightarrow> sort_ok c offs (live_rows (take n rows))
     \<and> (\<forall>k. c = Some k \<longrightarrow> fst ` set offs = {rows ! i ! k | i. i < n \<and> live (rows ! i)})
     \<and> (c = None \<longrightarrow> offs = offs0)"

lemma sort_values_mono:
  assumes ok: "sort_ok (Some c) offs rows" and i: "i < length rows" "live (rows ! i)"
    and j: "j < length rows" "live (rows ! j)" and ij: "i \<le> j"
  shows "rows ! i ! c \<le> rows ! j ! c"
proof -
  have at: "\<exists>p \<in> set offs. snd p \<le> a \<and> fst p = rows ! a ! c \<and> (\<forall>q \<in> set offs. snd q \<le> a \<longrightarrow> fst q \<le> fst p)"
    if "a < length rows" "live (rows ! a)" for a using ok that by simp
  obtain p where p: "p \<in> set offs" "snd p \<le> i" "fst p = rows ! i ! c" using at [OF i] by blast
  obtain q where q: "q \<in> set offs" "snd q \<le> j" "fst q = rows ! j ! c" "\<forall>p \<in> set offs. snd p \<le> j \<longrightarrow> fst p \<le> fst q" using at [OF j] by blast
  show ?thesis using p q ij by fastforce
qed

lemma rebuild_offsets_ok:
  assumes S: "sort_ok c offs0 rows" and C: "compacted_offsets c offs0 rows n offs"
    and n: "n < length rows" "live (rows ! n)" and c: "\<forall>k. c = Some k \<longrightarrow> k < length (rows ! n)"
  shows "\<exists>offs'. rebuild_offsets c (rows ! n) (new_index rows n) offs = Ok offs'
    \<and> compacted_offsets c offs0 rows (Suc n) offs'"
proof (cases c)
  case None
  then show ?thesis using C by (simp add: rebuild_offsets_def compacted_offsets_def)
next
  case (Some k)
  let ?v = "rows ! n ! k"
  have vals: "fst ` set offs = {rows ! i ! k | i. i < n \<and> live (rows ! i)}"
    and ok: "sort_ok (Some k) offs (live_rows (take n rows))" using C Some by (simp_all add: compacted_offsets_def)
  have le: "fst q \<le> ?v" if "q \<in> set offs" for q
  proof -
    have "fst q \<in> {rows ! i ! k | i. i < n \<and> live (rows ! i)}" using that vals by blast
    then obtain i where "i < n" "live (rows ! i)" "fst q = rows ! i ! k" by blast
    then show ?thesis using sort_values_mono [of k offs0 rows i n] S Some n by simp
  qed
  obtain offs' where o: "push_offset ?v (length (live_rows (take n rows))) offs = Ok offs'"
    "sort_ok (Some k) offs' (live_rows (take n rows) @ [rows ! n])" "fst ` set offs' = insert ?v (fst ` set offs)"
    using push_offset_ok [OF ok, of ?v "rows ! n"] le by blast
  have "rebuild_offsets c (rows ! n) (new_index rows n) offs = Ok offs'"
    using o(1) le c Some
    by (auto simp: rebuild_offsets_def push_offset_def new_index_def not_less split: if_splits)
  moreover have "live_rows (take (Suc n) rows) = live_rows (take n rows) @ [rows ! n]"
    using n by (simp add: take_Suc_conv_app_nth)
  moreover have "fst ` set offs' = {rows ! i ! k | i. i < Suc n \<and> live (rows ! i)}"
    unfolding o(3) vals using n(2) by (auto simp: less_Suc_eq)
  ultimately show ?thesis using o(2) Some by (simp add: compacted_offsets_def)
qed

lemma remap_loop:
  assumes H: "hash_inv hf nk bits rows shards" and S: "sort_ok c offs0 rows"
    and nk: "\<forall>r \<in> set rows. nk \<le> length r" and c: "\<forall>k. c = Some k \<longrightarrow> (\<forall>r \<in> set rows. k < length r)"
    and C: "compacted_offsets c offs0 rows n offs" and n: "n \<le> length rows"
  shows "\<exists>offs'. remap_rows (remap_step hf nk bits c) (drop n rows) n (new_index rows n) (redirect_all rows n shards, offs)
      = Ok (redirect_all rows (length rows) shards, offs') \<and> compacted_offsets c offs0 rows (length rows) offs'"
  using n C
proof (induction n arbitrary: offs rule: inc_induct)
  case base
  then show ?case by simp
next
  case (step n)
  have n: "n < length rows" using step by simp
  have r: "drop n rows = rows ! n # drop (Suc n) rows" using n by (simp add: Cons_nth_drop_Suc)
  show ?case
  proof (cases "live (rows ! n)")
    case False
    then have "compacted_offsets c offs0 rows (Suc n) offs"
      using step.prems n by (auto simp: compacted_offsets_def take_Suc_conv_app_nth less_Suc_eq)
    from step.IH [OF this] False show ?thesis
      using redirect_skip [OF H False] by (simp add: r new_index_Suc [OF n])
  next
    case True
    have "\<forall>k. c = Some k \<longrightarrow> k < length (rows ! n)" and nkn: "nk \<le> length (rows ! n)" using c nk n by simp_all
    from rebuild_offsets_ok [OF S step.prems n True this(1)] obtain offs1 where
      o: "rebuild_offsets c (rows ! n) (new_index rows n) offs = Ok offs1" "compacted_offsets c offs0 rows (Suc n) offs1" by blast
    have "remap_step hf nk bits c (rows ! n) n (new_index rows n) (redirect_all rows n shards, offs)
        = Ok (redirect_all rows (Suc n) shards, offs1)"
      using remap_entry_eq [OF H n True nkn] o(1) by (simp add: remap_step_def)
    then show ?thesis using step.IH [OF o(2)] True by (simp add: r new_index_Suc [OF n])
  qed
qed

lemma hash_inv_compact:
  assumes H: "hash_inv hf nk bits rows shards"
  shows "hash_inv hf nk bits (live_rows rows) (redirect_all rows (length rows) shards)"
proof -
  let ?f = "redirect rows (length rows)"
  have ok: "entry_ok hf nk bits rows s e" if "s < length shards" "e \<in> set (shards ! s)" for s e
    using H that by (rule hash_inv_entry)
  have row: "te_row (?f e) = new_index rows (te_row e)" if "s < length shards" "e \<in> set (shards ! s)" for s e
    using ok [OF that] by (simp add: redirect_def entry_ok_def)
  have "entry_ok hf nk bits (live_rows rows) s (?f e)" if "s < length shards" "e \<in> set (shards ! s)" for s e
    using ok [OF that] new_index_nth [of "te_row e" rows] by (simp add: entry_ok_def row [OF that])
  then have "\<forall>e \<in> set (redirect_all rows (length rows) shards ! s). entry_ok hf nk bits (live_rows rows) s e"
    if "s < length shards" for s using that by (auto simp: redirect_all_def)
  moreover have "distinct (map te_row (redirect_all rows (length rows) shards ! s))" if s: "s < length shards" for s
  proof -
    have "map te_row (map ?f (shards ! s)) = map (new_index rows) (map te_row (shards ! s))"
      using row [OF s] by simp
    moreover have "inj_on (new_index rows) (set (map te_row (shards ! s)))"
    proof (rule inj_onI)
      fix i j assume ij: "i \<in> set (map te_row (shards ! s))" "j \<in> set (map te_row (shards ! s))" "new_index rows i = new_index rows j"
      have "a < length rows \<and> live (rows ! a)" if "a \<in> set (map te_row (shards ! s))" for a
        using that ok [OF s] by (auto simp: entry_ok_def)
      with ij show "i = j" using new_index_inj by blast
    qed
    moreover have "distinct (map te_row (shards ! s))" using H s by (simp add: hash_inv_def)
    ultimately show ?thesis using s by (simp only: redirect_all_def nth_map distinct_map [of "new_index rows"])
  qed
  moreover have "\<exists>s < length shards. \<exists>e \<in> set (redirect_all rows (length rows) shards ! s). te_row e = i"
    if "i < length (live_rows rows)" for i
  proof -
    from new_index_onto [OF that] obtain j where j: "j < length rows" "live (rows ! j)" "new_index rows j = i" by blast
    from hash_inv_row [OF H j(1,2)] obtain s e where e: "s < length shards" "e \<in> set (shards ! s)" "te_row e = j" by blast
    then show ?thesis using row [OF e(1,2)] j(3)
      by (intro exI [of _ s] conjI bexI [of _ "?f e"]) (simp_all add: redirect_all_def)
  qed
  ultimately show ?thesis using H by (simp add: hash_inv_def redirect_all_def)
qed

lemma holds_at_compact:
  "holds_at nk (live_rows rows) key i \<longleftrightarrow> (\<exists>j. holds_at nk rows key j \<and> new_index rows j = i)"
proof
  assume h: "holds_at nk (live_rows rows) key i"
  then obtain j where "j < length rows" "live (rows ! j)" "new_index rows j = i"
    using new_index_onto by (auto simp: holds_at_def)
  with h show "\<exists>j. holds_at nk rows key j \<and> new_index rows j = i"
    using new_index_nth [of j rows] by (auto simp: holds_at_def)
next
  assume "\<exists>j. holds_at nk rows key j \<and> new_index rows j = i"
  then obtain j where "j < length rows" "live (rows ! j)" "take nk (rows ! j) = key" "new_index rows j = i"
    by (auto simp: holds_at_def)
  then show "holds_at nk (live_rows rows) key i"
    using new_index_nth [of j rows] by (auto simp: holds_at_def)
qed

lemma unique_keys_compact: "unique_keys nk rows \<Longrightarrow> unique_keys nk (live_rows rows)"
  unfolding unique_keys_def holds_at_compact by blast

lemma rehash_refines:
  assumes inv: "table_inv hf t"
  shows "\<exists>t'. rehash hf t = Ok t' \<and> table_inv hf t' \<and> evolves t t' \<and> table_map t' = table_map t
    \<and> st_pending t' = st_pending t \<and> table_rows t' = live_rows (table_rows t) \<and> r_stale (st_rows t') = 0
    \<and> st_generation t' = Suc (st_generation t) \<and> offset_values t' \<subseteq> offset_values t"
proof -
  let ?nk = "st_keys t" and ?rows = "table_rows t" and ?bits = "st_shard_bits t" and ?c = "st_sort_by t"
  have R: "rows_inv (st_columns t) (st_rows t)" and nk: "?nk \<le> st_columns t" and u: "unique_keys ?nk ?rows"
    and H: "hash_inv hf ?nk ?bits ?rows (st_shards t)" and S: "sort_ok ?c (st_offsets t) ?rows"
    and sc: "\<And>c. ?c = Some c \<Longrightarrow> c < st_columns t"
    using inv by (simp_all add: table_inv_def)
  let ?offs = "if ?c = None then st_offsets t else []"
  have len: "\<forall>r \<in> set ?rows. length r = st_columns t" using rows_inv_arity [OF R] by (auto simp: in_set_conv_nth)
  have "compacted_offsets ?c (st_offsets t) ?rows 0 ?offs" by (cases ?c) (simp_all add: compacted_offsets_def)
  with remap_loop [OF H S _ _ this] len nk sc obtain offs where
    loop: "remap_rows (remap_step hf ?nk ?bits ?c) ?rows 0 0 (st_shards t, ?offs)
        = Ok (redirect_all ?rows (length ?rows) (st_shards t), offs)"
      "compacted_offsets ?c (st_offsets t) ?rows (length ?rows) offs"
    by (auto simp: redirect_zero new_index_def)
  have "rb_wf (r_data (st_rows t))" using R by (simp add: rows_inv_def)
  from rb_remove_stale_eq [OF this, of "remap_step hf ?nk ?bits ?c" "(st_shards t, ?offs)"] obtain b where
    b: "rb_remove_stale (remap_step hf ?nk ?bits ?c) (r_data (st_rows t)) (st_shards t, ?offs)
        = Ok (b, redirect_all ?rows (length ?rows) (st_shards t), offs)"
      "rb_wf b" "rb_iter b = live_rows ?rows" "rb_cols b = rb_cols (r_data (st_rows t))" "rb_total b = length (live_rows ?rows)"
    using loop(1) by auto
  let ?rs = "(st_rows t)\<lparr>r_data := b, r_stale := 0\<rparr>"
  let ?t = "t\<lparr>st_generation := Suc (st_generation t), st_rows := ?rs,
    st_shards := redirect_all ?rows (length ?rows) (st_shards t), st_offsets := offs\<rparr>"
  have run: "rehash hf t = Ok ?t"
    using b(1) by (cases ?c) (simp_all add: rehash_def rehash_impl_def rows_remove_stale_def remap_step_def)
  have "rows_inv (st_columns t) ?rs" using R b by (simp add: rows_inv_def)
  moreover have "sort_ok ?c offs (live_rows ?rows)" using loop(2) by (simp add: compacted_offsets_def)
  ultimately have "table_inv hf ?t"
    using nk sc unique_keys_compact [OF u] hash_inv_compact [OF H] b(3) by (simp add: table_inv_def)
  moreover have "offset_values ?t \<subseteq> offset_values t"
  proof (cases ?c)
    case None
    then show ?thesis using loop(2) by (simp add: compacted_offsets_def offset_values_def)
  next
    case (Some k)
    have "\<forall>i < length ?rows. live (?rows ! i) \<longrightarrow> ?rows ! i ! k \<in> fst ` set (st_offsets t)"
      using S Some by force
    then show ?thesis using loop(2) Some by (auto simp: compacted_offsets_def offset_values_def)
  qed
  ultimately show ?thesis using run b(3)
    by (intro exI [of _ ?t]) (simp add: evolves_def table_map_def)
qed

lemma maybe_rehash_refines:
  assumes inv: "table_inv hf t"
  shows "\<exists>t'. maybe_rehash hf t = Ok t' \<and> table_inv hf t' \<and> evolves t t' \<and> table_map t' = table_map t
    \<and> st_pending t' = st_pending t \<and> length (table_rows t') \<le> length (table_rows t) \<and> offset_values t' \<subseteq> offset_values t"
proof (cases "r_stale (st_rows t) \<le> max 16 (rb_total (r_data (st_rows t)) div 2)")
  case True
  then show ?thesis using inv by (simp add: maybe_rehash_def)
next
  case False
  from rehash_refines [OF inv] obtain t' where
    "rehash hf t = Ok t'" "table_inv hf t'" "evolves t t'" "table_map t' = table_map t"
    "st_pending t' = st_pending t" "table_rows t' = live_rows (table_rows t)" "offset_values t' \<subseteq> offset_values t" by blast
  then show ?thesis using False by (intro exI [of _ t']) (simp add: maybe_rehash_def)
qed

end
