(* ===== verification/Sorted_Merge.thy ===== *)
theory Sorted_Merge
  imports Sorted_Rehash
begin

text \<open>
  Staging and merging: what a buffer holds per shard, the loops over the shards, and a whole round
  of writes as an update of the map from keys to rows.
\<close>

section \<open>Rows and keys by shard\<close>

definition shard_of :: "hash_fn \<Rightarrow> nat \<Rightarrow> nat \<Rightarrow> nat list \<Rightarrow> nat" where
  "shard_of hf bits nk row = shard_id bits (hf (take nk row))"

definition in_shard :: "hash_fn \<Rightarrow> nat \<Rightarrow> nat \<Rightarrow> nat \<Rightarrow> nat list list \<Rightarrow> nat list list" where
  "in_shard hf bits nk s rows = filter (\<lambda>r. shard_of hf bits nk r = s) rows"

definition by_shard :: "hash_fn \<Rightarrow> nat \<Rightarrow> nat \<Rightarrow> nat list list \<Rightarrow> nat list list" where
  "by_shard hf bits nk rows = concat (map (\<lambda>s. in_shard hf bits nk s rows) [0..<n_shards bits])"

lemma shard_of_less: "shard_of hf bits nk row < n_shards bits"
  by (simp add: shard_of_def n_shards_def shard_id_less)

lemma in_shard_snoc:
  "in_shard hf bits nk s (rows @ [r]) = (if shard_of hf bits nk r = s then in_shard hf bits nk s rows @ [r] else in_shard hf bits nk s rows)"
  by (simp add: in_shard_def)

lemma in_shard_Nil [simp]: "in_shard hf bits nk s [] = []"
  by (simp add: in_shard_def)

lemma set_in_shard: "r \<in> set (in_shard hf bits nk s rows) \<longleftrightarrow> r \<in> set rows \<and> shard_of hf bits nk r = s"
  by (auto simp: in_shard_def)

lemma set_by_shard [simp]: "set (by_shard hf bits nk rows) = set rows"
  using shard_of_less by (auto simp: by_shard_def set_in_shard)

lemma sum_of_shards:
  assumes "\<forall>r \<in> set rows. f r < (n :: nat)"
  shows "sum_list (map (\<lambda>s. length (filter (\<lambda>r. f r = s) rows)) [0..<n]) = length rows"
  using assms
proof (induction rows)
  case (Cons r rows)
  have "map (\<lambda>s. length (filter (\<lambda>r. f r = s) (r # rows))) [0..<n]
      = map (\<lambda>s. (if s = f r then 1 else 0) + length (filter (\<lambda>r. f r = s) rows)) [0..<n]"
    by (rule map_cong) auto
  then have "sum_list (map (\<lambda>s. length (filter (\<lambda>r. f r = s) (r # rows))) [0..<n])
      = sum_list (map (\<lambda>s. if s = f r then 1 else 0) [0..<n]) + sum_list (map (\<lambda>s. length (filter (\<lambda>r. f r = s) rows)) [0..<n])"
    by (simp only: sum_list_addf)
  also have "sum_list (map (\<lambda>s. if s = f r then 1 else 0 :: nat) [0..<n]) = 1"
    using Cons.prems by (subst sum_list_distinct_conv_sum_set) auto
  finally show ?case using Cons by simp
qed simp

lemma length_by_shard [simp]: "length (by_shard hf bits nk rows) = length rows"
  unfolding by_shard_def in_shard_def length_concat map_map comp_def
  by (rule sum_of_shards) (simp add: shard_of_less)

section \<open>Staging\<close>

definition key_buffer_ok :: "nat \<Rightarrow> key_buffer \<Rightarrow> bool" where
  "key_buffer_ok nk b = (case b of
       NonEmpty r \<Rightarrow> rb_wf r \<and> rb_cols r = nk
     | Empty _ \<Rightarrow> nk = 0)"

definition buffers_hold :: "('b \<Rightarrow> bool) \<Rightarrow> ('b \<Rightarrow> nat list list) \<Rightarrow> (nat \<rightharpoonup> 'b) \<Rightarrow> (nat \<Rightarrow> nat list list) \<Rightarrow> bool" where
  "buffers_hold ok contents m f \<longleftrightarrow> (\<forall>s. case m s of None \<Rightarrow> f s = [] | Some b \<Rightarrow> ok b \<and> contents b = f s)"

lemma buffers_hold_None: "buffers_hold ok contents m f \<Longrightarrow> m s = None \<Longrightarrow> f s = []"
  unfolding buffers_hold_def by (metis (mono_tags, lifting) option.simps(4))

lemma buffers_hold_Some: "buffers_hold ok contents m f \<Longrightarrow> m s = Some b \<Longrightarrow> ok b \<and> contents b = f s"
  unfolding buffers_hold_def by (metis (mono_tags, lifting) option.simps(5))

lemma buffers_hold_update:
  assumes "buffers_hold ok contents m f" "ok b" "contents b = f' s" "\<And>s'. s' \<noteq> s \<Longrightarrow> f' s' = f s'"
  shows "buffers_hold ok contents (m(s \<mapsto> b)) f'"
  unfolding buffers_hold_def
proof
  fix s'
  show "case (m(s \<mapsto> b)) s' of None \<Rightarrow> f' s' = [] | Some b \<Rightarrow> ok b \<and> contents b = f' s'"
    using assms(1) [unfolded buffers_hold_def, THEN spec, of s'] assms(2-4)
    by (cases "s' = s") (simp_all split: option.splits)
qed

lemma buffers_hold_all:
  assumes "buffers_hold ok contents m f"
  shows "concat (map contents (case m s of None \<Rightarrow> [] | Some b \<Rightarrow> [b])) = f s"
  using buffers_hold_None [OF assms, of s] buffers_hold_Some [OF assms, of s] by (cases "m s") simp_all

definition staged :: "hash_fn \<Rightarrow> sorted_table \<Rightarrow> mutation_buffer \<Rightarrow> nat list list \<Rightarrow> nat list list \<Rightarrow> bool" where
  "staged hf t mb keys rows \<longleftrightarrow>
     mb_cols mb = st_columns t \<and> mb_keys mb = st_keys t \<and> mb_bits mb = st_shard_bits t
   \<and> buffers_hold (\<lambda>b. rb_wf b \<and> rb_cols b = st_columns t) rb_iter (mb_rows mb)
       (\<lambda>s. in_shard hf (st_shard_bits t) (st_keys t) s rows)
   \<and> buffers_hold (key_buffer_ok (st_keys t)) kb_rows (mb_removals mb)
       (\<lambda>s. in_shard hf (st_shard_bits t) (st_keys t) s keys)"

lemma staged_new: "staged hf t (st_new_buffer t) [] []"
  by (simp add: staged_def st_new_buffer_def buffers_hold_def)

lemma hash_code_eq: "nk \<le> length row \<Longrightarrow> hash_code hf bits row nk = Ok (shard_of hf bits nk row, hf (take nk row))"
  by (simp add: hash_code_def slice_o_def shard_of_def)

lemma length_in_shard: "length (in_shard hf bits nk s rows) \<le> length rows"
  by (simp add: in_shard_def)

lemma stage_insert_ok:
  assumes st: "staged hf t mb keys rows" and row: "length row = st_columns t"
    and cols: "0 < st_columns t" "st_keys t \<le> st_columns t" and size: "int (length rows) < 2 ^ 32"
  shows "\<exists>mb'. mb_stage_insert hf row mb = Ok mb' \<and> staged hf t mb' keys (rows @ [row])"
proof -
  let ?bits = "st_shard_bits t" and ?nk = "st_keys t"
  let ?s = "shard_of hf ?bits ?nk row"
  have sch: "mb_cols mb = st_columns t" "mb_keys mb = ?nk" "mb_bits mb = ?bits"
    and B: "buffers_hold (\<lambda>b. rb_wf b \<and> rb_cols b = st_columns t) rb_iter (mb_rows mb) (\<lambda>s. in_shard hf ?bits ?nk s rows)"
    using st by (simp_all add: staged_def)
  have "\<exists>b. (case mb_rows mb ?s of Some b \<Rightarrow> Ok b | None \<Rightarrow> rb_new (mb_cols mb)) = Ok b \<and> rb_wf b
    \<and> rb_cols b = st_columns t \<and> rb_iter b = in_shard hf ?bits ?nk ?s rows"
  proof (cases "mb_rows mb ?s")
    case None
    then show ?thesis using buffers_hold_None [OF B None] rb_new_wf [OF cols(1)] sch by auto
  next
    case (Some b)
    then show ?thesis using buffers_hold_Some [OF B Some] by simp
  qed
  then obtain b where b: "(case mb_rows mb ?s of Some b \<Rightarrow> Ok b | None \<Rightarrow> rb_new (mb_cols mb)) = Ok b"
    "rb_wf b" "rb_cols b = st_columns t" "rb_iter b = in_shard hf ?bits ?nk ?s rows" by blast
  have "rb_total b \<le> length rows" using b(2,4) rb_rows_length [OF b(2)] length_in_shard [of hf ?bits ?nk ?s rows] by simp
  with size have "int (rb_total b) < 2 ^ 32" by simp
  with rb_add_row_eq [OF b(2), of row] row b(3) obtain b' where
    b': "rb_add_row b row = Ok (b', rb_total b)" "rb_wf b'" "rb_iter b' = rb_iter b @ [row]" "rb_cols b' = st_columns t" by auto
  have "mb_stage_insert hf row mb = Ok (mb\<lparr>mb_rows := (mb_rows mb)(?s \<mapsto> b')\<rparr>)"
    using b(1) b'(1) cols(2) row by (simp add: mb_stage_insert_def sch hash_code_eq)
  moreover have "buffers_hold (\<lambda>b. rb_wf b \<and> rb_cols b = st_columns t) rb_iter ((mb_rows mb)(?s \<mapsto> b'))
      (\<lambda>s. in_shard hf ?bits ?nk s (rows @ [row]))"
    using b' b(4) by (intro buffers_hold_update [OF B]) (simp_all add: in_shard_snoc)
  then have "staged hf t (mb\<lparr>mb_rows := (mb_rows mb)(?s \<mapsto> b')\<rparr>) keys (rows @ [row])"
    using st by (simp add: staged_def)
  ultimately show ?thesis by blast
qed

lemma kb_add_ok:
  assumes "key_buffer_ok nk b" "length key = nk" "int (length (kb_rows b)) < 2 ^ 32"
  shows "\<exists>b'. kb_add b key = Ok b' \<and> key_buffer_ok nk b' \<and> kb_rows b' = kb_rows b @ [key]"
proof (cases b)
  case (NonEmpty r)
  then have r: "rb_wf r" "rb_cols r = nk" "int (rb_total r) < 2 ^ 32" using assms by (simp_all add: key_buffer_ok_def)
  with rb_add_row_eq [of r key] assms(2) show ?thesis using NonEmpty by (auto simp: key_buffer_ok_def)
next
  case (Empty n)
  then show ?thesis using assms by (simp add: key_buffer_ok_def replicate_append_same [symmetric])
qed

lemma kb_new_ok: "\<exists>b. kb_new nk = Ok b \<and> key_buffer_ok nk b \<and> kb_rows b = []"
  using rb_new_wf [of nk] by (auto simp: kb_new_def key_buffer_ok_def)

lemma stage_remove_ok:
  assumes st: "staged hf t mb keys rows" and key: "length key = st_keys t" and size: "int (length keys) < 2 ^ 32"
  shows "\<exists>mb'. mb_stage_remove hf key mb = Ok mb' \<and> staged hf t mb' (keys @ [key]) rows"
proof -
  let ?bits = "st_shard_bits t" and ?nk = "st_keys t"
  let ?s = "shard_of hf ?bits ?nk key"
  have sch: "mb_cols mb = st_columns t" "mb_keys mb = ?nk" "mb_bits mb = ?bits"
    and B: "buffers_hold (key_buffer_ok ?nk) kb_rows (mb_removals mb) (\<lambda>s. in_shard hf ?bits ?nk s keys)"
    using st by (simp_all add: staged_def)
  have "\<exists>b. (case mb_removals mb ?s of Some b \<Rightarrow> Ok b | None \<Rightarrow> kb_new (mb_keys mb)) = Ok b \<and> key_buffer_ok ?nk b
    \<and> kb_rows b = in_shard hf ?bits ?nk ?s keys"
  proof (cases "mb_removals mb ?s")
    case None
    then show ?thesis using buffers_hold_None [OF B None] kb_new_ok [of ?nk] sch by auto
  next
    case (Some b)
    then show ?thesis using buffers_hold_Some [OF B Some] by simp
  qed
  then obtain b where b: "(case mb_removals mb ?s of Some b \<Rightarrow> Ok b | None \<Rightarrow> kb_new (mb_keys mb)) = Ok b"
    "key_buffer_ok ?nk b" "kb_rows b = in_shard hf ?bits ?nk ?s keys" by blast
  have "int (length (kb_rows b)) < 2 ^ 32" using b(3) length_in_shard [of hf ?bits ?nk ?s keys] size by simp
  from kb_add_ok [OF b(2) key this] obtain b' where
    b': "kb_add b key = Ok b'" "key_buffer_ok ?nk b'" "kb_rows b' = kb_rows b @ [key]" by blast
  have "mb_stage_remove hf key mb = Ok (mb\<lparr>mb_removals := (mb_removals mb)(?s \<mapsto> b')\<rparr>)"
    using b(1) b'(1) key by (simp add: mb_stage_remove_def sch hash_code_eq)
  moreover have "buffers_hold (key_buffer_ok ?nk) kb_rows ((mb_removals mb)(?s \<mapsto> b'))
      (\<lambda>s. in_shard hf ?bits ?nk s (keys @ [key]))"
    using b' b(3) by (intro buffers_hold_update [OF B]) (simp_all add: in_shard_snoc)
  then have "staged hf t (mb\<lparr>mb_removals := (mb_removals mb)(?s \<mapsto> b')\<rparr>) (keys @ [key]) rows"
    using st by (simp add: staged_def)
  ultimately show ?thesis by blast
qed

lemma stage_removes_ok:
  assumes "staged hf t mb done_keys rows" "\<forall>key \<in> set keys. length key = st_keys t" "int (length (done_keys @ keys)) < 2 ^ 32"
  shows "\<exists>mb'. fold_out (mb_stage_remove hf) keys mb = Ok mb' \<and> staged hf t mb' (done_keys @ keys) rows"
  using assms
proof (induction keys arbitrary: mb done_keys)
  case (Cons key keys)
  from stage_remove_ok [OF Cons.prems(1), of key] Cons.prems obtain mb1 where
    1: "mb_stage_remove hf key mb = Ok mb1" "staged hf t mb1 (done_keys @ [key]) rows" by auto
  with Cons.IH [OF 1(2)] Cons.prems show ?case by simp
qed simp

lemma stage_inserts_ok:
  assumes "staged hf t mb keys done_rows" "\<forall>row \<in> set rows. length row = st_columns t" "int (length (done_rows @ rows)) < 2 ^ 32"
    and "0 < st_columns t" "st_keys t \<le> st_columns t"
  shows "\<exists>mb'. fold_out (mb_stage_insert hf) rows mb = Ok mb' \<and> staged hf t mb' keys (done_rows @ rows)"
  using assms
proof (induction rows arbitrary: mb done_rows)
  case (Cons row rows)
  from stage_insert_ok [OF Cons.prems(1), of row] Cons.prems obtain mb1 where
    1: "mb_stage_insert hf row mb = Ok mb1" "staged hf t mb1 keys (done_rows @ [row])" by auto
  with Cons.IH [OF 1(2)] Cons.prems show ?case by simp
qed simp

section \<open>What is pending\<close>

text \<open>A table is idle when nothing is pending.\<close>

definition idle :: "sorted_table \<Rightarrow> bool" where
  "idle t \<longleftrightarrow> pending_rows (st_pending t) = replicate (n_shards (st_shard_bits t)) []
     \<and> pending_removals (st_pending t) = replicate (n_shards (st_shard_bits t)) []"

definition pending_is :: "hash_fn \<Rightarrow> sorted_table \<Rightarrow> nat list list \<Rightarrow> nat list list \<Rightarrow> bool" where
  "pending_is hf t keys rows \<longleftrightarrow>
     length (pending_rows (st_pending t)) = n_shards (st_shard_bits t)
   \<and> length (pending_removals (st_pending t)) = n_shards (st_shard_bits t)
   \<and> (\<forall>s < n_shards (st_shard_bits t).
        concat (map rb_non_stale (pending_rows (st_pending t) ! s)) = in_shard hf (st_shard_bits t) (st_keys t) s rows
      \<and> concat (map kb_rows (pending_removals (st_pending t) ! s)) = in_shard hf (st_shard_bits t) (st_keys t) s keys)"

lemma rb_non_stale_live: "rb_non_stale b = live_rows (rb_iter b)"
  by (simp add: rb_non_stale_def rb_iter_def)

lemma idle_pending: "idle t \<Longrightarrow> pending_is hf t [] []"
  by (simp add: idle_def pending_is_def)

lemma in_shard_append: "in_shard hf bits nk s (xs @ ys) = in_shard hf bits nk s xs @ in_shard hf bits nk s ys"
  by (simp add: in_shard_def)

lemma drop_pending:
  assumes "pending_is hf t keys0 rows0" "staged hf t mb keys rows" "\<forall>r \<in> set rows. live r"
  shows "pending_is hf (mb_drop mb t) (keys0 @ keys) (rows0 @ rows)"
proof -
  let ?bits = "st_shard_bits t" and ?nk = "st_keys t"
  have B: "buffers_hold (\<lambda>b. rb_wf b \<and> rb_cols b = st_columns t) rb_iter (mb_rows mb) (\<lambda>s. in_shard hf ?bits ?nk s rows)"
    and K: "buffers_hold (key_buffer_ok ?nk) kb_rows (mb_removals mb) (\<lambda>s. in_shard hf ?bits ?nk s keys)"
    using assms(2) by (simp_all add: staged_def)
  have rows: "concat (map rb_non_stale (case mb_rows mb s of None \<Rightarrow> [] | Some b \<Rightarrow> [b])) = in_shard hf ?bits ?nk s rows" for s
  proof -
    have "concat (map rb_non_stale bs) = live_rows (concat (map rb_iter bs))" for bs
      by (induction bs) (simp_all add: rb_non_stale_live)
    then show ?thesis using buffers_hold_all [OF B, of s] assms(3)
      by (auto simp: set_in_shard intro!: filter_True)
  qed
  note keys = buffers_hold_all [OF K]
  have append: "(case b of None \<Rightarrow> q | Some b \<Rightarrow> q @ [b]) = q @ (case b of None \<Rightarrow> [] | Some b \<Rightarrow> [b])" for b :: "'b option" and q
    by (cases b) simp_all
  show ?thesis using rows keys assms(1)
    by (simp add: pending_is_def mb_drop_def Let_def append in_shard_append)
qed


section \<open>The loops over the shards\<close>

lemma take_removals_eq:
  "take_removals s t = (concat (map kb_rows (pending_removals (st_pending t) ! s)),
     t\<lparr>st_pending := (st_pending t)\<lparr>pending_removals := (pending_removals (st_pending t))[s := []]\<rparr>\<rparr>)"
  by (simp add: take_removals_def Let_def)

lemma take_rows_eq:
  "take_rows s t = (concat (map rb_non_stale (pending_rows (st_pending t) ! s)),
     t\<lparr>st_pending := (st_pending t)\<lparr>pending_rows := (pending_rows (st_pending t))[s := []]\<rparr>\<rparr>)"
  by (simp add: take_rows_def Let_def)

definition delete_shard :: "hash_fn \<Rightarrow> nat \<Rightarrow> sorted_table \<times> bool \<Rightarrow> (sorted_table \<times> bool) result" where
  "delete_shard hf s = (\<lambda>(t, changed).
     let (keys, t1) = take_removals s t in fold_out (delete_key hf s) keys (t1, changed))"

definition insert_shard ::
    "hash_fn \<Rightarrow> 'x merge_fn \<Rightarrow> nat \<Rightarrow> sorted_table \<times> 'x \<times> bool \<Rightarrow> (sorted_table \<times> 'x \<times> bool) result" where
  "insert_shard hf m s = (\<lambda>(t, x, changed).
     let (queries, t1) = take_rows s t in fold_out (insert_query hf m) queries (t1, x, changed))"

abbreviation forget :: "nat list list \<Rightarrow> (nat list \<rightharpoonup> nat list) \<Rightarrow> (nat list \<rightharpoonup> nat list)" where
  "forget keys \<equiv> fold (\<lambda>key mp. mp(key := None)) keys"

lemma delete_shards:
  assumes "table_inv hf t" "distinct ss"
    and "\<forall>s \<in> set ss. concat (map kb_rows (pending_removals (st_pending t) ! s)) = in_shard hf (st_shard_bits t) (st_keys t) s keys"
    and "\<forall>key \<in> set keys. length key = st_keys t"
  shows "\<exists>t' ch'. fold_out (delete_shard hf) ss (t, ch) = Ok (t', ch') \<and> table_inv hf t' \<and> evolves t t'
    \<and> table_map t' = forget (concat (map (\<lambda>s. in_shard hf (st_shard_bits t) (st_keys t) s keys) ss)) (table_map t)
    \<and> pending_removals (st_pending t') = fold (\<lambda>s q. q[s := []]) ss (pending_removals (st_pending t))
    \<and> pending_rows (st_pending t') = pending_rows (st_pending t)
    \<and> length (table_rows t') = length (table_rows t) \<and> st_offsets t' = st_offsets t"
  using assms
proof (induction ss arbitrary: t ch)
  case (Cons s ss)
  let ?in = "\<lambda>s. in_shard hf (st_shard_bits t) (st_keys t) s keys"
  let ?t = "t\<lparr>st_pending := (st_pending t)\<lparr>pending_removals := (pending_removals (st_pending t))[s := []]\<rparr>\<rparr>"
  have keys: "take_removals s t = (?in s, ?t)" using Cons.prems(3) by (simp add: take_removals_eq)
  have inv: "table_inv hf ?t" using Cons.prems(1) by simp
  have "\<forall>key \<in> set (?in s). length key = st_keys ?t \<and> shard_id (st_shard_bits ?t) (hf key) = s"
    using Cons.prems(4) by (auto simp: set_in_shard shard_of_def)
  from delete_keys_refine [OF inv this, of ch] obtain t1 ch1 where
    1: "fold_out (delete_key hf s) (?in s) (?t, ch) = Ok (t1, ch1)" "table_inv hf t1" "evolves ?t t1"
      "table_map t1 = forget (?in s) (table_map ?t)" "st_pending t1 = st_pending ?t"
      "length (table_rows t1) = length (table_rows ?t)" "st_offsets t1 = st_offsets ?t" by blast
  have k: "st_keys t1 = st_keys t" "st_shard_bits t1 = st_shard_bits t" using 1(3) by (simp_all add: evolves_def)
  have d: "distinct ss" "s \<notin> set ss" using Cons.prems(2) by simp_all
  have "\<forall>s' \<in> set ss. concat (map kb_rows (pending_removals (st_pending t1) ! s')) = in_shard hf (st_shard_bits t1) (st_keys t1) s' keys"
  proof
    fix s' assume "s' \<in> set ss"
    with d(2) Cons.prems(3) have "concat (map kb_rows (pending_removals (st_pending t) ! s')) = ?in s'" "s' \<noteq> s" by auto
    then show "concat (map kb_rows (pending_removals (st_pending t1) ! s')) = in_shard hf (st_shard_bits t1) (st_keys t1) s' keys"
      unfolding 1(5) k by simp
  qed
  moreover have "\<forall>key \<in> set keys. length key = st_keys t1" using Cons.prems(4) k by simp
  ultimately obtain t2 ch2 where
    2: "fold_out (delete_shard hf) ss (t1, ch1) = Ok (t2, ch2)" "table_inv hf t2" "evolves t1 t2"
      "table_map t2 = forget (concat (map (\<lambda>s. in_shard hf (st_shard_bits t1) (st_keys t1) s keys) ss)) (table_map t1)"
      "pending_removals (st_pending t2) = fold (\<lambda>s q. q[s := []]) ss (pending_removals (st_pending t1))"
      "pending_rows (st_pending t2) = pending_rows (st_pending t1)"
      "length (table_rows t2) = length (table_rows t1)" "st_offsets t2 = st_offsets t1"
    using Cons.IH [OF 1(2) d(1)] by blast
  have "fold_out (delete_shard hf) (s # ss) (t, ch) = Ok (t2, ch2)"
    using 1(1) 2(1) keys by (simp add: delete_shard_def)
  moreover have "evolves t t2" using evolves_trans [OF 1(3) 2(3)] by simp
  moreover have "table_map t2 = forget (concat (map ?in (s # ss))) (table_map t)"
    unfolding 2(4) 1(4) k by (simp only: list.map concat.simps fold_append comp_apply table_inv_pending)
  moreover have "pending_removals (st_pending t2) = fold (\<lambda>s q. q[s := []]) (s # ss) (pending_removals (st_pending t))"
    unfolding 2(5) 1(5) by simp
  moreover have "pending_rows (st_pending t2) = pending_rows (st_pending t)"
    "length (table_rows t2) = length (table_rows t)" "st_offsets t2 = st_offsets t"
    using 2(6-8) 1(5-7) by simp_all
  ultimately show ?case using 2(2) by blast
qed simp

lemma clear_queues: "fold (\<lambda>s q. q[s := []]) [0..<length q] q = replicate (length q) []"
proof -
  have "fold (\<lambda>s q. q[s := []]) [0..<n] q = replicate n [] @ drop n q" if "n \<le> length q" for n
    using that
  proof (induction n)
    case (Suc n)
    then have "drop n q = q ! n # drop (Suc n) q" by (simp add: Cons_nth_drop_Suc)
    with Suc show ?case by (simp add: list_update_append replicate_append_same)
  qed simp
  from this [of "length q"] show ?thesis by simp
qed

text \<open>All rows of a round have the sort value \<open>v\<close>, which is not before those of the table.\<close>

definition round_value :: "sorted_table \<Rightarrow> nat list list \<Rightarrow> nat \<Rightarrow> bool" where
  "round_value t rows v \<longleftrightarrow> (\<forall>c. st_sort_by t = Some c \<longrightarrow> (\<forall>r \<in> set rows. r ! c = v) \<and> (\<forall>w \<in> offset_values t. w \<le> v))"

lemma round_queries:
  assumes "round_value t rows v" "\<forall>r \<in> set qs. r \<in> set rows \<and> length r = st_columns t \<and> live r"
  shows "queries_ok t qs"
  using assms by (auto simp: queries_ok_def query_ok_def round_value_def offset_values_def)

lemma round_value_after:
  assumes "round_value t rows v" "evolves t t'" "set qs \<subseteq> set rows"
    and "offset_values t' \<subseteq> offset_values t \<union> {q ! c | q c. q \<in> set qs \<and> st_sort_by t = Some c}"
  shows "round_value t' rows v"
  unfolding round_value_def
proof (intro allI impI conjI ballI)
  fix c assume "st_sort_by t' = Some c"
  then have c: "st_sort_by t = Some c" using assms(2) by (simp add: evolves_def)
  then have v: "\<forall>r \<in> set rows. r ! c = v" "\<forall>w \<in> offset_values t. w \<le> v" using assms(1) by (simp_all add: round_value_def)
  show "r ! c = v" if "r \<in> set rows" for r using v(1) that by simp
  fix w assume "w \<in> offset_values t'"
  then consider "w \<in> offset_values t" | q where "q \<in> set qs" "w = q ! c" using assms(4) c by auto
  then show "w \<le> v" using v assms(3) by cases auto
qed

lemma insert_shards:
  assumes "table_inv hf t" "distinct ss" "merge_ok t m" "round_value t rows v"
    and "\<forall>s \<in> set ss. concat (map rb_non_stale (pending_rows (st_pending t) ! s)) = in_shard hf (st_shard_bits t) (st_keys t) s rows"
    and "\<forall>r \<in> set rows. length r = st_columns t \<and> live r"
    and "int (length (concat (map (\<lambda>s. in_shard hf (st_shard_bits t) (st_keys t) s rows) ss)) + length (table_rows t)) < 2 ^ 32"
  shows "\<exists>t' x' ch'. fold_out (insert_shard hf m) ss (t, x, ch) = Ok (t', x', ch') \<and> table_inv hf t' \<and> evolves t t'
    \<and> (table_map t', x') = fold (map_insert m (st_keys t))
        (concat (map (\<lambda>s. in_shard hf (st_shard_bits t) (st_keys t) s rows) ss)) (table_map t, x)
    \<and> pending_rows (st_pending t') = fold (\<lambda>s q. q[s := []]) ss (pending_rows (st_pending t))
    \<and> pending_removals (st_pending t') = pending_removals (st_pending t)
    \<and> length (table_rows t') \<le> length (concat (map (\<lambda>s. in_shard hf (st_shard_bits t) (st_keys t) s rows) ss)) + length (table_rows t)
    \<and> round_value t' rows v"
  using assms
proof (induction ss arbitrary: t x ch)
  case (Cons s ss)
  let ?in = "\<lambda>s. in_shard hf (st_shard_bits t) (st_keys t) s rows"
  let ?t = "t\<lparr>st_pending := (st_pending t)\<lparr>pending_rows := (pending_rows (st_pending t))[s := []]\<rparr>\<rparr>"
  have qs: "take_rows s t = (?in s, ?t)" using Cons.prems(5) by (simp add: take_rows_eq)
  have inv: "table_inv hf ?t" using Cons.prems(1) by simp
  have sch: "evolves t ?t" by simp
  have rv: "round_value ?t rows v" using Cons.prems(4) by (simp add: round_value_def offset_values_def)
  have ok: "queries_ok ?t (?in s)" using Cons.prems(6) by (intro round_queries [OF rv]) (simp add: set_in_shard)
  have "int (length (?in s) + length (table_rows ?t)) < 2 ^ 32" using Cons.prems(7) by simp
  from insert_queries_refine [OF inv ok this merge_ok_schema [OF sch, THEN iffD2, OF Cons.prems(3)], of x ch]
  obtain t1 x1 ch1 where
    1: "fold_out (insert_query hf m) (?in s) (?t, x, ch) = Ok (t1, x1, ch1)" "table_inv hf t1" "evolves ?t t1"
      "(table_map t1, x1) = fold (map_insert m (st_keys ?t)) (?in s) (table_map ?t, x)" "st_pending t1 = st_pending ?t"
      "length (table_rows t1) \<le> length (?in s) + length (table_rows ?t)"
      "offset_values t1 \<subseteq> offset_values ?t \<union> {q ! c | q c. q \<in> set (?in s) \<and> st_sort_by ?t = Some c}" by blast
  have st1: "evolves t t1" using evolves_trans [OF sch 1(3)] .
  then have k: "st_keys t1 = st_keys t" "st_shard_bits t1 = st_shard_bits t" "st_columns t1 = st_columns t"
    by (simp_all add: evolves_def)
  have d: "distinct ss" "s \<notin> set ss" using Cons.prems(2) by simp_all
  have "set (?in s) \<subseteq> set rows" by (auto simp: set_in_shard)
  then have rv1: "round_value t1 rows v" using round_value_after [OF rv 1(3) _ 1(7)] by blast
  have m1: "merge_ok t1 m" using merge_ok_schema [OF st1] Cons.prems(3) by blast
  have pend: "\<forall>s' \<in> set ss. concat (map rb_non_stale (pending_rows (st_pending t1) ! s')) = in_shard hf (st_shard_bits t1) (st_keys t1) s' rows"
  proof
    fix s' assume "s' \<in> set ss"
    with d(2) Cons.prems(5) have "concat (map rb_non_stale (pending_rows (st_pending t) ! s')) = ?in s'" "s' \<noteq> s" by auto
    then show "concat (map rb_non_stale (pending_rows (st_pending t1) ! s')) = in_shard hf (st_shard_bits t1) (st_keys t1) s' rows"
      unfolding 1(5) k by simp
  qed
  have rows1: "\<forall>r \<in> set rows. length r = st_columns t1 \<and> live r" using Cons.prems(6) k by simp
  have "int (length (concat (map (\<lambda>s. in_shard hf (st_shard_bits t1) (st_keys t1) s rows) ss)) + length (table_rows t1)) < 2 ^ 32"
    using Cons.prems(7) 1(6) unfolding k by simp
  from Cons.IH [OF 1(2) d(1) m1 rv1 pend rows1 this, of x1 ch1] obtain t2 x2 ch2 where
    2: "fold_out (insert_shard hf m) ss (t1, x1, ch1) = Ok (t2, x2, ch2)" "table_inv hf t2" "evolves t1 t2"
      "(table_map t2, x2) = fold (map_insert m (st_keys t1))
        (concat (map (\<lambda>s. in_shard hf (st_shard_bits t1) (st_keys t1) s rows) ss)) (table_map t1, x1)"
      "pending_rows (st_pending t2) = fold (\<lambda>s q. q[s := []]) ss (pending_rows (st_pending t1))"
      "pending_removals (st_pending t2) = pending_removals (st_pending t1)"
      "length (table_rows t2) \<le> length (concat (map (\<lambda>s. in_shard hf (st_shard_bits t1) (st_keys t1) s rows) ss)) + length (table_rows t1)"
      "round_value t2 rows v" by blast
  have "fold_out (insert_shard hf m) (s # ss) (t, x, ch) = Ok (t2, x2, ch2)"
    using 1(1) 2(1) qs by (simp add: insert_shard_def)
  moreover have "evolves t t2" using evolves_trans [OF st1 2(3)] .
  moreover have "(table_map t2, x2) = fold (map_insert m (st_keys t)) (concat (map ?in (s # ss))) (table_map t, x)"
    using 1(4) unfolding 2(4) k by (simp only: list.map concat.simps fold_append comp_apply table_inv_pending) simp
  moreover have "pending_rows (st_pending t2) = fold (\<lambda>s q. q[s := []]) (s # ss) (pending_rows (st_pending t))"
    unfolding 2(5) 1(5) by simp
  moreover have "pending_removals (st_pending t2) = pending_removals (st_pending t)" using 2(6) 1(5) by simp
  moreover have "length (table_rows t2) \<le> length (concat (map ?in (s # ss))) + length (table_rows t)"
    using 2(7) 1(6) unfolding k by simp
  ultimately show ?case using 2(2,8) by blast
qed simp

end
