(* ===== verification/Sorted_Props.thy ===== *)
theory Sorted_Props
  imports Sorted_Merge
begin

text \<open>
  Rounds of writes to a sorted table refine updates of a map from keys to rows; its queries are
  exact; merges report changes. The properties of the component.
\<close>

section \<open>A merge\<close>

lemma forget_restrict: "forget keys mp = mp |` (- set keys)"
proof (induction keys arbitrary: mp)
  case (Cons key keys)
  then show ?case by (auto simp: restrict_map_def fun_eq_iff)
qed (simp add: restrict_map_def)

lemma serial_delete_eq: "serial_delete hf t = fold_out (delete_shard hf) [0..<length (st_shards t)] (t, False)"
  unfolding serial_delete_def delete_shard_def ..

lemma serial_insert_eq:
  "serial_insert hf m (t, x) = fold_out (insert_shard hf m) [0..<length (pending_rows (st_pending t))] (t, x, False)"
  unfolding serial_insert_def insert_shard_def by simp

lemma st_merge_refines:
  assumes inv: "table_inv hf t" and p: "pending_is hf t keys rows" and m: "merge_ok t m" and v: "round_value t rows v"
    and keys: "\<forall>key \<in> set keys. length key = st_keys t" and rows: "\<forall>r \<in> set rows. length r = st_columns t \<and> live r"
    and size: "int (length rows + length (table_rows t)) < 2 ^ 32"
  shows "\<exists>tc t' x'. st_merge hf m (t, x) = Ok (tc, t', x') \<and> table_inv hf t' \<and> evolves t t' \<and> idle t'
    \<and> (table_map t', x') = fold (map_insert m (st_keys t)) (by_shard hf (st_shard_bits t) (st_keys t) rows)
        (table_map t |` (- set keys), x)
    \<and> length (table_rows t') \<le> length rows + length (table_rows t) \<and> round_value t' rows v"
proof -
  let ?bits = "st_shard_bits t" and ?nk = "st_keys t"
  let ?t0 = "t\<lparr>st_pending := (st_pending t)\<lparr>total_removals := 0\<rparr>\<rparr>"
  have sh: "length (st_shards t) = n_shards ?bits" using inv by (simp add: table_inv_def hash_inv_def n_shards_def)
  have "table_inv hf ?t0" "distinct [0..<n_shards ?bits]" using inv by simp_all
  moreover have "\<forall>s \<in> set [0..<n_shards ?bits]. concat (map kb_rows (pending_removals (st_pending ?t0) ! s)) = in_shard hf (st_shard_bits ?t0) (st_keys ?t0) s keys"
    using p by (simp add: pending_is_def)
  moreover have "\<forall>key \<in> set keys. length key = st_keys ?t0" using keys by simp
  ultimately obtain t1 ch1 where
    1: "fold_out (delete_shard hf) [0..<n_shards ?bits] (?t0, False) = Ok (t1, ch1)" "table_inv hf t1" "evolves ?t0 t1"
      "table_map t1 = forget (concat (map (\<lambda>s. in_shard hf (st_shard_bits ?t0) (st_keys ?t0) s keys) [0..<n_shards ?bits])) (table_map ?t0)"
      "pending_removals (st_pending t1) = fold (\<lambda>s q. q[s := []]) [0..<n_shards ?bits] (pending_removals (st_pending ?t0))"
      "pending_rows (st_pending t1) = pending_rows (st_pending ?t0)"
      "length (table_rows t1) = length (table_rows ?t0)" "st_offsets t1 = st_offsets ?t0"
    using delete_shards [of hf ?t0 "[0..<n_shards ?bits]" keys False] by blast
  have del: "do_delete hf t = Ok (t1, ch1)" using 1(1) sh by (simp add: do_delete_def Let_def serial_delete_eq)
  let ?t1 = "t1\<lparr>st_pending := (st_pending t1)\<lparr>total_rows := 0\<rparr>\<rparr>"
  have sch: "evolves t ?t1" using 1(3) by (simp add: evolves_def)
  then have k: "st_keys ?t1 = ?nk" "st_shard_bits ?t1 = ?bits" "st_columns ?t1 = st_columns t" "st_sort_by ?t1 = st_sort_by t"
    by (simp_all add: evolves_def)
  have inv1: "table_inv hf ?t1" using 1(2) by simp
  have m1: "merge_ok ?t1 m" using merge_ok_schema [OF sch] m by blast
  have v1: "round_value ?t1 rows v" using v 1(8) k by (simp add: round_value_def offset_values_def)
  have pend: "\<forall>s \<in> set [0..<n_shards ?bits]. concat (map rb_non_stale (pending_rows (st_pending ?t1) ! s)) = in_shard hf (st_shard_bits ?t1) (st_keys ?t1) s rows"
    using p 1(6) k by (simp add: pending_is_def)
  have bs: "concat (map (\<lambda>s. in_shard hf (st_shard_bits ?t1) (st_keys ?t1) s r) [0..<n_shards ?bits]) = by_shard hf ?bits ?nk r" for r
    unfolding k by (simp add: by_shard_def)
  have "int (length (by_shard hf ?bits ?nk rows) + length (table_rows ?t1)) < 2 ^ 32" using size 1(7) by simp
  moreover have "\<forall>r \<in> set rows. length r = st_columns ?t1 \<and> live r" using rows k by simp
  ultimately obtain t2 x2 ch2 where
    2: "fold_out (insert_shard hf m) [0..<n_shards ?bits] (?t1, x, False) = Ok (t2, x2, ch2)" "table_inv hf t2" "evolves ?t1 t2"
      "(table_map t2, x2) = fold (map_insert m (st_keys ?t1)) (by_shard hf ?bits ?nk rows) (table_map ?t1, x)"
      "pending_rows (st_pending t2) = fold (\<lambda>s q. q[s := []]) [0..<n_shards ?bits] (pending_rows (st_pending ?t1))"
      "pending_removals (st_pending t2) = pending_removals (st_pending ?t1)"
      "length (table_rows t2) \<le> length (by_shard hf ?bits ?nk rows) + length (table_rows ?t1)" "round_value t2 rows v"
    using insert_shards [OF inv1 distinct_upt m1 v1 pend, where x = x and ch = False, unfolded bs] by blast
  have "length (pending_rows (st_pending ?t1)) = n_shards ?bits" using p 1(6) by (simp add: pending_is_def)
  then have ins: "serial_insert hf m (?t1, x) = Ok (t2, x2, ch2)" using 2(1) by (simp only: serial_insert_eq)
  from maybe_rehash_refines [OF 2(2)] obtain t3 where
    3: "maybe_rehash hf t2 = Ok t3" "table_inv hf t3" "evolves t2 t3" "table_map t3 = table_map t2"
      "st_pending t3 = st_pending t2" "length (table_rows t3) \<le> length (table_rows t2)" "offset_values t3 \<subseteq> offset_values t2" by blast
  have sch3: "evolves t t3" using evolves_trans [OF sch evolves_trans [OF 2(3) 3(3)]] .
  have run: "st_merge hf m (t, x) = Ok (\<lparr>tc_added = ch2, tc_removed = ch1\<rparr>, t3, x2)"
    using del ins 3(1) by (simp add: st_merge_def)
  have lens: "length (pending_rows (st_pending t)) = n_shards ?bits" "length (pending_removals (st_pending t)) = n_shards ?bits"
    using p by (simp_all add: pending_is_def)
  have "idle t3" unfolding idle_def 3(5) 2(5,6)
    using 1(5,6) sch3 clear_queues [of "pending_rows (st_pending t)"] clear_queues [of "pending_removals (st_pending t)"]
    by (simp add: evolves_def lens)
  moreover have "table_map ?t1 = table_map t |` (- set keys)"
    using 1(4) bs [of keys] unfolding k forget_restrict by (simp add: by_shard_def [symmetric])
  then have "(table_map t3, x2) = fold (map_insert m ?nk) (by_shard hf ?bits ?nk rows) (table_map t |` (- set keys), x)"
    using 2(4) 3(4) k(1) by simp
  moreover have "length (table_rows t3) \<le> length rows + length (table_rows t)" using 3(6) 2(7) 1(7) by simp
  moreover have "round_value t3 rows v" using 2(8) 3(3,7) by (auto simp: round_value_def evolves_def)
  ultimately show ?thesis using run 3(2) sch3 by blast
qed

section \<open>Looking up keys\<close>

lemma st_get_row_eq:
  assumes inv: "table_inv hf t" and key: "length key = st_keys t"
  shows "case table_map t key of
      None \<Rightarrow> st_get_row hf t key = Ok None
    | Some r \<Rightarrow> \<exists>i < length (table_rows t). table_rows t ! i = r \<and> st_get_row hf t key = Ok (Some (i, r))"
proof -
  let ?nk = "st_keys t" and ?rows = "table_rows t"
  have R: "rows_inv (st_columns t) (st_rows t)" and nk: "?nk \<le> st_columns t" and u: "unique_keys ?nk ?rows"
    and H: "hash_inv hf ?nk (st_shard_bits t) ?rows (st_shards t)" using inv by (simp_all add: table_inv_def)
  have test: "row_has_key (st_rows t) ?nk key i = Ok (take ?nk (?rows ! i) = take ?nk key)"
    if "i < length ?rows" "live (?rows ! i)" for i using key_tests(1) [OF R nk that] key by simp
  show ?thesis
  proof (cases "table_map t key")
    case None
    then have "\<forall>i. \<not> holds_at ?nk ?rows (take ?nk key) i" using key by (simp add: table_map_def rows_map_None)
    with get_entry_eq [OF H u _ test] key
    have "get_entry hf key ?nk (st_shard_bits t) (st_shards t) (row_has_key (st_rows t) ?nk key) = Ok None" by auto
    then show ?thesis using None by (simp add: st_get_row_def st_find_def)
  next
    case (Some r)
    then have cur: "table_map t (take ?nk key) = Some r" and le: "?nk \<le> length key" using key by simp_all
    obtain i s k where i: "i < length ?rows" "live (?rows ! i)" "?rows ! i = r"
      "get_entry hf key ?nk (st_shard_bits t) (st_shards t) (row_has_key (st_rows t) ?nk key) = Ok (Some (s, k, i))"
      using table_entry_of [OF inv _ test cur] le by blast
    moreover have "rows_get (st_rows t) i = Ok (Some r)" using rows_get_eq [OF R, of i] i by simp
    ultimately show ?thesis using Some by (auto simp: st_get_row_def st_find_def)
  qed
qed

section \<open>Rounds\<close>

text \<open>
  A round fills some buffers, each with removals and rows, drops them one after another and merges.
\<close>

type_synonym staged_buffer = "nat list list \<times> nat list list"

definition stage_buffer :: "hash_fn \<Rightarrow> staged_buffer \<Rightarrow> sorted_table \<Rightarrow> sorted_table result" where
  "stage_buffer hf w t =
     bind_o (fold_out (mb_stage_remove hf) (fst w) (st_new_buffer t)) (\<lambda>mb.
     bind_o (fold_out (mb_stage_insert hf) (snd w) mb) (\<lambda>mb. Ok (mb_drop mb t)))"

definition st_round :: "hash_fn \<Rightarrow> 'x merge_fn \<Rightarrow> staged_buffer list \<Rightarrow> sorted_table \<times> 'x \<Rightarrow> (sorted_table \<times> 'x) result" where
  "st_round hf m ws tx =
     bind_o (fold_out (stage_buffer hf) ws (fst tx)) (\<lambda>t.
     bind_o (st_merge hf m (t, snd tx)) (\<lambda>(_, tx'). Ok tx'))"

abbreviation removed_keys :: "staged_buffer list \<Rightarrow> nat list list" where
  "removed_keys ws \<equiv> concat (map fst ws)"

abbreviation staged_rows :: "staged_buffer list \<Rightarrow> nat list list" where
  "staged_rows ws \<equiv> concat (map snd ws)"

text \<open>On the map: forget the removed keys, then insert the rows shard by shard.\<close>

definition map_round ::
    "hash_fn \<Rightarrow> nat \<Rightarrow> 'x merge_fn \<Rightarrow> nat \<Rightarrow> staged_buffer list
      \<Rightarrow> (nat list \<rightharpoonup> nat list) \<times> 'x \<Rightarrow> (nat list \<rightharpoonup> nat list) \<times> 'x" where
  "map_round hf bits m nk ws mx =
     fold (map_insert m nk) (by_shard hf bits nk (staged_rows ws)) (fst mx |` (- set (removed_keys ws)), snd mx)"

definition buffer_ok :: "nat \<Rightarrow> nat \<Rightarrow> staged_buffer \<Rightarrow> bool" where
  "buffer_ok nk n w \<longleftrightarrow> (\<forall>key \<in> set (fst w). length key = nk) \<and> (\<forall>r \<in> set (snd w). length r = n \<and> live r)
     \<and> int (length (fst w)) < 2 ^ 32"

lemma mb_drop_table:
  "table_inv hf (mb_drop mb t) = table_inv hf t" "table_map (mb_drop mb t) = table_map t" "evolves t (mb_drop mb t)"
  "table_rows (mb_drop mb t) = table_rows t" "st_offsets (mb_drop mb t) = st_offsets t"
  by (simp_all add: mb_drop_def Let_def)

text \<open>Staging changes nothing but what is pending.\<close>

definition same_contents :: "sorted_table \<Rightarrow> sorted_table \<Rightarrow> bool" where
  "same_contents t t' \<longleftrightarrow> (\<exists>p. t' = t\<lparr>st_pending := p\<rparr>)"

lemma stage_buffer_ok:
  assumes t: "0 < st_columns t" "st_keys t \<le> st_columns t" and w: "buffer_ok (st_keys t) (st_columns t) w"
    and size: "int (length (snd w)) < 2 ^ 32" and p: "pending_is hf t keys rows"
  shows "\<exists>t'. stage_buffer hf w t = Ok t' \<and> pending_is hf t' (keys @ fst w) (rows @ snd w) \<and> same_contents t t'"
proof -
  from stage_removes_ok [OF staged_new, of "fst w" t hf] w obtain mb1 where
    1: "fold_out (mb_stage_remove hf) (fst w) (st_new_buffer t) = Ok mb1" "staged hf t mb1 (fst w) []"
    by (auto simp: buffer_ok_def)
  from stage_inserts_ok [OF 1(2), of "snd w"] w t size obtain mb2 where
    2: "fold_out (mb_stage_insert hf) (snd w) mb1 = Ok mb2" "staged hf t mb2 (fst w) (snd w)"
    by (auto simp: buffer_ok_def)
  have "\<forall>r \<in> set (snd w). live r" using w by (simp add: buffer_ok_def)
  from drop_pending [OF p 2(2) this] 1 2 show ?thesis
    by (auto simp: stage_buffer_def same_contents_def mb_drop_def Let_def)
qed

lemma same_contents_facts:
  assumes "same_contents t t'"
  shows "table_inv hf t' = table_inv hf t" "table_map t' = table_map t" "evolves t t'" "table_rows t' = table_rows t"
    "st_offsets t' = st_offsets t"
  using assms by (auto simp: same_contents_def)

lemma same_contents_trans: "same_contents t t' \<Longrightarrow> same_contents t' t'' \<Longrightarrow> same_contents t t''"
  by (auto simp: same_contents_def)

lemma stage_buffers_ok:
  assumes "0 < st_columns t" "st_keys t \<le> st_columns t" "\<forall>w \<in> set ws. buffer_ok (st_keys t) (st_columns t) w"
    and "int (length (staged_rows ws)) < 2 ^ 32" "pending_is hf t keys rows"
  shows "\<exists>t'. fold_out (stage_buffer hf) ws t = Ok t' \<and> pending_is hf t' (keys @ removed_keys ws) (rows @ staged_rows ws)
    \<and> same_contents t t'"
  using assms
proof (induction ws arbitrary: t keys rows)
  case Nil
  then show ?case by (auto simp: same_contents_def intro: exI [of _ "st_pending t"])
next
  case (Cons w ws)
  from stage_buffer_ok [OF Cons.prems(1,2) _ _ Cons.prems(5), of w] Cons.prems(3,4) obtain t1 where
    1: "stage_buffer hf w t = Ok t1" "pending_is hf t1 (keys @ fst w) (rows @ snd w)" "same_contents t t1" by auto
  have k: "st_columns t1 = st_columns t" "st_keys t1 = st_keys t" using same_contents_facts(3) [OF 1(3)] by (simp_all add: evolves_def)
  have "\<exists>t2. fold_out (stage_buffer hf) ws t1 = Ok t2 \<and> pending_is hf t2 ((keys @ fst w) @ removed_keys ws) ((rows @ snd w) @ staged_rows ws)
    \<and> same_contents t1 t2"
    using Cons.prems k by (intro Cons.IH [OF _ _ _ _ 1(2)]) simp_all
  then show ?case using 1(1,3) same_contents_trans by auto
qed

lemma st_round_refines:
  assumes inv: "table_inv hf t" and idle: "idle t" and m: "merge_ok t m" and v: "round_value t (staged_rows ws) v"
    and ws: "\<forall>w \<in> set ws. buffer_ok (st_keys t) (st_columns t) w"
    and size: "int (length (staged_rows ws) + length (table_rows t)) < 2 ^ 32"
  shows "\<exists>t' x'. st_round hf m ws (t, x) = Ok (t', x') \<and> table_inv hf t' \<and> evolves t t' \<and> idle t'
    \<and> (table_map t', x') = map_round hf (st_shard_bits t) m (st_keys t) ws (table_map t, x)
    \<and> length (table_rows t') \<le> length (staged_rows ws) + length (table_rows t) \<and> round_value t' (staged_rows ws) v"
proof -
  have "0 < st_columns t" "st_keys t \<le> st_columns t" using inv rows_inv_pos by (auto simp: table_inv_def)
  with stage_buffers_ok [OF _ _ ws _ idle_pending [OF idle], of hf] size obtain t1 where
    1: "fold_out (stage_buffer hf) ws t = Ok t1" "pending_is hf t1 (removed_keys ws) (staged_rows ws)" "same_contents t t1"
    by auto
  note same = same_contents_facts [OF 1(3)]
  have k: "st_columns t1 = st_columns t" "st_keys t1 = st_keys t" "st_sort_by t1 = st_sort_by t" "st_shard_bits t1 = st_shard_bits t"
    using same(3) by (simp_all add: evolves_def)
  have "table_inv hf t1" using inv same(1) by simp
  moreover have "merge_ok t1 m" using merge_ok_schema [OF same(3)] m by blast
  moreover have "round_value t1 (staged_rows ws) v" using v k(3) same(5) by (simp add: round_value_def offset_values_def)
  moreover have "\<forall>key \<in> set (removed_keys ws). length key = st_keys t1" "\<forall>r \<in> set (staged_rows ws). length r = st_columns t1 \<and> live r"
    using ws k by (auto simp: buffer_ok_def)
  moreover have "int (length (staged_rows ws) + length (table_rows t1)) < 2 ^ 32" using size same(4) by simp
  ultimately obtain tc t' x' where
    2: "st_merge hf m (t1, x) = Ok (tc, t', x')" "table_inv hf t'" "evolves t1 t'" "idle t'"
      "(table_map t', x') = fold (map_insert m (st_keys t1)) (by_shard hf (st_shard_bits t1) (st_keys t1) (staged_rows ws))
        (table_map t1 |` (- set (removed_keys ws)), x)"
      "length (table_rows t') \<le> length (staged_rows ws) + length (table_rows t1)" "round_value t' (staged_rows ws) v"
    using st_merge_refines [OF _ 1(2), where x = x] by blast
  have "st_round hf m ws (t, x) = Ok (t', x')" using 1(1) 2(1) by (simp add: st_round_def)
  moreover have "evolves t t'" using evolves_trans [OF same(3) 2(3)] .
  moreover have "(table_map t', x') = map_round hf (st_shard_bits t) m (st_keys t) ws (table_map t, x)"
    using 2(5) k same(2) by (simp add: map_round_def)
  ultimately show ?thesis using 2(2,4,6,7) same(4) by auto
qed


text \<open>Over several rounds the values of the sort column do not decrease.\<close>

definition rounds_sorted :: "nat option \<Rightarrow> staged_buffer list list \<Rightarrow> bool" where
  "rounds_sorted sort_by rounds = (case sort_by of None \<Rightarrow> True | Some c \<Rightarrow>
     sorted (map (\<lambda>r. r ! c) (concat (map staged_rows rounds)))
     \<and> (\<forall>ws \<in> set rounds. \<forall>r \<in> set (staged_rows ws). \<forall>r' \<in> set (staged_rows ws). r ! c = r' ! c))"

definition values_before :: "sorted_table \<Rightarrow> nat list list \<Rightarrow> bool" where
  "values_before t rows \<longleftrightarrow> (\<forall>c. st_sort_by t = Some c \<longrightarrow> (\<forall>w \<in> offset_values t. \<forall>r \<in> set rows. w \<le> r ! c))"

lemma round_value_exists:
  assumes sorted: "rounds_sorted (st_sort_by t) (ws # rounds)"
    and before: "values_before t (concat (map staged_rows (ws # rounds)))"
  shows "\<exists>v. round_value t (staged_rows ws) v
    \<and> (\<forall>c. st_sort_by t = Some c \<longrightarrow> (\<forall>r \<in> set (concat (map staged_rows rounds)). v \<le> r ! c))"
proof (cases "st_sort_by t")
  case None
  then show ?thesis by (simp add: round_value_def)
next
  case (Some c)
  have fin: "finite (offset_values t)" by (simp add: offset_values_def)
  have found: ?thesis if "round_value t (staged_rows ws) v" "\<forall>r \<in> set (concat (map staged_rows rounds)). v \<le> r ! c" for v
    using that by (intro exI [of _ v]) (simp add: Some)
  show ?thesis
  proof (cases "staged_rows ws")
    case Nil
    let ?v = "if offset_values t = {} then 0 else Max (offset_values t)"
    have "?v \<le> r ! c" if r: "r \<in> set (concat (map staged_rows rounds))" for r
    proof -
      have "r \<in> set (concat (map staged_rows (ws # rounds)))" using r by simp
      then have "\<forall>w \<in> offset_values t. w \<le> r ! c" using before Some unfolding values_before_def by blast
      then show ?thesis using fin by simp
    qed
    moreover have "round_value t (staged_rows ws) ?v" using Nil fin by (simp add: round_value_def)
    ultimately show ?thesis using found by blast
  next
    case (Cons r rs)
    have "sorted (map (\<lambda>r. r ! c) (concat (map staged_rows (ws # rounds))))
      \<and> (\<forall>ws \<in> set (ws # rounds). \<forall>r \<in> set (staged_rows ws). \<forall>r' \<in> set (staged_rows ws). r ! c = r' ! c)"
      using sorted unfolding rounds_sorted_def Some option.case .
    then have s: "sorted (map (\<lambda>r. r ! c) (concat (map staged_rows (ws # rounds))))"
      and same: "\<And>r r'. r \<in> set (staged_rows ws) \<Longrightarrow> r' \<in> set (staged_rows ws) \<Longrightarrow> r ! c = r' ! c"
      by (rule conjunct1, meson list.set_intros(1))
    have r: "r \<in> set (staged_rows ws)" using Cons by simp
    have "\<forall>r' \<in> set (staged_rows ws). r' ! c = r ! c" using same r by blast
    moreover have "\<forall>w \<in> offset_values t. w \<le> r ! c" using before Some Cons by (simp add: values_before_def)
    moreover have "\<forall>r' \<in> set (concat (map staged_rows rounds)). r ! c \<le> r' ! c" using s by (simp add: Cons)
    ultimately show ?thesis using Some by (intro found [of "r ! c"]) (simp_all add: round_value_def)
  qed
qed

lemma rounds_sorted_tl: "rounds_sorted c (ws # rounds) \<Longrightarrow> rounds_sorted c rounds"
proof (cases c)
  case (Some k)
  assume "rounds_sorted c (ws # rounds)"
  then have *: "sorted (map (\<lambda>r. r ! k) (concat (map staged_rows (ws # rounds))))"
    "\<forall>ws \<in> set (ws # rounds). \<forall>r \<in> set (staged_rows ws). \<forall>r' \<in> set (staged_rows ws). r ! k = r' ! k"
    unfolding rounds_sorted_def Some option.case by (rule conjunct1, rule conjunct2)
  from *(1) have "sorted (map (\<lambda>r. r ! k) (concat (map staged_rows rounds)))" by (simp add: sorted_append)
  moreover from *(2) have "\<forall>ws \<in> set rounds. \<forall>r \<in> set (staged_rows ws). \<forall>r' \<in> set (staged_rows ws). r ! k = r' ! k"
    by (meson list.set_intros(2))
  ultimately show ?thesis unfolding rounds_sorted_def Some option.case ..
qed (simp add: rounds_sorted_def)

lemma st_rounds_refine:
  assumes "table_inv hf t" "idle t" "merge_ok t m" "rounds_sorted (st_sort_by t) (rounds @ later)"
    and "values_before t (concat (map staged_rows (rounds @ later)))"
    and "\<forall>ws \<in> set rounds. \<forall>w \<in> set ws. buffer_ok (st_keys t) (st_columns t) w"
    and "int (length (concat (map staged_rows rounds)) + length (table_rows t)) < 2 ^ 32"
  shows "\<exists>t' x'. fold_out (st_round hf m) rounds (t, x) = Ok (t', x') \<and> table_inv hf t' \<and> evolves t t' \<and> idle t'
    \<and> values_before t' (concat (map staged_rows later))
    \<and> length (table_rows t') \<le> length (concat (map staged_rows rounds)) + length (table_rows t)
    \<and> (table_map t', x') = fold (map_round hf (st_shard_bits t) m (st_keys t)) rounds (table_map t, x)"
  using assms
proof (induction rounds arbitrary: t x)
  case Nil
  then show ?case by simp
next
  case (Cons ws rounds)
  note sorted = Cons.prems(4) [unfolded append_Cons] and before = Cons.prems(5) [unfolded append_Cons]
  from round_value_exists [OF sorted before] obtain v where
    v: "round_value t (staged_rows ws) v" "\<And>c r. st_sort_by t = Some c \<Longrightarrow> r \<in> set (concat (map staged_rows (rounds @ later))) \<Longrightarrow> v \<le> r ! c"
    by blast
  have ws: "\<forall>w \<in> set ws. buffer_ok (st_keys t) (st_columns t) w" using Cons.prems(6) by simp
  have "int (length (staged_rows ws) + length (table_rows t)) < 2 ^ 32" using Cons.prems(7) by simp
  from st_round_refines [OF Cons.prems(1-3) v(1) ws this, of x] obtain t1 x1 where
    1: "st_round hf m ws (t, x) = Ok (t1, x1)" "table_inv hf t1" "evolves t t1" "idle t1"
      "(table_map t1, x1) = map_round hf (st_shard_bits t) m (st_keys t) ws (table_map t, x)"
      "length (table_rows t1) \<le> length (staged_rows ws) + length (table_rows t)" "round_value t1 (staged_rows ws) v" by blast
  have k: "st_keys t1 = st_keys t" "st_columns t1 = st_columns t" "st_sort_by t1 = st_sort_by t" "st_shard_bits t1 = st_shard_bits t"
    using 1(3) by (simp_all add: evolves_def)
  have m1: "merge_ok t1 m" using merge_ok_schema [OF 1(3)] Cons.prems(3) by blast
  have "values_before t1 (concat (map staged_rows (rounds @ later)))"
    unfolding values_before_def
  proof (intro allI impI ballI)
    fix c w r assume c: "st_sort_by t1 = Some c" and w: "w \<in> offset_values t1" and r: "r \<in> set (concat (map staged_rows (rounds @ later)))"
    have "w \<le> v" using 1(7) c w by (simp add: round_value_def)
    also have "v \<le> r ! c" using v(2) [OF _ r] c k(3) by simp
    finally show "w \<le> r ! c" .
  qed
  moreover have "rounds_sorted (st_sort_by t1) (rounds @ later)" using rounds_sorted_tl [OF sorted] k(3) by simp
  moreover have "\<forall>ws \<in> set rounds. \<forall>w \<in> set ws. buffer_ok (st_keys t1) (st_columns t1) w" using Cons.prems(6) k by simp
  moreover have "int (length (concat (map staged_rows rounds)) + length (table_rows t1)) < 2 ^ 32" using Cons.prems(7) 1(6) by simp
  ultimately obtain t2 x2 where
    2: "fold_out (st_round hf m) rounds (t1, x1) = Ok (t2, x2)" "table_inv hf t2" "evolves t1 t2" "idle t2"
      "values_before t2 (concat (map staged_rows later))"
      "length (table_rows t2) \<le> length (concat (map staged_rows rounds)) + length (table_rows t1)"
      "(table_map t2, x2) = fold (map_round hf (st_shard_bits t1) m (st_keys t1)) rounds (table_map t1, x1)"
    using Cons.IH [OF 1(2,4) m1, of x1] by blast
  have "evolves t t2" using evolves_trans [OF 1(3) 2(3)] .
  moreover have "(table_map t2, x2) = fold (map_round hf (st_shard_bits t) m (st_keys t)) (ws # rounds) (table_map t, x)"
    using 2(7) k 1(5) by simp
  moreover have "length (table_rows t2) \<le> length (concat (map staged_rows (ws # rounds))) + length (table_rows t)"
    using 2(6) 1(6) by simp
  moreover have "fold_out (st_round hf m) (ws # rounds) (t, x) = Ok (t2, x2)" using 1(1) 2(1) by simp
  ultimately show ?case using 2(2,4,5) by blast
qed

lemma st_new_ok:
  assumes "0 < n" "nk \<le> n" "\<forall>c. sort_by = Some c \<longrightarrow> c < n"
  shows "\<exists>t. st_new bits nk n sort_by = Ok t \<and> table_inv hf t \<and> idle t \<and> table_map t = Map.empty \<and> table_rows t = []
    \<and> st_columns t = n \<and> st_keys t = nk \<and> st_sort_by t = sort_by \<and> st_shard_bits t = bits \<and> st_offsets t = []"
proof -
  from rb_new_wf [OF assms(1)] obtain b where
    b: "rb_new n = Ok b" "rb_wf b" "rb_iter b = []" "rb_cols b = n" "rb_total b = 0" by blast
  then show ?thesis using assms
    by (cases sort_by) (auto simp: st_new_def rows_new_def table_inv_def rows_inv_def unique_keys_def holds_at_def hash_inv_def
        n_shards_def table_map_def rows_map_def idle_def pending_new_def)
qed

text \<open>The merge functions of a table with \<open>n\<close> columns.\<close>

definition merges_rows :: "nat \<Rightarrow> nat \<Rightarrow> nat option \<Rightarrow> 'x merge_fn \<Rightarrow> bool" where
  "merges_rows nk n sort_by m \<longleftrightarrow> (\<forall>x cur new x' r. m x cur new = (x', Some r) \<longrightarrow>
     length cur = n \<longrightarrow> length new = n \<longrightarrow> live cur \<longrightarrow> live new \<longrightarrow> take nk cur = take nk new \<longrightarrow>
     length r = n \<and> take nk r = take nk new \<and> live r \<and> (\<forall>c. sort_by = Some c \<longrightarrow> r ! c = new ! c))"

lemma merges_rows_ok: "merge_ok t m = merges_rows (st_keys t) (st_columns t) (st_sort_by t) m"
  unfolding merge_ok_def merges_rows_def by blast

definition writes_ok :: "nat \<Rightarrow> nat \<Rightarrow> nat option \<Rightarrow> staged_buffer list list \<Rightarrow> bool" where
  "writes_ok nk n sort_by rounds \<longleftrightarrow> 0 < n \<and> nk \<le> n \<and> (\<forall>c. sort_by = Some c \<longrightarrow> c < n)
     \<and> (\<forall>ws \<in> set rounds. \<forall>w \<in> set ws. buffer_ok nk n w) \<and> rounds_sorted sort_by rounds
     \<and> int (length (concat (map staged_rows rounds))) < 2 ^ 32"

text \<open>A new table after some rounds.\<close>

definition st_run ::
    "hash_fn \<Rightarrow> nat \<Rightarrow> nat \<Rightarrow> nat \<Rightarrow> nat option \<Rightarrow> 'x merge_fn \<Rightarrow> staged_buffer list list \<Rightarrow> 'x \<Rightarrow> (sorted_table \<times> 'x) result" where
  "st_run hf bits nk n sort_by m rounds x =
     bind_o (st_new bits nk n sort_by) (\<lambda>t. fold_out (st_round hf m) rounds (t, x))"

lemma st_run_refines:
  assumes "writes_ok nk n sort_by (rounds @ later)" "merges_rows nk n sort_by m"
  shows "\<exists>t x'. st_run hf bits nk n sort_by m rounds x = Ok (t, x') \<and> table_inv hf t \<and> idle t
    \<and> st_keys t = nk \<and> st_columns t = n \<and> st_sort_by t = sort_by \<and> st_shard_bits t = bits
    \<and> (table_map t, x') = fold (map_round hf bits m nk) rounds (Map.empty, x)
    \<and> values_before t (concat (map staged_rows later)) \<and> length (table_rows t) \<le> length (concat (map staged_rows rounds))"
proof -
  from st_new_ok [of n nk sort_by bits hf] assms(1) obtain t0 where
    t0: "st_new bits nk n sort_by = Ok t0" "table_inv hf t0" "idle t0" "table_map t0 = Map.empty" "table_rows t0 = []"
      "st_columns t0 = n" "st_keys t0 = nk" "st_sort_by t0 = sort_by" "st_shard_bits t0 = bits" "st_offsets t0 = []"
    by (auto simp: writes_ok_def)
  have "merge_ok t0 m" using assms(2) t0(6-8) by (simp add: merges_rows_ok)
  moreover have "rounds_sorted (st_sort_by t0) (rounds @ later)" "values_before t0 (concat (map staged_rows (rounds @ later)))"
    "\<forall>ws \<in> set rounds. \<forall>w \<in> set ws. buffer_ok (st_keys t0) (st_columns t0) w"
    "int (length (concat (map staged_rows rounds)) + length (table_rows t0)) < 2 ^ 32"
    using assms(1) t0 by (auto simp: writes_ok_def values_before_def offset_values_def)
  ultimately obtain t x' where
    "fold_out (st_round hf m) rounds (t0, x) = Ok (t, x')" "table_inv hf t" "evolves t0 t" "idle t"
    "values_before t (concat (map staged_rows later))"
    "length (table_rows t) \<le> length (concat (map staged_rows rounds)) + length (table_rows t0)"
    "(table_map t, x') = fold (map_round hf (st_shard_bits t0) m (st_keys t0)) rounds (table_map t0, x)"
    using st_rounds_refine [OF t0(2,3), of m rounds later x] by blast
  then show ?thesis using t0 by (auto simp: st_run_def evolves_def)
qed

section \<open>Merges that keep no state\<close>

text \<open>For a key, the rows staged for it are merged in the order in which they were staged.\<close>

definition insert_value :: "(nat list \<Rightarrow> nat list \<Rightarrow> nat list option) \<Rightarrow> nat list \<Rightarrow> nat list option \<Rightarrow> nat list option" where
  "insert_value f q cur = (case cur of None \<Rightarrow> Some q | Some c \<Rightarrow> (case f c q of None \<Rightarrow> Some c | Some r \<Rightarrow> Some r))"

definition key_round ::
    "(nat list \<Rightarrow> nat list \<Rightarrow> nat list option) \<Rightarrow> nat \<Rightarrow> nat list \<Rightarrow> staged_buffer list \<Rightarrow> nat list option \<Rightarrow> nat list option" where
  "key_round f nk key ws cur =
     fold (insert_value f) (filter (\<lambda>r. take nk r = key) (staged_rows ws)) (if key \<in> set (removed_keys ws) then None else cur)"

lemma map_insert_pure:
  "map_insert (\<lambda>x cur new. (x, f cur new)) nk q (mp, x) = (mp(take nk q := insert_value f q (mp (take nk q))), x)"
  by (auto simp: map_insert_def insert_value_def fun_eq_iff split: option.split)

lemma map_inserts_pure:
  "fold (map_insert (\<lambda>x cur new. (x, f cur new)) nk) qs (mp, x)
     = ((\<lambda>key. fold (insert_value f) (filter (\<lambda>q. take nk q = key) qs) (mp key)), x)"
  by (induction qs arbitrary: mp) (auto simp: map_insert_pure fun_eq_iff)

lemma by_shard_key: "filter (\<lambda>q. take nk q = key) (by_shard hf bits nk qs) = filter (\<lambda>q. take nk q = key) qs"
proof -
  let ?F = "filter (\<lambda>q. take nk q = key) qs" and ?s = "shard_id bits (hf key)"
  have "filter (\<lambda>q. take nk q = key) (in_shard hf bits nk s qs) = (if s = ?s then ?F else [])" for s
    unfolding in_shard_def shard_of_def filter_filter by (auto intro!: filter_cong filter_False)
  then have "filter (\<lambda>q. take nk q = key) (by_shard hf bits nk qs) = concat (map (\<lambda>s. if s = ?s then ?F else []) [0..<n_shards bits])"
    by (simp add: by_shard_def filter_concat comp_def)
  also have "\<dots> = ?F"
  proof -
    have "concat (map (\<lambda>s. if s = ?s then ?F else []) [0..<k]) = (if ?s < k then ?F else [])" for k
      by (induction k) auto
    then show ?thesis by (simp add: n_shards_def shard_id_less)
  qed
  finally show ?thesis .
qed

lemma map_rounds_pure:
  "fst (fold (map_round hf bits (\<lambda>x cur new. (x, f cur new)) nk) rounds (mp, x)) key = fold (key_round f nk key) rounds (mp key)"
proof (induction rounds arbitrary: mp)
  case (Cons ws rounds)
  have "map_round hf bits (\<lambda>x cur new. (x, f cur new)) nk ws (mp, x)
      = ((\<lambda>key. key_round f nk key ws (mp key)), x)"
    by (simp add: map_round_def map_inserts_pure by_shard_key key_round_def restrict_map_def fun_eq_iff)
  then show ?case using Cons.IH by simp
qed simp

section \<open>The number of rows\<close>

lemma st_len_map:
  assumes "table_inv hf t"
  shows "st_len t = card (dom (table_map t))"
proof -
  let ?rows = "table_rows t" and ?nk = "st_keys t"
  have R: "rows_inv (st_columns t) (st_rows t)" and u: "unique_keys ?nk ?rows" using assms by (simp_all add: table_inv_def)
  have "distinct (map (take ?nk) (live_rows ?rows))"
  proof (unfold distinct_conv_nth, intro allI impI notI)
    fix i j assume ij: "i < length (map (take ?nk) (live_rows ?rows))" "j < length (map (take ?nk) (live_rows ?rows))" "i \<noteq> j"
      "map (take ?nk) (live_rows ?rows) ! i = map (take ?nk) (live_rows ?rows) ! j"
    have "live (live_rows ?rows ! k)" if "k < length (live_rows ?rows)" for k
      using nth_mem [OF that] by simp
    then have "holds_at ?nk (live_rows ?rows) (take ?nk (live_rows ?rows ! j)) i" "holds_at ?nk (live_rows ?rows) (take ?nk (live_rows ?rows ! j)) j"
      using ij by (simp_all add: holds_at_def)
    with unique_keys_compact [OF u] ij(3) show False by (auto simp: unique_keys_def)
  qed
  then have "card (dom (table_map t)) = length (live_rows ?rows)"
    using distinct_card by (fastforce simp: table_map_def rows_map_def dom_map_of_conv_image_fst image_image)
  moreover have "r_stale (st_rows t) + length (live_rows ?rows) = rb_total (r_data (st_rows t))" using R by (simp add: rows_inv_def)
  ultimately show ?thesis by (simp add: st_len_def)
qed

section \<open>Changes\<close>

lemma delete_keys_unchanged: "fold_out (delete_key hf s) keys (t, ch) = Ok (t', False) \<Longrightarrow> t' = t \<and> \<not> ch"
proof (induction keys arbitrary: t ch)
  case (Cons key keys)
  then obtain t1 ch1 where 1: "delete_key hf s key (t, ch) = Ok (t1, ch1)" "fold_out (delete_key hf s) keys (t1, ch1) = Ok (t', False)"
    by (auto simp: bind_o_eq_Ok)
  from Cons.IH [OF 1(2)] have "t' = t1" "\<not> ch1" by simp_all
  with 1(1) show ?case by (auto simp: delete_key_def Let_def bind_o_eq_Ok split: if_splits option.splits)
qed simp

lemma insert_query_unchanged:
  assumes "insert_query hf m q (t, x, ch) = Ok (t1, x1, False)"
  shows "t1 = t \<and> \<not> ch"
proof -
  let ?test = "\<lambda>key. row_has_key_or_stale (st_rows t) (st_keys t) key"
  obtain key entry where e: "slice_o q 0 (st_keys t) = Ok key"
    "get_entry hf q (st_keys t) (st_shard_bits t) (st_shards t) (?test key) = Ok entry"
    using assms by (auto simp: insert_query_def bind_o_eq_Ok)
  show ?thesis
  proof (cases entry)
    case None
    with assms e show ?thesis by (auto simp: insert_query_def bind_o_eq_Ok)
  next
    case (Some a)
    obtain s k i where a: "a = (s, k, i)" by (cases a) auto
    with assms e Some obtain cur where c: "rows_get (st_rows t) i = Ok (Some cur)"
      by (auto simp: insert_query_def bind_o_eq_Ok opt_o_Panic_Ok)
    obtain y r where m: "m x cur q = (y, r)" by force
    show ?thesis
    proof (cases r)
      case None
      with assms e Some a c m show ?thesis by (simp add: insert_query_def)
    next
      case (Some row)
      with assms e \<open>entry = Some a\<close> a c m show ?thesis by (auto simp: insert_query_def bind_o_eq_Ok)
    qed
  qed
qed

lemma insert_queries_unchanged: "fold_out (insert_query hf m) qs (t, x, ch) = Ok (t', x', False) \<Longrightarrow> t' = t \<and> \<not> ch"
proof (induction qs arbitrary: t x ch)
  case (Cons q qs)
  then obtain t1 x1 ch1 where 1: "insert_query hf m q (t, x, ch) = Ok (t1, x1, ch1)" "fold_out (insert_query hf m) qs (t1, x1, ch1) = Ok (t', x', False)"
    by (auto simp: bind_o_eq_Ok)
  from Cons.IH [OF 1(2)] have "t' = t1" "\<not> ch1" by simp_all
  with insert_query_unchanged [of hf m q t x ch t1 x1] 1(1) show ?case by simp
qed simp

lemma delete_shards_unchanged: "fold_out (delete_shard hf) ss (t, ch) = Ok (t', False) \<Longrightarrow> same_contents t t' \<and> \<not> ch"
proof (induction ss arbitrary: t ch)
  case Nil
  then show ?case by (auto simp: same_contents_def intro: exI [of _ "st_pending t"])
next
  case (Cons s ss)
  then obtain t1 ch1 where 1: "delete_shard hf s (t, ch) = Ok (t1, ch1)" "fold_out (delete_shard hf) ss (t1, ch1) = Ok (t', False)"
    by (auto simp: bind_o_eq_Ok)
  from Cons.IH [OF 1(2)] have 2: "same_contents t1 t'" "\<not> ch1" by simp_all
  then have "fold_out (delete_key hf s) (fst (take_removals s t)) (snd (take_removals s t), ch) = Ok (t1, False)"
    using 1(1) by (simp add: delete_shard_def case_prod_unfold Let_def)
  from delete_keys_unchanged [OF this] have "t1 = snd (take_removals s t) \<and> \<not> ch" .
  then show ?case using 2 by (auto simp: same_contents_def take_removals_eq)
qed

lemma insert_shards_unchanged: "fold_out (insert_shard hf m) ss (t, x, ch) = Ok (t', x', False) \<Longrightarrow> same_contents t t' \<and> \<not> ch"
proof (induction ss arbitrary: t x ch)
  case Nil
  then show ?case by (auto simp: same_contents_def intro: exI [of _ "st_pending t"])
next
  case (Cons s ss)
  then obtain t1 x1 ch1 where 1: "insert_shard hf m s (t, x, ch) = Ok (t1, x1, ch1)" "fold_out (insert_shard hf m) ss (t1, x1, ch1) = Ok (t', x', False)"
    by (auto simp: bind_o_eq_Ok)
  from Cons.IH [OF 1(2)] have 2: "same_contents t1 t'" "\<not> ch1" by simp_all
  then have "fold_out (insert_query hf m) (fst (take_rows s t)) (snd (take_rows s t), x, ch) = Ok (t1, x1, False)"
    using 1(1) by (simp add: insert_shard_def case_prod_unfold Let_def)
  from insert_queries_unchanged [OF this] have "t1 = snd (take_rows s t) \<and> \<not> ch" .
  then show ?case using 2 by (auto simp: same_contents_def take_rows_eq)
qed

lemma st_merge_unchanged:
  assumes inv: "table_inv hf t" and run: "st_merge hf m (t, x) = Ok (\<lparr>tc_added = False, tc_removed = False\<rparr>, t', x')"
  shows "table_map t' = table_map t"
proof -
  obtain t1 t2 where
    1: "do_delete hf t = Ok (t1, False)" and
    2: "serial_insert hf m (t1\<lparr>st_pending := (st_pending t1)\<lparr>total_rows := 0\<rparr>\<rparr>, x) = Ok (t2, x', False)" and
    3: "maybe_rehash hf t2 = Ok t'"
    using run by (auto simp: st_merge_def bind_o_eq_Ok)
  have "same_contents t t1" using delete_shards_unchanged 1
    by (fastforce simp: do_delete_def Let_def serial_delete_eq same_contents_def)
  moreover have "same_contents (t1\<lparr>st_pending := (st_pending t1)\<lparr>total_rows := 0\<rparr>\<rparr>) t2"
    using insert_shards_unchanged 2 by (fastforce simp: serial_insert_eq)
  ultimately have s: "same_contents t t2" by (auto simp: same_contents_def)
  then have "table_inv hf t2" using inv same_contents_facts(1) by simp
  from maybe_rehash_refines [OF this] 3 have "table_map t' = table_map t2" by auto
  then show ?thesis using same_contents_facts(2) [OF s] by simp
qed

end
