(* ===== verification/Sorted_Queries.thy ===== *)
theory Sorted_Queries
  imports Sorted_Props
begin

text \<open>
  Sorted tables keep the contract of tables: the offsets of the sort column delimit the rows before,
  with and after a value. The properties of sorted tables.
\<close>

section \<open>Searching the sort column\<close>

definition st_ok :: "sorted_table \<Rightarrow> bool" where
  "st_ok t \<longleftrightarrow> (\<exists>hf. table_inv hf t)"

definition st_row :: "sorted_table \<Rightarrow> nat \<Rightarrow> nat list option" where
  "st_row t i = (case rows_get (st_rows t) i of Ok r \<Rightarrow> r | _ \<Rightarrow> None)"

lemma st_ok_rows: "st_ok t \<Longrightarrow> rows_inv (st_columns t) (st_rows t)"
  by (auto simp: st_ok_def table_inv_def)

lemma st_row_eq:
  "st_ok t \<Longrightarrow> st_row t i = (if i < length (table_rows t) \<and> live (table_rows t ! i) then Some (table_rows t ! i) else None)"
  using rows_get_eq [OF st_ok_rows, of t i] by (simp add: st_row_def)

lemma st_rows_fit: "st_ok t \<Longrightarrow> int (length (table_rows t)) < 2 ^ 32"
  using st_ok_rows by (auto simp: rows_inv_def)

text \<open>The first row of the \<open>k\<close>-th value.\<close>

definition value_start :: "sorted_table \<Rightarrow> nat \<Rightarrow> nat" where
  "value_start t k = (if k < length (st_offsets t) then snd (st_offsets t ! k) else length (table_rows t))"

lemma offset_row_eq: "st_ok t \<Longrightarrow> offset_row t k = Ok (value_start t k)"
  using next_row_eq [OF st_ok_rows] by (simp add: offset_row_def value_start_def)

lemma st_ok_sort: "st_ok t \<Longrightarrow> st_sort_by t = Some c \<Longrightarrow> sort_ok (Some c) (st_offsets t) (table_rows t)"
  by (auto simp: st_ok_def table_inv_def)

lemma value_start_mono:
  assumes "st_ok t" "st_sort_by t = Some c" "j \<le> k"
  shows "value_start t j \<le> value_start t k" "value_start t k \<le> length (table_rows t)"
proof -
  let ?offs = "st_offsets t"
  have s: "sorted_wrt (<) (map snd ?offs)" and less: "\<forall>p \<in> set ?offs. snd p < length (table_rows t)"
    using st_ok_sort [OF assms(1,2)] by simp_all
  show "value_start t j \<le> value_start t k"
  proof (cases "k < length ?offs")
    case True
    then have "j = k \<or> snd (?offs ! j) < snd (?offs ! k)"
      using sorted_wrt_nth_less [OF s, of j k] assms(3) by (cases "j = k") simp_all
    then show ?thesis using True assms(3) by (auto simp: value_start_def)
  next
    case False
    then show ?thesis using less by (simp add: value_start_def less_imp_le)
  qed
  show "value_start t k \<le> length (table_rows t)" using less by (simp add: value_start_def less_imp_le)
qed

text \<open>A live row lies in the range of its value.\<close>

lemma row_in_range:
  assumes t: "st_ok t" "st_sort_by t = Some c" and i: "i < length (table_rows t)" "live (table_rows t ! i)"
  shows "\<exists>k < length (st_offsets t). fst (st_offsets t ! k) = table_rows t ! i ! c \<and> (\<forall>j. i < value_start t j \<longleftrightarrow> k < j)"
proof -
  let ?offs = "st_offsets t"
  have ok: "sort_ok (Some c) ?offs (table_rows t)" using st_ok_sort [OF t] .
  then have s: "sorted_wrt (<) (map fst ?offs)" by simp
  from ok i obtain p where p: "p \<in> set ?offs" "snd p \<le> i" "fst p = table_rows t ! i ! c"
    "\<forall>q \<in> set ?offs. snd q \<le> i \<longrightarrow> fst q \<le> fst p" by auto
  then obtain k where k: "k < length ?offs" "?offs ! k = p" by (meson in_set_conv_nth)
  have "i < value_start t j \<longleftrightarrow> k < j" for j
  proof
    assume "i < value_start t j"
    moreover have "value_start t k \<le> i" using k p(2) by (simp add: value_start_def)
    ultimately show "k < j" using value_start_mono(1) [OF t, of j k] by (meson leD leI le_less_trans less_le_trans)
  next
    assume kj: "k < j"
    show "i < value_start t j"
    proof (cases "j < length ?offs")
      case True
      have "fst p < fst (?offs ! j)" using sorted_wrt_nth_less [OF s, of k j] kj True k by simp
      then have "\<not> snd (?offs ! j) \<le> i" using p(4) True nth_mem [OF True] by (meson leD)
      then show ?thesis using True by (simp add: value_start_def)
    qed (use i in \<open>simp add: value_start_def\<close>)
  qed
  then show ?thesis using k p(3) by blast
qed

definition value_range :: "sorted_table \<Rightarrow> nat \<Rightarrow> nat \<Rightarrow> nat \<Rightarrow> nat \<Rightarrow> bool" where
  "value_range t c v a e \<longleftrightarrow> a \<le> e \<and> e \<le> length (table_rows t)
     \<and> (\<forall>i r. st_row t i = Some r \<longrightarrow> i < length (table_rows t) \<and> (i < a \<longleftrightarrow> r ! c < v) \<and> (i < e \<longleftrightarrow> r ! c \<le> v))"

lemma binary_search_sort_val_eq:
  assumes t: "st_ok t" "st_sort_by t = Some c"
  shows "(\<exists>a e. binary_search_sort_val t v = Ok (InRange a e) \<and> value_range t c v a e)
    \<or> (\<exists>a. binary_search_sort_val t v = Ok (Before a) \<and> value_range t c v a a)"
proof -
  let ?offs = "st_offsets t"
  have ok: "sort_ok (Some c) ?offs (table_rows t)" using st_ok_sort [OF t] .
  then have strict: "sorted_wrt (<) (map fst ?offs)" by simp
  then have s: "sorted (map fst ?offs)" by (rule strict_sorted)
  have range: "value_range t c v (value_start t j) (value_start t j')"
    if j: "j \<le> j'" "\<And>k. k < length ?offs \<Longrightarrow> (k < j \<longleftrightarrow> fst (?offs ! k) < v)" "\<And>k. k < length ?offs \<Longrightarrow> (k < j' \<longleftrightarrow> fst (?offs ! k) \<le> v)" for j j'
    unfolding value_range_def
  proof (intro conjI allI impI)
    show "value_start t j \<le> value_start t j'" "value_start t j' \<le> length (table_rows t)"
      using value_start_mono [OF t j(1)] by simp_all
    fix i r assume "st_row t i = Some r"
    then have i: "i < length (table_rows t)" "live (table_rows t ! i)" "r = table_rows t ! i"
      using st_row_eq [OF t(1), of i] by (simp_all split: if_splits)
    from row_in_range [OF t i(1,2)] obtain k where
      k: "k < length ?offs" "fst (?offs ! k) = r ! c" "\<forall>j. i < value_start t j \<longleftrightarrow> k < j" using i(3) by blast
    show "i < length (table_rows t)" by (rule i(1))
    show "i < value_start t j \<longleftrightarrow> r ! c < v" "i < value_start t j' \<longleftrightarrow> r ! c \<le> v"
      using k(3) j(2) [OF k(1)] j(3) [OF k(1)] unfolding k(2) by simp_all
  qed
  show ?thesis
  proof (cases "binary_search (map fst ?offs) v")
    case (Found j)
    then have j: "j < length ?offs" "fst (?offs ! j) = v" using binary_search_spec [OF s, of v] by auto
    have less: "fst (?offs ! k) < fst (?offs ! k')" if "k < k'" "k' < length ?offs" for k k'
      using sorted_wrt_nth_less [OF strict, of k k'] that by simp
    have "k < j \<longleftrightarrow> fst (?offs ! k) < v" "k < Suc j \<longleftrightarrow> fst (?offs ! k) \<le> v" if "k < length ?offs" for k
      using less [of k j] less [of j k] that j by (cases k j rule: linorder_cases; simp)+
    then have "value_range t c v (value_start t j) (value_start t (Suc j))" by (intro range) simp_all
    then show ?thesis using Found j(1) offset_row_eq [OF t(1)]
      by (simp add: binary_search_sort_val_def value_start_def [of t j])
  next
    case (Absent j)
    then have j: "j \<le> length ?offs" "\<And>k. k < j \<Longrightarrow> fst (?offs ! k) < v" "\<And>k. j \<le> k \<Longrightarrow> k < length ?offs \<Longrightarrow> v < fst (?offs ! k)"
      using binary_search_spec [OF s, of v] by auto
    have "k < j \<longleftrightarrow> fst (?offs ! k) < v" "k < j \<longleftrightarrow> fst (?offs ! k) \<le> v" if "k < length ?offs" for k
      using j(2) [of k] j(3) [of k] that by (cases "k < j"; simp)+
    then have "value_range t c v (value_start t j) (value_start t j)" by (intro range) simp_all
    then show ?thesis using Absent offset_row_eq [OF t(1)] by (simp add: binary_search_sort_val_def)
  qed
qed

section \<open>The contract of tables\<close>

lemma offsets_dense_range [simp]: "offsets (dense_range a b) = [a..<b]"
  by (simp add: dense_range_def)

lemma wf_dense_range: "st_ok t \<Longrightarrow> a \<le> b \<Longrightarrow> b \<le> length (table_rows t) \<Longrightarrow> wf_subset (dense_range a b)"
  using st_rows_fit by (fastforce simp: dense_range_def)

lemma st_fast_right:
  assumes ok: "st_ok t"
  shows "\<exists>f. st_fast_subset t c = Ok f \<and> (\<forall>s. f = Some s \<longrightarrow> wf_subset s \<and>
    (\<forall>i row. st_row t i = Some row \<longrightarrow> (i \<in> set (offsets s) \<longleftrightarrow> satisfies row c)))"
proof -
  let ?n = "length (table_rows t)"
  have n: "next_row (st_rows t) = Ok ?n" using next_row_eq [OF st_ok_rows [OF ok]] by simp
  have *: "\<exists>f. on_sort_col t col v g = Ok f \<and> (\<forall>s. f = Some s \<longrightarrow> wf_subset s \<and>
      (\<forall>i row. st_row t i = Some row \<longrightarrow> (i \<in> set (offsets s) \<longleftrightarrow> P row)))"
    if in_range: "\<And>a e. value_range t col v a e \<Longrightarrow> \<exists>s. g (InRange a e) = Ok s \<and> wf_subset s \<and> (\<forall>i row. st_row t i = Some row \<longrightarrow> (i \<in> set (offsets s) \<longleftrightarrow> P row))"
      and before: "\<And>a. value_range t col v a a \<Longrightarrow> \<exists>s. g (Before a) = Ok s \<and> wf_subset s \<and> (\<forall>i row. st_row t i = Some row \<longrightarrow> (i \<in> set (offsets s) \<longleftrightarrow> P row))"
    for col v g P
  proof (cases "st_sort_by t = Some col")
    case True
    from binary_search_sort_val_eq [OF ok True, of v] show ?thesis
    proof (elim disjE exE conjE)
      fix a e assume "binary_search_sort_val t v = Ok (InRange a e)" "value_range t col v a e"
      with in_range [of a e] True show ?thesis by (auto simp: on_sort_col_def)
    next
      fix a assume "binary_search_sort_val t v = Ok (Before a)" "value_range t col v a a"
      with before [of a] True show ?thesis by (auto simp: on_sort_col_def)
    qed
  qed (auto simp: on_sort_col_def)
  have range: "a \<le> e" "e \<le> ?n" "a \<le> ?n"
    and row: "\<And>i row. st_row t i = Some row \<Longrightarrow> i < ?n \<and> (i < a \<longleftrightarrow> row ! col < v) \<and> (i < e \<longleftrightarrow> row ! col \<le> v)"
    if "value_range t col v a e" for a e col v
    using that unfolding value_range_def by auto
  have dense: "\<exists>s. Ok (dense_range x y) = Ok s \<and> wf_subset s \<and> (\<forall>i row. st_row t i = Some row \<longrightarrow> (i \<in> set (offsets s) \<longleftrightarrow> P row))"
    if "x \<le> y" "y \<le> ?n" "\<And>i row. st_row t i = Some row \<Longrightarrow> (x \<le> i \<and> i < y \<longleftrightarrow> P row)" for x y P
    using that wf_dense_range [OF ok that(1,2)] by simp
  show ?thesis
  proof (cases c)
    case (CEq a b)
    then show ?thesis by simp
  next
    case (CEqConst col v)
    show ?thesis unfolding CEqConst st_fast_subset.simps satisfies.simps
    proof (rule *)
      fix a e assume r: "value_range t col v a e"
      show "\<exists>s. (case InRange a e of InRange a e \<Rightarrow> Ok (dense_range a e) | Before _ \<Rightarrow> Ok empty_subset) = Ok s \<and> wf_subset s
        \<and> (\<forall>i row. st_row t i = Some row \<longrightarrow> (i \<in> set (offsets s)) = (row ! col = v))"
        unfolding sort_bounds.case using range [OF r] row [OF r] by (intro dense) (auto simp: not_less [symmetric])
    next
      fix a assume r: "value_range t col v a a"
      show "\<exists>s. (case Before a of InRange a e \<Rightarrow> Ok (dense_range a e) | Before _ \<Rightarrow> Ok empty_subset) = Ok s \<and> wf_subset s
        \<and> (\<forall>i row. st_row t i = Some row \<longrightarrow> (i \<in> set (offsets s)) = (row ! col = v))"
        using row [OF r] by (auto simp: empty_subset_def)
    qed
  next
    case (CLtConst col v)
    show ?thesis unfolding CLtConst st_fast_subset.simps satisfies.simps
    proof (rule *, goal_cases)
      case (1 a e)
      then show ?case unfolding sort_bounds.case using range [OF 1] row [OF 1] by (intro dense) (auto simp: not_less [symmetric])
    next
      case (2 a)
      then show ?case unfolding sort_bounds.case using range [OF 2] row [OF 2] by (intro dense) (auto simp: not_less [symmetric])
    qed
  next
    case (CGtConst col v)
    show ?thesis unfolding CGtConst st_fast_subset.simps satisfies.simps
    proof (rule *, goal_cases)
      case (1 a e)
      then show ?case unfolding sort_bounds.case n bind_o.simps using range [OF 1] row [OF 1] by (intro dense) (auto simp: not_less [symmetric])
    next
      case (2 a)
      then show ?case unfolding sort_bounds.case n bind_o.simps using range [OF 2] row [OF 2] by (intro dense) (auto simp: not_less [symmetric])
    qed
  next
    case (CLeConst col v)
    show ?thesis unfolding CLeConst st_fast_subset.simps satisfies.simps
    proof (rule *, goal_cases)
      case (1 a e)
      then show ?case unfolding sort_bounds.case using range [OF 1] row [OF 1] by (intro dense) (auto simp: not_less [symmetric])
    next
      case (2 a)
      then show ?case unfolding sort_bounds.case using range [OF 2] row [OF 2] by (intro dense) (auto simp: not_less [symmetric])
    qed
  next
    case (CGeConst col v)
    show ?thesis unfolding CGeConst st_fast_subset.simps satisfies.simps
    proof (rule *, goal_cases)
      case (1 a e)
      then show ?case unfolding sort_bounds.case n bind_o.simps using range [OF 1] row [OF 1] by (intro dense) (auto simp: not_less [symmetric])
    next
      case (2 a)
      then show ?case unfolding sort_bounds.case n bind_o.simps using range [OF 2] row [OF 2] by (intro dense) (auto simp: not_less [symmetric])
    qed
  qed
qed

lemma st_eval_eq:
  assumes ok: "st_ok t" and c: "in_cols (st_columns t) c" and i: "i < length (table_rows t)"
  shows "st_eval t [c] i = Ok (\<exists>row. st_row t i = Some row \<and> satisfies row c)"
proof -
  note R = st_ok_rows [OF ok]
  have "in_cols (length (table_rows t ! i)) c" using c rows_inv_arity [OF R i] by simp
  from eval_constraint_eq [OF this] show ?thesis
    using i by (auto simp: st_eval_def get_if_def rows_get_eq [OF R] st_row_eq [OF ok])
qed

interpretation stq: table_queries st_ok "\<lambda>t. length (table_rows t)" st_columns st_row st_all st_fast_subset st_refine_one
proof
  fix t c s
  assume ok: "st_ok t"
  show "\<exists>s. st_all t = Ok s \<and> wf_subset s \<and> offsets s = [0..<length (table_rows t)]"
    using next_row_eq [OF st_ok_rows [OF ok]] wf_dense_range [OF ok] by (simp add: st_all_def)
  assume cols: "in_cols (st_columns t) c"
  show "\<exists>r. st_fast_subset t c = Ok r \<and> (\<forall>s. r = Some s \<longrightarrow> wf_subset s \<and>
      (\<forall>i row. st_row t i = Some row \<longrightarrow> (i \<in> set (offsets s) \<longleftrightarrow> satisfies row c)))"
    by (rule st_fast_right [OF ok])
  assume s: "wf_subset s" "set (offsets s) \<subseteq> {..<length (table_rows t)}"
  show "\<exists>s'. st_refine_one t s c = Ok s' \<and> wf_subset s' \<and>
      offsets s' = filter (\<lambda>i. \<exists>row. st_row t i = Some row \<and> satisfies row c) (offsets s)"
    unfolding st_refine_one_def using s st_eval_eq [OF ok cols] by (intro retain_o_eq) auto
qed

end
