(* ===== verification/Sorted_Results.thy ===== *)
theory Sorted_Results
  imports Sorted_Queries
begin

text \<open>The properties of sorted tables.\<close>

section \<open>Contents\<close>

text \<open>The merge function that keeps the new row, for examples.\<close>

definition overwrite :: "nat merge_fn" where
  "overwrite x cur new = (x, Some new)"

lemma merges_rows_overwrite: "merges_rows nk n c overwrite"
  by (simp add: merges_rows_def overwrite_def)





section \<open>Queries\<close>

text \<open>C16: on every table that rounds of writes build, splitting the constraints of a query into
  those on the sort column, answered from its offsets, and the rest, then filtering by the rest,
  leaves exactly the live rows that satisfy all of them (besides stale rows).\<close>

theorem sorted_queries_exact:
  assumes "writes_ok nk n sort_by rounds" "merges_rows nk n sort_by m" "\<forall>c \<in> set cs. in_cols n c"
  shows "\<exists>t x' s quick slow s'. st_run hf bits nk n sort_by m rounds x = Ok (t, x')
    \<and> split_fast_slow (st_all t) (st_fast_subset t) cs = Ok (s, quick, slow)
    \<and> refine (st_refine_one t) s slow = Ok s'
    \<and> filter (\<lambda>i. st_row t i \<noteq> None) (offsets s')
        = filter (\<lambda>i. \<exists>r. st_row t i = Some r \<and> (\<forall>c \<in> set cs. satisfies r c)) [0..<length (table_rows t)]"
proof -
  from st_run_refines [of nk n sort_by rounds "[]" m hf bits x] assms obtain t x' where
    t: "st_run hf bits nk n sort_by m rounds x = Ok (t, x')" "table_inv hf t" "st_columns t = n" by auto
  have "st_ok t" using t(2) by (auto simp: st_ok_def)
  from stq.split_then_refine [OF this, of cs] assms(3) t(3) obtain s quick slow s' where
    "split_fast_slow (st_all t) (st_fast_subset t) cs = Ok (s, quick, slow)" "refine (st_refine_one t) s slow = Ok s'"
    "stq.live t (offsets s') = filter (stq.matching t (set cs)) [0..<length (table_rows t)]" by blast
  with t(1) show ?thesis by (auto simp: stq.live_def stq.matching_def [abs_def])
qed

theorem sorted_queries_exact_witness:
  "\<exists>t x' s quick slow s'. st_run (\<lambda>_. 0) 0 1 2 (Some 1) overwrite [[([], [[5, 1]])], [([], [[7, 2], [5, 2]])]] 0 = Ok (t, x')
    \<and> split_fast_slow (st_all t) (st_fast_subset t) [CGtConst 1 1, CEqConst 0 5] = Ok (s, quick, slow)
    \<and> refine (st_refine_one t) s slow = Ok s'"
proof -
  have "writes_ok 1 2 (Some 1) [[([], [[5, 1]])], [([], [[7, 2], [5, 2]])]]"
    by (simp add: writes_ok_def rounds_sorted_def buffer_ok_def is_stale_def)
  then show ?thesis
    using sorted_queries_exact [OF _ merges_rows_overwrite, of 1 2 "Some 1" "[[([], [[5, 1]])], [([], [[7, 2], [5, 2]])]]" 
        "[CGtConst 1 1, CEqConst 0 5]" "\<lambda>_. 0" 0 0] by auto
qed

text \<open>The rows a scan passes over.\<close>

lemma scan_rows_eq:
  assumes "\<forall>i \<in> set is. f i = Ok (if p i then Some (r i) else None)"
  shows "scan_rows f is = Ok (map (\<lambda>i. (i, r i)) (filter p is))"
proof -
  have "fold_out (\<lambda>i out. bind_o (f i) (\<lambda>x. Ok (case x of None \<Rightarrow> out | Some row \<Rightarrow> out @ [(i, row)]))) is out
      = Ok (out @ map (\<lambda>i. (i, r i)) (filter p is))" for out
    using assms by (induction "is" arbitrary: out) simp_all
  then show ?thesis by (simp add: scan_rows_def)
qed

lemma in_table_eq:
  assumes ok: "st_ok t" and s: "wf_subset s" "offsets s \<noteq> []" "set (offsets s) \<subseteq> {..<length (table_rows t)}"
  shows "in_table t s = Ok True"
proof -
  have total: "rb_total (r_data (st_rows t)) = length (table_rows t)" using rows_inv_total [OF st_ok_rows [OF ok]] .
  show ?thesis
  proof (cases s)
    case (Dense r)
    then have "or_end r - 1 \<in> set (offsets s)" using s(2) by auto
    then have "or_end r \<le> length (table_rows t)" using s(3) by auto
    then show ?thesis using Dense total by (simp add: in_table_def del: rb_rows_length)
  next
    case (Sparse xs)
    then have "last xs < length (table_rows t)" using s(2,3) last_in_set by fastforce
    then show ?thesis using Sparse s st_rows_fit [OF ok] total by (simp add: in_table_def row_id_def del: rb_rows_length)
  qed
qed

text \<open>C19: a bounded scan without constraints reports the live rows of its range; with constraints
  it does not look at whether a row was removed, and reports every row whose stored values satisfy
  them.\<close>

theorem scans_differ_on_removed_rows:
  assumes "st_ok t" "wf_subset s" "offsets s \<noteq> []" "set (offsets s) \<subseteq> {..<length (table_rows t)}"
    and "iter_bounded s start (start + k) = Ok (is, next)" "set is \<subseteq> set (offsets s)"
    and "cs \<noteq> []" "\<forall>c \<in> set cs. in_cols (st_columns t) c"
  shows "st_scan t s start k [] = Ok (map (\<lambda>i. (i, table_rows t ! i)) (filter (\<lambda>i. live (table_rows t ! i)) is), next)
    \<and> st_scan t s start k cs = Ok (map (\<lambda>i. (i, table_rows t ! i)) (filter (\<lambda>i. \<forall>c \<in> set cs. satisfies (table_rows t ! i) c) is), next)"
proof -
  let ?rows = "table_rows t"
  note R = st_ok_rows [OF assms(1)]
  have wf: "rb_wf (r_data (st_rows t))" and total: "rb_total (r_data (st_rows t)) = length ?rows"
    using R rows_inv_total [OF R] by (simp_all add: rows_inv_def)
  have get: "rb_get_row (r_data (st_rows t)) i = Ok (?rows ! i)" if "i \<in> set is" for i
    using rb_get_row_eq [OF wf, of i] assms(4,6) that by (auto simp: total simp del: rb_rows_length)
  have all_live: "live (?rows ! i)" if "r_stale (st_rows t) = 0" "i \<in> set is" for i
  proof -
    have "length (live_rows ?rows) = length ?rows" using R that(1) total by (simp add: rows_inv_def)
    then have "\<forall>r \<in> set ?rows. live r" by (metis filter_True length_filter_less less_irrefl)
    moreover have "i < length ?rows" using assms(4,6) that(2) by auto
    ultimately show ?thesis by simp
  qed
  have "row_or_stale t i = Ok (if live (?rows ! i) then Some (?rows ! i) else None)" if "i \<in> set is" for i
    using get [OF that] all_live [OF _ that] assms(4,6) that rows_get_eq [OF R, of i] by (auto simp: row_or_stale_def)
  moreover have "get_if_unchecked t cs i = Ok (if \<forall>c \<in> set cs. satisfies (?rows ! i) c then Some (?rows ! i) else None)"
    if "i \<in> set is" for i
  proof -
    have "length (?rows ! i) = st_columns t" using rows_inv_arity [OF R, of i] assms(4,6) that by auto
    then show ?thesis using get [OF that] eval_constraints_eq [of cs "?rows ! i"] assms(8)
      by (simp add: get_if_unchecked_def)
  qed
  ultimately have "scan_rows (row_or_stale t) is = Ok (map (\<lambda>i. (i, ?rows ! i)) (filter (\<lambda>i. live (?rows ! i)) is))"
    "scan_rows (get_if_unchecked t cs) is = Ok (map (\<lambda>i. (i, ?rows ! i)) (filter (\<lambda>i. \<forall>c \<in> set cs. satisfies (?rows ! i) c) is))"
    by (intro scan_rows_eq ballI; blast)+
  then show ?thesis
    using assms(5,7) in_table_eq [OF assms(1-4)] by (simp add: st_scan_def)
qed

text \<open>A table whose only row was removed.\<close>

definition emptied_table :: sorted_table where
  "emptied_table = \<lparr>st_generation = 0,
     st_rows = \<lparr>r_data = \<lparr>rb_cols = 2, rb_total = 1, rb_data = [stale_value, 6]\<rparr>, r_stale = 1\<rparr>,
     st_shards = [[]], st_shard_bits = 0, st_keys = 1, st_columns = 2, st_sort_by = None, st_offsets = [],
     st_pending = pending_new 0\<rparr>"

lemma emptied_table_rows: "table_rows emptied_table = [[stale_value, 6]]"
  by (simp add: emptied_table_def rb_iter_def chunks.simps)

lemma emptied_table_inv: "table_inv (\<lambda>_. 0) emptied_table"
  unfolding table_inv_def emptied_table_rows
  by (simp add: emptied_table_def rows_inv_def rb_wf_def unique_keys_def holds_at_def hash_inv_def rb_iter_def chunks.simps)

lemma emptied_table_ok: "st_ok emptied_table"
  using emptied_table_inv by (auto simp: st_ok_def)

theorem scans_differ_on_removed_rows_witness:
  "st_scan emptied_table (dense_range 0 1) 0 1 [] = Ok ([], None)
   \<and> st_scan emptied_table (dense_range 0 1) 0 1 [CEqConst 1 6] = Ok ([(0, [stale_value, 6])], None)"
  using scans_differ_on_removed_rows [OF emptied_table_ok, of "dense_range 0 1" 0 1 "[0]" None "[CEqConst 1 6]"]
  unfolding emptied_table_rows
  by (simp add: dense_range_def emptied_table_def)

section \<open>Changes\<close>

text \<open>C17: the rows that a tracker is given at its next look, after any further rounds, cover every
  change: a live row that is not among them was there before, at the same place.\<close>

theorem recent_updates_cover:
  assumes "writes_ok nk n sort_by (rounds @ later)" "merges_rows nk n sort_by m"
  shows "\<exists>t1 x1 t2 x2 v1 v2 tracked s.
      st_run hf bits nk n sort_by m rounds x = Ok (t1, x1) \<and> st_version t1 = Ok v1
    \<and> fold_out (st_round hf m) later (t1, x1) = Ok (t2, x2) \<and> st_version t2 = Ok v2
    \<and> recent_updates [tid \<mapsto> v1] tid v2 (st_all t2) (st_updates_since t2) = Ok (tracked, s) \<and> tracked tid = Some v2
    \<and> (\<forall>i r. st_row t2 i = Some r \<longrightarrow> i \<notin> set (offsets s) \<longrightarrow> st_row t1 i = Some r)"
proof -
  from st_run_refines [OF assms, of hf bits x] obtain t1 x1 where
    t1: "st_run hf bits nk n sort_by m rounds x = Ok (t1, x1)" "table_inv hf t1" "idle t1"
      "st_keys t1 = nk" "st_columns t1 = n" "st_sort_by t1 = sort_by"
      "values_before t1 (concat (map staged_rows later))" "length (table_rows t1) \<le> length (concat (map staged_rows rounds))" by blast
  have "merge_ok t1 m" using assms(2) t1(4-6) by (simp add: merges_rows_ok)
  moreover have "rounds_sorted (st_sort_by t1) later"
  proof -
    have "rounds_sorted sort_by (rounds @ later)" using assms(1) by (simp add: writes_ok_def)
    then have "rounds_sorted sort_by later" by (induction rounds) (use rounds_sorted_tl in auto)
    then show ?thesis using t1(6) by simp
  qed
  moreover have "\<forall>ws \<in> set later. \<forall>w \<in> set ws. buffer_ok (st_keys t1) (st_columns t1) w"
    using assms(1) t1(4,5) by (auto simp: writes_ok_def)
  moreover have "int (length (concat (map staged_rows later)) + length (table_rows t1)) < 2 ^ 32"
    using assms(1) t1(8) by (simp add: writes_ok_def)
  ultimately obtain t2 x2 where
    t2: "fold_out (st_round hf m) later (t1, x1) = Ok (t2, x2)" "table_inv hf t2" "evolves t1 t2"
    using st_rounds_refine [OF t1(2,3), of m later "[]" x1] t1(7) by auto
  have ok: "st_ok t1" "st_ok t2" using t1(2) t2(2) by (auto simp: st_ok_def)
  note next1 = next_row_eq [OF st_ok_rows [OF ok(1)]] and next2 = next_row_eq [OF st_ok_rows [OF ok(2)]]
  have fit: "row_id (length (table_rows t1)) = Ok (length (table_rows t1))"
    using st_rows_fit [OF ok(1)] by (simp add: row_id_def)
  show ?thesis
  proof (cases "st_generation t2 = st_generation t1")
    case True
    then have "rows_extend (table_rows t1) (table_rows t2)" using t2(3) by (simp add: evolves_def)
    then have "st_row t1 i = Some r" if "st_row t2 i = Some r" "i \<notin> {length (table_rows t1)..<length (table_rows t2)}" for i r
      using that by (auto simp: st_row_eq [OF ok(1)] st_row_eq [OF ok(2)] rows_extend_def split: if_splits)
    then show ?thesis using t1(1) t2(1) next1 next2 fit True
      by (simp add: st_version_def recent_updates_def st_updates_since_def)
  next
    case False
    have "i < length (table_rows t2)" if "st_row t2 i = Some r" for i r
      using that by (simp add: st_row_eq [OF ok(2)] split: if_splits)
    then show ?thesis using t1(1) t2(1) next1 next2 False
      by (auto simp: st_version_def recent_updates_def st_all_def)
  qed
qed

theorem recent_updates_cover_witness:
  "\<exists>t1 x1 t2 x2. st_run (\<lambda>_. 0) 0 1 2 None overwrite [[([], [[5, 1]])]] 0 = Ok (t1, x1)
    \<and> fold_out (st_round (\<lambda>_. 0) overwrite) [[([], [[6, 1]])]] (t1, x1) = Ok (t2, x2)"
proof -
  have "writes_ok 1 2 None ([[([], [[5, 1]])]] @ [[([], [[6, 1]])]])"
    by (simp add: writes_ok_def rounds_sorted_def buffer_ok_def is_stale_def)
  then show ?thesis
    using recent_updates_cover [OF _ merges_rows_overwrite, of 1 2 None "[[([], [[5, 1]])]]" "[[([], [[6, 1]])]]" "\<lambda>_. 0" 0 0 0]
    by auto
qed

text \<open>C18: a merge that reports that nothing was added and nothing removed left the map from keys to
  rows as it was, also when it compacted the table.\<close>

theorem unchanged_merge_keeps_rows:
  assumes "table_inv hf t" "st_merge hf m (t, x) = Ok (\<lparr>tc_added = False, tc_removed = False\<rparr>, t', x')"
  shows "table_map t' = table_map t"
  using assms by (rule st_merge_unchanged)

theorem unchanged_merge_keeps_rows_witness:
  "\<exists>t' x'. st_merge (\<lambda>_. 0) overwrite (emptied_table, 0) = Ok (\<lparr>tc_added = False, tc_removed = False\<rparr>, t', x')
     \<and> table_map t' = table_map emptied_table"
proof -
  have "st_merge (\<lambda>_. 0) overwrite (emptied_table, 0)
      = Ok (\<lparr>tc_added = False, tc_removed = False\<rparr>, emptied_table, 0)"
    by (simp add: st_merge_def do_delete_def serial_delete_def serial_insert_def take_removals_eq take_rows_eq
        emptied_table_def pending_new_def n_shards_def maybe_rehash_def)
  from unchanged_merge_keeps_rows [OF emptied_table_inv this] this show ?thesis by blast
qed

end
