(* ===== verification/Sexp_Parser.thy ===== *)
theory Sexp_Parser
  imports Ast_Display
begin

text \<open>
  The lower half of \<open>src/ast/parse.rs\<close>: characters, tokens and S-expressions with the spans of
  the source they were read from. A parser is a source file and the byte offset it has reached.
  Reading a float is the standard library's \<open>str::parse::<f64>\<close>, a parameter \<open>pf\<close>.
\<close>

unbundle bit_operations_syntax

type_synonym parse_error = "span \<times> string"

type_synonym 'a presult = "(parse_error, 'a) outcome"

section \<open>Characters\<close>

text \<open>The length in bytes of the character at the head of a text.\<close>

fun char_len :: "string \<Rightarrow> nat" where
  "char_len [] = 0"
| "char_len (c # cs) = Suc (length (takeWhile is_continuation cs))"

text \<open>\<open>char::is_whitespace\<close>: the characters with the Unicode property White_Space, in UTF-8.\<close>

definition bytes_of :: "string \<Rightarrow> nat list" where
  "bytes_of s = map of_char (take (char_len s) s)"

definition starts_with_whitespace :: "string \<Rightarrow> bool" where
  "starts_with_whitespace s =
     (case bytes_of s of
        [b] \<Rightarrow> 9 \<le> b \<and> b \<le> 13 \<or> b = 32
      | [b, c] \<Rightarrow> b = 194 \<and> (c = 133 \<or> c = 160)
      | [b, c, d] \<Rightarrow> b = 225 \<and> c = 154 \<and> d = 128
          \<or> b = 226 \<and> c = 128 \<and> (128 \<le> d \<and> d \<le> 138 \<or> d = 168 \<or> d = 169 \<or> d = 175)
          \<or> b = 226 \<and> c = 129 \<and> d = 159
          \<or> b = 227 \<and> c = 128 \<and> d = 128
      | _ \<Rightarrow> False)"

lemma char_len_pos: "s \<noteq> [] \<Longrightarrow> 0 < char_len s"
  by (cases s) auto

lemma char_len_le: "char_len s \<le> length s"
  by (cases s) (auto simp: length_takeWhile_le)

section \<open>The parser of tokens\<close>

record sexp_parser =
  sp_source :: src_file
  sp_index :: nat

definition sp_new :: "string option \<Rightarrow> string \<Rightarrow> sexp_parser" where
  "sp_new name contents = \<lparr>sp_source = \<lparr>src_name = name, src_contents = contents\<rparr>, sp_index = 0\<rparr>"

text \<open>What is left to read; \<open>current_char\<close> is its first character.\<close>

definition sp_rest :: "sexp_parser \<Rightarrow> string" where
  "sp_rest p = drop (sp_index p) (src_contents (sp_source p))"

definition sp_advance :: "nat \<Rightarrow> sexp_parser \<Rightarrow> sexp_parser" where
  "sp_advance n p = p\<lparr>sp_index := sp_index p + n\<rparr>"

text \<open>\<open>advance_past_whitespace\<close>: how far whitespace and comments reach.\<close>

function ws_len :: "bool \<Rightarrow> string \<Rightarrow> nat" where
  "ws_len in_comment s =
     (if s = [] then 0
      else let n = char_len s in
        if hd s = CHR '';'' then n + ws_len True (drop n s)
        else if hd s = newline then n + ws_len False (drop n s)
        else if starts_with_whitespace s \<or> in_comment then n + ws_len in_comment (drop n s)
        else 0)"
  by pat_completeness auto
termination
  by (relation "measure (\<lambda>(b, s). length s)") (auto simp: char_len_pos)

declare ws_len.simps [simp del]

definition sp_skip :: "sexp_parser \<Rightarrow> sexp_parser" where
  "sp_skip p = sp_advance (ws_len False (sp_rest p)) p"

definition sp_at_end :: "sexp_parser \<Rightarrow> bool" where
  "sp_at_end p = (sp_index p = length (src_contents (sp_source p)))"

datatype token = Open | Close | Str string | Other

text \<open>
  A string literal after its opening quote: the value and the length including the closing quote,
  or how far it was read before the error.
\<close>

fun unescape :: "string \<Rightarrow> string option" where
  "unescape c =
     (if c = ''n'' then Some [newline]
      else if c = ''t'' then Some [CHR 0x09]
      else if c = [CHR 0x5C] then Some c
      else if c = ''\"'' then Some c
      else None)"

function string_body :: "bool \<Rightarrow> string \<Rightarrow> (nat \<times> string, string \<times> nat) outcome" where
  "string_body in_escape s =
     (if s = [] then Err (0, ''string is missing end quote'')
      else let n = char_len s; c = take n s;
               later = (\<lambda>b v r. case r of
                   Ok (v', k) \<Rightarrow> Ok (v @ v', n + k)
                 | Err (k, msg) \<Rightarrow> Err (n + k, msg)
                 | Panic \<Rightarrow> Panic) in
        if hd s = CHR ''\"'' \<and> \<not> in_escape then Ok ([], n)
        else if hd s = CHR 0x5C \<and> \<not> in_escape then later True [] (string_body True (drop n s))
        else if in_escape then
          (case unescape c of
             None \<Rightarrow> Err (0, ''unrecognized escape character '' @ c)
           | Some v \<Rightarrow> later False v (string_body False (drop n s)))
        else later False c (string_body False (drop n s)))"
  by pat_completeness auto
termination
  by (relation "measure (\<lambda>(b, s). length s)") (auto simp: char_len_pos)

declare string_body.simps [simp del]

text \<open>Any other token reaches to whitespace, a parenthesis or a comment.\<close>

function other_len :: "string \<Rightarrow> nat" where
  "other_len s =
     (if s = [] \<or> starts_with_whitespace s \<or> hd s \<in> {CHR '';'', CHR ''('', CHR '')''} then 0
      else char_len s + other_len (drop (char_len s) s))"
  by pat_completeness auto
termination
  by (relation "measure length") (auto simp: char_len_pos)

declare other_len.simps [simp del]

definition mk_span :: "sexp_parser \<Rightarrow> nat \<Rightarrow> nat \<Rightarrow> egglog_span" where
  "mk_span p i j = \<lparr>span_file = sp_source p, span_i = i, span_j = j\<rparr>"

text \<open>
  \<open>next\<close>: the token, its span, and the parser behind it and the whitespace after it.
\<close>

definition sp_next :: "sexp_parser \<Rightarrow> (token \<times> egglog_span \<times> sexp_parser) presult" where
  "sp_next p0 =
     (let p = sp_skip p0; i = sp_index p; s = sp_rest p;
          done = (\<lambda>tok n. Ok (tok, mk_span p i (i + n), sp_skip (sp_advance n p))) in
      if s = [] then Err (Span_Egglog (mk_span p i i), ''unexpected end of file'')
      else if hd s = CHR ''('' then done Open (char_len s)
      else if hd s = CHR '')'' then done Close (char_len s)
      else if hd s = CHR ''\"'' then
        (case string_body False (drop (char_len s) s) of
           Ok (v, k) \<Rightarrow> done (Str v) (char_len s + k)
         | Err (k, msg) \<Rightarrow> Err (Span_Egglog (mk_span p i (i + char_len s + k)), msg)
         | Panic \<Rightarrow> Panic)
      else done Other (char_len s + other_len (drop (char_len s) s)))"

section \<open>S-expressions\<close>

datatype sexp = SLit literal span | SAtom string span | SList "sexp list" span

fun sexp_span :: "sexp \<Rightarrow> span" where
  "sexp_span (SLit _ sp) = sp"
| "sexp_span (SAtom _ sp) = sp"
| "sexp_span (SList _ sp) = sp"

text \<open>\<open>str::parse::<i64>\<close> and the special floats.\<close>

definition parse_i64 :: "string \<Rightarrow> i64 option" where
  "parse_i64 s =
     (if \<not> parses_i64 s then None
      else Some (case s of
          [] \<Rightarrow> 0
        | c # cs \<Rightarrow>
            if c = CHR ''-'' then - word_of_nat (read_nat cs)
            else if c = CHR ''+'' then word_of_nat (read_nat cs)
            else word_of_nat (read_nat s)))"

definition f64_is_finite :: "64 word \<Rightarrow> bool" where
  "f64_is_finite x = (drop_bit 52 x AND 0x7FF \<noteq> 0x7FF)"

definition f64_nan :: "64 word" where "f64_nan = 0x7FF8000000000000"
definition f64_infinity :: "64 word" where "f64_infinity = 0x7FF0000000000000"
definition f64_neg_infinity :: "64 word" where "f64_neg_infinity = 0xFFF0000000000000"

definition classify :: "(string \<Rightarrow> 64 word option) \<Rightarrow> string \<Rightarrow> span \<Rightarrow> sexp" where
  "classify pf s sp =
     (if s = ''true'' then SLit (LBool True) sp
      else if s = ''false'' then SLit (LBool False) sp
      else case parse_i64 s of
          Some i \<Rightarrow> SLit (LInt i) sp
        | None \<Rightarrow>
            if s = ''NaN'' then SLit (LFloat f64_nan) sp
            else if s = ''inf'' then SLit (LFloat f64_infinity) sp
            else if s = ''-inf'' then SLit (LFloat f64_neg_infinity) sp
            else case pf s of
                Some x \<Rightarrow> if f64_is_finite x then SLit (LFloat x) sp else SAtom s sp
              | None \<Rightarrow> SAtom s sp)"

text \<open>What is left shrinks with every token, so the loop of \<open>sexp\<close> ends.\<close>

lemma sp_skip_source [simp]: "sp_source (sp_skip p) = sp_source p"
  by (simp add: sp_skip_def sp_advance_def)

lemma sp_advance_source [simp]: "sp_source (sp_advance n p) = sp_source p"
  by (simp add: sp_advance_def)

lemma sp_advance_index [simp]: "sp_index (sp_advance n p) = sp_index p + n"
  by (simp add: sp_advance_def)

lemma sp_skip_le: "sp_index p \<le> sp_index (sp_skip p)"
  by (simp add: sp_skip_def sp_advance_def)

abbreviation left_over :: "sexp_parser \<Rightarrow> nat" where
  "left_over p \<equiv> length (src_contents (sp_source p)) - sp_index p"

lemma left_over_rest: "left_over p = length (sp_rest p)"
  by (simp add: sp_rest_def)

lemma sp_next_advances:
  assumes "sp_next p = Ok (tok, sp, p')"
  shows "sp_source p' = sp_source p \<and> left_over p' < left_over p"
proof -
  let ?q = "sp_skip p"
  have ne: "sp_rest ?q \<noteq> []" using assms by (auto simp: sp_next_def Let_def split: if_splits)
  have "\<exists>n > 0. p' = sp_skip (sp_advance n ?q)"
    using assms char_len_pos [OF ne]
    by (auto simp: sp_next_def Let_def split: if_splits outcome.splits prod.splits)
  then obtain n where n: "0 < n" "p' = sp_skip (sp_advance n ?q)" by blast
  then have "sp_index ?q < sp_index p'" using sp_skip_le [of "sp_advance n ?q"] by simp
  moreover have "sp_index ?q < length (src_contents (sp_source p))" using ne by (auto simp: sp_rest_def)
  moreover have "sp_index p \<le> sp_index ?q" by (rule sp_skip_le)
  ultimately show ?thesis using n by (auto intro: diff_less_mono2)
qed

text \<open>The stack holds the lists that are open, with the span of their parenthesis.\<close>

definition read_token ::
    "(string \<Rightarrow> 64 word option) \<Rightarrow> token \<Rightarrow> egglog_span \<Rightarrow> (egglog_span \<times> sexp list) list
      \<Rightarrow> (sexp option \<times> (egglog_span \<times> sexp list) list) presult" where
  "read_token pf tok sp stack =
     (case tok of
        Open \<Rightarrow> Ok (None, (sp, []) # stack)
      | Close \<Rightarrow> (case stack of
            [] \<Rightarrow> Err (Span_Egglog sp, ''unexpected `)`'')
          | (list_sp, list) # stack' \<Rightarrow> Ok (Some (SList list (Span_Egglog (list_sp\<lparr>span_j := span_j sp\<rparr>))), stack'))
      | Str v \<Rightarrow> Ok (Some (SLit (LString v) (Span_Egglog sp)), stack)
      | Other \<Rightarrow> bind_o (opt_o Panic (span_string (Span_Egglog sp))) (\<lambda>s.
          Ok (Some (classify pf s (Span_Egglog sp)), stack)))"

function sexp_loop ::
    "(string \<Rightarrow> 64 word option) \<Rightarrow> (egglog_span \<times> sexp list) list \<Rightarrow> sexp_parser \<Rightarrow> (sexp \<times> sexp_parser) presult" where
  "sexp_loop pf stack p =
     bind_o (sp_next p) (\<lambda>(tok, sp, p').
     bind_o (read_token pf tok sp stack) (\<lambda>(x, stack'). case x of
         None \<Rightarrow> sexp_loop pf stack' p'
       | Some x \<Rightarrow> (case stack' of
             [] \<Rightarrow> Ok (x, p')
           | (list_sp, list) # st \<Rightarrow> sexp_loop pf ((list_sp, list @ [x]) # st) p')))"
  by pat_completeness auto
termination
  by (relation "measure (\<lambda>(pf, stack, p). left_over p)") (auto dest!: sp_next_advances)

declare sexp_loop.simps [simp del]

definition read_sexp :: "(string \<Rightarrow> 64 word option) \<Rightarrow> sexp_parser \<Rightarrow> (sexp \<times> sexp_parser) presult" where
  "read_sexp pf p = sexp_loop pf [] p"

lemma sexp_loop_advances:
  "sexp_loop pf stack p = Ok (x, p') \<Longrightarrow> sp_source p' = sp_source p \<and> left_over p' < left_over p"
proof (induction pf stack p rule: sexp_loop.induct)
  case (1 pf stack p)
  from 1(3) obtain tok sp p1 y stack1 where
    n: "sp_next p = Ok (tok, sp, p1)" "read_token pf tok sp stack = Ok (y, stack1)"
    and r: "(case y of None \<Rightarrow> sexp_loop pf stack1 p1
       | Some x \<Rightarrow> (case stack1 of [] \<Rightarrow> Ok (x, p1) | (list_sp, list) # st \<Rightarrow> sexp_loop pf ((list_sp, list @ [x]) # st) p1)) = Ok (x, p')"
    by (subst (asm) sexp_loop.simps) (auto simp: bind_o_eq_Ok)
  note s = sp_next_advances [OF n(1)]
  show ?case
  proof (cases y)
    case None
    with 1(1) [OF n(1) _ _ n(2)] r s show ?thesis by fastforce
  next
    case (Some z)
    show ?thesis
    proof (cases stack1)
      case Nil
      with r Some s show ?thesis by auto
    next
      case (Cons a st)
      with 1(2) [OF n(1) _ _ n(2) _ Some Cons] r Some s show ?thesis by (cases a) fastforce
    qed
  qed
qed

text \<open>\<open>all_sexps\<close>: to the end of the text.\<close>

function all_sexps_loop :: "(string \<Rightarrow> 64 word option) \<Rightarrow> sexp_parser \<Rightarrow> sexp list presult" where
  "all_sexps_loop pf p =
     (if sp_at_end p then Ok []
      else bind_o (read_sexp pf p) (\<lambda>(x, p').
        bind_o (all_sexps_loop pf (sp_skip p')) (\<lambda>xs. Ok (x # xs))))"
  by pat_completeness auto
termination
proof (relation "measure (\<lambda>(pf, p). left_over p)", goal_cases)
  case (2 pf p a x p')
  then have "left_over p' < left_over p" "sp_source p' = sp_source p"
    using sexp_loop_advances [of pf "[]" p x p'] by (auto simp: read_sexp_def)
  then show ?case using sp_skip_le [of p'] by simp
qed simp

declare all_sexps_loop.simps [simp del]

definition all_sexps :: "(string \<Rightarrow> 64 word option) \<Rightarrow> sexp_parser \<Rightarrow> sexp list presult" where
  "all_sexps pf p = all_sexps_loop pf (sp_skip p)"

end
