(* ===== verification/Command_Ast.thy ===== *)
theory Command_Ast
  imports Resolved_Ast Ast_Display
begin

text \<open>
  Commands as they are parsed, before desugaring (\<open>src/ast/mod.rs\<close>), and how commands are
  printed. A rule without a name is named after its text, so printing is part of what the program
  does, and printed programs are read back.
\<close>

section \<open>Commands\<close>

record variant =
  va_span :: span
  va_name :: string
  va_types :: "string list"
  va_cost :: "u64 option"
  va_unextractable :: bool

datatype subdatatypes = Variants "variant list" | NewSort string "(string, string) expr list"

record ('h, 'l) rewrite =
  rw_span :: span
  rw_lhs :: "('h, 'l) expr"
  rw_rhs :: "('h, 'l) expr"
  rw_conditions :: "('h, 'l) fact list"
  rw_name :: string

datatype (plugins only: code size) ('h, 'l) command =
    CSort span string "(string \<times> (string, string) expr list) option" "string option"
      "string option" "(string \<times> string \<times> string) option" bool
  | CDatatype span string "variant list"
  | CDatatypes span "(span \<times> string \<times> subdatatypes) list"
  | CConstructor span string schema "u64 option" bool bool bool "string option"
  | CRelation span string "string list"
  | CFunction span string schema "('h, 'l) expr option" function_impl bool bool "string option" bool
  | CAddRuleset span string
  | CUnstableCombinedRuleset span string "string list"
  | CRule "('h, 'l) rule"
  | CRewrite string "('h, 'l) rewrite" bool
  | CBiRewrite string "('h, 'l) rewrite"
  | CAction "('h, 'l) action"
  | CExtract span "('h, 'l) expr" "('h, 'l) expr"
  | CRunSchedule "('h, 'l) schedule"
  | CPrintOverallStatistics span "string option"
  | CCheck span "('h, 'l) fact list"
  | CProve span "('h, 'l) fact list"
  | CProveExists span 'h
  | CPrintFunction span string "nat option" "string option" print_function_mode
  | CPrintSize span "string option"
  | CInput span string string
  | COutput span string "('h, 'l) expr list"
  | CPush nat
  | CPop span nat
  | CFail span "('h, 'l) command"
  | CInclude span string
  | CUserDefined span string "(string, string) expr list"

type_synonym uexpr = "(string, string) expr"
type_synonym ufact = "(string, string) fact"
type_synonym uaction = "(string, string) action"
type_synonym urule = "(string, string) rule"
type_synonym uschedule = "(string, string) schedule"
type_synonym ucommand = "(string, string) command"
type_synonym uncommand = "(string, string) ncommand"

section \<open>From normalized commands\<close>

fun to_command :: "('h, 'l) ncommand \<Rightarrow> ('h, 'l) command" where
  "to_command (NSort sp n pre uf pf prims un) = CSort sp n pre uf pf prims un"
| "to_command (NFunction f) =
     (case fd_subtype f of
        Constructor \<Rightarrow> CConstructor (fd_span f) (fd_name f) (fd_schema f) (fd_cost f) (fd_unextractable f)
          (fd_internal_hidden f) (fd_internal_let f) (fd_term_constructor f)
      | Custom \<Rightarrow> CFunction (fd_span f) (fd_name f) (fd_schema f) (fd_merge f) (fd_impl_kind f)
          (fd_internal_hidden f) (fd_internal_let f) (fd_term_constructor f) (fd_unextractable f))"
| "to_command (NAddRuleset sp n) = CAddRuleset sp n"
| "to_command (NUnstableCombinedRuleset sp n rs) = CUnstableCombinedRuleset sp n rs"
| "to_command (NNormRule r) = CRule r"
| "to_command (NCoreAction a) = CAction a"
| "to_command (NExtract sp e v) = CExtract sp e v"
| "to_command (NRunSchedule s) = CRunSchedule s"
| "to_command (NPrintOverallStatistics sp f) = CPrintOverallStatistics sp f"
| "to_command (NCheck sp fs) = CCheck sp fs"
| "to_command (NPrintFunction sp n k f m) = CPrintFunction sp n k f m"
| "to_command (NProveExists sp c) = CProveExists sp c"
| "to_command (NPrintSize sp n) = CPrintSize sp n"
| "to_command (NOutput sp f es) = COutput sp f es"
| "to_command (NPush n) = CPush n"
| "to_command (NPop sp n) = CPop sp n"
| "to_command (NFail sp c) = CFail sp (to_command c)"
| "to_command (NInput sp n f) = CInput sp n f"
| "to_command (NUserDefined sp n es) = CUserDefined sp n es"

section \<open>Printing\<close>

text \<open>
  \<open>ListDisplay\<close> is \<open>join\<close>. The standard library's \<open>{:?}\<close> of a string, with its
  escapes, is a parameter \<open>dbg\<close>, next to the printing of floats.
\<close>

definition opt_str :: "('a \<Rightarrow> string) \<Rightarrow> 'a option \<Rightarrow> string" where
  "opt_str f x = (case x of None \<Rightarrow> [] | Some a \<Rightarrow> f a)"

definition flag_str :: "bool \<Rightarrow> string \<Rightarrow> string" where
  "flag_str b s = (if b then s else [])"

definition variant_to_string :: "variant \<Rightarrow> string" where
  "variant_to_string v =
     ''('' @ va_name v
     @ (if va_types v \<noteq> [] then '' '' @ join '' '' (va_types v) else [])
     @ opt_str (\<lambda>c. '' :cost '' @ nat_to_string (unat c)) (va_cost v) @ '')''"

definition schema_to_string :: "schema \<Rightarrow> string" where
  "schema_to_string s =
     (if sch_extra_outputs s = [] then ''('' @ join '' '' (sch_input s) @ '') '' @ sch_output s
      else ''('' @ join '' '' (sch_input s) @ '') ('' @ sch_output s @ '' '' @ join '' '' (sch_extra_outputs s) @ '')'')"

definition run_config_to_string ::
    "(64 word \<Rightarrow> string) \<Rightarrow> ('h \<Rightarrow> string) \<Rightarrow> ('l \<Rightarrow> string) \<Rightarrow> ('h, 'l) run_config \<Rightarrow> string" where
  "run_config_to_string ff sh sl rc =
     ''(run'' @ (if rc_ruleset rc \<noteq> [] then '' '' @ rc_ruleset rc else [])
     @ opt_str (\<lambda>fs. '' :until '' @ join '' '' (map (fact_to_string ff sh sl) fs)) (rc_until rc) @ '')''"

fun schedule_to_string ::
    "(64 word \<Rightarrow> string) \<Rightarrow> ('h \<Rightarrow> string) \<Rightarrow> ('l \<Rightarrow> string) \<Rightarrow> ('h, 'l) schedule \<Rightarrow> string" where
  "schedule_to_string ff sh sl (Saturate _ s) = ''(saturate '' @ schedule_to_string ff sh sl s @ '')''"
| "schedule_to_string ff sh sl (Repeat _ n s) =
     ''(repeat '' @ nat_to_string n @ '' '' @ schedule_to_string ff sh sl s @ '')''"
| "schedule_to_string ff sh sl (Run _ rc) = run_config_to_string ff sh sl rc"
| "schedule_to_string ff sh sl (Sequence _ ss) =
     ''(seq '' @ join '' '' (map (schedule_to_string ff sh sl) ss) @ '')''"

text \<open>\<open>fmt_with_ruleset\<close>: the name of a rewrite is not printed.\<close>

definition rewrite_to_string ::
    "(64 word \<Rightarrow> string) \<Rightarrow> ('h \<Rightarrow> string) \<Rightarrow> ('l \<Rightarrow> string) \<Rightarrow> string \<Rightarrow> bool \<Rightarrow> bool
      \<Rightarrow> ('h, 'l) rewrite \<Rightarrow> string" where
  "rewrite_to_string ff sh sl ruleset bidirectional subsume rw =
     ''('' @ (if bidirectional then ''birewrite'' else ''rewrite'') @ '' ''
     @ expr_to_string ff sh sl (rw_lhs rw) @ '' '' @ expr_to_string ff sh sl (rw_rhs rw)
     @ flag_str subsume '' :subsume''
     @ (if rw_conditions rw \<noteq> [] then '' :when ('' @ join '' '' (map (fact_to_string ff sh sl) (rw_conditions rw)) @ '')'' else [])
     @ (if ruleset \<noteq> [] then '' :ruleset '' @ ruleset else []) @ '')''"

fun subdatatypes_to_string :: "(64 word \<Rightarrow> string) \<Rightarrow> span \<times> string \<times> subdatatypes \<Rightarrow> string" where
  "subdatatypes_to_string ff (_, name, Variants vs) =
     ''('' @ name @ '' '' @ join '' '' (map variant_to_string vs) @ '')''"
| "subdatatypes_to_string ff (_, name, NewSort head args) =
     ''(sort '' @ name @ '' ('' @ head @ '' '' @ join '' '' (map (expr_to_string ff (\<lambda>h. h) (\<lambda>l. l)) args) @ ''))''"

fun function_impl_to_string ::
    "(64 word \<Rightarrow> string) \<Rightarrow> ('h \<Rightarrow> string) \<Rightarrow> ('l \<Rightarrow> string) \<Rightarrow> function_impl \<Rightarrow> ('h, 'l) expr option \<Rightarrow> string" where
  "function_impl_to_string ff sh sl Default_Impl merge =
     (case merge of Some e \<Rightarrow> '' :merge '' @ expr_to_string ff sh sl e | None \<Rightarrow> '' :no-merge'')"
| "function_impl_to_string ff sh sl (Displaced_Union_Find onchange canon) merge =
     '' :impl displaced-union-find'' @ opt_str (\<lambda>r. '' :onchange '' @ r) onchange
     @ opt_str (\<lambda>c. '' :canon-prim '' @ c) canon"

primrec command_to_string ::
    "(64 word \<Rightarrow> string) \<Rightarrow> (string \<Rightarrow> string) \<Rightarrow> ('h \<Rightarrow> string) \<Rightarrow> ('l \<Rightarrow> string) \<Rightarrow> ('h, 'l) command \<Rightarrow> string" where
  "command_to_string ff dbg sh sl (CRewrite ruleset rw subsume) = rewrite_to_string ff sh sl ruleset False subsume rw"
| "command_to_string ff dbg sh sl (CBiRewrite ruleset rw) = rewrite_to_string ff sh sl ruleset True False rw"
| "command_to_string ff dbg sh sl (CDatatype sp name vs) =
     ''(datatype '' @ name @ '' '' @ join '' '' (map variant_to_string vs) @ '')''"
| "command_to_string ff dbg sh sl (CAction a) = action_to_string ff sh sl a"
| "command_to_string ff dbg sh sl (CExtract sp e v) =
     ''(extract '' @ expr_to_string ff sh sl e @ '' '' @ expr_to_string ff sh sl v @ '')''"
| "command_to_string ff dbg sh sl (CSort sp name pre uf pf prims un) =
     (case pre of
        None \<Rightarrow> ''(sort '' @ name @ opt_str (\<lambda>u. '' :internal-uf '' @ u) uf
          @ opt_str (\<lambda>f. '' :internal-proof-func '' @ f) pf @ '')''
      | Some (name2, args) \<Rightarrow>
          ''(sort '' @ name @ '' ('' @ name2 @ '' '' @ join '' '' (map (expr_to_string ff (\<lambda>h. h) (\<lambda>l. l)) args) @ '')''
          @ opt_str (\<lambda>(u, r, l). '' :internal-uf-pair-prims '' @ u @ '' '' @ r @ '' '' @ l) prims @ '')'')"
| "command_to_string ff dbg sh sl (CFunction sp name schema merge impl hidden let_b tc unext) =
     ''(function '' @ name @ '' '' @ schema_to_string schema @ function_impl_to_string ff sh sl impl merge
     @ flag_str unext '' :unextractable'' @ flag_str hidden '' :internal-hidden'' @ flag_str let_b '' :internal-let''
     @ opt_str (\<lambda>t. '' :internal-term-constructor '' @ t) tc @ '')''"
| "command_to_string ff dbg sh sl (CConstructor sp name schema cost unext hidden let_b tc) =
     ''(constructor '' @ name @ '' '' @ schema_to_string schema @ opt_str (\<lambda>c. '' :cost '' @ nat_to_string (unat c)) cost
     @ flag_str unext '' :unextractable'' @ flag_str hidden '' :internal-hidden'' @ flag_str let_b '' :internal-let''
     @ opt_str (\<lambda>t. '' :internal-term-constructor '' @ t) tc @ '')''"
| "command_to_string ff dbg sh sl (CRelation sp name inputs) = ''(relation '' @ name @ '' ('' @ join '' '' inputs @ ''))''"
| "command_to_string ff dbg sh sl (CAddRuleset sp name) = ''(ruleset '' @ name @ '')''"
| "command_to_string ff dbg sh sl (CUnstableCombinedRuleset sp name others) =
     ''(unstable-combined-ruleset '' @ name @ '' '' @ join '' '' others @ '')''"
| "command_to_string ff dbg sh sl (CRule r) = rule_to_string ff sh sl r"
| "command_to_string ff dbg sh sl (CRunSchedule s) = ''(run-schedule '' @ schedule_to_string ff sh sl s @ '')''"
| "command_to_string ff dbg sh sl (CPrintOverallStatistics sp file) =
     (case file of Some f \<Rightarrow> ''(print-stats :file '' @ f @ '')'' | None \<Rightarrow> ''(print-stats)'')"
| "command_to_string ff dbg sh sl (CCheck sp fs) = ''(check '' @ join [newline] (map (fact_to_string ff sh sl) fs) @ '')''"
| "command_to_string ff dbg sh sl (CProve sp fs) =
     (if fs = [] then ''(prove)'' else ''(prove '' @ join '' '' (map (fact_to_string ff sh sl) fs) @ '')'')"
| "command_to_string ff dbg sh sl (CProveExists sp c) = ''(prove-exists '' @ sh c @ '')''"
| "command_to_string ff dbg sh sl (CPush n) = ''(push '' @ nat_to_string n @ '')''"
| "command_to_string ff dbg sh sl (CPop sp n) = ''(pop '' @ nat_to_string n @ '')''"
| "command_to_string ff dbg sh sl (CPrintFunction sp name n file mode) =
     ''(print-function '' @ name @ opt_str (\<lambda>k. '' '' @ nat_to_string k) n @ opt_str (\<lambda>f. '' :file '' @ dbg f) file
     @ (case mode of Print_Default \<Rightarrow> [] | Print_CSV \<Rightarrow> '' :mode csv'') @ '')''"
| "command_to_string ff dbg sh sl (CPrintSize sp name) = ''(print-size '' @ opt_str (\<lambda>n. n) name @ '')''"
| "command_to_string ff dbg sh sl (CInput sp name file) = ''(input '' @ name @ '' '' @ dbg file @ '')''"
| "command_to_string ff dbg sh sl (COutput sp file es) =
     ''(output '' @ dbg file @ '' '' @ join '' '' (map (expr_to_string ff sh sl) es) @ '')''"
| "command_to_string ff dbg sh sl (CFail sp c) = ''(fail '' @ command_to_string ff dbg sh sl c @ '')''"
| "command_to_string ff dbg sh sl (CInclude sp file) = ''(include '' @ dbg file @ '')''"
| "command_to_string ff dbg sh sl (CDatatypes sp ds) = ''(datatype* '' @ join '' '' (map (subdatatypes_to_string ff) ds) @ '')''"
| "command_to_string ff dbg sh sl (CUserDefined sp name es) =
     ''('' @ name @ '' '' @ join '' '' (map (expr_to_string ff (\<lambda>h. h) (\<lambda>l. l)) es) @ '')''"

end
