(* ===== verification/Command_Parser.thy ===== *)
theory Command_Parser
  imports Sexp_Parser Command_Ast Symbol_Gen
begin

text \<open>
  The upper half of \<open>src/ast/parse.rs\<close>: expressions, facts, actions, schedules and commands
  from S-expressions. Macros are functions that clients register; they are an argument. The
  parser's state is what parsing changes or asks for: user-defined command names, the generator
  of fresh names and whether reserved names are refused. After an error the state is not
  modelled.
\<close>

section \<open>What is expected of an S-expression\<close>

text \<open>\<open>expect_uint\<close> at a type whose values are below \<open>bound\<close>.\<close>

definition expect_uint :: "nat \<Rightarrow> string \<Rightarrow> sexp \<Rightarrow> nat presult" where
  "expect_uint bound e x =
     (case x of
        SLit (LInt i) _ \<Rightarrow> if 0 \<le> sint i \<and> nat (sint i) < bound then Ok (nat (sint i))
          else Err (sexp_span x, ''expected '' @ e @ '' to be a nonnegative integer literal'')
      | _ \<Rightarrow> Err (sexp_span x, ''expected '' @ e @ '' to be a nonnegative integer literal''))"

definition expect_string :: "string \<Rightarrow> sexp \<Rightarrow> string presult" where
  "expect_string e x =
     (case x of
        SLit (LString s) _ \<Rightarrow> Ok s
      | _ \<Rightarrow> Err (sexp_span x, ''expected '' @ e @ '' to be a string literal''))"

definition expect_atom :: "string \<Rightarrow> sexp \<Rightarrow> string presult" where
  "expect_atom e x = (case x of SAtom s _ \<Rightarrow> Ok s | _ \<Rightarrow> Err (sexp_span x, ''expected '' @ e))"

definition expect_list :: "string \<Rightarrow> sexp \<Rightarrow> sexp list presult" where
  "expect_list e x = (case x of SList xs _ \<Rightarrow> Ok xs | _ \<Rightarrow> Err (sexp_span x, ''expected '' @ e))"

definition expect_call :: "string \<Rightarrow> sexp \<Rightarrow> (string \<times> sexp list \<times> span) presult" where
  "expect_call e x =
     (case x of
        SList (SAtom func _ # args) sp \<Rightarrow> Ok (func, args, sp)
      | _ \<Rightarrow> Err (sexp_span x, ''expected '' @ e))"

definition expect_atoms :: "string \<Rightarrow> sexp list \<Rightarrow> string list presult" where
  "expect_atoms e xs = bind_o (map_out (\<lambda>x s. bind_o (expect_atom e x) (\<lambda>a. Ok (a, s))) xs ()) (\<lambda>(as, _). Ok as)"

section \<open>The parser\<close>

record parser =
  ps_user_defined :: "string set"
  ps_symbol_gen :: symbol_gen
  ps_no_reserved :: bool

definition internal_prefix :: string where "internal_prefix = ''@''"

definition parser_default :: parser where
  "parser_default = \<lparr>ps_user_defined = {}, ps_symbol_gen = sg_new internal_prefix, ps_no_reserved = True\<rparr>"

type_synonym 'a reader = "sexp list \<Rightarrow> span \<Rightarrow> parser \<Rightarrow> ('a \<times> parser) presult"

record macros =
  mc_commands :: "string \<rightharpoonup> ucommand list reader"
  mc_actions :: "string \<rightharpoonup> uaction list reader"
  mc_exprs :: "string \<rightharpoonup> uexpr reader"

definition no_macros :: macros where
  "no_macros = \<lparr>mc_commands = Map.empty, mc_actions = Map.empty, mc_exprs = Map.empty\<rparr>"

definition add_command_macro :: "string \<Rightarrow> ucommand list reader \<Rightarrow> macros \<Rightarrow> macros" where
  "add_command_macro n f mc = mc\<lparr>mc_commands := (mc_commands mc)(n \<mapsto> f)\<rparr>"

definition add_action_macro :: "string \<Rightarrow> uaction list reader \<Rightarrow> macros \<Rightarrow> macros" where
  "add_action_macro n f mc = mc\<lparr>mc_actions := (mc_actions mc)(n \<mapsto> f)\<rparr>"

definition add_expr_macro :: "string \<Rightarrow> uexpr reader \<Rightarrow> macros \<Rightarrow> macros" where
  "add_expr_macro n f mc = mc\<lparr>mc_exprs := (mc_exprs mc)(n \<mapsto> f)\<rparr>"

text \<open>\<open>add_user_defined\<close>; the error is \<open>Error::CommandAlreadyExists\<close>.\<close>

definition add_user_defined :: "macros \<Rightarrow> string \<Rightarrow> parser \<Rightarrow> (string, parser) outcome" where
  "add_user_defined mc n st =
     (if n \<in> dom (mc_actions mc) \<or> n \<in> dom (mc_exprs mc) \<or> n \<in> dom (mc_commands mc) then Err n
      else Ok (st\<lparr>ps_user_defined := insert n (ps_user_defined st)\<rparr>))"

definition parser_fresh :: "string \<Rightarrow> parser \<Rightarrow> string \<times> parser" where
  "parser_fresh hint st =
     (let (v, g) = sg_fresh hint (ps_symbol_gen st) in (v, st\<lparr>ps_symbol_gen := g\<rparr>))"

subsection \<open>Names\<close>

definition reserved_keywords :: "string list" where "reserved_keywords = [''values'']"

definition command_only_keywords :: "string list" where "command_only_keywords = [''input'', ''output'']"

definition quoted :: "string \<Rightarrow> string" where
  "quoted s = [CHR 0x60] @ s @ [CHR 0x60]"

definition ensure_symbol_not_reserved :: "parser \<Rightarrow> string \<Rightarrow> span \<Rightarrow> unit presult" where
  "ensure_symbol_not_reserved st s sp =
     (if \<not> ps_no_reserved st then Ok ()
      else if s \<in> set reserved_keywords then
        Err (sp, quoted s @ '' is a reserved keyword and cannot be used as a name'')
      else if sg_is_reserved (ps_symbol_gen st) s then
        Err (sp, ''symbols starting with '' @ [CHR 0x27] @ reserved_string (ps_symbol_gen st) @ [CHR 0x27]
                 @ '' are reserved for egglog internals'')
      else Ok ())"

definition ensure_not_colon_prefixed :: "parser \<Rightarrow> string \<Rightarrow> span \<Rightarrow> unit presult" where
  "ensure_not_colon_prefixed st s sp =
     (if ps_no_reserved st \<and> prefix '':'' s then
        Err (sp, quoted s @ '' cannot be used as a name: the '' @ quoted '':'' @ '' prefix is reserved for option keywords'')
      else Ok ())"

definition ensure_definition_name :: "parser \<Rightarrow> string \<Rightarrow> span \<Rightarrow> unit presult" where
  "ensure_definition_name st s sp =
     bind_o (ensure_symbol_not_reserved st s sp) (\<lambda>_.
     bind_o (ensure_not_colon_prefixed st s sp) (\<lambda>_.
       if ps_no_reserved st \<and> s \<in> set command_only_keywords then
         Err (sp, quoted s @ '' is a command and cannot be used as a definition name'')
       else Ok ()))"

definition parse_name :: "parser \<Rightarrow> string \<Rightarrow> sexp \<Rightarrow> string presult" where
  "parse_name st what x =
     bind_o (expect_atom what x) (\<lambda>name.
     bind_o (ensure_definition_name st name (sexp_span x)) (\<lambda>_. Ok name))"

subsection \<open>Options and schemas\<close>

definition option_name :: "sexp \<Rightarrow> string option" where
  "option_name x = (case x of SAtom s _ \<Rightarrow> if prefix '':'' s then Some s else None | _ \<Rightarrow> None)"

text \<open>An option reaches to the next key.\<close>

function parse_options :: "sexp list \<Rightarrow> (string \<times> sexp list) list presult" where
  "parse_options [] = Ok []"
| "parse_options (x # xs) =
     (case option_name x of
        None \<Rightarrow> Err (sexp_span x, ''option key must start with '' @ [CHR 0x27] @ '':'' @ [CHR 0x27])
      | Some key \<Rightarrow>
          bind_o (parse_options (dropWhile (\<lambda>y. option_name y = None) xs)) (\<lambda>out.
            Ok ((key, takeWhile (\<lambda>y. option_name y = None) xs) # out)))"
  by pat_completeness auto
termination
  by (relation "measure length") (auto simp: length_dropWhile_le le_imp_less_Suc)

definition parse_schema :: "sexp \<Rightarrow> sexp \<Rightarrow> schema presult" where
  "parse_schema input output =
     bind_o (bind_o (expect_list ''input sorts'' input) (expect_atoms ''input sort'')) (\<lambda>ins.
     bind_o (case output of
               SList xs _ \<Rightarrow> expect_atoms ''output sort'' xs
             | _ \<Rightarrow> bind_o (expect_atom ''output sort'' output) (\<lambda>a. Ok [a])) (\<lambda>outs.
       if outs = [] then Err (sexp_span output, ''a function must have at least one output sort'')
       else opt_o Panic (schema_new_tuple ins outs)))"

section \<open>Expressions, facts, actions, schedules\<close>

fun parse_expr :: "macros \<Rightarrow> sexp \<Rightarrow> parser \<Rightarrow> (uexpr \<times> parser) presult" where
  "parse_expr mc (SLit l sp) st = Ok (ELit sp l, st)"
| "parse_expr mc (SAtom s sp) st =
     (if s = ''_'' then (let (v, st') = parser_fresh s st in Ok (EVar sp v, st'))
      else bind_o (ensure_symbol_not_reserved st s sp) (\<lambda>_. Ok (EVar sp s, st)))"
| "parse_expr mc (SList [] sp) st = Ok (ELit sp LUnit, st)"
| "parse_expr mc (SList (SAtom head _ # tail) sp) st =
     (case mc_exprs mc head of
        Some f \<Rightarrow> f tail sp st
      | None \<Rightarrow>
          if ps_no_reserved st \<and> head \<in> set command_only_keywords then
            Err (sp, quoted head @ '' is a command and cannot be used as the head of an expression'')
          else bind_o (map_out (parse_expr mc) tail st) (\<lambda>(es, st'). Ok (ECall sp head es, st')))"
| "parse_expr mc (SList (_ # _) sp) st = Err (sp, ''expected call expression'')"

definition parse_fact :: "macros \<Rightarrow> sexp \<Rightarrow> parser \<Rightarrow> (ufact \<times> parser) presult" where
  "parse_fact mc x st =
     bind_o (expect_call ''fact'' x) (\<lambda>(head, tail, sp).
       if head = ''='' then
         (case tail of
            [e1, e2] \<Rightarrow>
              bind_o (parse_expr mc e1 st) (\<lambda>(a, st1).
              bind_o (parse_expr mc e2 st1) (\<lambda>(b, st2). Ok (FEq sp a b, st2)))
          | _ \<Rightarrow> Err (sp, ''usage: (= <expr> <expr>)''))
       else bind_o (parse_expr mc x st) (\<lambda>(e, st1). Ok (FFact e, st1)))"

definition parse_lookup :: "macros \<Rightarrow> sexp \<Rightarrow> parser \<Rightarrow> (string \<times> uexpr list \<times> parser) presult" where
  "parse_lookup mc call st =
     bind_o (expect_call ''table lookup'' call) (\<lambda>(func, args, _).
     bind_o (map_out (parse_expr mc) args st) (\<lambda>(es, st1). Ok (func, es, st1)))"

definition parse_builtin_action :: "macros \<Rightarrow> sexp \<Rightarrow> string \<Rightarrow> uaction list reader" where
  "parse_builtin_action mc x head tail sp st =
     (if head = ''let'' then
        (case tail of
           [name, val] \<Rightarrow>
             bind_o (expect_atom ''binding name'' name) (\<lambda>binding.
             bind_o (ensure_symbol_not_reserved st binding (sexp_span name)) (\<lambda>_.
             bind_o (ensure_not_colon_prefixed st binding (sexp_span name)) (\<lambda>_.
             bind_o (parse_expr mc val st) (\<lambda>(e, st1). Ok ([ALet sp binding e], st1)))))
         | _ \<Rightarrow> Err (sp, ''usage: (let <name> <expr>)''))
      else if head = ''set'' then
        (case tail of
           [call, val] \<Rightarrow>
             bind_o (parse_lookup mc call st) (\<lambda>(func, args, st1).
             bind_o (parse_expr mc val st1) (\<lambda>(e, st2). Ok ([ASet sp func args e], st2)))
         | _ \<Rightarrow> Err (sp, ''usage: (set (<table name> <expr>*) <expr>)''))
      else if head = ''delete'' then
        (case tail of
           [call] \<Rightarrow> bind_o (parse_lookup mc call st) (\<lambda>(func, args, st1). Ok ([AChange sp Delete func args], st1))
         | _ \<Rightarrow> Err (sp, ''usage: (delete (<table name> <expr>*))''))
      else if head = ''subsume'' then
        (case tail of
           [call] \<Rightarrow> bind_o (parse_lookup mc call st) (\<lambda>(func, args, st1). Ok ([AChange sp Subsume func args], st1))
         | _ \<Rightarrow> Err (sp, ''usage: (subsume (<table name> <expr>*))''))
      else if head = ''union'' then
        (case tail of
           [e1, e2] \<Rightarrow>
             bind_o (parse_expr mc e1 st) (\<lambda>(a, st1).
             bind_o (parse_expr mc e2 st1) (\<lambda>(b, st2). Ok ([AUnion sp a b], st2)))
         | _ \<Rightarrow> Err (sp, ''usage: (union <expr> <expr>)''))
      else if head = ''panic'' then
        (case tail of
           [message] \<Rightarrow> bind_o (expect_string ''error message'' message) (\<lambda>m. Ok ([APanic sp m], st))
         | _ \<Rightarrow> Err (sp, ''usage: (panic <string>)''))
      else bind_o (parse_expr mc x st) (\<lambda>(e, st1). Ok ([AExpr sp e], st1)))"

definition parse_action :: "macros \<Rightarrow> sexp \<Rightarrow> parser \<Rightarrow> (uaction list \<times> parser) presult" where
  "parse_action mc x st =
     bind_o (expect_call ''action'' x) (\<lambda>(head, tail, sp).
       case mc_actions mc head of
         Some f \<Rightarrow> f tail sp st
       | None \<Rightarrow> parse_builtin_action mc x head tail sp st)"

definition parse_until ::
    "macros \<Rightarrow> sexp list \<Rightarrow> span \<Rightarrow> parser \<Rightarrow> (ufact list option \<times> parser) presult" where
  "parse_until mc rest sp st =
     bind_o (parse_options rest) (\<lambda>opts. case opts of
         [] \<Rightarrow> Ok (None, st)
       | [(key, facts)] \<Rightarrow>
           if key = '':until'' then bind_o (map_out (parse_fact mc) facts st) (\<lambda>(fs, st1). Ok (Some fs, st1))
           else Err (sp, ''could not parse run options'')
       | _ \<Rightarrow> Err (sp, ''could not parse run options''))"

text \<open>The schedule \<open>(run <ruleset>? <option>*)\<close>.\<close>

definition parse_run_schedule :: "macros \<Rightarrow> uschedule reader" where
  "parse_run_schedule mc tail sp st =
     (let has_ruleset = (case tail of
            [] \<Rightarrow> False
          | SAtom a _ # _ \<Rightarrow> a \<noteq> '':until''
          | _ \<Rightarrow> True)
      in bind_o (if has_ruleset then bind_o (expect_atom ''ruleset name'' (hd tail)) (\<lambda>r. Ok (r, tl tail))
                 else Ok ([], tail)) (\<lambda>(ruleset, rest).
         bind_o (parse_until mc rest sp st) (\<lambda>(u, st1).
           Ok (Run sp \<lparr>rc_ruleset = ruleset, rc_until = u\<rparr>, st1))))"

fun parse_schedule :: "macros \<Rightarrow> sexp \<Rightarrow> parser \<Rightarrow> (uschedule \<times> parser) presult" where
  "parse_schedule mc (SAtom ruleset sp) st = Ok (Run sp \<lparr>rc_ruleset = ruleset, rc_until = None\<rparr>, st)"
| "parse_schedule mc (SList (SAtom head _ # tail) sp) st =
     (if head = ''saturate'' then
        bind_o (map_out (parse_schedule mc) tail st) (\<lambda>(ss, st1). Ok (Saturate sp (Sequence sp ss), st1))
      else if head = ''seq'' then
        bind_o (map_out (parse_schedule mc) tail st) (\<lambda>(ss, st1). Ok (Sequence sp ss, st1))
      else if head = ''repeat'' then
        (case tail of
           limit # tail' \<Rightarrow>
             bind_o (expect_uint (2 ^ 64) ''number of iterations'' limit) (\<lambda>n.
             bind_o (map_out (parse_schedule mc) tail' st) (\<lambda>(ss, st1). Ok (Repeat sp n (Sequence sp ss), st1)))
         | [] \<Rightarrow> Err (sp, ''usage: (repeat <number of iterations> <schedule>*)''))
      else if head = ''run'' then parse_run_schedule mc tail sp st
      else Err (sp, ''expected either saturate, seq, repeat, or run''))"
| "parse_schedule mc x st = Err (sexp_span x, ''expected schedule'')"

end
