(* ===== verification/Program_Parser.thy ===== *)
theory Program_Parser
  imports Command_Parser
begin

text \<open>
  Commands (\<open>Parser::parse_command\<close> of \<open>src/ast/parse.rs\<close>), one definition per group of
  heads, and the entry points that read programs from text.
\<close>

section \<open>Datatypes\<close>

definition types_of :: "sexp list \<Rightarrow> string list presult" where
  "types_of = expect_atoms ''variant argument type''"

text \<open>
  \<open>variant\<close>: the last atoms decide; \<open>:unextractable\<close> is tried first, so a variant has at
  most one of the two annotations.
\<close>

definition parse_variant :: "sexp \<Rightarrow> parser \<Rightarrow> (variant \<times> parser) presult" where
  "parse_variant x st =
     bind_o (expect_call ''datatype variant'' x) (\<lambda>(name, tail, sp).
     bind_o (ensure_definition_name st name sp) (\<lambda>_.
     bind_o (case rev tail of
               SAtom a _ # ts \<Rightarrow>
                 if a = '':unextractable'' then Ok (rev ts, None, True)
                 else (case ts of
                     SAtom b _ # us \<Rightarrow>
                       if b = '':cost'' then bind_o (expect_uint (2 ^ 64) ''cost'' (last tail)) (\<lambda>c. Ok (rev us, Some (word_of_nat c), False))
                       else Ok (tail, None, False)
                   | _ \<Rightarrow> Ok (tail, None, False))
             | c # SAtom b _ # us \<Rightarrow>
                 if b = '':cost'' then bind_o (expect_uint (2 ^ 64) ''cost'' c) (\<lambda>n. Ok (rev us, Some (word_of_nat n), False))
                 else Ok (tail, None, False)
             | _ \<Rightarrow> Ok (tail, None, False)) (\<lambda>(types, cost, unextractable).
     bind_o (types_of types) (\<lambda>ts.
       Ok (\<lparr>va_span = sp, va_name = name, va_types = ts, va_cost = cost, va_unextractable = unextractable\<rparr>, st)))))"

text \<open>A call that gives a container sort its element sorts.\<close>

definition parse_container :: "macros \<Rightarrow> sexp list \<Rightarrow> parser \<Rightarrow> (uexpr list \<times> parser) presult" where
  "parse_container mc args st = map_out (parse_expr mc) args st"

definition rec_datatype ::
    "macros \<Rightarrow> sexp \<Rightarrow> parser \<Rightarrow> ((span \<times> string \<times> subdatatypes) \<times> parser) presult" where
  "rec_datatype mc x st =
     bind_o (expect_call ''datatype'' x) (\<lambda>(head, tail, sp).
       if head = ''sort'' then
         (case tail of
            [name, call] \<Rightarrow>
              bind_o (parse_name st ''sort name'' name) (\<lambda>n.
              bind_o (expect_call ''container sort declaration'' call) (\<lambda>(func, args, _).
              bind_o (parse_container mc args st) (\<lambda>(es, st1). Ok ((sp, n, NewSort func es), st1))))
          | _ \<Rightarrow> Err (sp, ''usage: (sort <name> (<container sort> <argument sort>*))''))
       else
         bind_o (ensure_definition_name st head sp) (\<lambda>_.
         bind_o (map_out parse_variant tail st) (\<lambda>(vs, st1). Ok ((sp, head, Variants vs), st1))))"

section \<open>Sorts\<close>

definition sort_usage :: string where
  "sort_usage = ''usages:'' @ [newline] @ ''(sort <name>)'' @ [newline]"

definition sort_option_usage :: string where
  "sort_option_usage = sort_usage @ ''(sort <name> :internal-uf <uf-function>)'' @ [newline]
     @ ''(sort <name> :internal-proof-func <internal-proof-func-name>)'' @ [newline]
     @ ''(sort <name> (<container sort> <argument sort>*))''"

definition sort_option ::
    "span \<Rightarrow> string \<times> sexp list \<Rightarrow> string option \<times> string option \<Rightarrow> (string option \<times> string option) presult" where
  "sort_option sp opt acc =
     (case (opt, acc) of ((key, val), (uf, pf)) \<Rightarrow>
        if key = '':internal-uf'' \<and> length val = 1 then
          bind_o (expect_atom ''uf function name'' (hd val)) (\<lambda>a. Ok (Some a, pf))
        else if key = '':internal-proof-func'' \<and> length val = 1 then
          bind_o (expect_atom ''internal-proof-func function name'' (hd val)) (\<lambda>a. Ok (uf, Some a))
        else Err (sp, sort_option_usage))"

definition container_sort_option ::
    "span \<Rightarrow> string \<times> sexp list \<Rightarrow> (string \<times> string \<times> string) option \<Rightarrow> (string \<times> string \<times> string) option presult" where
  "container_sort_option sp opt acc =
     (case opt of
        (key, [u, r, l]) \<Rightarrow>
          if key = '':internal-uf-pair-prims'' then
            bind_o (expect_atom ''uf function name'' u) (\<lambda>a.
            bind_o (expect_atom ''refl primitive name'' r) (\<lambda>b.
            bind_o (expect_atom ''find-leader primitive name'' l) (\<lambda>c. Ok (Some (a, b, c)))))
          else Err (sp, ''usage: (sort <name> (<container sort> <argument sort>*) [:internal-uf-pair-prims <uf> <refl> <leader>])'')
      | _ \<Rightarrow> Err (sp, ''usage: (sort <name> (<container sort> <argument sort>*) [:internal-uf-pair-prims <uf> <refl> <leader>])''))"

definition parse_sort :: "macros \<Rightarrow> ucommand list reader" where
  "parse_sort mc tail sp st =
     (case tail of
        [] \<Rightarrow> Err (sp, sort_usage @ ''(sort <name> (<container sort> <argument sort>*))'')
      | [name] \<Rightarrow>
          bind_o (parse_name st ''sort name'' name) (\<lambda>n. Ok ([CSort sp n None None None None True], st))
      | name # SList xs csp # rest \<Rightarrow>
          bind_o (expect_call ''container sort declaration'' (SList xs csp)) (\<lambda>(func, args, _).
          bind_o (parse_options rest) (\<lambda>opts.
          bind_o (fold_out (container_sort_option sp) opts None) (\<lambda>prims.
          bind_o (parse_name st ''sort name'' name) (\<lambda>n.
          bind_o (parse_container mc args st) (\<lambda>(es, st1).
            Ok ([CSort sp n (Some (func, es)) None None prims True], st1))))))
      | name # rest \<Rightarrow>
          bind_o (parse_options rest) (\<lambda>opts.
          bind_o (fold_out (sort_option sp) opts (None, None)) (\<lambda>(uf, pf).
          bind_o (parse_name st ''sort name'' name) (\<lambda>n. Ok ([CSort sp n None uf pf None True], st)))))"

section \<open>Functions and constructors\<close>

record function_options =
  fo_merge :: "uexpr option"
  fo_merge_specified :: bool
  fo_hidden :: bool
  fo_let :: bool
  fo_term_constructor :: "string option"
  fo_unextractable :: bool
  fo_is_uf :: bool
  fo_onchange :: "string option"
  fo_canon :: "string option"

definition no_function_options :: function_options where
  "no_function_options =
     \<lparr>fo_merge = None, fo_merge_specified = False, fo_hidden = False, fo_let = False, fo_term_constructor = None,
      fo_unextractable = False, fo_is_uf = False, fo_onchange = None, fo_canon = None\<rparr>"

definition function_flag :: "string \<Rightarrow> function_options \<Rightarrow> span \<Rightarrow> function_options presult" where
  "function_flag key o' sp =
     (if key = '':no-merge'' then
        if fo_merge_specified o'
        then Err (sp, ''conflicting merge options: :no-merge and :merge cannot both be specified'')
        else Ok (o'\<lparr>fo_merge := None, fo_merge_specified := True\<rparr>)
      else if key = '':internal-hidden'' then Ok (o'\<lparr>fo_hidden := True\<rparr>)
      else if key = '':internal-let'' then Ok (o'\<lparr>fo_let := True\<rparr>)
      else if key = '':unextractable'' then Ok (o'\<lparr>fo_unextractable := True\<rparr>)
      else Err (sp, ''could not parse function options''))"

definition function_option ::
    "macros \<Rightarrow> span \<Rightarrow> string \<times> sexp list \<Rightarrow> function_options \<times> parser \<Rightarrow> (function_options \<times> parser) presult" where
  "function_option mc sp opt acc =
     (case (opt, acc) of ((key, val), (fo, st)) \<Rightarrow>
        case val of
          [] \<Rightarrow> bind_o (function_flag key fo sp) (\<lambda>fo'. Ok (fo', st))
        | [v] \<Rightarrow>
            if key = '':merge'' then
              if fo_merge_specified fo
              then Err (sp, ''conflicting merge options: :merge and :no-merge cannot both be specified'')
              else bind_o (parse_expr mc v st) (\<lambda>(e, st1). Ok (fo\<lparr>fo_merge := Some e, fo_merge_specified := True\<rparr>, st1))
            else if key = '':impl'' then
              if fo_is_uf fo then Err (sp, ''impl option specified more than once'')
              else bind_o (expect_atom ''function implementation'' v) (\<lambda>a.
                if a \<noteq> ''displaced-union-find'' then Err (sp, ''unsupported function implementation '' @ a)
                else Ok (fo\<lparr>fo_is_uf := True\<rparr>, st))
            else if key = '':onchange'' then
              if fo_onchange fo \<noteq> None then Err (sp, '':onchange specified more than once'')
              else bind_o (expect_atom ''onchange relation'' v) (\<lambda>a. Ok (fo\<lparr>fo_onchange := Some a\<rparr>, st))
            else if key = '':canon-prim'' then
              if fo_canon fo \<noteq> None then Err (sp, '':canon-prim specified more than once'')
              else bind_o (expect_atom ''canon-prim name'' v) (\<lambda>a. Ok (fo\<lparr>fo_canon := Some a\<rparr>, st))
            else if key = '':internal-term-constructor'' then
              bind_o (expect_atom ''term constructor name'' v) (\<lambda>a. Ok (fo\<lparr>fo_term_constructor := Some a\<rparr>, st))
            else Err (sp, ''could not parse function options'')
        | _ \<Rightarrow> Err (sp, ''could not parse function options''))"

definition function_impl_of :: "function_options \<Rightarrow> span \<Rightarrow> function_impl presult" where
  "function_impl_of fo sp =
     (if \<not> fo_is_uf fo then
        if fo_onchange fo \<noteq> None \<or> fo_canon fo \<noteq> None
        then Err (sp, '':onchange and :canon-prim require :impl displaced-union-find'')
        else if \<not> fo_merge_specified fo then Err (sp, ''functions are required to specify merge behaviour'')
        else Ok Default_Impl
      else if fo_merge_specified fo
        then Err (sp, ''displaced-union-find functions cannot specify merge behaviour'')
        else Ok (Displaced_Union_Find (fo_onchange fo) (fo_canon fo)))"

definition parse_function :: "macros \<Rightarrow> ucommand list reader" where
  "parse_function mc tail sp st =
     (case tail of
        name # inputs # output # rest \<Rightarrow>
          bind_o (parse_options rest) (\<lambda>opts.
          bind_o (fold_out (function_option mc sp) opts (no_function_options, st)) (\<lambda>(fo, st1).
          bind_o (function_impl_of fo sp) (\<lambda>impl.
          bind_o (parse_name st1 ''function name'' name) (\<lambda>n.
          bind_o (parse_schema inputs output) (\<lambda>sch.
            Ok ([CFunction sp n sch (fo_merge fo) impl (fo_hidden fo) (fo_let fo) (fo_term_constructor fo)
                   (fo_unextractable fo)], st1))))))
      | _ \<Rightarrow> Err (sp, ''usages:'' @ [newline]
               @ ''(function <name> (<input sort>*) <output sort> :merge <expr>)'' @ [newline]
               @ ''(function <name> (<input sort>*) <output sort> :no-merge)'' @ [newline]
               @ ''(function <name> (<input sort>*) <output sort> :impl displaced-union-find (:onchange <relation>)? (:canon-prim <prim>)?)''))"

text \<open>Cost, unextractable, hidden, let binding.\<close>

definition constructor_option ::
    "span \<Rightarrow> string \<times> sexp list \<Rightarrow> u64 option \<times> bool \<times> bool \<times> bool \<Rightarrow> (u64 option \<times> bool \<times> bool \<times> bool) presult" where
  "constructor_option sp opt acc =
     (case (opt, acc) of ((key, val), (cost, unext, hidden, let_b)) \<Rightarrow>
        if key = '':unextractable'' \<and> val = [] then Ok (cost, True, hidden, let_b)
        else if key = '':internal-hidden'' \<and> val = [] then Ok (cost, unext, True, let_b)
        else if key = '':internal-let'' \<and> val = [] then Ok (cost, unext, hidden, True)
        else if key = '':cost'' \<and> length val = 1 then
          bind_o (expect_uint (2 ^ 64) ''cost'' (hd val)) (\<lambda>c. Ok (Some (word_of_nat c), unext, hidden, let_b))
        else Err (sp, ''could not parse constructor options''))"

definition parse_constructor :: "ucommand list reader" where
  "parse_constructor tail sp st =
     (case tail of
        name # inputs # output # rest \<Rightarrow>
          bind_o (parse_options rest) (\<lambda>opts.
          bind_o (fold_out (constructor_option sp) opts (None, False, False, False)) (\<lambda>(cost, unext, hidden, let_b).
          bind_o (parse_name st ''constructor name'' name) (\<lambda>n.
          bind_o (parse_schema inputs output) (\<lambda>sch.
            Ok ([CConstructor sp n sch cost unext hidden let_b None], st)))))
      | _ \<Rightarrow> Err (sp, ''usages:'' @ [newline]
               @ ''(constructor <name> (<input sort>*) <output sort>)'' @ [newline]
               @ ''(constructor <name> (<input sort>*) <output sort> :cost <cost>)'' @ [newline]
               @ ''(constructor <name> (<input sort>*) <output sort> :unextractable)''))"

section \<open>Rules and rewrites\<close>

definition rule_option :: "span \<Rightarrow> string \<times> sexp list \<Rightarrow> urule \<Rightarrow> urule presult" where
  "rule_option sp opt r =
     (case opt of (key, val) \<Rightarrow>
        if key = '':ruleset'' \<and> length val = 1 then
          bind_o (expect_atom ''ruleset name'' (hd val)) (\<lambda>a. Ok (r\<lparr>rule_ruleset := a\<rparr>))
        else if key = '':name'' \<and> length val = 1 then
          bind_o (expect_string ''rule name'' (hd val)) (\<lambda>a. Ok (r\<lparr>rule_name := a\<rparr>))
        else if key = '':unsafe-seminaive'' \<and> val = [] then Ok (r\<lparr>rule_unsafe_seminaive := True\<rparr>)
        else if key = '':naive'' \<and> val = [] then Ok (r\<lparr>rule_naive := True\<rparr>)
        else if key = '':no-decomp'' \<and> val = [] then Ok (r\<lparr>rule_no_decomp := True\<rparr>)
        else Err (sp, ''could not parse rule option''))"

definition parse_rule :: "macros \<Rightarrow> ucommand list reader" where
  "parse_rule mc tail sp st =
     (case tail of
        lhs # rhs # rest \<Rightarrow>
          bind_o (expect_list ''rule query'' lhs) (\<lambda>query.
          bind_o (map_out (parse_fact mc) query st) (\<lambda>(body, st1).
          bind_o (expect_list ''rule actions'' rhs) (\<lambda>acts.
          bind_o (map_out (parse_action mc) acts st1) (\<lambda>(heads, st2).
          bind_o (parse_options rest) (\<lambda>opts.
          bind_o (fold_out (rule_option sp) opts
                    \<lparr>rule_span = sp, rule_head = concat heads, rule_body = body, rule_name = [], rule_ruleset = [],
                     rule_unsafe_seminaive = False, rule_naive = False, rule_no_decomp = False\<rparr>) (\<lambda>r.
            Ok ([CRule r], st2)))))))
      | _ \<Rightarrow> Err (sp, ''usage: (rule (<fact>*) (<action>*) <option>*)''))"

text \<open>Ruleset, conditions, name and whether the rewrite subsumes; a birewrite does not.\<close>

type_synonym rewrite_options = "string \<times> ufact list \<times> string \<times> bool"

definition rewrite_option ::
    "macros \<Rightarrow> bool \<Rightarrow> string \<Rightarrow> span \<Rightarrow> string \<times> sexp list \<Rightarrow> rewrite_options \<times> parser
      \<Rightarrow> (rewrite_options \<times> parser) presult" where
  "rewrite_option mc may_subsume err sp opt acc =
     (case (opt, acc) of ((key, val), ((ruleset, conditions, name, subsume), st)) \<Rightarrow>
        if key = '':ruleset'' \<and> length val = 1 then
          bind_o (expect_atom ''ruleset name'' (hd val)) (\<lambda>a. Ok ((a, conditions, name, subsume), st))
        else if key = '':subsume'' \<and> val = [] \<and> may_subsume then Ok ((ruleset, conditions, name, True), st)
        else if key = '':when'' \<and> length val = 1 then
          bind_o (expect_list ''rewrite conditions'' (hd val)) (\<lambda>ws.
          bind_o (map_out (parse_fact mc) ws st) (\<lambda>(fs, st1). Ok ((ruleset, fs, name, subsume), st1)))
        else if key = '':name'' \<and> length val = 1 then
          bind_o (expect_string ''rule name'' (hd val)) (\<lambda>a. Ok ((ruleset, conditions, a, subsume), st))
        else Err (sp, err))"

definition parse_rewrite_with ::
    "macros \<Rightarrow> bool \<Rightarrow> string \<Rightarrow> string \<Rightarrow> (string \<Rightarrow> (string, string) rewrite \<Rightarrow> bool \<Rightarrow> ucommand)
      \<Rightarrow> ucommand list reader" where
  "parse_rewrite_with mc may_subsume err usage mk tail sp st =
     (case tail of
        lhs # rhs # rest \<Rightarrow>
          bind_o (parse_expr mc lhs st) (\<lambda>(l, st1).
          bind_o (parse_expr mc rhs st1) (\<lambda>(r, st2).
          bind_o (parse_options rest) (\<lambda>opts.
          bind_o (fold_out (rewrite_option mc may_subsume err sp) opts (([], [], [], False), st2))
            (\<lambda>((ruleset, conditions, name, subsume), st3).
            Ok ([mk ruleset \<lparr>rw_span = sp, rw_lhs = l, rw_rhs = r, rw_conditions = conditions, rw_name = name\<rparr> subsume],
                st3)))))
      | _ \<Rightarrow> Err (sp, usage))"

definition parse_rewrite :: "macros \<Rightarrow> ucommand list reader" where
  "parse_rewrite mc = parse_rewrite_with mc True ''could not parse rewrite options''
     ''usage: (rewrite <expr> <expr> <option>*)'' (\<lambda>rs rw sub. CRewrite rs rw sub)"

definition parse_birewrite :: "macros \<Rightarrow> ucommand list reader" where
  "parse_birewrite mc = parse_rewrite_with mc False ''could not parse birewrite options''
     ''usage: (birewrite <expr> <expr> <option>*)'' (\<lambda>rs rw sub. CBiRewrite rs rw)"

section \<open>Running and printing\<close>

text \<open>\<open>(run <ruleset>? <uint> <:until (<fact>*)>?)\<close>: a ruleset is there when the second argument is a \<open>u32\<close>.\<close>

definition is_ok :: "('e, 'a) outcome \<Rightarrow> bool" where
  "is_ok r = (case r of Ok _ \<Rightarrow> True | _ \<Rightarrow> False)"

definition parse_run :: "macros \<Rightarrow> ucommand list reader" where
  "parse_run mc tail sp st =
     (if tail = [] then Err (sp, ''usage: (run <ruleset>? <uint> <:until (<fact>*)>?)'')
      else
        let has_ruleset = (2 \<le> length tail \<and> is_ok (expect_uint (2 ^ 32) [] (tail ! 1)))
        in bind_o (if has_ruleset then
                     bind_o (expect_atom ''ruleset name'' (tail ! 0)) (\<lambda>r.
                     bind_o (expect_uint (2 ^ 64) ''number of iterations'' (tail ! 1)) (\<lambda>n. Ok (r, n, drop 2 tail)))
                   else
                     bind_o (expect_uint (2 ^ 64) ''number of iterations'' (tail ! 0)) (\<lambda>n. Ok ([], n, drop 1 tail)))
             (\<lambda>(ruleset, limit, rest).
           bind_o (parse_until mc rest sp st) (\<lambda>(u, st1).
             Ok ([CRunSchedule (Repeat sp limit (Run sp \<lparr>rc_ruleset = ruleset, rc_until = u\<rparr>))], st1))))"

definition print_function_option ::
    "span \<Rightarrow> string \<times> sexp list \<Rightarrow> string option \<times> print_function_mode
      \<Rightarrow> (string option \<times> print_function_mode) presult" where
  "print_function_option sp opt acc =
     (case (opt, acc) of ((key, val), (file, mode)) \<Rightarrow>
        if key = '':file'' \<and> length val = 1 then
          bind_o (expect_string ''file name'' (hd val)) (\<lambda>f. Ok (Some f, mode))
        else
          (case val of
             [SAtom m _] \<Rightarrow>
               if key = '':mode'' then
                 if m = ''default'' then Ok (file, Print_Default)
                 else if m = ''csv'' then Ok (file, Print_CSV)
                 else Err (sp, ''Unknown print-function mode. Supported modes are '' @ quoted ''default'' @ '' and '' @ quoted ''csv'' @ ''.'')
               else Err (sp, ''Unknown option to print-function. Supported options are '' @ quoted '':mode csv|default''
                      @ '' and '' @ quoted '':file \"<filename>\"'' @ ''.'')
           | _ \<Rightarrow> Err (sp, ''Unknown option to print-function. Supported options are '' @ quoted '':mode csv|default''
                      @ '' and '' @ quoted '':file \"<filename>\"'' @ ''.'')))"

definition parse_print_function :: "ucommand list reader" where
  "parse_print_function tail sp st =
     (case tail of
        [] \<Rightarrow> Err (sp, ''usage: (print-function <table name> <number of rows>? <option>*)'')
      | [name] \<Rightarrow> bind_o (expect_atom ''table name'' name) (\<lambda>n. Ok ([CPrintFunction sp n None None Print_Default], st))
      | name # x # rest \<Rightarrow>
          let (rows, rest') = (case expect_uint (2 ^ 64) ''number of rows'' x of
                Ok k \<Rightarrow> (Some k, rest)
              | _ \<Rightarrow> (None, x # rest))
          in bind_o (parse_options rest') (\<lambda>opts.
             bind_o (fold_out (print_function_option sp) opts (None, Print_Default)) (\<lambda>(file, mode).
             bind_o (expect_atom ''table name'' name) (\<lambda>n. Ok ([CPrintFunction sp n rows file mode], st)))))"

definition parse_print_stats :: "ucommand list reader" where
  "parse_print_stats tail sp st =
     (case tail of
        [] \<Rightarrow> Ok ([CPrintOverallStatistics sp None], st)
      | [SAtom a _, file] \<Rightarrow>
          if a = '':file'' then
            bind_o (expect_string ''file name'' file) (\<lambda>f. Ok ([CPrintOverallStatistics sp (Some f)], st))
          else Err (sp, ''usages: (print-stats)'' @ [newline] @ ''(print-stats :file \"<filename>\")'')
      | _ \<Rightarrow> Err (sp, ''usages: (print-stats)'' @ [newline] @ ''(print-stats :file \"<filename>\")''))"

definition parse_extract :: "macros \<Rightarrow> ucommand list reader" where
  "parse_extract mc tail sp st =
     (case tail of
        [e] \<Rightarrow> bind_o (parse_expr mc e st) (\<lambda>(a, st1). Ok ([CExtract sp a (ELit sp (LInt 0))], st1))
      | [e, v] \<Rightarrow>
          bind_o (parse_expr mc e st) (\<lambda>(a, st1).
          bind_o (parse_expr mc v st1) (\<lambda>(b, st2). Ok ([CExtract sp a b], st2)))
      | _ \<Rightarrow> Err (sp, ''usage: (extract <expr> <number of variants>?)''))"

definition parse_output :: "macros \<Rightarrow> ucommand list reader" where
  "parse_output mc tail sp st =
     (case tail of
        file # exprs \<Rightarrow>
          bind_o (expect_string ''file name'' file) (\<lambda>f.
          bind_o (map_out (parse_expr mc) exprs st) (\<lambda>(es, st1). Ok ([COutput sp f es], st1)))
      | [] \<Rightarrow> Err (sp, ''usage: (output <file name> <expr>+)''))"

section \<open>The other heads\<close>

text \<open>Heads that neither read expressions nor change the parser.\<close>

definition parse_simple :: "string \<Rightarrow> sexp list \<Rightarrow> span \<Rightarrow> parser \<Rightarrow> ucommand presult option" where
  "parse_simple head tail sp st =
     (if head = ''relation'' then Some
        (case tail of
           [name, inputs] \<Rightarrow>
             bind_o (parse_name st ''relation name'' name) (\<lambda>n.
             bind_o (bind_o (expect_list ''input sorts'' inputs) (expect_atoms ''input sort'')) (\<lambda>ins.
               Ok (CRelation sp n ins)))
         | _ \<Rightarrow> Err (sp, ''usage: (relation <name> (<input sort>*))''))
      else if head = ''ruleset'' then Some
        (case tail of
           [name] \<Rightarrow> bind_o (expect_atom ''ruleset name'' name) (\<lambda>n. Ok (CAddRuleset sp n))
         | _ \<Rightarrow> Err (sp, ''usage: (ruleset <name>)''))
      else if head = ''unstable-combined-ruleset'' then Some
        (case tail of
           name # subs \<Rightarrow>
             bind_o (expect_atom ''combined ruleset name'' name) (\<lambda>n.
             bind_o (expect_atoms ''subruleset name'' subs) (\<lambda>rs. Ok (CUnstableCombinedRuleset sp n rs)))
         | [] \<Rightarrow> Err (sp, ''usage: (unstable-combined-ruleset <name> <child ruleset>*)''))
      else if head = ''prove-exists'' then Some
        (case tail of
           [c] \<Rightarrow> bind_o (expect_atom ''constructor name'' c) (\<lambda>n. Ok (CProveExists sp n))
         | _ \<Rightarrow> Err (sp, ''usage: (prove-exists <constructor>)''))
      else if head = ''push'' then Some
        (case tail of
           [] \<Rightarrow> Ok (CPush 1)
         | [n] \<Rightarrow> bind_o (expect_uint (2 ^ 64) ''number of times to push'' n) (\<lambda>k. Ok (CPush k))
         | _ \<Rightarrow> Err (sp, ''usage: (push <uint>?)''))
      else if head = ''pop'' then Some
        (case tail of
           [] \<Rightarrow> Ok (CPop sp 1)
         | [n] \<Rightarrow> bind_o (expect_uint (2 ^ 64) ''number of times to pop'' n) (\<lambda>k. Ok (CPop sp k))
         | _ \<Rightarrow> Err (sp, ''usage: (pop <uint>?)''))
      else if head = ''print-size'' then Some
        (case tail of
           [] \<Rightarrow> Ok (CPrintSize sp None)
         | [name] \<Rightarrow> bind_o (expect_atom ''table name'' name) (\<lambda>n. Ok (CPrintSize sp (Some n)))
         | _ \<Rightarrow> Err (sp, ''usage: (print-size <table name>?)''))
      else if head = ''input'' then Some
        (case tail of
           [name, file] \<Rightarrow>
             bind_o (expect_atom ''table name'' name) (\<lambda>n.
             bind_o (expect_string ''file name'' file) (\<lambda>f. Ok (CInput sp n f)))
         | _ \<Rightarrow> Err (sp, ''usage: (input <table name> \"<file name>\")''))
      else if head = ''include'' then Some
        (case tail of
           [file] \<Rightarrow> bind_o (expect_string ''file name'' file) (\<lambda>f. Ok (CInclude sp f))
         | _ \<Rightarrow> Err (sp, ''usage: (include <file name>)''))
      else None)"

definition parse_builtin :: "macros \<Rightarrow> sexp \<Rightarrow> string \<Rightarrow> ucommand list reader" where
  "parse_builtin mc x head tail sp st =
     (if head = ''sort'' then parse_sort mc tail sp st
      else if head = ''datatype'' then
        (case tail of
           name # variants \<Rightarrow>
             bind_o (parse_name st ''sort name'' name) (\<lambda>n.
             bind_o (map_out parse_variant variants st) (\<lambda>(vs, st1). Ok ([CDatatype sp n vs], st1)))
         | [] \<Rightarrow> Err (sp, ''usage: (datatype <name> <variant>*)''))
      else if head = ''datatype*'' then
        bind_o (map_out (rec_datatype mc) tail st) (\<lambda>(ds, st1). Ok ([CDatatypes sp ds], st1))
      else if head = ''function'' then parse_function mc tail sp st
      else if head = ''constructor'' then parse_constructor tail sp st
      else if head = ''rule'' then parse_rule mc tail sp st
      else if head = ''rewrite'' then parse_rewrite mc tail sp st
      else if head = ''birewrite'' then parse_birewrite mc tail sp st
      else if head = ''run'' then parse_run mc tail sp st
      else if head = ''run-schedule'' then
        bind_o (map_out (parse_schedule mc) tail st) (\<lambda>(ss, st1). Ok ([CRunSchedule (Sequence sp ss)], st1))
      else if head = ''extract'' then parse_extract mc tail sp st
      else if head = ''check'' then
        bind_o (map_out (parse_fact mc) tail st) (\<lambda>(fs, st1). Ok ([CCheck sp fs], st1))
      else if head = ''prove'' then
        bind_o (map_out (parse_fact mc) tail st) (\<lambda>(fs, st1). Ok ([CProve sp fs], st1))
      else if head = ''print-stats'' then parse_print_stats tail sp st
      else if head = ''print-function'' then parse_print_function tail sp st
      else if head = ''output'' then parse_output mc tail sp st
      else case parse_simple head tail sp st of
          Some r \<Rightarrow> bind_o r (\<lambda>c. Ok ([c], st))
        | None \<Rightarrow> bind_o (parse_action mc x st) (\<lambda>(as, st1). Ok (map CAction as, st1)))"

lemma expect_call_shape:
  "expect_call e x = Ok (head, tail, sp) \<longleftrightarrow> (\<exists>asp. x = SList (SAtom head asp # tail) sp)"
  by (cases x; force simp: expect_call_def split: list.splits sexp.splits)

text \<open>\<open>(fail c)\<close> panics unless \<open>c\<close> is one command.\<close>

function parse_command :: "macros \<Rightarrow> sexp \<Rightarrow> parser \<Rightarrow> (ucommand list \<times> parser) presult" where
  "parse_command mc x st =
     bind_o (expect_call ''command'' x) (\<lambda>(head, tail, sp).
       case mc_commands mc head of
         Some f \<Rightarrow> f tail sp st
       | None \<Rightarrow>
           if head \<in> ps_user_defined st then
             bind_o (map_out (parse_expr mc) tail st) (\<lambda>(es, st1). Ok ([CUserDefined sp head es], st1))
           else if head = ''fail'' then
             (case tail of
                [subcommand] \<Rightarrow>
                  bind_o (parse_command mc subcommand st) (\<lambda>(cs, st1). case cs of
                      [c] \<Rightarrow> Ok ([CFail sp c], st1)
                    | _ \<Rightarrow> Panic)
              | _ \<Rightarrow> Err (sp, ''usage: (fail <command>)''))
           else parse_builtin mc x head tail sp st)"
  by pat_completeness auto
termination
  by (relation "measure (\<lambda>(mc, x, st). size x)") (auto simp: expect_call_shape)

declare parse_command.simps [simp del]

section \<open>From text\<close>

definition get_program_from_string ::
    "(string \<Rightarrow> 64 word option) \<Rightarrow> macros \<Rightarrow> string option \<Rightarrow> string \<Rightarrow> parser \<Rightarrow> (ucommand list \<times> parser) presult" where
  "get_program_from_string pf mc file input st =
     bind_o (all_sexps pf (sp_new file input)) (\<lambda>xs.
     bind_o (map_out (parse_command mc) xs st) (\<lambda>(css, st1). Ok (concat css, st1)))"

definition get_from_string ::
    "(string \<Rightarrow> 64 word option) \<Rightarrow> (sexp \<Rightarrow> parser \<Rightarrow> ('a \<times> parser) presult) \<Rightarrow> string option \<Rightarrow> string \<Rightarrow> parser
      \<Rightarrow> ('a \<times> parser) presult" where
  "get_from_string pf parse file input st = bind_o (read_sexp pf (sp_new file input)) (\<lambda>(x, _). parse x st)"

definition get_expr_from_string ::
    "(string \<Rightarrow> 64 word option) \<Rightarrow> macros \<Rightarrow> string option \<Rightarrow> string \<Rightarrow> parser \<Rightarrow> (uexpr \<times> parser) presult" where
  "get_expr_from_string pf mc = get_from_string pf (parse_expr mc)"

definition get_schedule_from_string ::
    "(string \<Rightarrow> 64 word option) \<Rightarrow> macros \<Rightarrow> string option \<Rightarrow> string \<Rightarrow> parser \<Rightarrow> (uschedule \<times> parser) presult" where
  "get_schedule_from_string pf mc = get_from_string pf (parse_schedule mc)"

definition get_fact_from_string ::
    "(string \<Rightarrow> 64 word option) \<Rightarrow> macros \<Rightarrow> string option \<Rightarrow> string \<Rightarrow> parser \<Rightarrow> (ufact \<times> parser) presult" where
  "get_fact_from_string pf mc = get_from_string pf (parse_fact mc)"

end
