(* ===== verification/Desugar.thy ===== *)
theory Desugar
  imports Program_Parser
begin

text \<open>
  \<open>src/ast/desugar.rs\<close>: surface commands become normalized ones. Rewrites become rules,
  relations a sort and a constructor, datatypes a sort and its constructors, \<open>prove\<close> a rule
  that builds a fresh constructor. Only the parser's generator of fresh names changes.
\<close>

type_synonym uncommands = "uncommand list"

text \<open>Without a name of its own a rule is named by its text, with single quotes for double ones.\<close>

definition rule_name_of :: "(64 word \<Rightarrow> string) \<Rightarrow> (string \<Rightarrow> string) \<Rightarrow> ucommand \<Rightarrow> string" where
  "rule_name_of ff dbg c =
     map (\<lambda>ch. if ch = CHR ''\"'' then CHR 0x27 else ch) (command_to_string ff dbg (\<lambda>h. h) (\<lambda>l. l) c)"

definition plain_sort :: "span \<Rightarrow> string \<Rightarrow> bool \<Rightarrow> uncommand" where
  "plain_sort sp name unionable = NSort sp name None None None None unionable"

definition desugar_prove :: "parser \<Rightarrow> span \<Rightarrow> ufact list \<Rightarrow> uncommands \<times> parser" where
  "desugar_prove st sp query =
     (let (sort, st1) = parser_fresh ''ExistsSort'' st;
          (con, st2) = parser_fresh ''ExistsConstructor'' st1;
          (ruleset, st3) = parser_fresh ''exists'' st2;
          (name, st4) = parser_fresh ''prove_exists_rule'' st3
      in ([plain_sort sp sort False,
           NFunction (decl_constructor sp con (schema_new [] sort) None False True),
           NAddRuleset sp ruleset,
           NNormRule \<lparr>rule_span = sp, rule_head = [AExpr sp (ECall sp con [])], rule_body = query, rule_name = name,
                      rule_ruleset = ruleset, rule_unsafe_seminaive = False, rule_naive = False,
                      rule_no_decomp = False\<rparr>,
           NRunSchedule (Run sp \<lparr>rc_ruleset = ruleset, rc_until = None\<rparr>),
           NProveExists sp con], st4))"

definition variant_decl :: "string \<Rightarrow> bool \<Rightarrow> variant \<Rightarrow> uncommand" where
  "variant_decl datatype_name unextractable v =
     NFunction (decl_constructor (va_span v) (va_name v) (schema_new (va_types v) datatype_name) (va_cost v)
       unextractable False)"

definition desugar_datatype :: "span \<Rightarrow> string \<Rightarrow> variant list \<Rightarrow> uncommands" where
  "desugar_datatype sp name vs =
     plain_sort sp name True # map (\<lambda>v. variant_decl name (va_unextractable v) v) vs"

text \<open>
  \<open>datatype*\<close>: first the sorts of the datatypes, then the container sorts, then the variants,
  none of them unextractable.
\<close>

definition desugar_datatypes :: "(span \<times> string \<times> subdatatypes) list \<Rightarrow> uncommands" where
  "desugar_datatypes ds =
     concat (map (\<lambda>(sp, name, d). case d of Variants _ \<Rightarrow> [plain_sort sp name True] | NewSort _ _ \<Rightarrow> []) ds)
     @ concat (map (\<lambda>(sp, name, d). case d of
           Variants _ \<Rightarrow> []
         | NewSort head args \<Rightarrow> [NSort sp name (Some (head, args)) None None None True]) ds)
     @ concat (map (\<lambda>(sp, name, d). case d of
           Variants vs \<Rightarrow> map (variant_decl name False) vs
         | NewSort _ _ \<Rightarrow> []) ds)"

definition rewrite_actions :: "(string, string) rewrite \<Rightarrow> bool \<Rightarrow> string \<Rightarrow> uaction list option" where
  "rewrite_actions rw subsume v =
     (let u = AUnion (rw_span rw) (EVar (rw_span rw) v) (rw_rhs rw) in
      if \<not> subsume then Some [u]
      else case rw_lhs rw of
          ECall _ f args \<Rightarrow> Some [u, AChange (rw_span rw) Subsume f args]
        | _ \<Rightarrow> None)"

definition desugar_rewrite ::
    "string \<Rightarrow> string \<Rightarrow> (string, string) rewrite \<Rightarrow> bool \<Rightarrow> parser \<Rightarrow> (uncommands \<times> parser) presult" where
  "desugar_rewrite ruleset name rw subsume st =
     (let (v, st1) = parser_fresh ''rewrite_var__'' st; sp = rw_span rw in
      bind_o (opt_o Panic (rewrite_actions rw subsume v)) (\<lambda>as.
        Ok ([NNormRule \<lparr>rule_span = sp, rule_head = as,
               rule_body = FEq sp (EVar sp v) (rw_lhs rw) # rw_conditions rw, rule_name = name,
               rule_ruleset = ruleset, rule_unsafe_seminaive = False, rule_naive = False,
               rule_no_decomp = False\<rparr>], st1)))"

definition desugar_birewrite ::
    "string \<Rightarrow> string \<Rightarrow> (string, string) rewrite \<Rightarrow> parser \<Rightarrow> (uncommands \<times> parser) presult" where
  "desugar_birewrite ruleset name rw st =
     (let n = (if rw_name rw = [] then name else rw_name rw);
          rw2 = \<lparr>rw_span = rw_span rw, rw_lhs = rw_rhs rw, rw_rhs = rw_lhs rw, rw_conditions = rw_conditions rw,
                 rw_name = n\<rparr>
      in bind_o (desugar_rewrite ruleset (n @ ''=>'') rw False st) (\<lambda>(cs1, st1).
         bind_o (desugar_rewrite ruleset (n @ ''<='') rw2 False st1) (\<lambda>(cs2, st2). Ok (cs1 @ cs2, st2))))"

definition desugar_relation :: "parser \<Rightarrow> span \<Rightarrow> string \<Rightarrow> string list \<Rightarrow> uncommands \<times> parser" where
  "desugar_relation st sp name inputs =
     (let (sort, st1) = parser_fresh (filter (\<lambda>c. c \<noteq> CHR ''-'') name @ ''Sort'') st
      in ([plain_sort sp sort False,
           NFunction (decl_constructor sp name (schema_new inputs sort) None False False)], st1))"

definition desugar_function ::
    "span \<Rightarrow> string \<Rightarrow> schema \<Rightarrow> uexpr option \<Rightarrow> function_impl \<Rightarrow> bool \<Rightarrow> bool \<Rightarrow> string option \<Rightarrow> bool \<Rightarrow> uncommand" where
  "desugar_function sp name schema merge impl hidden let_b tc unext =
     (let fd = (decl_function sp name schema merge impl)
                 \<lparr>fd_internal_hidden := hidden, fd_internal_let := let_b, fd_term_constructor := tc\<rparr>
      in NFunction (if tc \<noteq> None then fd\<lparr>fd_unextractable := unext\<rparr>
                    else if unext then fd\<lparr>fd_unextractable := True\<rparr>
                    else fd))"

primrec desugar_command ::
    "(64 word \<Rightarrow> string) \<Rightarrow> (string \<Rightarrow> string) \<Rightarrow> bool \<Rightarrow> ucommand \<Rightarrow> parser \<Rightarrow> (uncommands \<times> parser) presult" where
  "desugar_command ff dbg pt (CFunction sp name schema merge impl hidden let_b tc unext) st =
     Ok ([desugar_function sp name schema merge impl hidden let_b tc unext], st)"
| "desugar_command ff dbg pt (CConstructor sp name schema cost unext hidden let_b tc) st =
     Ok ([NFunction ((decl_constructor sp name schema cost unext hidden)
            \<lparr>fd_internal_let := let_b, fd_term_constructor := tc\<rparr>)], st)"
| "desugar_command ff dbg pt (CRelation sp name inputs) st = Ok (desugar_relation st sp name inputs)"
| "desugar_command ff dbg pt (CDatatype sp name vs) st = Ok (desugar_datatype sp name vs, st)"
| "desugar_command ff dbg pt (CDatatypes sp ds) st = Ok (desugar_datatypes ds, st)"
| "desugar_command ff dbg pt (CRewrite ruleset rw subsume) st =
     desugar_rewrite ruleset
       (if rw_name rw = [] then rule_name_of ff dbg (CRewrite ruleset rw subsume) else rw_name rw) rw subsume st"
| "desugar_command ff dbg pt (CBiRewrite ruleset rw) st =
     desugar_birewrite ruleset (rule_name_of ff dbg (CBiRewrite ruleset rw)) rw st"
| "desugar_command ff dbg pt (CInclude sp file) st = Panic"
| "desugar_command ff dbg pt (CRule r) st =
     Ok ([NNormRule (if rule_name r = [] then r\<lparr>rule_name := rule_name_of ff dbg (CRule r)\<rparr> else r)], st)"
| "desugar_command ff dbg pt (CSort sp name pre uf pf prims un) st = Ok ([NSort sp name pre uf pf prims un], st)"
| "desugar_command ff dbg pt (CAddRuleset sp name) st = Ok ([NAddRuleset sp name], st)"
| "desugar_command ff dbg pt (CUnstableCombinedRuleset sp name subs) st =
     Ok ([NUnstableCombinedRuleset sp name subs], st)"
| "desugar_command ff dbg pt (CAction a) st = Ok ([NCoreAction a], st)"
| "desugar_command ff dbg pt (CRunSchedule s) st = Ok ([NRunSchedule s], st)"
| "desugar_command ff dbg pt (CPrintOverallStatistics sp file) st = Ok ([NPrintOverallStatistics sp file], st)"
| "desugar_command ff dbg pt (CExtract sp e v) st = Ok ([NExtract sp e v], st)"
| "desugar_command ff dbg pt (CCheck sp fs) st =
     (if pt then Ok (desugar_prove st sp fs) else Ok ([NCheck sp fs], st))"
| "desugar_command ff dbg pt (CPrintFunction sp name n file mode) st = Ok ([NPrintFunction sp name n file mode], st)"
| "desugar_command ff dbg pt (CPrintSize sp name) st = Ok ([NPrintSize sp name], st)"
| "desugar_command ff dbg pt (COutput sp file es) st = Ok ([NOutput sp file es], st)"
| "desugar_command ff dbg pt (CPush n) st = Ok ([NPush n], st)"
| "desugar_command ff dbg pt (CPop sp n) st = Ok ([NPop sp n], st)"
| "desugar_command ff dbg pt (CFail sp c) st =
     bind_o (desugar_command ff dbg pt c st) (\<lambda>(cs, st1).
       if cs = [] then Panic else Ok (butlast cs @ [NFail sp (last cs)], st1))"
| "desugar_command ff dbg pt (CInput sp name file) st = Ok ([NInput sp name file], st)"
| "desugar_command ff dbg pt (CUserDefined sp name es) st = Ok ([NUserDefined sp name es], st)"
| "desugar_command ff dbg pt (CProve sp query) st = Ok (desugar_prove st sp query)"
| "desugar_command ff dbg pt (CProveExists sp c) st = Ok ([NProveExists sp c], st)"

text \<open>A program: the commands in order, with one generator.\<close>

definition desugar_program ::
    "(64 word \<Rightarrow> string) \<Rightarrow> (string \<Rightarrow> string) \<Rightarrow> bool \<Rightarrow> ucommand list \<Rightarrow> parser \<Rightarrow> (uncommands \<times> parser) presult" where
  "desugar_program ff dbg pt cs st =
     bind_o (map_out (desugar_command ff dbg pt) cs st) (\<lambda>(css, st1). Ok (concat css, st1))"

end
