(* ===== verification/Sexp_Reading.thy ===== *)
theory Sexp_Reading
  imports Sexp_Parser
begin

text \<open>
  What the reader makes of a text that spells an S-expression: the shape that is spelled, with
  spans that quote the text, whatever blanks separate the parts.
\<close>

section \<open>Blanks and characters\<close>

definition starts_char :: "string \<Rightarrow> bool" where
  "starts_char s \<longleftrightarrow> s = [] \<or> \<not> is_continuation (hd s)"

definition blank :: "char \<Rightarrow> bool" where
  "blank c \<longleftrightarrow> c = CHR '' '' \<or> c = newline"

definition gap :: "string \<Rightarrow> bool" where
  "gap g \<longleftrightarrow> list_all blank g"

text \<open>What may follow a token: nothing, a blank or a closing parenthesis.\<close>

definition delimited :: "string \<Rightarrow> bool" where
  "delimited r \<longleftrightarrow> r = [] \<or> blank (hd r) \<and> starts_char (tl r) \<or> hd r = CHR '')''"

lemma blank_not_continuation: "blank c \<Longrightarrow> \<not> is_continuation c"
  by (auto simp: blank_def is_continuation_def newline_def)

lemma delimited_starts_char: "delimited r \<Longrightarrow> starts_char r"
  by (auto simp: delimited_def starts_char_def dest: blank_not_continuation) (simp add: is_continuation_def)

lemma gap_starts_char: "gap g \<Longrightarrow> starts_char r \<Longrightarrow> starts_char (g @ r)"
  by (cases g) (auto simp: gap_def starts_char_def blank_not_continuation)

lemma takeWhile_continuation_append:
  "starts_char r \<Longrightarrow> takeWhile is_continuation (cs @ r) = takeWhile is_continuation cs"
  by (induction cs) (cases r; auto simp: starts_char_def)+

lemma char_len_append: "s \<noteq> [] \<Longrightarrow> starts_char r \<Longrightarrow> char_len (s @ r) = char_len s"
  by (cases s) (simp_all add: takeWhile_continuation_append)

lemma take_char_len_append: "s \<noteq> [] \<Longrightarrow> starts_char r \<Longrightarrow> take (char_len s) (s @ r) = take (char_len s) s"
  by (simp add: char_len_le)

lemma bytes_of_append: "s \<noteq> [] \<Longrightarrow> starts_char r \<Longrightarrow> bytes_of (s @ r) = bytes_of s"
  unfolding bytes_of_def by (subst char_len_append) (auto simp: char_len_le)

lemma whitespace_append:
  "s \<noteq> [] \<Longrightarrow> starts_char r \<Longrightarrow> starts_with_whitespace (s @ r) = starts_with_whitespace s"
  unfolding starts_with_whitespace_def by (subst bytes_of_append) auto

lemma drop_char_len_append: "s \<noteq> [] \<Longrightarrow> starts_char r \<Longrightarrow> drop (char_len s) (s @ r) = drop (char_len s) s @ r"
  by (simp add: char_len_le)

lemma char_len_single: "starts_char cs \<Longrightarrow> char_len (c # cs) = 1"
  by (cases cs) (auto simp: starts_char_def)

lemma bytes_of_single: "starts_char cs \<Longrightarrow> bytes_of (c # cs) = [of_char c]"
  unfolding bytes_of_def by (subst char_len_single) auto

lemma whitespace_ascii:
  "starts_char cs \<Longrightarrow> starts_with_whitespace (c # cs) \<longleftrightarrow> of_char c \<in> {9::nat..13} \<or> of_char c = (32::nat)"
  by (simp add: starts_with_whitespace_def bytes_of_single)

lemma whitespace_blank: "blank c \<Longrightarrow> starts_char cs \<Longrightarrow> starts_with_whitespace (c # cs)"
  by (auto simp: whitespace_ascii blank_def newline_def)

lemma ws_len_gap: "gap g \<Longrightarrow> starts_char r \<Longrightarrow> ws_len False (g @ r) = length g + ws_len False r"
proof (induction g)
  case (Cons c g)
  then have "starts_char (g @ r)" by (intro gap_starts_char) (auto simp: gap_def)
  moreover have "c \<noteq> CHR '';''" using Cons.prems by (auto simp: gap_def blank_def newline_def)
  moreover note char_len_single [OF calculation(1), of c]
  ultimately show ?case using Cons
    by (subst ws_len.simps) (auto simp: gap_def whitespace_blank Let_def simp del: char_len.simps)
qed simp

lemma ws_len_closed: "ws_len False (drop (ws_len b s) s) = 0"
proof (induction b s rule: ws_len.induct)
  case (1 b s)
  show ?case
  proof (cases "s = []")
    case True
    then show ?thesis by (simp add: ws_len.simps)
  next
    case False
    have d: "drop (char_len s + k) s = drop k (drop (char_len s) s)" for k
      by (simp add: add.commute)
    consider "hd s = CHR '';''" | "hd s \<noteq> CHR '';''" "hd s = newline"
      | "hd s \<noteq> CHR '';''" "hd s \<noteq> newline" "starts_with_whitespace s \<or> b"
      | "hd s \<noteq> CHR '';''" "hd s \<noteq> newline" "\<not> (starts_with_whitespace s \<or> b)" by blast
    then show ?thesis
    proof cases
      case 1
      have e: "ws_len b s = char_len s + ws_len True (drop (char_len s) s)"
        using False 1 by (subst ws_len.simps) (simp add: Let_def)
      show ?thesis unfolding e d using "1.IH"(1) [OF False refl 1] .
    next
      case 2
      have e: "ws_len b s = char_len s + ws_len False (drop (char_len s) s)"
        using False 2 by (subst ws_len.simps) (simp add: Let_def)
      show ?thesis unfolding e d using "1.IH"(2) [OF False refl 2] .
    next
      case 3
      have e: "ws_len b s = char_len s + ws_len b (drop (char_len s) s)"
        using False 3 by (subst ws_len.simps) (simp add: Let_def)
      show ?thesis unfolding e d using "1.IH"(3) [OF False refl 3] .
    next
      case 4
      then have "ws_len b s = 0" "ws_len False s = 0" using False by (auto simp: ws_len.simps [of _ s])
      then show ?thesis by simp
    qed
  qed
qed

section \<open>Reading does not see blanks\<close>

lemma sp_rest_advance: "sp_rest (sp_advance n p) = drop n (sp_rest p)"
  by (simp add: sp_rest_def sp_advance_def add.commute)

lemma sp_advance_0 [simp]: "sp_advance 0 p = p"
  by (simp add: sp_advance_def)

lemma sp_advance_add [simp]: "sp_advance m (sp_advance n p) = sp_advance (n + m) p"
  by (simp add: sp_advance_def add.assoc)

lemma sp_skip_idem [simp]: "sp_skip (sp_skip p) = sp_skip p"
  by (simp add: sp_skip_def sp_rest_advance ws_len_closed)

lemma sp_next_skip: "sp_next (sp_skip p) = sp_next p"
  by (simp add: sp_next_def)

lemma sexp_loop_skip: "sexp_loop pf stack (sp_skip p) = sexp_loop pf stack p"
  by (subst (1 2) sexp_loop.simps) (simp add: sp_next_skip)

lemma sp_skip_gap:
  "sp_rest p = g @ r \<Longrightarrow> gap g \<Longrightarrow> starts_char r \<Longrightarrow> sp_skip (sp_advance (length g) p) = sp_skip p"
  by (simp add: sp_skip_def sp_rest_advance ws_len_gap)

lemma sexp_loop_gap:
  "sp_rest p = g @ r \<Longrightarrow> gap g \<Longrightarrow> starts_char r \<Longrightarrow>
    sexp_loop pf stack p = sexp_loop pf stack (sp_advance (length g) p)"
  by (metis sexp_loop_skip sp_skip_gap)

section \<open>Tokens\<close>

definition token_text :: "string \<Rightarrow> bool" where
  "token_text t \<longleftrightarrow> t \<noteq> [] \<and> starts_char t \<and> hd t \<notin> {CHR ''\"'', newline} \<and> other_len t = length t"

lemma other_len_append: "delimited r \<Longrightarrow> other_len s = length s \<Longrightarrow> other_len (s @ r) = length s"
proof (induction s rule: other_len.induct)
  case (1 s)
  note sr = delimited_starts_char [OF 1(2)]
  show ?case
  proof (cases "s = []")
    case True
    have "other_len r = 0"
    proof (cases r)
      case (Cons c cs)
      have "starts_with_whitespace r \<or> c = CHR '')''"
        using 1(2) Cons by (auto simp: delimited_def whitespace_blank)
      then show ?thesis using Cons by (subst other_len.simps) auto
    qed (simp add: other_len.simps)
    with True show ?thesis by simp
  next
    case False
    let ?stop = "s = [] \<or> starts_with_whitespace s \<or> hd s \<in> {CHR '';'', CHR ''('', CHR '')''}"
    have ns: "\<not> ?stop" using 1(3) False by (auto simp: other_len.simps [of s] split: if_splits)
    have "other_len s = char_len s + other_len (drop (char_len s) s)"
      using ns by (subst other_len.simps) simp
    with 1(3) have "other_len (drop (char_len s) s) = length (drop (char_len s) s)" by simp
    from 1(1) [OF ns 1(2) this] have ih: "other_len (drop (char_len s) s @ r) = length s - char_len s" by simp
    have "other_len (s @ r) = char_len s + other_len (drop (char_len s) s @ r)"
      using ns sr False
      by (subst other_len.simps)
        (simp add: whitespace_append char_len_append drop_char_len_append del: drop_append)
    with ih char_len_le [of s] show ?thesis by simp
  qed
qed

lemma token_text_head:
  assumes "token_text t"
  shows "\<not> starts_with_whitespace t" "hd t \<notin> {CHR '';'', CHR ''('', CHR '')'', CHR ''\"'', newline}"
proof -
  have ne: "t \<noteq> []" and l: "other_len t = length t" using assms by (auto simp: token_text_def)
  show "\<not> starts_with_whitespace t" and "hd t \<notin> {CHR '';'', CHR ''('', CHR '')'', CHR ''\"'', newline}"
    using ne l assms by (auto simp: other_len.simps [of t] token_text_def split: if_splits)
qed

lemma ws_len_token: "token_text t \<Longrightarrow> starts_char r \<Longrightarrow> ws_len False (t @ r) = 0"
  using token_text_head [of t] by (subst ws_len.simps) (auto simp: token_text_def whitespace_append)

lemma ws_len_paren:
  "starts_char r \<Longrightarrow> c \<in> {CHR ''('', CHR '')'', CHR ''\"''} \<Longrightarrow> ws_len False (c # r) = 0"
  by (subst ws_len.simps) (auto simp: whitespace_ascii newline_def)

lemma sp_skip_unmoved: "ws_len False (sp_rest p) = 0 \<Longrightarrow> sp_skip p = p"
  by (simp add: sp_skip_def)

lemma sp_next_token:
  assumes t: "token_text t" and r: "delimited r" and p: "sp_rest p = t @ r"
  shows "sp_next p = Ok (Other, mk_span p (sp_index p) (sp_index p + length t), sp_skip (sp_advance (length t) p))"
proof -
  note sr = delimited_starts_char [OF r]
  have s: "sp_skip p = p" using ws_len_token [OF t sr] p by (simp add: sp_skip_unmoved)
  have ne: "t \<noteq> []" and l: "other_len t = length t" using t by (auto simp: token_text_def)
  have cl: "char_len (t @ r) = char_len t" by (rule char_len_append [OF ne sr])
  have "other_len t = char_len t + other_len (drop (char_len t) t)"
    using token_text_head [OF t] ne by (subst other_len.simps) auto
  with l have "other_len (drop (char_len t) t) = length (drop (char_len t) t)" by simp
  from other_len_append [OF r this]
  have "other_len (drop (char_len t) (t @ r)) = length t - char_len t"
    by (simp add: drop_char_len_append [OF ne sr] del: drop_append)
  then have "char_len t + other_len (drop (char_len t) (t @ r)) = length t"
    using char_len_le [of t] by simp
  then show ?thesis
    using token_text_head [OF t] ne p by (simp add: sp_next_def s Let_def cl del: drop_append)
qed

lemma sp_next_open:
  assumes "sp_rest p = CHR ''('' # r" "starts_char r"
  shows "sp_next p = Ok (Open, mk_span p (sp_index p) (sp_index p + 1), sp_skip (sp_advance 1 p))"
proof -
  have "sp_skip p = p" using ws_len_paren assms by (simp add: sp_skip_unmoved)
  then show ?thesis using assms by (simp add: sp_next_def Let_def char_len_single del: char_len.simps)
qed

lemma sp_next_close:
  assumes "sp_rest p = CHR '')'' # r" "starts_char r"
  shows "sp_next p = Ok (Close, mk_span p (sp_index p) (sp_index p + 1), sp_skip (sp_advance 1 p))"
proof -
  have "sp_skip p = p" using ws_len_paren assms by (simp add: sp_skip_unmoved)
  then show ?thesis using assms by (simp add: sp_next_def Let_def char_len_single del: char_len.simps)
qed

section \<open>String literals\<close>

text \<open>A text without quotes and backslashes stands for itself.\<close>

definition plain_string :: "string \<Rightarrow> bool" where
  "plain_string s \<longleftrightarrow> starts_char s \<and> CHR ''\"'' \<notin> set s \<and> CHR 0x5C \<notin> set s"

lemma string_body_plain:
  "CHR ''\"'' \<notin> set s \<Longrightarrow> CHR 0x5C \<notin> set s \<Longrightarrow> starts_char r \<Longrightarrow>
    string_body False (s @ CHR ''\"'' # r) = Ok (s, length s + 1)"
proof (induction "length s" arbitrary: s rule: less_induct)
  case less
  show ?case
  proof (cases "s = []")
    case True
    then show ?thesis using less.prems by (subst string_body.simps) (simp add: Let_def char_len_single del: char_len.simps)
  next
    case False
    have q: "starts_char (CHR ''\"'' # r)" by (simp add: starts_char_def is_continuation_def)
    have h: "hd s \<noteq> CHR ''\"''" "hd s \<noteq> CHR 0x5C" using less.prems False by (auto dest: hd_in_set)
    let ?n = "char_len s"
    have n: "char_len (s @ CHR ''\"'' # r) = ?n" by (rule char_len_append [OF False q])
    have sub: "set (drop ?n s) \<subseteq> set s" by (rule set_drop_subset)
    have "length (drop ?n s) < length s" using char_len_pos [OF False] False by simp
    from less.hyps [OF this] less.prems sub
    have ih: "string_body False (drop ?n s @ CHR ''\"'' # r) = Ok (drop ?n s, length s - ?n + 1)" by auto
    have "string_body False (s @ CHR ''\"'' # r)
        = (case string_body False (drop ?n (s @ CHR ''\"'' # r)) of
             Ok (v', k) \<Rightarrow> Ok (take ?n (s @ CHR ''\"'' # r) @ v', ?n + k)
           | Err (k, msg) \<Rightarrow> Err (?n + k, msg) | Panic \<Rightarrow> Panic)"
      using h False by (subst string_body.simps) (simp add: Let_def n del: drop_append take_append char_len.simps)
    also have "\<dots> = Ok (s, length s + 1)"
      using char_len_le [of s] by (simp add: drop_char_len_append [OF False q] take_char_len_append [OF False q] ih
          del: drop_append take_append char_len.simps)
    finally show ?thesis .
  qed
qed

lemma sp_next_string:
  assumes s: "plain_string s" and r: "starts_char r" and p: "sp_rest p = CHR ''\"'' # s @ CHR ''\"'' # r"
  shows "sp_next p = Ok (Str s, mk_span p (sp_index p) (sp_index p + (length s + 2)), sp_skip (sp_advance (length s + 2) p))"
proof -
  have c: "starts_char (s @ CHR ''\"'' # r)"
    using s by (cases s) (auto simp: plain_string_def starts_char_def is_continuation_def)
  have "sp_skip p = p" using ws_len_paren [OF c] p by (simp add: sp_skip_unmoved)
  then show ?thesis
    using s r by (simp add: sp_next_def Let_def p char_len_single [OF c] string_body_plain plain_string_def
        del: char_len.simps)
qed

section \<open>Spelling\<close>

text \<open>An S-expression without its spans, and the texts that spell it.\<close>

datatype shape = ShLit literal | ShAtom string | ShList "shape list"

fun shape_of :: "sexp \<Rightarrow> shape" where
  "shape_of (SLit l _) = ShLit l"
| "shape_of (SAtom s _) = ShAtom s"
| "shape_of (SList xs _) = ShList (map shape_of xs)"

definition atom_shape :: "(string \<Rightarrow> 64 word option) \<Rightarrow> string \<Rightarrow> shape" where
  "atom_shape pf t = shape_of (classify pf t Span_Panic)"

lemma shape_of_classify: "shape_of (classify pf t sp) = atom_shape pf t"
  by (simp add: atom_shape_def classify_def split: option.splits)

lemma sexp_span_classify: "sexp_span (classify pf t sp) = sp"
  by (simp add: classify_def split: option.splits)

inductive spells :: "(string \<Rightarrow> 64 word option) \<Rightarrow> string \<Rightarrow> shape \<Rightarrow> bool"
  and spells_items :: "(string \<Rightarrow> 64 word option) \<Rightarrow> string \<Rightarrow> shape list \<Rightarrow> bool"
  for pf where
  token: "token_text t \<Longrightarrow> spells pf t (atom_shape pf t)"
| quoted: "plain_string s \<Longrightarrow> spells pf (CHR ''\"'' # s @ ''\"'') (ShLit (LString s))"
| parens: "spells_items pf b xs \<Longrightarrow> spells pf (CHR ''('' # b @ '')'') (ShList xs)"
| none: "gap g \<Longrightarrow> spells_items pf g []"
| some: "gap g \<Longrightarrow> spells pf s x \<Longrightarrow> spells_items pf b xs \<Longrightarrow> b = [] \<or> blank (hd b) \<and> starts_char (tl b)
    \<Longrightarrow> spells_items pf (g @ s @ b) (x # xs)"

lemma spells_ne: "spells pf s x \<Longrightarrow> s \<noteq> [] \<and> starts_char s"
  by (induction rule: spells_spells_items.inducts(1) [where ?P2.0 = "\<lambda>_ _. True"])
    (auto simp: token_text_def starts_char_def is_continuation_def)

lemma starts_char_append: "s \<noteq> [] \<Longrightarrow> starts_char (s @ r) = starts_char s"
  by (cases s) (auto simp: starts_char_def)

lemma spells_starts: "spells pf s x \<Longrightarrow> starts_char (s @ r)"
  using spells_ne [of pf s x] by (simp add: starts_char_append)

lemma starts_char_paren: "c \<in> {CHR ''('', CHR '')'', CHR ''\"''} \<Longrightarrow> starts_char (c # r)"
  by (auto simp: starts_char_def is_continuation_def)

lemma items_starts: "spells_items pf b xs \<Longrightarrow> starts_char (b @ CHR '')'' # r)"
  by (erule spells_items.cases)
    (auto simp: gap_starts_char starts_char_paren spells_starts)

lemma items_delimited:
  "b = [] \<or> blank (hd b) \<and> starts_char (tl b) \<Longrightarrow> delimited (b @ CHR '')'' # r)"
proof (cases b)
  case (Cons c cs)
  assume "b = [] \<or> blank (hd b) \<and> starts_char (tl b)"
  with Cons show ?thesis by (cases cs) (auto simp: delimited_def starts_char_def is_continuation_def)
qed (simp add: delimited_def)

section \<open>What is read\<close>

text \<open>What the reader does with an S-expression: it returns it, or adds it to the innermost open list.\<close>

definition deliver ::
    "(string \<Rightarrow> 64 word option) \<Rightarrow> (egglog_span \<times> sexp list) list \<Rightarrow> sexp \<Rightarrow> sexp_parser \<Rightarrow> (sexp \<times> sexp_parser) presult" where
  "deliver pf stack x p =
     (case stack of [] \<Rightarrow> Ok (x, sp_skip p) | (sp, xs) # st \<Rightarrow> sexp_loop pf ((sp, xs @ [x]) # st) p)"

lemma sexp_loop_item:
  "sp_next p = Ok (tok, sp, sp_skip q) \<Longrightarrow> read_token pf tok sp stack = Ok (Some x, st') \<Longrightarrow>
    sexp_loop pf stack p = deliver pf st' x q"
  by (subst sexp_loop.simps) (simp add: deliver_def sexp_loop_skip split: list.split)

lemma sexp_loop_open:
  "sp_next p = Ok (Open, sp, sp_skip q) \<Longrightarrow> sexp_loop pf stack p = sexp_loop pf ((sp, []) # stack) q"
  by (subst sexp_loop.simps) (simp add: read_token_def sexp_loop_skip)

definition quotes :: "sexp_parser \<Rightarrow> nat \<Rightarrow> string \<Rightarrow> sexp \<Rightarrow> bool" where
  "quotes p i s x \<longleftrightarrow> sexp_span x = Span_Egglog (mk_span p i (i + length s)) \<and> span_string (sexp_span x) = Some s"

lemma quotes_rest:
  "sp_rest p = s @ r \<Longrightarrow> s \<noteq> [] \<Longrightarrow> sexp_span x = Span_Egglog (mk_span p (sp_index p) (sp_index p + length s))
    \<Longrightarrow> quotes p (sp_index p) s x"
proof -
  assume r: "sp_rest p = s @ r" and ne: "s \<noteq> []"
    and x: "sexp_span x = Span_Egglog (mk_span p (sp_index p) (sp_index p + length s))"
  have "length (s @ r) = length (src_contents (sp_source p)) - sp_index p" using r by (simp add: sp_rest_def flip: r)
  then have "sp_index p + length s \<le> length (src_contents (sp_source p))" using ne by (cases s) auto
  with r x show ?thesis by (simp add: quotes_def mk_span_def sp_rest_def)
qed

lemma span_string_mk:
  "sp_rest p = t @ r \<Longrightarrow> t \<noteq> [] \<Longrightarrow> span_string (Span_Egglog (mk_span p (sp_index p) (sp_index p + length t))) = Some t"
  using quotes_rest [of p t r "SAtom [] (Span_Egglog (mk_span p (sp_index p) (sp_index p + length t)))"]
  by (simp add: quotes_def)

text \<open>
  Reading a text that spells a shape delivers an S-expression of this shape whose span is the
  text; the parser stands behind it.
\<close>

lemma spelled_read:
  "spells pf s x \<Longrightarrow> sp_rest p = s @ r \<Longrightarrow> delimited r \<Longrightarrow>
    \<exists>y. shape_of y = x \<and> quotes p (sp_index p) s y
      \<and> sexp_loop pf stack p = deliver pf stack y (sp_advance (length s) p)"
  and spelled_items:
  "spells_items pf b xs \<Longrightarrow> sp_rest p = b @ CHR '')'' # r \<Longrightarrow> starts_char r \<Longrightarrow>
    \<exists>ys. map shape_of ys = xs
      \<and> sexp_loop pf ((sp, zs) # stack) p
        = deliver pf stack (SList (zs @ ys) (Span_Egglog (sp\<lparr>span_j := sp_index p + length b + 1\<rparr>)))
            (sp_advance (length b + 1) p)"
proof (induction arbitrary: p r stack and p r sp zs stack rule: spells_spells_items.inducts)
  case (token t)
  let ?sp = "mk_span p (sp_index p) (sp_index p + length t)"
  have ne: "t \<noteq> []" using token(1) by (simp add: token_text_def)
  have "read_token pf Other ?sp stack = Ok (Some (classify pf t (Span_Egglog ?sp)), stack)"
    using span_string_mk [OF token(2) ne] by (simp add: read_token_def del: span_string.simps)
  from sexp_loop_item [OF sp_next_token [OF token(1,3,2)] this]
  show ?case
    by (intro exI [of _ "classify pf t (Span_Egglog ?sp)"])
      (auto simp: shape_of_classify intro!: quotes_rest [OF token(2) ne] simp: sexp_span_classify)
next
  case (quoted s)
  let ?t = "CHR ''\"'' # s @ ''\"''"
  let ?sp = "mk_span p (sp_index p) (sp_index p + length ?t)"
  have p: "sp_rest p = CHR ''\"'' # s @ CHR ''\"'' # r" using quoted(2) by simp
  have n: "sp_next p = Ok (Str s, ?sp, sp_skip (sp_advance (length ?t) p))"
    using sp_next_string [OF quoted(1) delimited_starts_char [OF quoted(3)] p] by simp
  have "read_token pf (Str s) ?sp stack = Ok (Some (SLit (LString s) (Span_Egglog ?sp)), stack)"
    by (simp add: read_token_def)
  from sexp_loop_item [OF n this]
  show ?case
    by (intro exI [of _ "SLit (LString s) (Span_Egglog ?sp)"]) (auto intro!: quotes_rest [OF quoted(2)])
next
  case (parens b xs)
  let ?t = "CHR ''('' # b @ '')''"
  let ?i = "sp_index p"
  have p: "sp_rest p = CHR ''('' # (b @ CHR '')'' # r)" using parens(3) by simp
  note n = sp_next_open [OF p items_starts [OF parens(1)]]
  have p1: "sp_rest (sp_advance 1 p) = b @ CHR '')'' # r" by (simp add: sp_rest_advance p)
  obtain ys where ys: "map shape_of ys = xs"
    "sexp_loop pf ((mk_span p ?i (?i + 1), []) # stack) (sp_advance 1 p)
      = deliver pf stack (SList ([] @ ys) (Span_Egglog ((mk_span p ?i (?i + 1))\<lparr>span_j := sp_index (sp_advance 1 p) + length b + 1\<rparr>)))
          (sp_advance (length b + 1) (sp_advance 1 p))"
    using parens(2) [OF p1 delimited_starts_char [OF parens(4)]] by blast
  have e: "(mk_span p ?i (?i + 1))\<lparr>span_j := sp_index (sp_advance 1 p) + length b + 1\<rparr> = mk_span p ?i (?i + length ?t)"
    by (simp add: mk_span_def)
  show ?case
    using ys sexp_loop_open [OF n, of pf stack]
    by (intro exI [of _ "SList ys (Span_Egglog (mk_span p ?i (?i + length ?t)))"])
      (auto simp: e [simplified] intro!: quotes_rest [OF parens(3)])
next
  case (none g)
  have sc: "starts_char (CHR '')'' # r)" by (simp add: starts_char_paren)
  let ?q = "sp_advance (length g) p"
  have q: "sp_rest ?q = CHR '')'' # r" by (simp add: sp_rest_advance none(2))
  note n = sp_next_close [OF q none(3)]
  have "read_token pf Close (mk_span ?q (sp_index ?q) (sp_index ?q + 1)) ((sp, zs) # stack)
      = Ok (Some (SList zs (Span_Egglog (sp\<lparr>span_j := sp_index p + length g + 1\<rparr>))), stack)"
    by (simp add: read_token_def mk_span_def)
  from sexp_loop_item [OF n this] sexp_loop_gap [OF none(2,1) sc, of pf]
  show ?case by (intro exI [of _ "[]"]) simp
next
  case (some g s x b xs)
  let ?q = "sp_advance (length g) p"
  have sc: "starts_char (s @ b @ CHR '')'' # r)" by (rule spells_starts [OF some.IH(1)])
  have q: "sp_rest ?q = s @ b @ CHR '')'' # r" using some.prems(1) by (simp add: sp_rest_advance)
  obtain y where y: "shape_of y = x" "sexp_loop pf ((sp, zs) # stack) ?q = deliver pf ((sp, zs) # stack) y (sp_advance (length s) ?q)"
    using some.IH(2) [OF q items_delimited [OF some.hyps(2)]] by blast
  let ?q2 = "sp_advance (length s) ?q"
  have q2: "sp_rest ?q2 = b @ CHR '')'' # r" unfolding sp_rest_advance [of "length s"] q by simp
  obtain ys where ys: "map shape_of ys = xs" "sexp_loop pf ((sp, zs @ [y]) # stack) ?q2
      = deliver pf stack (SList ((zs @ [y]) @ ys) (Span_Egglog (sp\<lparr>span_j := sp_index ?q2 + length b + 1\<rparr>))) (sp_advance (length b + 1) ?q2)"
    using some.IH(4) [OF q2 some.prems(2)] by blast
  have "sexp_loop pf ((sp, zs) # stack) p = sexp_loop pf ((sp, zs) # stack) ?q"
    using some.prems(1) by (intro sexp_loop_gap [OF _ some.hyps(1) sc]) simp
  also have "\<dots> = sexp_loop pf ((sp, zs @ [y]) # stack) ?q2" by (simp add: y deliver_def)
  finally show ?case using y ys by (intro exI [of _ "y # ys"]) (simp add: ac_simps)
qed

end
