(* ===== verification/Print_Parse.thy ===== *)
theory Print_Parse
  imports Sexp_Reading Program_Parser
begin

text \<open>
  Printed expressions, facts, actions and rules are read back: the printed text spells a shape,
  and the parser makes of this shape what was printed, up to spans.
\<close>

section \<open>Texts of ordinary characters\<close>

definition ordinary :: "char \<Rightarrow> bool" where
  "ordinary c \<longleftrightarrow> (let n = of_char c :: nat in 33 \<le> n \<and> n < 127) \<and> c \<notin> {CHR '';'', CHR ''('', CHR '')'', CHR ''\"''}"

lemma ordinary_not_continuation: "ordinary c \<Longrightarrow> \<not> is_continuation c"
  by (auto simp: ordinary_def is_continuation_def Let_def)

lemma ordinary_starts_char: "list_all ordinary s \<Longrightarrow> starts_char s"
  by (cases s) (auto simp: starts_char_def ordinary_not_continuation)

lemma other_len_ordinary: "list_all ordinary s \<Longrightarrow> other_len s = length s"
proof (induction s)
  case (Cons c s)
  then have sc: "starts_char s" and c: "ordinary c" by (auto intro: ordinary_starts_char)
  have "\<not> starts_with_whitespace (c # s)"
    using c unfolding whitespace_ascii [OF sc] by (auto simp: ordinary_def Let_def)
  moreover have "c \<notin> {CHR '';'', CHR ''('', CHR '')''}" using c by (auto simp: ordinary_def)
  ultimately show ?case using Cons
    by (subst other_len.simps) (simp add: char_len_single [OF sc] del: char_len.simps)
qed (simp add: other_len.simps)

lemma token_text_ordinary: "s \<noteq> [] \<Longrightarrow> list_all ordinary s \<Longrightarrow> token_text s"
  by (cases s)
    (auto simp: token_text_def other_len_ordinary ordinary_starts_char ordinary_def newline_def starts_char_def
      ordinary_not_continuation)

lemma digit_ordinary: "is_digit c \<Longrightarrow> ordinary c"
  by (auto simp: is_digit_def ordinary_def Let_def)

section \<open>Integers\<close>

lemma all_digits_nat: "all_digits (nat_to_string n)"
  using nat_to_string_digits [of n] by (simp add: all_digits_def is_digit_def list_all_iff)

lemma nat_to_string_hd: "is_digit (hd (nat_to_string n))"
  using nat_to_string_digits [of n] by (cases "nat_to_string n") auto

lemma not_digit_sign: "is_digit c \<Longrightarrow> c \<noteq> CHR ''-'' \<and> c \<noteq> CHR ''+''"
  by (auto simp: is_digit_def)

lemma parse_i64_nat: "n < 2 ^ 63 \<Longrightarrow> parse_i64 (nat_to_string n) = Some (word_of_nat n)"
proof -
  assume n: "n < 2 ^ 63"
  obtain c cs where c: "nat_to_string n = c # cs" by (cases "nat_to_string n") auto
  have s: "c \<noteq> CHR ''-''" "c \<noteq> CHR ''+''" using not_digit_sign [OF nat_to_string_hd [of n]] c by auto
  have d: "all_digits (c # cs)" "read_nat (c # cs) = n" using all_digits_nat [of n] read_nat_to_string [of n] c by auto
  show ?thesis unfolding c parse_i64_def parses_i64_def using n by (simp only: list.case s if_False d) simp
qed

lemma parse_i64_neg: "n \<le> 2 ^ 63 \<Longrightarrow> parse_i64 (CHR ''-'' # nat_to_string n) = Some (- word_of_nat n)"
  by (simp add: parse_i64_def parses_i64_def read_nat_to_string all_digits_nat)

lemma parse_i64_int: "parse_i64 (int_to_string (sint i)) = Some (i :: i64)"
proof -
  have b: "- (2 ^ 63) \<le> sint i" "sint i < 2 ^ 63"
    using sint_ge [of i] sint_lt [of i] by simp_all
  show ?thesis
  proof (cases "sint i < 0")
    case True
    have "- word_of_nat (nat (- sint i)) = (of_int (sint i) :: i64)"
      using True by (simp add: of_nat_nat)
    then show ?thesis using True b by (simp add: int_to_string_def parse_i64_neg)
  next
    case False
    then have "word_of_nat (nat (sint i)) = (of_int (sint i) :: i64)" by (simp add: of_nat_nat)
    with False b show ?thesis by (simp add: int_to_string_def parse_i64_nat)
  qed
qed

lemma nat_to_string_ordinary: "list_all ordinary (nat_to_string n)"
  using nat_to_string_digits [of n] by (rule list.pred_mono_strong) (rule digit_ordinary)

lemma int_to_string_ordinary: "list_all ordinary (int_to_string i)" "int_to_string i \<noteq> []"
  by (simp_all add: int_to_string_def nat_to_string_ordinary) (simp add: ordinary_def Let_def)

section \<open>Composing texts\<close>

abbreviation blank_start :: "string \<Rightarrow> bool" where
  "blank_start b \<equiv> b = [] \<or> blank (hd b) \<and> starts_char (tl b)"

lemma items_append:
  assumes "spells_items pf b xs" "spells_items pf c ys" "blank_start c"
  shows "spells_items pf (b @ c) (xs @ ys)"
proof -
  have "spells pf s x \<Longrightarrow> True"
    and "spells_items pf b xs \<Longrightarrow> spells_items pf c ys \<Longrightarrow> blank_start c \<Longrightarrow> spells_items pf (b @ c) (xs @ ys)"
    for s x
  proof (induction rule: spells_spells_items.inducts)
    case (none g)
    from none(2) show ?case
    proof cases
      case none
      with \<open>gap g\<close> show ?thesis by (auto simp: gap_def intro: spells_spells_items.none)
    next
      case (some g' s x b xs)
      then have "spells_items pf ((g @ g') @ s @ b) (x # xs)"
        using \<open>gap g\<close> by (intro spells_spells_items.some) (auto simp: gap_def)
      with some show ?thesis by simp
    qed
  next
    case (some g s x b xs)
    have "blank_start (b @ c)"
      using some.hyps some.prems by (cases b; cases "tl b") (auto simp: starts_char_def blank_not_continuation)
    then have "spells_items pf (g @ s @ (b @ c)) (x # (xs @ ys))"
      using some by (intro spells_spells_items.some) auto
    then show ?case by simp
  qed auto
  with assms show ?thesis by blast
qed

lemma blank_start_append: "blank_start b \<Longrightarrow> blank_start c \<Longrightarrow> blank_start (b @ c)"
  by (cases b; cases "tl b") (auto simp: starts_char_def blank_not_continuation)

lemma items_one: "gap g \<Longrightarrow> spells pf s x \<Longrightarrow> spells_items pf (g @ s) [x]"
  using spells_spells_items.some [of g pf s x "[]" "[]"] spells_spells_items.none [of "[]" pf]
  by (simp add: gap_def)

text \<open>An item after a blank, and then more.\<close>

lemma items_Cons:
  assumes "gap g" "spells pf s x" "spells_items pf b xs" "blank_start b"
  shows "spells_items pf (g @ s @ b) (x # xs)"
  using assms by (intro spells_spells_items.some) auto

lemma blank_start_gap: "gap g \<Longrightarrow> g \<noteq> [] \<Longrightarrow> spells pf s x \<Longrightarrow> blank_start (g @ s @ b)"
  using spells_starts [of pf s x b] by (cases g) (auto simp: gap_def intro: gap_starts_char [unfolded gap_def])

lemma items_nil: "spells_items pf [] []"
  by (rule spells_spells_items.none) (simp add: gap_def)

lemma join_Cons: "join g (x # xs) = x @ concat (map (\<lambda>y. g @ y) xs)"
  by (induction xs arbitrary: x) auto

lemma items_concat:
  assumes "gap g" "g \<noteq> []" "list_all2 (spells pf) ss xs"
  shows "spells_items pf (concat (map (\<lambda>y. g @ y) ss)) xs \<and> blank_start (concat (map (\<lambda>y. g @ y) ss))"
  using assms(3)
proof (induction ss arbitrary: xs)
  case (Cons s ss)
  then obtain y ys where xs: "xs = y # ys" "spells pf s y" "list_all2 (spells pf) ss ys" by (auto simp: list_all2_Cons1)
  with Cons.IH have ih: "spells_items pf (concat (map (\<lambda>y. g @ y) ss)) ys" "blank_start (concat (map (\<lambda>y. g @ y) ss))"
    by auto
  from items_Cons [OF assms(1) xs(2) ih] blank_start_gap [OF assms(1,2) xs(2), of "concat (map (\<lambda>y. g @ y) ss)"]
  show ?case by (simp only: xs list.map concat.simps append_assoc simp_thms)
qed (simp add: items_nil)

lemma items_join:
  assumes "gap g" "g \<noteq> []" "list_all2 (spells pf) ss xs"
  shows "spells_items pf (join g ss) xs"
proof (cases ss)
  case (Cons s ss')
  with assms(3) obtain y ys where xs: "xs = y # ys" "spells pf s y" "list_all2 (spells pf) ss' ys"
    by (auto simp: list_all2_Cons1)
  show ?thesis
    using items_Cons [of "[]" pf s y, OF _ xs(2)] items_concat [OF assms(1,2) xs(3)]
    by (simp add: Cons xs join_Cons gap_def)
qed (use assms(3) in \<open>simp add: items_nil\<close>)

text \<open>A call: a head and the texts of the arguments.\<close>

lemma gap_space: "gap '' ''"
  by (simp add: gap_def blank_def)

lemma spells_call:
  assumes h: "spells pf h x" and ss: "list_all2 (spells pf) ss xs"
  shows "spells pf (CHR ''('' # join '' '' (h # ss) @ '')'') (ShList (x # xs))"
  by (intro parens items_join gap_space) (use assms in auto)

section \<open>Expressions\<close>

fun unspan :: "('h, 'l) expr \<Rightarrow> ('h, 'l) expr" where
  "unspan (ELit _ l) = ELit Span_Panic l"
| "unspan (EVar _ v) = EVar Span_Panic v"
| "unspan (ECall _ f es) = ECall Span_Panic f (map unspan es)"

fun expr_shape :: "uexpr \<Rightarrow> shape" where
  "expr_shape (ELit _ l) = (if l = LUnit then ShList [] else ShLit l)"
| "expr_shape (EVar _ v) = ShAtom v"
| "expr_shape (ECall _ f es) = ShList (ShAtom f # map expr_shape es)"

text \<open>Names that are read as atoms: no number, no Boolean, no delimiter inside.\<close>

definition atom_name :: "(string \<Rightarrow> 64 word option) \<Rightarrow> string \<Rightarrow> bool" where
  "atom_name pf t \<longleftrightarrow> token_text t \<and> atom_shape pf t = ShAtom t"

text \<open>
  What the standard library does with a float: a finite one is printed as digits, signs and
  dots, and this text, with \<open>.0\<close> when it looks like an integer, is read back as the same float.
\<close>

definition float_text :: "(64 word \<Rightarrow> string) \<Rightarrow> (string \<Rightarrow> 64 word option) \<Rightarrow> 64 word \<Rightarrow> bool" where
  "float_text ff pf x \<longleftrightarrow>
     x = f64_nan \<and> ff x = ''NaN'' \<or> x = f64_infinity \<and> ff x = ''inf'' \<or> x = f64_neg_infinity \<and> ff x = ''-inf''
     \<or> f64_is_finite x \<and> ff x \<noteq> [] \<and> list_all (\<lambda>c. is_digit c \<or> c = CHR ''-'' \<or> c = CHR ''.'') (ff x)
        \<and> pf (lit_to_string ff (LFloat x)) = Some x"

fun lit_readable :: "(64 word \<Rightarrow> string) \<Rightarrow> (string \<Rightarrow> 64 word option) \<Rightarrow> literal \<Rightarrow> bool" where
  "lit_readable ff pf (LFloat x) = float_text ff pf x"
| "lit_readable ff pf (LString s) = plain_string s"
| "lit_readable ff pf _ = True"

lemma atom_shape_bool: "atom_shape pf ''true'' = ShLit (LBool True)" "atom_shape pf ''false'' = ShLit (LBool False)"
  by (simp_all add: atom_shape_def classify_def)

lemma not_letter: "is_digit c \<Longrightarrow> c \<noteq> CHR ''t'' \<and> c \<noteq> CHR ''f''"
  by (auto simp: is_digit_def)

lemma atom_shape_int: "atom_shape pf (int_to_string (sint i)) = ShLit (LInt i)"
proof -
  have "hd (int_to_string (sint i)) \<notin> {CHR ''t'', CHR ''f''}"
    using not_letter [OF nat_to_string_hd] by (simp add: int_to_string_def)
  then have "int_to_string (sint i) \<noteq> ''true''" "int_to_string (sint i) \<noteq> ''false''" by auto
  then show ?thesis by (simp add: atom_shape_def classify_def parse_i64_int)
qed

lemma float_char_ordinary: "is_digit c \<or> c = CHR ''-'' \<or> c = CHR ''.'' \<Longrightarrow> ordinary c"
  by (elim disjE) (simp_all add: digit_ordinary, simp_all add: ordinary_def)

lemma dot_no_digits: "\<not> all_digits (s @ CHR ''.'' # t)"
  by (simp add: all_digits_def)

lemma atom_shape_float:
  assumes "float_text ff pf x"
  shows "atom_shape pf (lit_to_string ff (LFloat x)) = ShLit (LFloat x) \<and> token_text (lit_to_string ff (LFloat x))"
proof -
  let ?t = "lit_to_string ff (LFloat x)"
  from assms consider "x = f64_nan" "ff x = ''NaN''" | "x = f64_infinity" "ff x = ''inf''"
    | "x = f64_neg_infinity" "ff x = ''-inf''"
    | "f64_is_finite x" "ff x \<noteq> []" "list_all (\<lambda>c. is_digit c \<or> c = CHR ''-'' \<or> c = CHR ''.'') (ff x)" "pf ?t = Some x"
    unfolding float_text_def by blast
  then show ?thesis
  proof cases
    case 4
    have l: "list_all (\<lambda>c. is_digit c \<or> c = CHR ''-'' \<or> c = CHR ''.'') ?t" using 4(3) by (simp add: Let_def is_digit_def)
    have "c \<in> set ?t \<Longrightarrow> c \<notin> {CHR ''t'', CHR ''f'', CHR ''N'', CHR ''i''}" for c
      using l by (auto simp: list_all_iff is_digit_def)
    then have n: "?t \<noteq> ''true''" "?t \<noteq> ''false''" "?t \<noteq> ''NaN''" "?t \<noteq> ''inf''" "?t \<noteq> ''-inf''"
      by (metis insertI1 insertI2 list.set_intros(1) list.set_intros(2))+
    have "\<not> parses_i64 ?t"
    proof (cases "parses_i64 (ff x)")
      case True
      then show ?thesis using 4(2) dot_no_digits [of "ff x" "''0''"] dot_no_digits [of "tl (ff x)" "''0''"]
        by (cases "ff x") (auto simp: parses_i64_def Let_def)
    qed (simp add: Let_def)
    then have p: "parse_i64 ?t = None" by (simp add: parse_i64_def)
    have s: "atom_shape pf ?t = ShLit (LFloat x)"
      using n 4(1,4) p by (simp add: atom_shape_def classify_def del: lit_to_string.simps)
    have "list_all ordinary ?t"
      using l by (rule list.pred_mono_strong) (rule float_char_ordinary)
    moreover have "?t \<noteq> []" using 4(2) by (simp add: Let_def)
    ultimately show ?thesis using s by (simp add: token_text_ordinary)
  qed (auto simp: atom_shape_def classify_def parse_i64_def parses_i64_def all_digits_def Let_def
         intro!: token_text_ordinary; simp add: ordinary_def)+
qed

text \<open>Printing an expression spells its shape.\<close>

abbreviation e_str :: "(64 word \<Rightarrow> string) \<Rightarrow> uexpr \<Rightarrow> string" where
  "e_str ff \<equiv> expr_to_string ff (\<lambda>h. h) (\<lambda>l. l)"

fun expr_readable :: "(64 word \<Rightarrow> string) \<Rightarrow> (string \<Rightarrow> 64 word option) \<Rightarrow> uexpr \<Rightarrow> bool" where
  "expr_readable ff pf (ELit _ l) = lit_readable ff pf l"
| "expr_readable ff pf (EVar _ v) = atom_name pf v"
| "expr_readable ff pf (ECall _ f es) = (atom_name pf f \<and> list_all (expr_readable ff pf) es)"

lemma spells_atom: "atom_name pf v \<Longrightarrow> spells pf v (ShAtom v)"
  using spells_spells_items.token [of v pf] by (simp add: atom_name_def)

lemma spells_unit: "spells pf ''()'' (ShList [])"
  using parens [OF items_nil] by simp

lemma spells_lit: "lit_readable ff pf l \<Longrightarrow> spells pf (lit_to_string ff l) (if l = LUnit then ShList [] else ShLit l)"
proof (cases l)
  case (LInt i)
  have "token_text (int_to_string (sint i))" by (simp add: token_text_ordinary int_to_string_ordinary)
  from spells_spells_items.token [OF this, of pf] show ?thesis by (simp add: LInt atom_shape_int)
next
  case (LFloat x)
  assume "lit_readable ff pf l"
  with LFloat atom_shape_float [of ff pf x] have
    "atom_shape pf (lit_to_string ff l) = ShLit l" "token_text (lit_to_string ff l)" by simp_all
  with spells_spells_items.token [of "lit_to_string ff l" pf] LFloat show ?thesis by simp
next
  case (LString s)
  assume "lit_readable ff pf l"
  with LString spells_spells_items.quoted [of s pf] show ?thesis by simp
next
  case (LBool b)
  have "list_all ordinary (if b then ''true'' else ''false'')" by (simp add: ordinary_def)
  then have "token_text (if b then ''true'' else ''false'')" by (intro token_text_ordinary) auto
  from spells_spells_items.token [OF this, of pf] show ?thesis by (simp add: LBool atom_shape_bool split: if_splits)
qed (simp add: spells_unit)

lemma call_text: "expr_to_string ff sh sl (ECall sp f es) = CHR ''('' # join '' '' (sh f # map (expr_to_string ff sh sl) es) @ '')''"
  by (cases es) auto

lemma spells_expr: "expr_readable ff pf e \<Longrightarrow> spells pf (e_str ff e) (expr_shape e)"
proof (induction e)
  case (ECall sp f es)
  then have "list_all2 (spells pf) (map (e_str ff) es) (map expr_shape es)"
    by (auto simp: list_all2_conv_all_nth list_all_length)
  with ECall.prems show ?case unfolding call_text by (simp add: spells_call spells_atom del: join.simps)
qed (simp_all add: spells_lit spells_atom del: lit_to_string.simps)

section \<open>Reading the shape back\<close>

text \<open>Names the parser takes as they are: no wildcard, not reserved, no macro.\<close>

definition plain_name :: "parser \<Rightarrow> string \<Rightarrow> bool" where
  "plain_name st s \<longleftrightarrow> s \<noteq> ''_''
     \<and> (ps_no_reserved st \<longrightarrow> s \<notin> set reserved_keywords \<and> \<not> sg_is_reserved (ps_symbol_gen st) s)"

definition plain_head :: "macros \<Rightarrow> parser \<Rightarrow> string \<Rightarrow> bool" where
  "plain_head mc st f \<longleftrightarrow> mc_exprs mc f = None \<and> \<not> (ps_no_reserved st \<and> f \<in> set command_only_keywords)"

fun expr_plain :: "macros \<Rightarrow> parser \<Rightarrow> uexpr \<Rightarrow> bool" where
  "expr_plain mc st (ELit _ l) = True"
| "expr_plain mc st (EVar _ v) = plain_name st v"
| "expr_plain mc st (ECall _ f es) = (plain_head mc st f \<and> list_all (expr_plain mc st) es)"

lemma shape_of_eq:
  "shape_of x = ShAtom s \<longleftrightarrow> (\<exists>sp. x = SAtom s sp)"
  "shape_of x = ShLit l \<longleftrightarrow> (\<exists>sp. x = SLit l sp)"
  "shape_of x = ShList ys \<longleftrightarrow> (\<exists>xs sp. x = SList xs sp \<and> map shape_of xs = ys)"
  by (cases x; auto)+

lemma ensure_plain: "plain_name st v \<Longrightarrow> ensure_symbol_not_reserved st v sp = Ok ()"
  by (auto simp: ensure_symbol_not_reserved_def plain_name_def)

lemma map_out_rel:
  assumes "map shape_of xs = map sh es"
    and "\<And>x e. e \<in> set es \<Longrightarrow> shape_of x = sh e \<Longrightarrow> \<exists>y. f x st = Ok (y, st) \<and> R e y"
  shows "\<exists>ys. map_out f xs st = Ok (ys, st) \<and> list_all2 R es ys"
  using assms
proof (induction es arbitrary: xs)
  case (Cons e es)
  then obtain x xs' where xs: "xs = x # xs'" "shape_of x = sh e" "map shape_of xs' = map sh es" by auto
  from Cons.prems(2) [of e x] xs(2) obtain y where e: "f x st = Ok (y, st)" "R e y" by auto
  from Cons.IH [OF xs(3)] Cons.prems(2) obtain ys where "map_out f xs' st = Ok (ys, st)" "list_all2 R es ys" by force
  then show ?case by (intro exI [of _ "y # ys"]) (simp add: xs e)
qed simp

lemma map_out_shapes:
  assumes "map shape_of xs = map sh es"
    and "\<And>x e. e \<in> set es \<Longrightarrow> shape_of x = sh e \<Longrightarrow> \<exists>e'. f x st = Ok (e', st) \<and> er e' = er e"
  shows "\<exists>es'. map_out f xs st = Ok (es', st) \<and> map er es' = map er es"
  using map_out_rel [OF assms(1), of f st "\<lambda>e e'. er e' = er e"] assms(2)
  by (fastforce simp: list_all2_conv_all_nth intro: nth_equalityI)

lemma parse_expr_shape:
  "expr_plain mc st e \<Longrightarrow> shape_of x = expr_shape e \<Longrightarrow> \<exists>e'. parse_expr mc x st = Ok (e', st) \<and> unspan e' = unspan e"
proof (induction e arbitrary: x)
  case (ELit sp l)
  then show ?case by (auto simp: shape_of_eq split: if_splits)
next
  case (EVar sp v)
  then show ?case by (auto simp: shape_of_eq ensure_plain) (simp_all add: plain_name_def)
next
  case (ECall sp f es)
  then obtain xs asp xsp where x: "x = SList (SAtom f asp # xs) xsp" "map shape_of xs = map expr_shape es"
    by (auto simp: shape_of_eq Cons_eq_map_conv)
  have "\<exists>es'. map_out (parse_expr mc) xs st = Ok (es', st) \<and> map unspan es' = map unspan es"
    by (rule map_out_shapes [OF x(2)]) (use ECall in \<open>auto simp: list_all_iff\<close>)
  with ECall.prems(1) x show ?case by (auto simp: plain_head_def)
qed

section \<open>Facts and actions\<close>

abbreviation f_str :: "(64 word \<Rightarrow> string) \<Rightarrow> ufact \<Rightarrow> string" where
  "f_str ff \<equiv> fact_to_string ff (\<lambda>h. h) (\<lambda>l. l)"

abbreviation a_str :: "(64 word \<Rightarrow> string) \<Rightarrow> uaction \<Rightarrow> string" where
  "a_str ff \<equiv> action_to_string ff (\<lambda>h. h) (\<lambda>l. l)"

fun fact_unspan :: "('h, 'l) fact \<Rightarrow> ('h, 'l) fact" where
  "fact_unspan (FEq _ a b) = FEq Span_Panic (unspan a) (unspan b)"
| "fact_unspan (FFact e) = FFact (unspan e)"

fun action_unspan :: "('h, 'l) action \<Rightarrow> ('h, 'l) action" where
  "action_unspan (ALet _ l e) = ALet Span_Panic l (unspan e)"
| "action_unspan (ASet _ h es e) = ASet Span_Panic h (map unspan es) (unspan e)"
| "action_unspan (AUnion _ a b) = AUnion Span_Panic (unspan a) (unspan b)"
| "action_unspan (AChange _ c h es) = AChange Span_Panic c h (map unspan es)"
| "action_unspan (APanic _ m) = APanic Span_Panic m"
| "action_unspan (AExpr _ e) = AExpr Span_Panic (unspan e)"

fun fact_shape :: "ufact \<Rightarrow> shape" where
  "fact_shape (FEq _ a b) = ShList [ShAtom ''='', expr_shape a, expr_shape b]"
| "fact_shape (FFact e) = expr_shape e"

definition lookup_shape :: "string \<Rightarrow> uexpr list \<Rightarrow> shape" where
  "lookup_shape f es = ShList (ShAtom f # map expr_shape es)"

fun action_shape :: "uaction \<Rightarrow> shape" where
  "action_shape (ALet _ l e) = ShList [ShAtom ''let'', ShAtom l, expr_shape e]"
| "action_shape (ASet _ f es e) = ShList [ShAtom ''set'', lookup_shape f es, expr_shape e]"
| "action_shape (AUnion _ a b) = ShList [ShAtom ''union'', expr_shape a, expr_shape b]"
| "action_shape (AChange _ c f es) = ShList [ShAtom (change_to_string c), lookup_shape f es]"
| "action_shape (APanic _ m) = ShList [ShAtom ''panic'', ShLit (LString m)]"
| "action_shape (AExpr _ e) = expr_shape e"

fun fact_readable :: "(64 word \<Rightarrow> string) \<Rightarrow> (string \<Rightarrow> 64 word option) \<Rightarrow> ufact \<Rightarrow> bool" where
  "fact_readable ff pf (FEq _ a b) = (expr_readable ff pf a \<and> expr_readable ff pf b)"
| "fact_readable ff pf (FFact e) = expr_readable ff pf e"

fun action_readable :: "(64 word \<Rightarrow> string) \<Rightarrow> (string \<Rightarrow> 64 word option) \<Rightarrow> uaction \<Rightarrow> bool" where
  "action_readable ff pf (ALet _ l e) = (atom_name pf l \<and> expr_readable ff pf e)"
| "action_readable ff pf (ASet _ f es e) = (atom_name pf f \<and> list_all (expr_readable ff pf) es \<and> expr_readable ff pf e)"
| "action_readable ff pf (AUnion _ a b) = (expr_readable ff pf a \<and> expr_readable ff pf b)"
| "action_readable ff pf (AChange _ c f es) = (atom_name pf f \<and> list_all (expr_readable ff pf) es)"
| "action_readable ff pf (APanic _ m) = plain_string m"
| "action_readable ff pf (AExpr _ e) = expr_readable ff pf e"

text \<open>
  A fact and an action that is an expression have to be calls, of heads the grammar does not
  use itself.
\<close>

fun call_head :: "('h, 'l) expr \<Rightarrow> 'h option" where
  "call_head (ECall _ f _) = Some f"
| "call_head _ = None"

definition action_heads :: "string list" where
  "action_heads = [''let'', ''set'', ''delete'', ''subsume'', ''union'', ''panic'']"

fun fact_plain :: "macros \<Rightarrow> parser \<Rightarrow> ufact \<Rightarrow> bool" where
  "fact_plain mc st (FEq _ a b) = (expr_plain mc st a \<and> expr_plain mc st b)"
| "fact_plain mc st (FFact e) =
     (expr_plain mc st e \<and> call_head e \<noteq> None \<and> call_head e \<noteq> Some ''='')"

fun action_plain :: "macros \<Rightarrow> parser \<Rightarrow> uaction \<Rightarrow> bool" where
  "action_plain mc st (ALet _ l e) =
     (plain_name st l \<and> \<not> (ps_no_reserved st \<and> prefix '':'' l) \<and> expr_plain mc st e)"
| "action_plain mc st (ASet _ f es e) = (list_all (expr_plain mc st) es \<and> expr_plain mc st e)"
| "action_plain mc st (AUnion _ a b) = (expr_plain mc st a \<and> expr_plain mc st b)"
| "action_plain mc st (AChange _ c f es) = list_all (expr_plain mc st) es"
| "action_plain mc st (APanic _ m) = True"
| "action_plain mc st (AExpr _ e) =
     (expr_plain mc st e \<and> (\<exists>f. call_head e = Some f \<and> f \<notin> set action_heads \<and> mc_actions mc f = None))"

definition no_action_macros :: "macros \<Rightarrow> bool" where
  "no_action_macros mc \<longleftrightarrow> (\<forall>f \<in> set action_heads. mc_actions mc f = None)"

lemma keyword_atom:
  assumes "s \<noteq> []" "list_all ordinary s" "s \<noteq> ''true''" "s \<noteq> ''false''" "parse_i64 s = None"
    "s \<noteq> ''NaN''" "s \<noteq> ''inf''" "s \<noteq> ''-inf''" "pf s = None"
  shows "atom_name pf s"
  using assms by (simp add: atom_name_def token_text_ordinary atom_shape_def classify_def)

text \<open>\<open>str::parse::<f64>\<close> accepts none of the words of the grammar.\<close>

definition grammar_words :: "string list" where
  "grammar_words = [''='', ''let'', ''set'', ''delete'', ''subsume'', ''union'', ''panic'', ''rule'', '':ruleset'', '':name'',
     '':unsafe-seminaive'', '':naive'', '':no-decomp'']"

definition words_not_floats :: "(string \<Rightarrow> 64 word option) \<Rightarrow> bool" where
  "words_not_floats pf \<longleftrightarrow> (\<forall>s \<in> set grammar_words. pf s = None)"

lemma keyword_readable: "words_not_floats pf \<Longrightarrow> s \<in> set grammar_words \<Longrightarrow> atom_name pf s"
  by (rule keyword_atom)
    (auto simp: words_not_floats_def grammar_words_def ordinary_def parse_i64_def parses_i64_def all_digits_def)

lemma spells_keyword: "words_not_floats pf \<Longrightarrow> s \<in> set grammar_words \<Longrightarrow> spells pf s (ShAtom s)"
  by (intro spells_atom keyword_readable)

lemma spells_keyword_call:
  "words_not_floats pf \<Longrightarrow> k \<in> set grammar_words \<Longrightarrow> list_all2 (spells pf) ss xs \<Longrightarrow>
    spells pf (CHR ''('' # join '' '' (k # ss) @ '')'') (ShList (ShAtom k # xs))"
  by (intro spells_call spells_keyword)

lemma spells_exprs: "list_all (expr_readable ff pf) es \<Longrightarrow> list_all2 (spells pf) (map (e_str ff) es) (map expr_shape es)"
  by (auto simp: list_all2_conv_all_nth list_all_length spells_expr)

lemma spells_lookup:
  "atom_name pf f \<Longrightarrow> list_all (expr_readable ff pf) es \<Longrightarrow>
    spells pf (CHR ''('' # join '' '' (f # map (e_str ff) es) @ '')'') (lookup_shape f es)"
  unfolding lookup_shape_def by (intro spells_call spells_atom spells_exprs)

lemma spells_fact: "words_not_floats pf \<Longrightarrow> fact_readable ff pf x \<Longrightarrow> spells pf (f_str ff x) (fact_shape x)"
proof (cases x)
  case (FEq sp a b)
  assume "words_not_floats pf" "fact_readable ff pf x"
  with FEq spells_keyword_call [of pf "''=''" "[e_str ff a, e_str ff b]" "[expr_shape a, expr_shape b]"]
  show ?thesis by (simp add: grammar_words_def spells_expr)
qed (simp add: spells_expr)

lemma spells_action: "words_not_floats pf \<Longrightarrow> action_readable ff pf x \<Longrightarrow> spells pf (a_str ff x) (action_shape x)"
proof (cases x)
  case (ALet sp l e)
  assume "words_not_floats pf" "action_readable ff pf x"
  with ALet spells_keyword_call [of pf "''let''" "[l, e_str ff e]" "[ShAtom l, expr_shape e]"]
  show ?thesis by (simp add: grammar_words_def spells_expr spells_atom)
next
  case (ASet sp f es e)
  assume "words_not_floats pf" "action_readable ff pf x"
  with ASet spells_lookup [of pf f ff es]
    spells_keyword_call [of pf "''set''" "[CHR ''('' # join '' '' (f # map (e_str ff) es) @ '')'', e_str ff e]"
      "[lookup_shape f es, expr_shape e]"]
  show ?thesis by (cases es) (simp_all add: grammar_words_def spells_expr)
next
  case (AUnion sp a b)
  assume "words_not_floats pf" "action_readable ff pf x"
  with AUnion spells_keyword_call [of pf "''union''" "[e_str ff a, e_str ff b]" "[expr_shape a, expr_shape b]"]
  show ?thesis by (simp add: grammar_words_def spells_expr)
next
  case (AChange sp c f es)
  assume "words_not_floats pf" "action_readable ff pf x"
  with AChange spells_lookup [of pf f ff es]
    spells_keyword_call [of pf "change_to_string c" "[CHR ''('' # join '' '' (f # map (e_str ff) es) @ '')'']" "[lookup_shape f es]"]
  show ?thesis by (cases es; cases c) (simp_all add: grammar_words_def)
next
  case (APanic sp m)
  assume "words_not_floats pf" "action_readable ff pf x"
  with APanic spells_keyword_call [of pf "''panic''" "[CHR ''\"'' # m @ ''\"'']" "[ShLit (LString m)]"]
  show ?thesis by (simp add: grammar_words_def spells_spells_items.quoted)
qed (simp add: spells_expr)

lemma call_head_shape:
  "call_head e = Some f \<Longrightarrow> shape_of x = expr_shape e \<Longrightarrow> \<exists>asp xs sp. x = SList (SAtom f asp # xs) sp"
  by (cases e) (auto simp: shape_of_eq Cons_eq_map_conv)

lemma parse_fact_shape:
  "fact_plain mc st y \<Longrightarrow> shape_of x = fact_shape y \<Longrightarrow> \<exists>y'. parse_fact mc x st = Ok (y', st) \<and> fact_unspan y' = fact_unspan y"
proof (cases y)
  case (FEq sp a b)
  assume p: "fact_plain mc st y" and "shape_of x = fact_shape y"
  then obtain asp xa xb xsp where x: "x = SList [SAtom ''='' asp, xa, xb] xsp"
    "shape_of xa = expr_shape a" "shape_of xb = expr_shape b" by (auto simp: FEq shape_of_eq Cons_eq_map_conv)
  with p FEq parse_expr_shape [of mc st a xa] parse_expr_shape [of mc st b xb]
  show ?thesis by (auto simp: parse_fact_def expect_call_def)
next
  case (FFact e)
  assume p: "fact_plain mc st y" and x: "shape_of x = fact_shape y"
  then obtain f where f: "call_head e = Some f" "f \<noteq> ''=''" by (auto simp: FFact)
  from x FFact have s: "shape_of x = expr_shape e" by simp
  obtain asp xs sp where x: "x = SList (SAtom f asp # xs) sp" using call_head_shape [OF f(1) s] by blast
  from parse_expr_shape [of mc st e x] p FFact s obtain e' where "parse_expr mc x st = Ok (e', st)" "unspan e' = unspan e"
    by auto
  with f(2) FFact show ?thesis by (simp add: parse_fact_def expect_call_def x)
qed

lemma parse_lookup_shape:
  assumes "list_all (expr_plain mc st) es" "shape_of x = lookup_shape f es"
  shows "\<exists>es'. parse_lookup mc x st = Ok (f, es', st) \<and> map unspan es' = map unspan es"
proof -
  obtain asp xs xsp where x: "x = SList (SAtom f asp # xs) xsp" "map shape_of xs = map expr_shape es"
    using assms(2) by (auto simp: lookup_shape_def shape_of_eq Cons_eq_map_conv)
  have "\<exists>es'. map_out (parse_expr mc) xs st = Ok (es', st) \<and> map unspan es' = map unspan es"
    by (rule map_out_shapes [OF x(2)]) (use assms in \<open>auto simp: list_all_iff parse_expr_shape\<close>)
  with x show ?thesis by (auto simp: parse_lookup_def expect_call_def)
qed

lemma parse_action_shape:
  assumes m: "no_action_macros mc" and p: "action_plain mc st y" and s: "shape_of x = action_shape y"
  shows "\<exists>y'. parse_action mc x st = Ok ([y'], st) \<and> action_unspan y' = action_unspan y"
proof (cases y)
  case (ALet sp l e)
  obtain asp lsp xe xsp where x: "x = SList [SAtom ''let'' asp, SAtom l lsp, xe] xsp" "shape_of xe = expr_shape e"
    using s by (auto simp: ALet shape_of_eq Cons_eq_map_conv)
  with m p ALet parse_expr_shape [of mc st e xe] show ?thesis
    by (auto simp: parse_action_def parse_builtin_action_def expect_call_def expect_atom_def no_action_macros_def
        action_heads_def ensure_plain ensure_not_colon_prefixed_def)
next
  case (ASet sp f es e)
  obtain asp xl xe xsp where x: "x = SList [SAtom ''set'' asp, xl, xe] xsp" "shape_of xl = lookup_shape f es"
    "shape_of xe = expr_shape e"
    using s by (auto simp: ASet shape_of_eq Cons_eq_map_conv)
  with m p ASet parse_expr_shape [of mc st e xe] parse_lookup_shape [of mc st es xl f] show ?thesis
    by (auto simp: parse_action_def parse_builtin_action_def expect_call_def no_action_macros_def action_heads_def)
next
  case (AUnion sp a b)
  obtain asp xa xb xsp where x: "x = SList [SAtom ''union'' asp, xa, xb] xsp" "shape_of xa = expr_shape a"
    "shape_of xb = expr_shape b"
    using s by (auto simp: AUnion shape_of_eq Cons_eq_map_conv)
  with m p AUnion parse_expr_shape [of mc st a xa] parse_expr_shape [of mc st b xb] show ?thesis
    by (auto simp: parse_action_def parse_builtin_action_def expect_call_def no_action_macros_def action_heads_def)
next
  case (AChange sp c f es)
  obtain asp xl xsp where x: "x = SList [SAtom (change_to_string c) asp, xl] xsp" "shape_of xl = lookup_shape f es"
    using s by (auto simp: AChange shape_of_eq Cons_eq_map_conv)
  with m p AChange parse_lookup_shape [of mc st es xl f] show ?thesis
    by (cases c) (auto simp: parse_action_def parse_builtin_action_def expect_call_def no_action_macros_def action_heads_def)
next
  case (APanic sp msg)
  obtain asp msp xsp where x: "x = SList [SAtom ''panic'' asp, SLit (LString msg) msp] xsp"
    using s by (auto simp: APanic shape_of_eq Cons_eq_map_conv)
  with m APanic show ?thesis
    by (auto simp: parse_action_def parse_builtin_action_def expect_call_def expect_string_def no_action_macros_def action_heads_def)
next
  case (AExpr sp e)
  then obtain f where f: "call_head e = Some f" "f \<notin> set action_heads" "mc_actions mc f = None" using p by auto
  have se: "shape_of x = expr_shape e" using s AExpr by simp
  obtain asp xs xsp where x: "x = SList (SAtom f asp # xs) xsp" using call_head_shape [OF f(1) se] by blast
  from parse_expr_shape [of mc st e x] p AExpr se obtain e' where "parse_expr mc x st = Ok (e', st)" "unspan e' = unspan e"
    by auto
  with f(2,3) AExpr show ?thesis
    by (simp add: parse_action_def parse_builtin_action_def expect_call_def action_heads_def x)
qed

section \<open>Rules\<close>

abbreviation r_str :: "(64 word \<Rightarrow> string) \<Rightarrow> urule \<Rightarrow> string" where
  "r_str ff \<equiv> rule_to_string ff (\<lambda>h. h) (\<lambda>l. l)"

definition rule_unspan :: "('h, 'l) rule \<Rightarrow> ('h, 'l) rule" where
  "rule_unspan r = r\<lparr>rule_span := Span_Panic, rule_body := map fact_unspan (rule_body r),
     rule_head := map action_unspan (rule_head r)\<rparr>"

definition rule_readable :: "(64 word \<Rightarrow> string) \<Rightarrow> (string \<Rightarrow> 64 word option) \<Rightarrow> urule \<Rightarrow> bool" where
  "rule_readable ff pf r \<longleftrightarrow> list_all (fact_readable ff pf) (rule_body r) \<and> list_all (action_readable ff pf) (rule_head r)
     \<and> (rule_ruleset r = [] \<or> atom_name pf (rule_ruleset r) \<and> \<not> prefix '':'' (rule_ruleset r))
     \<and> plain_string (rule_name r)"

definition rule_plain :: "macros \<Rightarrow> parser \<Rightarrow> urule \<Rightarrow> bool" where
  "rule_plain mc st r \<longleftrightarrow> list_all (fact_plain mc st) (rule_body r) \<and> list_all (action_plain mc st) (rule_head r)"

definition flag_shape :: "bool \<Rightarrow> string \<Rightarrow> shape list" where
  "flag_shape b k = (if b then [ShAtom k] else [])"

definition option_shapes :: "urule \<Rightarrow> shape list" where
  "option_shapes r =
      (if rule_ruleset r \<noteq> [] then [ShAtom '':ruleset'', ShAtom (rule_ruleset r)] else [])
      @ (if rule_name r \<noteq> [] then [ShAtom '':name'', ShLit (LString (rule_name r))] else [])
      @ flag_shape (rule_unsafe_seminaive r) '':unsafe-seminaive''
      @ flag_shape (rule_naive r) '':naive''
      @ flag_shape (rule_no_decomp r) '':no-decomp''"

definition rule_shape :: "urule \<Rightarrow> shape" where
  "rule_shape r = ShList (ShAtom ''rule'' # ShList (map fact_shape (rule_body r))
     # ShList (map action_shape (rule_head r)) # option_shapes r)"

lemma item_lines_False: "item_lines ind False (x # xs) = ind @ item_lines ind True (x # xs)"
  by (cases xs) auto

lemma item_lines_join: "item_lines ind True ss = join (newline # ind) ss"
proof (induction ss)
  case (Cons s ss)
  then show ?case by (cases ss) (auto simp: item_lines_False)
qed simp

lemma gap_newline: "gap (newline # replicate n (CHR '' ''))"
  by (simp add: gap_def blank_def list_all_iff)

lemma spells_lines:
  "list_all2 (spells pf) ss xs \<Longrightarrow> spells pf (CHR ''('' # item_lines (replicate n (CHR '' '')) True ss @ '')'') (ShList xs)"
  unfolding item_lines_join by (intro parens items_join gap_newline) auto

lemma items_gap_opt:
  assumes "gap g" "b \<Longrightarrow> list_all2 (spells pf) ss xs"
  shows "spells_items pf (g @ (if b then join '' '' ss else [])) (if b then xs else [])"
proof (cases b)
  case True
  show ?thesis
  proof (cases ss)
    case Nil
    with True assms show ?thesis by (auto intro: spells_spells_items.none)
  next
    case (Cons s ss')
    with True assms obtain y ys where xs: "xs = y # ys" "spells pf s y" "list_all2 (spells pf) ss' ys"
      by (auto simp: list_all2_Cons1)
    show ?thesis
      using items_Cons [OF assms(1) xs(2)] items_concat [OF gap_space _ xs(3)] True Cons xs
      by (simp add: join_Cons)
  qed
qed (simp add: assms spells_spells_items.none)

lemma spells_rule:
  assumes w: "words_not_floats pf" and r: "rule_readable ff pf r"
  shows "spells pf (r_str ff r) (rule_shape r)"
proof -
  let ?ind = "replicate 7 (CHR '' '')"
  let ?B = "CHR ''('' # item_lines ?ind True (map (f_str ff) (rule_body r)) @ '')''"
  let ?H = "CHR ''('' # item_lines ?ind True (map (a_str ff) (rule_head r)) @ '')''"
  have B: "spells pf ?B (ShList (map fact_shape (rule_body r)))"
    using w r by (intro spells_lines) (auto simp: list_all2_conv_all_nth list_all_length rule_readable_def spells_fact)
  have H: "spells pf ?H (ShList (map action_shape (rule_head r)))"
    using w r by (intro spells_lines) (auto simp: list_all2_conv_all_nth list_all_length rule_readable_def spells_action)
  have kw: "spells pf s (ShAtom s)" if "s \<in> set grammar_words" for s using spells_keyword [OF w that] .
  have flag: "spells_items pf (if b then '' '' @ k else []) (flag_shape b k) \<and> blank_start (if b then '' '' @ k else [])"
    if "k \<in> set grammar_words" for b k
    using items_one [OF gap_space kw [OF that]] spells_starts [OF kw [OF that], of "[]"]
    by (auto simp: flag_shape_def items_nil blank_def)
  let ?P1 = "'' '' @ ?B" and ?P2 = "(newline # replicate 6 (CHR '' '')) @ ?H"
  let ?P3 = "(newline # replicate 8 (CHR '' '')) @ (if rule_ruleset r \<noteq> [] then join '' '' ['':ruleset'', rule_ruleset r] else [])"
  let ?P4 = "'' '' @ (if rule_name r \<noteq> [] then join '' '' ['':name'', CHR ''\"'' # rule_name r @ ''\"''] else [])"
  let ?F = "\<lambda>b k. if b then '' '' @ k else []"
  have P0: "spells_items pf ''rule'' [ShAtom ''rule'']"
    using items_one [of "[]" pf "''rule''"] kw [of "''rule''"] by (simp add: gap_def grammar_words_def)
  have P1: "spells_items pf ?P1 [ShList (map fact_shape (rule_body r))]" by (rule items_one [OF gap_space B])
  have P2: "spells_items pf ?P2 [ShList (map action_shape (rule_head r))]" by (rule items_one [OF gap_newline H])
  have P3: "spells_items pf ?P3 (if rule_ruleset r \<noteq> [] then [ShAtom '':ruleset'', ShAtom (rule_ruleset r)] else [])"
    by (rule items_gap_opt [OF gap_newline]) (use r kw in \<open>auto simp: rule_readable_def spells_atom grammar_words_def\<close>)
  have P4: "spells_items pf ?P4 (if rule_name r \<noteq> [] then [ShAtom '':name'', ShLit (LString (rule_name r))] else [])"
    by (rule items_gap_opt [OF gap_space])
      (use r kw in \<open>auto simp: rule_readable_def spells_spells_items.quoted grammar_words_def\<close>)
  have F: "spells_items pf (?F b k) (flag_shape b k)" "blank_start (?F b k)" if "k \<in> set grammar_words" for b k
    using flag [OF that, of b] by auto
  have fk: "'':unsafe-seminaive'' \<in> set grammar_words" "'':naive'' \<in> set grammar_words" "'':no-decomp'' \<in> set grammar_words"
    by (simp_all add: grammar_words_def)
  have bs: "blank_start ?P1" "blank_start ?P2" "blank_start ?P3" "blank_start ?P4"
    by (simp_all add: blank_def starts_char_def is_continuation_def newline_def)
  have e: "r_str ff r = CHR ''('' # (''rule'' @ ?P1 @ ?P2 @ ?P3 @ ?P4
      @ ?F (rule_unsafe_seminaive r) '':unsafe-seminaive'' @ ?F (rule_naive r) '':naive''
      @ ?F (rule_no_decomp r) '':no-decomp'') @ '')''"
    by (simp add: rule_to_string_def Let_def eval_nat_numeral)
  have "spells_items pf (''rule'' @ ?P1 @ ?P2 @ ?P3 @ ?P4 @ ?F (rule_unsafe_seminaive r) '':unsafe-seminaive''
        @ ?F (rule_naive r) '':naive'' @ ?F (rule_no_decomp r) '':no-decomp'')
      ([ShAtom ''rule''] @ [ShList (map fact_shape (rule_body r))] @ [ShList (map action_shape (rule_head r))]
        @ (if rule_ruleset r \<noteq> [] then [ShAtom '':ruleset'', ShAtom (rule_ruleset r)] else [])
        @ (if rule_name r \<noteq> [] then [ShAtom '':name'', ShLit (LString (rule_name r))] else [])
        @ flag_shape (rule_unsafe_seminaive r) '':unsafe-seminaive'' @ flag_shape (rule_naive r) '':naive''
        @ flag_shape (rule_no_decomp r) '':no-decomp'')"
    by (intro items_append blank_start_append P0 P1 P2 P3 P4 F fk bs)
  from parens [OF this] show ?thesis unfolding e rule_shape_def option_shapes_def append_Cons append_Nil .
qed

text \<open>Options are read one at a time.\<close>

definition keyed :: "sexp list \<Rightarrow> bool" where
  "keyed xs \<longleftrightarrow> xs = [] \<or> option_name (hd xs) \<noteq> None"

lemma keyed_drop: "keyed xs \<Longrightarrow> dropWhile (\<lambda>y. option_name y = None) xs = xs \<and> takeWhile (\<lambda>y. option_name y = None) xs = []"
  by (cases xs) (auto simp: keyed_def)

lemma parse_options_flag:
  "keyed xs \<Longrightarrow> prefix '':'' k \<Longrightarrow> parse_options (SAtom k sp # xs) = bind_o (parse_options xs) (\<lambda>out. Ok ((k, []) # out))"
  using keyed_drop [of xs] by (simp add: option_name_def)

lemma parse_options_value:
  "keyed xs \<Longrightarrow> prefix '':'' k \<Longrightarrow> option_name v = None \<Longrightarrow>
    parse_options (SAtom k sp # v # xs) = bind_o (parse_options xs) (\<lambda>out. Ok ((k, [v]) # out))"
  using keyed_drop [of xs] by (simp add: option_name_def [of "SAtom k sp"])

declare parse_options.simps(2) [simp del]

lemma keyed_Cons: "prefix '':'' k \<Longrightarrow> keyed (SAtom k sp # xs)"
  by (simp add: keyed_def option_name_def)

lemma flag_shape_cases:
  assumes "map shape_of xs = flag_shape b k"
  obtains "\<not> b" "xs = []" | sp where "b" "xs = [SAtom k sp]"
  using assms by (auto simp: flag_shape_def shape_of_eq split: if_splits)

lemma fold_pieces: "fold_out f (xs @ ys) s = bind_o (fold_out f xs s) (fold_out f ys)"
proof (induction xs arbitrary: s)
  case (Cons x xs)
  then show ?case by (cases "f x s") auto
qed simp

lemma rule_option_ruleset:
  assumes "rs \<noteq> [] \<Longrightarrow> \<exists>p. v = [SAtom rs p]" "rule_ruleset q = []"
  shows "fold_out (rule_option sp) (if rs \<noteq> [] then [('':ruleset'', v)] else []) q = Ok (q\<lparr>rule_ruleset := rs\<rparr>)"
  using assms by (cases "rs = []"; cases q) (auto simp: rule_option_def expect_atom_def)

lemma rule_option_name:
  assumes "n \<noteq> [] \<Longrightarrow> \<exists>p. v = [SLit (LString n) p]" "rule_name q = []"
  shows "fold_out (rule_option sp) (if n \<noteq> [] then [('':name'', v)] else []) q = Ok (q\<lparr>rule_name := n\<rparr>)"
  using assms by (cases "n = []"; cases q) (auto simp: rule_option_def expect_string_def)

lemma rule_option_flags:
  "\<not> rule_unsafe_seminaive q \<Longrightarrow>
    fold_out (rule_option sp) (if b then [('':unsafe-seminaive'', [])] else []) q = Ok (q\<lparr>rule_unsafe_seminaive := b\<rparr>)"
  "\<not> rule_naive q \<Longrightarrow> fold_out (rule_option sp) (if b then [('':naive'', [])] else []) q = Ok (q\<lparr>rule_naive := b\<rparr>)"
  "\<not> rule_no_decomp q \<Longrightarrow> fold_out (rule_option sp) (if b then [('':no-decomp'', [])] else []) q = Ok (q\<lparr>rule_no_decomp := b\<rparr>)"
  by (cases q; auto simp: rule_option_def)+

lemma map_append5:
  assumes "map f xs = a @ b @ c @ d @ e"
  shows "\<exists>x1 x2 x3 x4 x5. xs = x1 @ x2 @ x3 @ x4 @ x5 \<and> map f x1 = a \<and> map f x2 = b \<and> map f x3 = c
    \<and> map f x4 = d \<and> map f x5 = e"
proof -
  have split: "\<And>ys u v. map f ys = u @ v \<Longrightarrow> \<exists>y z. ys = y @ z \<and> map f y = u \<and> map f z = v"
    by (simp add: map_eq_append_conv) blast
  obtain x1 r1 where 1: "xs = x1 @ r1" "map f x1 = a" "map f r1 = b @ c @ d @ e" using split [OF assms] by blast
  obtain x2 r2 where 2: "r1 = x2 @ r2" "map f x2 = b" "map f r2 = c @ d @ e" using split [OF 1(3)] by blast
  obtain x3 r3 where 3: "r2 = x3 @ r3" "map f x3 = c" "map f r3 = d @ e" using split [OF 2(3)] by blast
  obtain x4 x5 where 4: "r3 = x4 @ x5" "map f x4 = d" "map f x5 = e" using split [OF 3(3)] by blast
  from 1 2 3 4 show ?thesis by blast
qed

lemma rule_options_read:
  assumes xs: "map shape_of xs = option_shapes r"
    and r: "rule_ruleset r = [] \<or> \<not> prefix '':'' (rule_ruleset r)"
  shows "\<exists>opts. parse_options xs = Ok opts
    \<and> fold_out (rule_option sp) opts (r\<lparr>rule_name := [], rule_ruleset := [], rule_unsafe_seminaive := False,
         rule_naive := False, rule_no_decomp := False\<rparr>) = Ok r"
proof -
  obtain x1 x2 x3 x4 x5 where x: "xs = x1 @ x2 @ x3 @ x4 @ x5"
    "map shape_of x1 = (if rule_ruleset r \<noteq> [] then [ShAtom '':ruleset'', ShAtom (rule_ruleset r)] else [])"
    "map shape_of x2 = (if rule_name r \<noteq> [] then [ShAtom '':name'', ShLit (LString (rule_name r))] else [])"
    "map shape_of x3 = flag_shape (rule_unsafe_seminaive r) '':unsafe-seminaive''"
    "map shape_of x4 = flag_shape (rule_naive r) '':naive''"
    "map shape_of x5 = flag_shape (rule_no_decomp r) '':no-decomp''"
    using map_append5 [OF xs [unfolded option_shapes_def]] by (elim exE conjE) (rule that)
  have k5: "keyed x5" by (rule flag_shape_cases [OF x(6)]) (auto simp: keyed_def option_name_def)
  have k4: "keyed (x4 @ x5)" by (rule flag_shape_cases [OF x(5)]) (auto simp: k5 keyed_Cons)
  have k3: "keyed (x3 @ x4 @ x5)" by (rule flag_shape_cases [OF x(4)]) (auto simp: k4 keyed_Cons)
  have k2: "keyed (x2 @ x3 @ x4 @ x5)" using x(3) k3 by (auto simp: Cons_eq_map_conv shape_of_eq keyed_Cons split: if_splits)
  let ?o1 = "if rule_ruleset r \<noteq> [] then [('':ruleset'', tl x1)] else []"
  let ?o2 = "if rule_name r \<noteq> [] then [('':name'', tl x2)] else []"
  let ?fl = "\<lambda>b k. if b then [(k, [])] else []"
  have p5: "parse_options x5 = Ok (?fl (rule_no_decomp r) '':no-decomp'')"
    by (rule flag_shape_cases [OF x(6)]) (auto simp: parse_options_flag keyed_def)
  have p4: "parse_options (x4 @ x5) = Ok (?fl (rule_naive r) '':naive'' @ ?fl (rule_no_decomp r) '':no-decomp'')"
    by (rule flag_shape_cases [OF x(5)]) (auto simp: parse_options_flag k5 p5)
  have p3: "parse_options (x3 @ x4 @ x5) = Ok (?fl (rule_unsafe_seminaive r) '':unsafe-seminaive''
      @ ?fl (rule_naive r) '':naive'' @ ?fl (rule_no_decomp r) '':no-decomp'')"
    by (rule flag_shape_cases [OF x(4)]) (auto simp: parse_options_flag k4 p4)
  have p2: "parse_options (x2 @ x3 @ x4 @ x5) = Ok (?o2 @ ?fl (rule_unsafe_seminaive r) '':unsafe-seminaive''
      @ ?fl (rule_naive r) '':naive'' @ ?fl (rule_no_decomp r) '':no-decomp'')"
    using x(3) by (auto simp: Cons_eq_map_conv shape_of_eq parse_options_value k3 p3 option_name_def split: if_splits)
  have p1: "parse_options xs = Ok (?o1 @ ?o2 @ ?fl (rule_unsafe_seminaive r) '':unsafe-seminaive''
      @ ?fl (rule_naive r) '':naive'' @ ?fl (rule_no_decomp r) '':no-decomp'')"
    using x(2) r unfolding x(1)
    by (auto simp: Cons_eq_map_conv shape_of_eq parse_options_value k2 p2 option_name_def split: if_splits)
  have v: "rule_ruleset r \<noteq> [] \<Longrightarrow> \<exists>sp. tl x1 = [SAtom (rule_ruleset r) sp]"
    "rule_name r \<noteq> [] \<Longrightarrow> \<exists>sp. tl x2 = [SLit (LString (rule_name r)) sp]"
    using x(2,3) by (auto simp: Cons_eq_map_conv shape_of_eq)
  have "fold_out (rule_option sp) (?o1 @ ?o2 @ ?fl (rule_unsafe_seminaive r) '':unsafe-seminaive''
      @ ?fl (rule_naive r) '':naive'' @ ?fl (rule_no_decomp r) '':no-decomp'')
      (r\<lparr>rule_name := [], rule_ruleset := [], rule_unsafe_seminaive := False, rule_naive := False, rule_no_decomp := False\<rparr>) = Ok r"
    using v by (simp add: fold_pieces rule_option_ruleset rule_option_name rule_option_flags)
  with p1 show ?thesis by blast
qed

lemma parse_actions_shape:
  assumes m: "no_action_macros mc" and p: "list_all (action_plain mc st) ys" and x: "map shape_of xs = map action_shape ys"
  shows "\<exists>zss. map_out (parse_action mc) xs st = Ok (zss, st) \<and> map action_unspan (concat zss) = map action_unspan ys"
proof -
  have "\<exists>zss. map_out (parse_action mc) xs st = Ok (zss, st)
      \<and> list_all2 (\<lambda>y zs. map action_unspan zs = [action_unspan y]) ys zss"
  proof (rule map_out_rel [OF x])
    fix z y assume y: "y \<in> set ys" "shape_of z = action_shape y"
    then have "action_plain mc st y" using p by (auto simp: list_all_iff)
    from parse_action_shape [OF m this y(2)]
    show "\<exists>zs. parse_action mc z st = Ok (zs, st) \<and> map action_unspan zs = [action_unspan y]" by fastforce
  qed
  moreover have "list_all2 (\<lambda>y zs. map action_unspan zs = [action_unspan y]) ys zss
      \<Longrightarrow> map action_unspan (concat zss) = map action_unspan ys" for zss
    by (induction ys zss rule: list_all2_induct) (auto simp: map_concat)
  ultimately show ?thesis by blast
qed

lemma parse_rule_shape:
  assumes m: "no_action_macros mc" and p: "rule_plain mc st r"
    and rs: "rule_ruleset r = [] \<or> \<not> prefix '':'' (rule_ruleset r)"
    and s: "map shape_of xs = ShList (map fact_shape (rule_body r)) # ShList (map action_shape (rule_head r)) # option_shapes r"
  shows "\<exists>r'. parse_rule mc xs sp st = Ok ([CRule r'], st) \<and> rule_unspan r' = rule_unspan r"
proof -
  obtain bs bsp hs hsp os where x: "xs = SList bs bsp # SList hs hsp # os"
    "map shape_of bs = map fact_shape (rule_body r)" "map shape_of hs = map action_shape (rule_head r)"
    "map shape_of os = option_shapes r"
    using s by (auto simp: Cons_eq_map_conv shape_of_eq)
  obtain body where b: "map_out (parse_fact mc) bs st = Ok (body, st)" "map fact_unspan body = map fact_unspan (rule_body r)"
    using map_out_shapes [OF x(2), of "parse_fact mc" st fact_unspan] p
    by (auto simp: rule_plain_def list_all_iff parse_fact_shape)
  obtain heads where h: "map_out (parse_action mc) hs st = Ok (heads, st)"
      "map action_unspan (concat heads) = map action_unspan (rule_head r)"
    using parse_actions_shape [OF m _ x(3), of st] p by (auto simp: rule_plain_def)
  let ?r = "r\<lparr>rule_span := sp, rule_head := concat heads, rule_body := body\<rparr>"
  have r0: "?r\<lparr>rule_name := [], rule_ruleset := [], rule_unsafe_seminaive := False, rule_naive := False, rule_no_decomp := False\<rparr>
      = \<lparr>rule_span = sp, rule_head = concat heads, rule_body = body, rule_name = [], rule_ruleset = [],
         rule_unsafe_seminaive = False, rule_naive = False, rule_no_decomp = False\<rparr>"
    by (cases r) simp
  have "map shape_of os = option_shapes ?r" using x(4) by (simp add: option_shapes_def)
  from rule_options_read [OF this, of sp] rs obtain opts where
    "parse_options os = Ok opts" "fold_out (rule_option sp) opts
       \<lparr>rule_span = sp, rule_head = concat heads, rule_body = body, rule_name = [], rule_ruleset = [],
         rule_unsafe_seminaive = False, rule_naive = False, rule_no_decomp = False\<rparr> = Ok ?r"
    unfolding r0 by auto
  with b h have "parse_rule mc xs sp st = Ok ([CRule ?r], st)"
    by (simp add: parse_rule_def x(1) expect_list_def)
  moreover have "rule_unspan ?r = rule_unspan r" using b(2) h(2) by (cases r) (simp add: rule_unspan_def)
  ultimately show ?thesis by blast
qed

section \<open>Programs\<close>

text \<open>The rest of a source file after the parser, when it spells the given shapes.\<close>

lemma sp_at_end_gap:
  assumes "sp_rest p = g" "gap g" "sp_index p \<le> length (src_contents (sp_source p))"
  shows "sp_at_end (sp_skip p)"
proof -
  have "ws_len False (g @ []) = length g" using ws_len_gap [OF assms(2), of "[]"] by (simp add: starts_char_def ws_len.simps)
  moreover have "length g = length (src_contents (sp_source p)) - sp_index p" using assms(1) by (auto simp: sp_rest_def)
  ultimately show ?thesis using assms by (simp add: sp_at_end_def sp_skip_def)
qed

lemma spelled_program:
  "spells_items pf b xs \<Longrightarrow> sp_rest p = b \<Longrightarrow> sp_index p \<le> length (src_contents (sp_source p)) \<Longrightarrow>
    \<exists>ys. all_sexps_loop pf (sp_skip p) = Ok ys \<and> map shape_of ys = xs"
proof (induction b arbitrary: p xs rule: length_induct)
  case (1 b)
  note IH = 1(1) and items = 1(2) and rest = 1(3) and ix = 1(4)
  from items show ?case
  proof cases
    case none
    with sp_at_end_gap [OF rest none(2) ix] show ?thesis by (subst all_sexps_loop.simps) simp
  next
    case (some g s x b' xs')
    let ?q = "sp_advance (length g) p"
    have q: "sp_rest ?q = s @ b'" using rest some by (simp add: sp_rest_advance)
    have sk: "sp_skip ?q = sp_skip p"
      using rest some spells_starts [OF some(4)] by (intro sp_skip_gap) auto
    have ne: "s \<noteq> []" using spells_ne [OF some(4)] by simp
    have d: "delimited b'" using some(6) by (auto simp: delimited_def)
    have len: "length b = length (src_contents (sp_source p)) - sp_index p" using rest by (auto simp: sp_rest_def)
    have "0 < length (sp_rest ?q)" using q ne by simp
    obtain y where y: "shape_of y = x" "sexp_loop pf [] ?q = Ok (y, sp_skip (sp_advance (length s) ?q))"
      using spelled_read [OF some(4) q d, of "[]"] by (auto simp: deliver_def)
    have adv: "left_over (sp_skip (sp_advance (length s) ?q)) < left_over ?q"
      using sexp_loop_advances [OF y(2)] by simp
    have r: "read_sexp pf (sp_skip p) = Ok (y, sp_skip (sp_advance (length s) ?q))"
      using y(2) sexp_loop_skip [of pf "[]" ?q] by (simp add: read_sexp_def sk)
    have "read_sexp pf (sp_skip p) \<noteq> Err (Span_Egglog (mk_span (sp_skip p) (sp_index (sp_skip p)) (sp_index (sp_skip p))), ''unexpected end of file'')"
      using r by simp
    have ae: "\<not> sp_at_end (sp_skip p)"
    proof
      assume "sp_at_end (sp_skip p)"
      then have "sp_rest (sp_skip (sp_skip p)) = []" by (simp add: sp_at_end_def sp_rest_def)
      then have "\<exists>e. sp_next (sp_skip p) = Err e" unfolding sp_next_def Let_def by auto
      then have "\<exists>e. read_sexp pf (sp_skip p) = Err e" unfolding read_sexp_def by (subst sexp_loop.simps) auto
      with r show False by auto
    qed
    let ?q2 = "sp_advance (length s) ?q"
    have q2: "sp_rest ?q2 = b'" unfolding sp_rest_advance [of "length s"] q by simp
    have ix2: "sp_index ?q2 \<le> length (src_contents (sp_source ?q2))" using len some(1) ix by simp
    have "length b' < length b" using some(1) ne by simp
    from IH [rule_format, OF this some(5) q2 ix2] obtain ys where
      ys: "all_sexps_loop pf (sp_skip ?q2) = Ok ys" "map shape_of ys = xs'" by blast
    have "all_sexps_loop pf (sp_skip p) = Ok (y # ys)"
      using ae r ys(1) by (subst all_sexps_loop.simps) (simp del: sp_advance_add)
    with y(1) ys(2) some(2) show ?thesis by (intro exI [of _ "y # ys"]) simp
  qed
qed

lemma all_sexps_spelled:
  "spells_items pf b xs \<Longrightarrow> \<exists>ys. all_sexps pf (sp_new file b) = Ok ys \<and> map shape_of ys = xs"
  unfolding all_sexps_def by (rule spelled_program) (simp_all add: sp_new_def sp_rest_def)

lemma read_sexp_spelled:
  assumes "spells pf b x"
  shows "\<exists>y p'. read_sexp pf (sp_new file b) = Ok (y, p') \<and> shape_of y = x
    \<and> sexp_span y = Span_Egglog \<lparr>span_file = \<lparr>src_name = file, src_contents = b\<rparr>, span_i = 0, span_j = length b\<rparr>"
  using spelled_read [OF assms, of "sp_new file b" "[]" "[]"]
  by (auto simp: read_sexp_def deliver_def delimited_def sp_new_def sp_rest_def quotes_def mk_span_def)

end
