(* ===== verification/Syntax_Results.thy ===== *)
theory Syntax_Results
  imports Print_Parse Desugar
begin

text \<open>
  What parsing and desugaring promise: printed expressions and rules are read back, no text
  makes the parser panic, desugaring panics on two kinds of commands only, and the variable of
  a desugared rewrite is fresh.
\<close>

section \<open>The parser never panics\<close>

lemma other_len_le: "other_len s \<le> length s"
proof (induction s rule: other_len.induct)
  case (1 s)
  show ?case
  proof (cases "s = [] \<or> starts_with_whitespace s \<or> hd s \<in> {CHR '';'', CHR ''('', CHR '')''}")
    case False
    then have "other_len s = char_len s + other_len (drop (char_len s) s)" by (subst other_len.simps) simp
    with 1 [OF False] char_len_le [of s] show ?thesis by simp
  next
    case True
    then show ?thesis by (subst other_len.simps) simp
  qed
qed

lemma string_body_total: "string_body b s \<noteq> Panic"
proof (induction b s rule: string_body.induct)
  case (1 b s)
  show ?case
  proof (cases "s = []")
    case False
    have k: "(case r of Ok (v', k) \<Rightarrow> Ok (v @ v', n + k) | Err (k, msg) \<Rightarrow> Err (n + k, msg) | Panic \<Rightarrow> Panic) \<noteq> Panic"
      if "r \<noteq> Panic" for r :: "(nat \<times> string, string \<times> nat) outcome" and v n
      using that by (cases r) auto
    note IH = 1 [OF False refl refl refl]
    show ?thesis
    proof (cases "hd s = CHR ''\"'' \<and> \<not> b")
      case False
      note IH = IH [OF False]
      show ?thesis
      proof (cases "hd s = CHR 0x5C \<and> \<not> b")
        case True
        with IH(1) [OF True] False \<open>s \<noteq> []\<close> show ?thesis
          by (subst string_body.simps) (auto simp: Let_def split: outcome.splits)
      next
        case nb: False
        show ?thesis
        proof (cases b)
          case True
          then show ?thesis using False nb \<open>s \<noteq> []\<close> IH(2) [OF nb True]
            by (subst string_body.simps) (auto simp: Let_def split: option.splits outcome.splits)
        next
          case b: False
          from k [OF IH(3) [OF nb b]] False nb b \<open>s \<noteq> []\<close> show ?thesis by (subst string_body.simps) (simp add: Let_def)
        qed
      qed
    qed (use \<open>s \<noteq> []\<close> in \<open>subst string_body.simps, simp add: Let_def\<close>)
  qed (simp add: string_body.simps)
qed

lemma sp_next_total: "sp_next p \<noteq> Panic"
  using string_body_total by (auto simp: sp_next_def Let_def split: outcome.splits)

lemma sp_next_other:
  assumes "sp_next p = Ok (Other, sp, p')"
  shows "\<exists>t. span_string (Span_Egglog sp) = Some t"
proof -
  let ?q = "sp_skip p" let ?s = "sp_rest ?q"
  have ne: "?s \<noteq> []" using assms by (auto simp: sp_next_def Let_def split: if_splits)
  have "sp = mk_span ?q (sp_index ?q) (sp_index ?q + (char_len ?s + other_len (drop (char_len ?s) ?s)))"
    using assms by (auto simp: sp_next_def Let_def split: if_splits outcome.splits)
  moreover have "char_len ?s + other_len (drop (char_len ?s) ?s) \<le> length ?s"
    using other_len_le [of "drop (char_len ?s) ?s"] char_len_le [of ?s] by simp
  moreover have "0 < length ?s" using ne by simp
  ultimately show ?thesis by (simp add: mk_span_def sp_rest_def)
qed

lemma read_token_total:
  "sp_next p = Ok (tok, sp, p') \<Longrightarrow> read_token pf tok sp stack \<noteq> Panic"
  by (cases tok) (auto simp: read_token_def split: list.splits dest!: sp_next_other simp del: span_string.simps)

lemma sexp_loop_total: "sexp_loop pf stack p \<noteq> Panic"
proof (induction pf stack p rule: sexp_loop.induct)
  case (1 pf stack p)
  show ?case
  proof (cases "sp_next p")
    case (Ok t)
    obtain tok sp p' where t: "t = (tok, sp, p')" by (cases t)
    note n = Ok [unfolded t]
    show ?thesis
    proof (cases "read_token pf tok sp stack")
      case (Ok r)
      obtain x stack' where r: "r = (x, stack')" by (cases r)
      show ?thesis
      proof (cases x)
        case None
        with 1(1) [OF n _ _ Ok [unfolded r] _ None] n Ok r show ?thesis by (subst sexp_loop.simps) simp
      next
        case (Some y)
        with 1(2) [OF n _ _ Ok [unfolded r] _ Some] n Ok r show ?thesis
          by (subst sexp_loop.simps) (auto split: list.split)
      qed
    qed (use n read_token_total [OF n] in \<open>subst sexp_loop.simps, auto\<close>)
  qed (use sp_next_total [of p] in \<open>subst sexp_loop.simps, auto\<close>)
qed

lemma bind_o_eq_Panic: "bind_o m f = Panic \<longleftrightarrow> m = Panic \<or> (\<exists>a. m = Ok a \<and> f a = Panic)"
  by (cases m) auto

lemma opt_o_eq_Panic: "opt_o (Err e) x \<noteq> Panic"
  by (cases x) auto

lemma all_sexps_loop_total: "all_sexps_loop pf p \<noteq> Panic"
proof (induction pf p rule: all_sexps_loop.induct)
  case (1 pf p)
  have r: "read_sexp pf p \<noteq> Panic" by (simp add: read_sexp_def sexp_loop_total)
  show ?case
    by (subst all_sexps_loop.simps) (use 1 r in \<open>auto simp: bind_o_eq_Panic\<close>)
qed

text \<open>A property of its own, so that the goals keep their form.\<close>

definition no_panic :: "('e, 'a) outcome \<Rightarrow> bool" where
  "no_panic r \<longleftrightarrow> r \<noteq> Panic"

named_theorems total_intros
  \<comment> \<open>which results are not panics\<close>

lemma no_panic_intros [total_intros]:
  "no_panic (Ok a)" "no_panic (Err e)" "no_panic m \<Longrightarrow> (\<And>a. m = Ok a \<Longrightarrow> no_panic (f a)) \<Longrightarrow> no_panic (bind_o m f)"
  "no_panic (opt_o (Err e) x)" "no_panic (opt_o Panic (Some y))"
  by (auto simp: no_panic_def bind_o_eq_Panic opt_o_eq_Panic)

lemma no_panic_cases [total_intros]:
  "(c \<Longrightarrow> no_panic a) \<Longrightarrow> (\<not> c \<Longrightarrow> no_panic b) \<Longrightarrow> no_panic (if c then a else b)"
  "no_panic a \<Longrightarrow> (\<And>y ys. xs = y # ys \<Longrightarrow> no_panic (f y ys)) \<Longrightarrow> no_panic (case xs of [] \<Rightarrow> a | y # ys \<Rightarrow> f y ys)"
  "no_panic a \<Longrightarrow> (\<And>y. z = Some y \<Longrightarrow> no_panic (g y)) \<Longrightarrow> no_panic (case z of None \<Rightarrow> a | Some y \<Rightarrow> g y)"
  "(\<And>u v. p = (u, v) \<Longrightarrow> no_panic (h u v)) \<Longrightarrow> no_panic (case p of (u, v) \<Rightarrow> h u v)"
  "(\<And>u v. p = (u, v) \<Longrightarrow> no_panic (k u v w)) \<Longrightarrow> no_panic ((case p of (u, v) \<Rightarrow> k u v) w)"
  "(\<And>l sp. no_panic (s1 l sp)) \<Longrightarrow> (\<And>t sp. no_panic (s2 t sp)) \<Longrightarrow> (\<And>ys sp. no_panic (s3 ys sp)) \<Longrightarrow>
    no_panic (case x of SLit l sp \<Rightarrow> s1 l sp | SAtom t sp \<Rightarrow> s2 t sp | SList ys sp \<Rightarrow> s3 ys sp)"
  by (auto split: list.split option.split prod.split sexp.split)

lemma no_panic_map_out: "(\<And>x s. x \<in> set xs \<Longrightarrow> no_panic (f x s)) \<Longrightarrow> no_panic (map_out f xs s)"
  by (induction xs arbitrary: s) (auto intro!: total_intros)

lemma no_panic_fold_out: "(\<And>x s. x \<in> set xs \<Longrightarrow> no_panic (f x s)) \<Longrightarrow> no_panic (fold_out f xs s)"
  by (induction xs arbitrary: s) (auto intro!: total_intros)

lemma expect_total [total_intros]:
  "no_panic (expect_uint n e x)" "no_panic (expect_string e x)" "no_panic (expect_atom e x)"
  "no_panic (expect_list e x)" "no_panic (expect_call e x)"
  by (auto simp: expect_uint_def expect_string_def expect_atom_def expect_list_def expect_call_def
      intro!: total_intros split: sexp.split literal.split list.split)

lemma expect_atoms_total [total_intros]: "no_panic (expect_atoms e xs)"
  by (auto simp: expect_atoms_def intro!: total_intros no_panic_map_out)

lemma names_total [total_intros]:
  "no_panic (ensure_symbol_not_reserved st s sp)" "no_panic (ensure_not_colon_prefixed st s sp)"
  "no_panic (ensure_definition_name st s sp)" "no_panic (parse_name st w x)"
proof -
  show 1: "no_panic (ensure_symbol_not_reserved st s sp)" "no_panic (ensure_not_colon_prefixed st s sp)" for s sp
    by (auto simp: ensure_symbol_not_reserved_def ensure_not_colon_prefixed_def intro!: total_intros)
  show 2: "no_panic (ensure_definition_name st s sp)" for s sp
    by (auto simp: ensure_definition_name_def intro!: total_intros 1)
  show "no_panic (parse_name st w x)" by (auto simp: parse_name_def intro!: total_intros 2)
qed

lemma parse_options_total [total_intros]: "no_panic (parse_options xs)"
  by (induction xs rule: parse_options.induct)
    (auto simp: parse_options.simps(2) intro!: total_intros split: option.split)

lemma schema_new_tuple_total [total_intros]: "outs \<noteq> [] \<Longrightarrow> no_panic (opt_o Panic (schema_new_tuple ins outs))"
  by (cases outs) (auto intro!: total_intros)

lemma parse_schema_total [total_intros]: "no_panic (parse_schema i out)"
  by (auto simp: parse_schema_def intro!: total_intros split: sexp.split)

text \<open>Without macros nothing in the grammar panics.\<close>

lemma parse_expr_total [total_intros]: "no_panic (parse_expr no_macros x st)"
proof (induction "no_macros" x st rule: parse_expr.induct)
  case (2 s sp st)
  then show ?case by (auto simp: Let_def intro!: total_intros split: prod.split)
next
  case (4 head a tail sp st)
  have "no_panic (map_out (parse_expr no_macros) tail st)" if "\<not> (ps_no_reserved st \<and> head \<in> set command_only_keywords)"
    by (rule no_panic_map_out) (use 4 that in \<open>auto simp: no_macros_def\<close>)
  then show ?case by (auto simp: no_macros_def intro!: total_intros)
qed (auto intro!: total_intros)

lemma parse_fact_total [total_intros]: "no_panic (parse_fact no_macros x st)"
  by (auto simp: parse_fact_def intro!: total_intros split: list.split)

lemma parse_lookup_total [total_intros]: "no_panic (parse_lookup no_macros x st)"
  by (auto simp: parse_lookup_def intro!: total_intros no_panic_map_out)

lemma no_action_macro: "mc_actions no_macros h = None"
  by (simp add: no_macros_def)

lemma parse_builtin_action_total [total_intros]: "no_panic (parse_builtin_action no_macros x h tail sp st)"
  unfolding parse_builtin_action_def by (intro total_intros)

lemma parse_action_total [total_intros]: "no_panic (parse_action no_macros x st)"
  by (auto simp: parse_action_def no_action_macro intro!: total_intros)

lemma parse_until_total [total_intros]: "no_panic (parse_until no_macros xs sp st)"
  by (auto simp: parse_until_def intro!: total_intros no_panic_map_out split: list.split)

lemma parse_run_schedule_total [total_intros]: "no_panic (parse_run_schedule no_macros tail sp st)"
  unfolding parse_run_schedule_def Let_def by (intro total_intros)

lemma parse_schedule_total [total_intros]: "no_panic (parse_schedule no_macros x st)"
proof (induction "no_macros" x st rule: parse_schedule.induct)
  case (2 head a tail sp st)
  have m: "head \<in> {''saturate'', ''seq''} \<Longrightarrow> no_panic (map_out (parse_schedule no_macros) tail s)" for s
    by (rule no_panic_map_out) (use 2(1,2) in auto)
  have t: "no_panic (map_out (parse_schedule no_macros) tl' st)"
    if "head = ''repeat''" "tail = l # tl'" "expect_uint (2 ^ 64) ''number of iterations'' l = Ok n" for l tl' n
    by (rule no_panic_map_out) (use 2(3) [OF _ _ that] that in auto)
  show ?case unfolding parse_schedule.simps
    by (intro total_intros m) (auto intro: t)
qed (auto intro!: total_intros)

text \<open>The commands, in groups.\<close>

lemma parse_variant_total [total_intros]: "no_panic (parse_variant x st)"
  unfolding parse_variant_def types_of_def by (intro total_intros)

lemma parse_container_total [total_intros]: "no_panic (parse_container no_macros xs st)"
  unfolding parse_container_def by (intro total_intros no_panic_map_out)

lemma rec_datatype_total [total_intros]: "no_panic (rec_datatype no_macros x st)"
  unfolding rec_datatype_def by (intro total_intros no_panic_map_out)

lemma parse_sort_total [total_intros]: "no_panic (parse_sort no_macros tail sp st)"
  unfolding parse_sort_def sort_option_def container_sort_option_def by (intro total_intros no_panic_fold_out)

lemma function_total [total_intros]:
  "no_panic (function_flag key o' sp)" "no_panic (function_impl_of fo sp)"
  unfolding function_flag_def function_impl_of_def by (intro total_intros)+

lemma function_option_total [total_intros]: "no_panic (function_option no_macros sp opt acc)"
  unfolding function_option_def by (intro total_intros)

lemma parse_function_total [total_intros]: "no_panic (parse_function no_macros tail sp st)"
  unfolding parse_function_def by (intro total_intros no_panic_fold_out)

lemma parse_constructor_total [total_intros]: "no_panic (parse_constructor tail sp st)"
  unfolding parse_constructor_def constructor_option_def by (intro total_intros no_panic_fold_out)

lemma parse_rule_total [total_intros]: "no_panic (parse_rule no_macros tail sp st)"
  unfolding parse_rule_def rule_option_def by (intro total_intros no_panic_fold_out no_panic_map_out)

lemma rewrite_option_total [total_intros]: "no_panic (rewrite_option no_macros may err sp opt acc)"
  unfolding rewrite_option_def by (intro total_intros no_panic_map_out)

lemma parse_rewrite_total [total_intros]:
  "no_panic (parse_rewrite no_macros tail sp st)" "no_panic (parse_birewrite no_macros tail sp st)"
  unfolding parse_rewrite_def parse_birewrite_def parse_rewrite_with_def
  by (intro total_intros no_panic_fold_out)+

lemma parse_run_total [total_intros]: "no_panic (parse_run no_macros tail sp st)"
  unfolding parse_run_def Let_def by (intro total_intros)

lemma parse_print_total [total_intros]:
  "no_panic (parse_print_stats tail sp st)" "no_panic (parse_print_function tail sp st)"
  unfolding parse_print_stats_def parse_print_function_def print_function_option_def Let_def
  by (intro total_intros no_panic_fold_out)+

lemma parse_terms_total [total_intros]:
  "no_panic (parse_extract no_macros tail sp st)" "no_panic (parse_output no_macros tail sp st)"
  unfolding parse_extract_def parse_output_def by (intro total_intros no_panic_map_out)+

lemma parse_simple_total: "parse_simple head tail sp st = Some r \<Longrightarrow> no_panic r"
  unfolding parse_simple_def by (auto split: if_splits intro!: total_intros)

lemma parse_builtin_total [total_intros]: "no_panic (parse_builtin no_macros x head tail sp st)"
  unfolding parse_builtin_def
  by (intro total_intros no_panic_map_out) (erule parse_simple_total)

text \<open>Every head gives one command.\<close>

definition single :: "('e, 'a list \<times> 's) outcome \<Rightarrow> bool" where
  "single r \<longleftrightarrow> (\<forall>cs s. r = Ok (cs, s) \<longrightarrow> length cs = 1)"

lemma single_intros:
  "single (Err e)" "single (Ok ([e1], st1))" "(\<And>a. m = Ok a \<Longrightarrow> single (f a)) \<Longrightarrow> single (bind_o m f)"
  "(c \<Longrightarrow> single a) \<Longrightarrow> (\<not> c \<Longrightarrow> single b) \<Longrightarrow> single (if c then a else b)"
  "single a \<Longrightarrow> (\<And>y ys. xs = y # ys \<Longrightarrow> single (g y ys)) \<Longrightarrow> single (case xs of [] \<Rightarrow> a | y # ys \<Rightarrow> g y ys)"
  "single a \<Longrightarrow> (\<And>y. z = Some y \<Longrightarrow> single (h y)) \<Longrightarrow> single (case z of None \<Rightarrow> a | Some y \<Rightarrow> h y)"
  "(\<And>u v. p = (u, v) \<Longrightarrow> single (k u v)) \<Longrightarrow> single (case p of (u, v) \<Rightarrow> k u v)"
  "(\<And>u v. p = (u, v) \<Longrightarrow> single (k' u v w)) \<Longrightarrow> single ((case p of (u, v) \<Rightarrow> k' u v) w)"
  "(\<And>l sp. single (s1 l sp)) \<Longrightarrow> (\<And>t sp. single (s2 t sp)) \<Longrightarrow> (\<And>ys sp. single (s3 ys sp)) \<Longrightarrow>
    single (case x of SLit l sp \<Rightarrow> s1 l sp | SAtom t sp \<Rightarrow> s2 t sp | SList ys sp \<Rightarrow> s3 ys sp)"
  by (auto simp: single_def bind_o_eq_Ok split: list.split option.split prod.split sexp.split)

lemma single_action: "single (parse_action no_macros x st)"
  unfolding parse_action_def no_action_macro option.case parse_builtin_action_def by (intro single_intros)

lemma single_builtin: "single (parse_builtin no_macros x head tail sp st)"
proof -
  have m: "single (bind_o (parse_action no_macros x st) (\<lambda>(as, st1). Ok (map CAction as, st1)))"
    using single_action [of x st] by (auto simp: single_def bind_o_eq_Ok)
  show ?thesis
    unfolding parse_builtin_def parse_sort_def parse_function_def parse_constructor_def parse_rule_def parse_rewrite_def
      parse_birewrite_def parse_rewrite_with_def parse_run_def Let_def parse_extract_def parse_print_stats_def
      parse_print_function_def parse_output_def
    by (intro single_intros m)
qed

lemma parse_command_total: "no_panic (parse_command no_macros x st) \<and> single (parse_command no_macros x st)"
proof (induction "no_macros" x st rule: parse_command.induct)
  case (1 x st)
  show ?case
  proof (cases "expect_call ''command'' x")
    case (Ok a)
    obtain head tail sp where a: "a = (head, tail, sp)" by (cases a)
    have e: "parse_command no_macros x st =
        (if head \<in> ps_user_defined st then
           bind_o (map_out (parse_expr no_macros) tail st) (\<lambda>(es, st1). Ok ([CUserDefined sp head es], st1))
         else if head = ''fail'' then
           (case tail of
              [c] \<Rightarrow> bind_o (parse_command no_macros c st) (\<lambda>(cs, st1). case cs of [c] \<Rightarrow> Ok ([CFail sp c], st1) | _ \<Rightarrow> Panic)
            | _ \<Rightarrow> Err (sp, ''usage: (fail <command>)''))
         else parse_builtin no_macros x head tail sp st)"
      using Ok a by (subst parse_command.simps) (simp add: no_macros_def)
    have f: "no_panic (bind_o (parse_command no_macros c st) (\<lambda>(cs, st1). case cs of [c] \<Rightarrow> Ok ([CFail sp c], st1) | _ \<Rightarrow> Panic))"
      "single (bind_o (parse_command no_macros c st) (\<lambda>(cs, st1). case cs of [c] \<Rightarrow> Ok ([CFail sp c], st1) | _ \<Rightarrow> Panic))"
      if "head \<notin> ps_user_defined st" "head = ''fail''" "tail = [c]" for c
    proof -
      have "no_panic (parse_command no_macros c st) \<and> single (parse_command no_macros c st)"
        using "1.hyps" [OF Ok a [symmetric] refl _ that(1,2)] that(3) by (simp add: no_macros_def)
      then show "no_panic (bind_o (parse_command no_macros c st) (\<lambda>(cs, st1). case cs of [c] \<Rightarrow> Ok ([CFail sp c], st1) | _ \<Rightarrow> Panic))"
        "single (bind_o (parse_command no_macros c st) (\<lambda>(cs, st1). case cs of [c] \<Rightarrow> Ok ([CFail sp c], st1) | _ \<Rightarrow> Panic))"
        by (cases "parse_command no_macros c st"; force simp: single_def no_panic_def length_Suc_conv)+
    qed
    show ?thesis
    proof (cases "head \<in> ps_user_defined st")
      case True
      then show ?thesis unfolding e by (simp only: if_True) (intro conjI total_intros single_intros no_panic_map_out)
    next
      case nu: False
      show ?thesis
      proof (cases "head = ''fail''")
        case True
        then show ?thesis unfolding e using nu f [OF nu True]
          by (auto intro!: total_intros single_intros split: list.split)
      next
        case False
        then show ?thesis unfolding e using nu parse_builtin_total single_builtin by simp
      qed
    qed
  qed (use expect_total(5) [of "''command''" x] in \<open>auto simp: parse_command.simps no_panic_def single_def\<close>)
qed

lemma parse_program_total: "no_panic (get_program_from_string pf no_macros file input st)"
  using all_sexps_loop_total parse_command_total
  unfolding get_program_from_string_def all_sexps_def
  by (intro total_intros no_panic_map_out) (auto simp: no_panic_def)

section \<open>Variables the user wrote\<close>

text \<open>
  Names are not reserved, except those of wildcards. Parsing changes nothing else of the
  generator than its counters.
\<close>

definition user_name :: "parser \<Rightarrow> string \<Rightarrow> bool" where
  "user_name st v \<longleftrightarrow> \<not> sg_is_reserved (ps_symbol_gen st) v \<or> (\<exists>n. v = sg_name (ps_symbol_gen st) ''_'' n)"

definition counts_on :: "parser \<Rightarrow> parser \<Rightarrow> bool" where
  "counts_on st st' \<longleftrightarrow> ps_no_reserved st' = ps_no_reserved st \<and> sg_name (ps_symbol_gen st') = sg_name (ps_symbol_gen st)
     \<and> reserved_string (ps_symbol_gen st') = reserved_string (ps_symbol_gen st)"

lemma counts_on_refl: "counts_on st st"
  by (simp add: counts_on_def)

lemma counts_on_trans: "counts_on a b \<Longrightarrow> counts_on b c \<Longrightarrow> counts_on a c"
  by (simp add: counts_on_def)

lemma user_name_counts_on: "counts_on st st' \<Longrightarrow> user_name st' v = user_name st v"
  by (simp add: counts_on_def user_name_def sg_is_reserved_def)

lemma parser_fresh_counts_on: "counts_on st (snd (parser_fresh h st))"
  using sg_fresh_frame [of h "ps_symbol_gen st"]
  by (simp add: counts_on_def parser_fresh_def case_prod_unfold Let_def) (simp add: sg_fresh_def Let_def)

lemma parser_fresh_name: "\<exists>n. fst (parser_fresh h st) = sg_name (ps_symbol_gen st) h n"
  by (auto simp: parser_fresh_def case_prod_unfold Let_def sg_fresh_name)

definition user_vars :: "parser \<Rightarrow> uexpr \<Rightarrow> bool" where
  "user_vars st e \<longleftrightarrow> (\<forall>v \<in> set (expr_vars e). user_name st v)"

lemma user_vars_counts_on: "counts_on st st' \<Longrightarrow> user_vars st' e = user_vars st e"
  by (simp add: user_vars_def user_name_counts_on)

lemma map_out_counts_on:
  assumes "map_out f xs st = Ok (ys, st')" "ps_no_reserved st"
    and "\<And>x s y s'. x \<in> set xs \<Longrightarrow> ps_no_reserved s \<Longrightarrow> f x s = Ok (y, s') \<Longrightarrow> counts_on s s' \<and> P s' y"
    and "\<And>s s' y. counts_on s s' \<Longrightarrow> P s y \<Longrightarrow> P s' y"
  shows "counts_on st st' \<and> (\<forall>y \<in> set ys. P st' y)"
proof -
  have "ps_no_reserved st' \<and> counts_on st st' \<and> list_all2 (\<lambda>x y. P st' y) xs ys"
  proof (rule map_out_invariant [where I = "\<lambda>s. ps_no_reserved s" and le = counts_on, OF assms(1,2)])
    fix x s y s' assume "x \<in> set xs" "ps_no_reserved s" "f x s = Ok (y, s')"
    from assms(3) [OF this] have c: "counts_on s s'" "P s' y" by auto
    moreover have "ps_no_reserved s'" using c(1) \<open>ps_no_reserved s\<close> by (simp add: counts_on_def)
    ultimately show "ps_no_reserved s' \<and> counts_on s s' \<and> P s' y" by blast
  next
    fix y s s' assume "counts_on s s'" "P s y"
    then show "P s' y" by (rule assms(4))
  qed (rule counts_on_refl, erule counts_on_trans)
  then show ?thesis by (auto simp: list_all2_conv_all_nth in_set_conv_nth)
qed

lemma parse_expr_user:
  "parse_expr no_macros x st = Ok (e, st') \<Longrightarrow> ps_no_reserved st \<Longrightarrow> counts_on st st' \<and> user_vars st' e"
proof (induction "no_macros" x st arbitrary: e st' rule: parse_expr.induct)
  case (2 s sp st)
  show ?case
  proof (cases "s = ''_''")
    case True
    from 2 True have e: "e = EVar sp (fst (parser_fresh ''_'' st))" "st' = snd (parser_fresh ''_'' st)"
      by (auto simp: Let_def case_prod_unfold)
    have c: "counts_on st st'" unfolding e by (rule parser_fresh_counts_on)
    have "user_name st (fst (parser_fresh ''_'' st))" using parser_fresh_name [of "''_''" st] by (simp add: user_name_def)
    with c show ?thesis unfolding e(1) by (simp add: user_vars_def user_name_counts_on)
  next
    case False
    with 2 show ?thesis
      by (auto simp: bind_o_eq_Ok user_vars_def user_name_def counts_on_refl ensure_symbol_not_reserved_def split: if_splits)
  qed
next
  case (4 head a tail sp st)
  from 4 obtain es where m: "map_out (parse_expr no_macros) tail st = Ok (es, st')" "e = ECall sp head es"
    by (auto simp: no_macros_def bind_o_eq_Ok split: if_splits)
  have c: "\<not> (ps_no_reserved st \<and> head \<in> set command_only_keywords)" using 4 by (auto simp: no_macros_def)
  have "counts_on st st' \<and> (\<forall>y \<in> set es. user_vars st' y)"
    by (rule map_out_counts_on [OF m(1)])
      (use 4 c in \<open>auto simp: no_macros_def user_vars_counts_on\<close>)
  with m(2) show ?case by (auto simp: user_vars_def)
qed (auto simp: counts_on_refl user_vars_def)

fun fact_exprs :: "('h, 'l) fact \<Rightarrow> ('h, 'l) expr list" where
  "fact_exprs (FEq _ a b) = [a, b]"
| "fact_exprs (FFact e) = [e]"

definition user_fact :: "parser \<Rightarrow> ufact \<Rightarrow> bool" where
  "user_fact st y \<longleftrightarrow> (\<forall>e \<in> set (fact_exprs y). user_vars st e)"

lemma user_fact_counts_on: "counts_on st st' \<Longrightarrow> user_fact st' y = user_fact st y"
  by (simp add: user_fact_def user_vars_counts_on)

lemma parse_fact_user:
  assumes "parse_fact no_macros x st = Ok (y, st')" "ps_no_reserved st"
  shows "counts_on st st' \<and> user_fact st' y"
proof -
  from assms(1) consider e1 e2 a b st1 sp where "parse_expr no_macros e1 st = Ok (a, st1)"
      "parse_expr no_macros e2 st1 = Ok (b, st')" "y = FEq sp a b"
    | e where "parse_expr no_macros x st = Ok (e, st')" "y = FFact e"
    by (auto simp: parse_fact_def bind_o_eq_Ok split: if_splits list.splits)
  then show ?thesis
  proof cases
    case 1
    from parse_expr_user [OF 1(1) assms(2)] have a: "counts_on st st1" "user_vars st1 a" by auto
    then have "ps_no_reserved st1" using assms(2) by (simp add: counts_on_def)
    from parse_expr_user [OF 1(2) this] have "counts_on st1 st'" "user_vars st' b" by auto
    with a 1(3) show ?thesis by (auto simp: user_fact_def user_vars_counts_on intro: counts_on_trans)
  next
    case 2
    from parse_expr_user [OF 2(1) assms(2)] 2(2) show ?thesis by (auto simp: user_fact_def)
  qed
qed

lemma parse_facts_user:
  "map_out (parse_fact no_macros) xs st = Ok (ys, st') \<Longrightarrow> ps_no_reserved st \<Longrightarrow>
    counts_on st st' \<and> (\<forall>y \<in> set ys. user_fact st' y)"
  by (rule map_out_counts_on) (auto simp: parse_fact_user user_fact_counts_on)

definition user_rewrite :: "parser \<Rightarrow> (string, string) rewrite \<Rightarrow> bool" where
  "user_rewrite st rw \<longleftrightarrow> user_vars st (rw_lhs rw) \<and> user_vars st (rw_rhs rw) \<and> (\<forall>y \<in> set (rw_conditions rw). user_fact st y)"

lemma rewrite_options_user:
  assumes "fold_out (rewrite_option no_macros may err sp) opts (([], [], [], False), st) = Ok ((rs, cond, n, sub), st')"
    and "ps_no_reserved st"
  shows "counts_on st st' \<and> (\<forall>y \<in> set cond. user_fact st' y)"
proof -
  let ?I = "\<lambda>((rs, cond, n, sub), s). counts_on st s \<and> (\<forall>y \<in> set cond. user_fact s y)"
  have "?I ((rs, cond, n, sub), st')"
  proof (rule fold_out_invariant [OF assms(1)])
    show "?I (([], [], [], False), st)" by (simp add: counts_on_refl)
    fix x s s' assume x: "x \<in> set opts" and I: "?I s" and f: "rewrite_option no_macros may err sp x s = Ok s'"
    obtain key val where k: "x = (key, val)" by (cases x)
    obtain rs0 cond0 n0 sub0 s0 where s: "s = ((rs0, cond0, n0, sub0), s0)" by (cases s) (metis prod_cases3 surj_pair)
    have nr: "ps_no_reserved s0" using I assms(2) by (simp add: s counts_on_def)
    from f I show "?I s'"
      by (auto simp: rewrite_option_def k s bind_o_eq_Ok split: if_splits dest!: parse_facts_user [OF _ nr]
          intro: counts_on_trans)
  qed
  then show ?thesis by simp
qed

lemma parse_rewrite_user:
  assumes "parse_rewrite_with no_macros may err usage mk tail sp st = Ok (cs, st')" "ps_no_reserved st"
  shows "\<exists>rs rw sub. cs = [mk rs rw sub] \<and> counts_on st st' \<and> user_rewrite st' rw"
proof -
  from assms(1) obtain lhs rhs rest l r opts rs cond n sub st1 st2 where
    l: "parse_expr no_macros lhs st = Ok (l, st1)" and r: "parse_expr no_macros rhs st1 = Ok (r, st2)"
    and o': "fold_out (rewrite_option no_macros may err sp) opts (([], [], [], False), st2) = Ok ((rs, cond, n, sub), st')"
    and cs: "cs = [mk rs \<lparr>rw_span = sp, rw_lhs = l, rw_rhs = r, rw_conditions = cond, rw_name = n\<rparr> sub]"
    by (auto simp: parse_rewrite_with_def bind_o_eq_Ok split: list.splits)
  from parse_expr_user [OF l assms(2)] have 1: "counts_on st st1" "user_vars st1 l" by auto
  then have "ps_no_reserved st1" using assms(2) by (simp add: counts_on_def)
  from parse_expr_user [OF r this] have 2: "counts_on st1 st2" "user_vars st2 r" by auto
  then have "ps_no_reserved st2" using \<open>ps_no_reserved st1\<close> by (simp add: counts_on_def)
  from rewrite_options_user [OF o' this] have 3: "counts_on st2 st'" "\<forall>y \<in> set cond. user_fact st' y" by auto
  have "counts_on st1 st'" using 2 3 by (blast intro: counts_on_trans)
  with 1 2 3 have "counts_on st st'"
    "user_rewrite st' \<lparr>rw_span = sp, rw_lhs = l, rw_rhs = r, rw_conditions = cond, rw_name = n\<rparr>"
    by (auto simp: user_rewrite_def user_vars_counts_on intro: counts_on_trans)
  with cs show ?thesis by blast
qed

section \<open>Desugaring\<close>

inductive undesugarable :: "ucommand \<Rightarrow> bool" where
  c_include: "undesugarable (CInclude sp file)"
| c_subsume: "call_head (rw_lhs rw) = None \<Longrightarrow> undesugarable (CRewrite rs rw True)"
| c_nothing: "undesugarable (CFail sp (CDatatypes sp' []))"
| c_fail: "undesugarable c \<Longrightarrow> undesugarable (CFail sp c)"

inductive_simps undesugarable_CFail: "undesugarable (CFail sp c)"
inductive_simps undesugarable_CRewrite: "undesugarable (CRewrite rs rw sub)"
inductive_cases undesugarable_elim: "undesugarable c"

lemma rewrite_actions_None: "rewrite_actions rw sub v = None \<longleftrightarrow> sub \<and> call_head (rw_lhs rw) = None"
  by (cases "rw_lhs rw") (auto simp: rewrite_actions_def Let_def)

lemma desugar_rewrite_result:
  "desugar_rewrite rs n rw sub st =
     (case rewrite_actions rw sub (fst (parser_fresh ''rewrite_var__'' st)) of
        None \<Rightarrow> Panic
      | Some as \<Rightarrow> Ok ([NNormRule \<lparr>rule_span = rw_span rw, rule_head = as,
               rule_body = FEq (rw_span rw) (EVar (rw_span rw) (fst (parser_fresh ''rewrite_var__'' st))) (rw_lhs rw) # rw_conditions rw,
               rule_name = n, rule_ruleset = rs, rule_unsafe_seminaive = False, rule_naive = False,
               rule_no_decomp = False\<rparr>], snd (parser_fresh ''rewrite_var__'' st)))"
  by (simp add: desugar_rewrite_def Let_def case_prod_unfold split: option.split)

lemma desugar_birewrite_Ok: "\<exists>ns st'. desugar_birewrite rs n rw st = Ok (ns, st') \<and> ns \<noteq> []"
  by (simp add: desugar_birewrite_def Let_def desugar_rewrite_result rewrite_actions_def)

lemma desugar_datatypes_empty: "desugar_datatypes ds = [] \<longleftrightarrow> ds = []"
proof (cases ds)
  case (Cons d ds')
  then show ?thesis by (cases d; cases "snd (snd d)") (auto simp: desugar_datatypes_def)
qed (simp add: desugar_datatypes_def)

lemma desugar_outcome:
  "(desugar_command ff dbg pt c st = Panic \<longleftrightarrow> undesugarable c) \<and> (\<forall>e. desugar_command ff dbg pt c st \<noteq> Err e)
    \<and> (\<forall>ns st'. desugar_command ff dbg pt c st = Ok (ns, st') \<longrightarrow> (ns = [] \<longleftrightarrow> (\<exists>sp. c = CDatatypes sp [])))"
proof (induction c arbitrary: st)
  case (CRewrite rs rw sub)
  show ?case using rewrite_actions_None [of rw sub "fst (parser_fresh ''rewrite_var__'' st)"]
    by (auto simp: desugar_rewrite_result undesugarable_CRewrite split: option.splits)
next
  case (CBiRewrite rs rw)
  show ?case using desugar_birewrite_Ok [of rs "rule_name_of ff dbg (CBiRewrite rs rw)" rw st]
    by (auto elim: undesugarable_elim)
next
  case (CFail sp c)
  show ?case using CFail [of st] by (cases "desugar_command ff dbg pt c st") (auto simp: undesugarable_CFail)
next
  case (CInclude sp f)
  show ?case by (simp add: undesugarable.c_include)
next
  case (CCheck sp fs)
  show ?case by (auto simp: desugar_prove_def Let_def case_prod_unfold elim: undesugarable_elim)
next
  case (CProve sp fs)
  show ?case by (auto simp: desugar_prove_def Let_def case_prod_unfold elim: undesugarable_elim)
next
  case (CRelation sp n ins)
  show ?case by (auto simp: desugar_relation_def Let_def case_prod_unfold elim: undesugarable_elim)
next
  case (CDatatype sp n vs)
  show ?case by (auto simp: desugar_datatype_def elim: undesugarable_elim)
next
  case (CDatatypes sp ds)
  show ?case by (auto simp: desugar_datatypes_empty elim: undesugarable_elim)
qed (auto elim: undesugarable_elim)

text \<open>The variable that names the left-hand side of a rewrite.\<close>

lemma plain_hints: "plain_hint ''rewrite_var__''" "plain_hint ''_''"
  by (simp_all add: plain_hint_def is_digit_def)

lemma rewrite_var_not_user:
  assumes "reserved_string (ps_symbol_gen st) \<noteq> []"
  shows "\<not> user_name st (sg_name (ps_symbol_gen st) ''rewrite_var__'' n)"
proof
  let ?g = "ps_symbol_gen st"
  assume "user_name st (sg_name ?g ''rewrite_var__'' n)"
  moreover have "sg_is_reserved ?g (sg_name ?g ''rewrite_var__'' n)"
    using assms by (simp add: sg_is_reserved_def sg_name_def)
  ultimately obtain m where "sg_name ?g ''rewrite_var__'' n = sg_name ?g ''_'' m" by (auto simp: user_name_def)
  from sg_name_inject [OF plain_hints this] show False by simp
qed

text \<open>A rule of a desugared rewrite: how its variable occurs.\<close>

definition names_lhs :: "urule \<Rightarrow> bool" where
  "names_lhs r \<longleftrightarrow> (\<exists>sp v l cond rhs acts. rule_body r = FEq sp (EVar sp v) l # cond \<and> rule_head r = AUnion sp (EVar sp v) rhs # acts
     \<and> v \<notin> set (expr_vars l) \<and> v \<notin> set (expr_vars rhs)
     \<and> (\<forall>y \<in> set cond. \<forall>e \<in> set (fact_exprs y). v \<notin> set (expr_vars e)))"

lemma desugar_rewrite_names_lhs:
  assumes d: "desugar_rewrite rs n rw sub st = Ok (ns, st')" and u: "user_rewrite st rw"
    and g: "reserved_string (ps_symbol_gen st) \<noteq> []"
  shows "counts_on st st' \<and> (\<forall>r. NNormRule r \<in> set ns \<longrightarrow> names_lhs r)"
proof -
  let ?v = "fst (parser_fresh ''rewrite_var__'' st)"
  obtain k where "?v = sg_name (ps_symbol_gen st) ''rewrite_var__'' k" using parser_fresh_name by blast
  then have nu: "\<not> user_name st ?v" using rewrite_var_not_user [OF g, of k] by simp
  then have nv: "user_vars st e \<Longrightarrow> ?v \<notin> set (expr_vars e)" for e by (auto simp: user_vars_def)
  have nf: "user_fact st y \<Longrightarrow> e \<in> set (fact_exprs y) \<Longrightarrow> ?v \<notin> set (expr_vars e)" for y e
    using nv by (auto simp: user_fact_def)
  obtain acts where a: "rewrite_actions rw sub ?v = Some acts" and ns: "ns = [NNormRule \<lparr>rule_span = rw_span rw, rule_head = acts,
               rule_body = FEq (rw_span rw) (EVar (rw_span rw) ?v) (rw_lhs rw) # rw_conditions rw,
               rule_name = n, rule_ruleset = rs, rule_unsafe_seminaive = False, rule_naive = False,
               rule_no_decomp = False\<rparr>]" and st': "st' = snd (parser_fresh ''rewrite_var__'' st)"
    using d by (auto simp: desugar_rewrite_result split: option.splits)
  obtain acts' where "acts = AUnion (rw_span rw) (EVar (rw_span rw) ?v) (rw_rhs rw) # acts'"
    using a by (auto simp: rewrite_actions_def Let_def split: if_splits expr.splits)
  then show ?thesis
    using u nv nf parser_fresh_counts_on [of st "''rewrite_var__''"] by (auto simp: ns st' names_lhs_def user_rewrite_def)
qed

lemma desugar_birewrite_elim:
  assumes "desugar_birewrite rs n rw st = Ok (ns, st2)"
  shows "\<exists>n1 n2 n3 a b st3. desugar_rewrite rs n1 rw False st = Ok (a, st3)
    \<and> desugar_rewrite rs n2 \<lparr>rw_span = rw_span rw, rw_lhs = rw_rhs rw, rw_rhs = rw_lhs rw,
                 rw_conditions = rw_conditions rw, rw_name = n3\<rparr> False st3 = Ok (b, st2) \<and> ns = a @ b"
proof -
  let ?n = "if rw_name rw = [] then n else rw_name rw"
  let ?rw2 = "\<lparr>rw_span = rw_span rw, rw_lhs = rw_rhs rw, rw_rhs = rw_lhs rw,
                 rw_conditions = rw_conditions rw, rw_name = ?n\<rparr>"
  obtain a st3 where 1: "desugar_rewrite rs (?n @ ''=>'') rw False st = Ok (a, st3)"
    using assms by (cases "desugar_rewrite rs (?n @ ''=>'') rw False st") (auto simp: desugar_birewrite_def Let_def)
  with assms have "bind_o (desugar_rewrite rs (?n @ ''<='') ?rw2 False st3) (\<lambda>(cs2, st2). Ok (a @ cs2, st2)) = Ok (ns, st2)"
    by (simp add: desugar_birewrite_def Let_def)
  then obtain b where "desugar_rewrite rs (?n @ ''<='') ?rw2 False st3 = Ok (b, st2)" "ns = a @ b"
    by (cases "desugar_rewrite rs (?n @ ''<='') ?rw2 False st3") auto
  with 1 show ?thesis by blast
qed

section \<open>Where the text and the program part\<close>

text \<open>\<open>datatype*\<close> declares what \<open>datatype\<close> does with the \<open>:unextractable\<close> of its variants removed.\<close>

lemma datatypes_drop_unextractable:
  "desugar_datatypes [(sp, name, Variants vs)] = desugar_datatype sp name (map (\<lambda>v. v\<lparr>va_unextractable := False\<rparr>) vs)"
  by (simp add: desugar_datatypes_def desugar_datatype_def variant_decl_def comp_def)

text \<open>Strings are printed without escapes: a string with a quote in it is read back up to the quote.\<close>

lemma printed_quote_cuts_string:
  assumes "plain_string s" "starts_char t"
  shows "\<exists>sp. get_expr_from_string pf mc file (lit_to_string ff (LString (s @ CHR ''\"'' # t))) st = Ok (ELit sp (LString s), st)"
proof -
  let ?text = "lit_to_string ff (LString (s @ CHR ''\"'' # t))"
  let ?p = "sp_new file ?text"
  have p: "sp_rest ?p = CHR ''\"'' # s @ CHR ''\"'' # (t @ ''\"'')" by (simp add: sp_new_def sp_rest_def)
  have r: "starts_char (t @ ''\"'')" using assms(2) by (cases t) (auto simp: starts_char_def is_continuation_def)
  note n = sp_next_string [OF assms(1) r p]
  have "sexp_loop pf [] ?p = deliver pf [] (SLit (LString s) (Span_Egglog (mk_span ?p (sp_index ?p) (sp_index ?p + (length s + 2)))))
      (sp_advance (length s + 2) ?p)"
    by (rule sexp_loop_item [OF n]) (simp add: read_token_def)
  then show ?thesis by (simp add: get_expr_from_string_def get_from_string_def read_sexp_def deliver_def)
qed

section \<open>Properties\<close>




text \<open>
  C29: desugaring panics on exactly these commands: an include, a subsuming rewrite whose
  left-hand side is not a call, and a \<open>fail\<close> of one of those or of an empty \<open>datatype*\<close>. It never
  fails with an error.
\<close>

theorem desugaring_panics_exactly:
  "(desugar_command ff dbg pt c st = Panic \<longleftrightarrow> undesugarable c) \<and> (\<forall>e. desugar_command ff dbg pt c st \<noteq> Err e)"
  using desugar_outcome [of ff dbg pt c st] by blast

text \<open>
  C28: the variable a desugared rewrite or birewrite introduces for its left-hand side occurs
  nowhere in what the user wrote.
\<close>

theorem rewrite_variable_is_fresh:
  assumes "parse_rewrite no_macros tail sp st = Ok (cs, st1) \<or> parse_birewrite no_macros tail sp st = Ok (cs, st1)"
    and "ps_no_reserved st" "reserved_string (ps_symbol_gen st) \<noteq> []"
    and "c \<in> set cs" "desugar_command ff dbg pt c st1 = Ok (ns, st2)" "NNormRule r \<in> set ns"
  shows "names_lhs r"
proof -
  have g: "reserved_string (ps_symbol_gen s) \<noteq> []" if "counts_on st s" for s using that assms(3) by (simp add: counts_on_def)
  have "\<exists>rs rw sub. (cs = [CRewrite rs rw sub] \<or> cs = [CBiRewrite rs rw]) \<and> counts_on st st1 \<and> user_rewrite st1 rw"
    using assms(1) unfolding parse_rewrite_def parse_birewrite_def
    by (elim disjE) (drule parse_rewrite_user [OF _ assms(2)], blast)+
  then obtain rs rw sub where c: "c = CRewrite rs rw sub \<or> c = CBiRewrite rs rw" and st1: "counts_on st st1"
    and u: "user_rewrite st1 rw" using assms(4) by fastforce
  from c show ?thesis
  proof
    assume "c = CRewrite rs rw sub"
    then show ?thesis using assms(5,6) desugar_rewrite_names_lhs [OF _ u g [OF st1]] by auto
  next
    assume c: "c = CBiRewrite rs rw"
    have "desugar_birewrite rs (rule_name_of ff dbg c) rw st1 = Ok (ns, st2)" using assms(5) unfolding c desugar_command.simps .
    from desugar_birewrite_elim [OF this] obtain n1 n2 n3 a b st3 where 1: "desugar_rewrite rs n1 rw False st1 = Ok (a, st3)"
      and 2: "desugar_rewrite rs n2 \<lparr>rw_span = rw_span rw, rw_lhs = rw_rhs rw, rw_rhs = rw_lhs rw,
                 rw_conditions = rw_conditions rw, rw_name = n3\<rparr> False st3 = Ok (b, st2)"
      and ns: "ns = a @ b"
      by (elim exE conjE) (rule that)
    note a = desugar_rewrite_names_lhs [OF 1 u g [OF st1]]
    then have st3: "counts_on st1 st3" by simp
    have "user_rewrite st3 \<lparr>rw_span = rw_span rw, rw_lhs = rw_rhs rw, rw_rhs = rw_lhs rw,
                 rw_conditions = rw_conditions rw, rw_name = n3\<rparr>"
      using u by (simp add: user_rewrite_def user_vars_counts_on [OF st3] user_fact_counts_on [OF st3])
    from desugar_rewrite_names_lhs [OF 2 this g [OF counts_on_trans [OF st1 st3]]] a ns assms(6) show ?thesis by auto
  qed
qed

section \<open>Witnesses\<close>

text \<open>The expression of the parser's own test, with the float 4.0, and a rule over it.\<close>

definition sample_print :: "64 word \<Rightarrow> string" where "sample_print x = ''4''"

definition sample_read :: "string \<Rightarrow> 64 word option" where
  "sample_read s = (if s = ''4.0'' then Some 0x4010000000000000 else None)"

definition sample_expr :: uexpr where
  "sample_expr = ECall Span_Panic ''f''
     [ECall Span_Panic ''g'' [EVar Span_Panic ''a'', ELit Span_Panic (LInt 3)], ELit Span_Panic (LFloat 0x4010000000000000),
      ECall Span_Panic ''H'' [ELit Span_Panic (LString ''hello'')]]"

definition sample_rule :: urule where
  "sample_rule = \<lparr>rule_span = Span_Panic, rule_head = [AUnion Span_Panic (EVar Span_Panic ''a'') sample_expr],
     rule_body = [FEq Span_Panic (EVar Span_Panic ''a'') sample_expr], rule_name = ''n'', rule_ruleset = ''rs'',
     rule_unsafe_seminaive = False, rule_naive = True, rule_no_decomp = False\<rparr>"

lemma sample_atoms: "s \<in> {''f'', ''g'', ''a'', ''H'', ''rs''} \<Longrightarrow> atom_name sample_read s"
  by (rule keyword_atom)
    (auto simp: ordinary_def sample_read_def parse_i64_def parses_i64_def all_digits_def)

lemma sample_float: "float_text sample_print sample_read 0x4010000000000000"
  by (simp add: float_text_def sample_print_def sample_read_def f64_is_finite_def is_digit_def Let_def parses_i64_def
      all_digits_def read_nat_def)

lemma sample_readable: "expr_readable sample_print sample_read sample_expr"
  by (simp add: sample_expr_def sample_atoms sample_float plain_string_def starts_char_def is_continuation_def)

lemma sample_plain: "expr_plain no_macros parser_default sample_expr"
  by (simp add: sample_expr_def plain_head_def plain_name_def no_macros_def parser_default_def command_only_keywords_def
      reserved_keywords_def sg_is_reserved_def sg_new_def internal_prefix_def)


lemma sample_words: "words_not_floats sample_read"
  by (simp add: words_not_floats_def grammar_words_def sample_read_def)


text \<open>The rewrite \<open>(rewrite (f a) a)\<close>.\<close>

definition sample_rewrite_tail :: "sexp list" where
  "sample_rewrite_tail = [SList [SAtom ''f'' Span_Panic, SAtom ''a'' Span_Panic] Span_Panic, SAtom ''a'' Span_Panic]"

definition sample_rewrite :: "(string, string) rewrite" where
  "sample_rewrite = \<lparr>rw_span = Span_Panic, rw_lhs = ECall Span_Panic ''f'' [EVar Span_Panic ''a''],
     rw_rhs = EVar Span_Panic ''a'', rw_conditions = [], rw_name = ''n''\<rparr>"

lemma rewrite_variable_is_fresh_witness:
  "\<exists>r. (\<exists>ns st2. desugar_command sample_print (\<lambda>s. s) False (CRewrite [] (sample_rewrite\<lparr>rw_name := []\<rparr>) False) parser_default = Ok (ns, st2)
      \<and> ns = [NNormRule r]) \<and> names_lhs r"
proof -
  let ?c = "CRewrite [] (sample_rewrite\<lparr>rw_name := []\<rparr>) False"
  have n: "ensure_symbol_not_reserved parser_default ''a'' sp = Ok ()" for sp
    by (simp add: ensure_symbol_not_reserved_def parser_default_def reserved_keywords_def sg_is_reserved_def sg_new_def
        internal_prefix_def)
  have p: "parse_rewrite no_macros sample_rewrite_tail Span_Panic parser_default = Ok ([?c], parser_default)"
    by (simp add: parse_rewrite_def parse_rewrite_with_def sample_rewrite_tail_def n sample_rewrite_def no_macros_def
        command_only_keywords_def)
  obtain r st2 where d: "desugar_command sample_print (\<lambda>s. s) False ?c parser_default = Ok ([NNormRule r], st2)"
    by (simp add: desugar_rewrite_result rewrite_actions_def Let_def)
  have "names_lhs r"
    by (rule rewrite_variable_is_fresh [of sample_rewrite_tail Span_Panic parser_default "[?c]" parser_default ?c
          sample_print "\<lambda>s. s" False "[NNormRule r]" st2 r])
      (use p d in \<open>simp_all add: parser_default_def sg_new_def internal_prefix_def\<close>)
  with d show ?thesis by blast
qed

end
