(* ===== verification/Spec2Isabelle.thy ===== *)
theory Spec2Isabelle
  imports Egg_Prelude Union_Find Generic_Ast Ast_Traversal Symbol_Gen Ast_Display Term_Dag Term_Print
    Term_Pretty Resolved_Ast Proof_Eval Proof_Format Proof_Checker Proof_Semantics Prim_Validators
    Proof_Soundness Proof_Simplification Proof_Conversion Sort_Values Sort_Terms Extract_Model
    Extract_Costs Extract_Termination Extract_Ranks Extract_Edges Extract_Reconstruct Extract_Reach
    Extract_Correct Extract_Variants Extract_Props Row_Offsets Row_Sets
    Row_Buffer Table_Spec Displaced_Table Displaced_Correct Displaced_Props
    Sorted_Table Sorted_Rows Sorted_Correct Sorted_Rehash Sorted_Merge Sorted_Props Sorted_Queries
    Sorted_Results Sexp_Parser Command_Ast Command_Parser Program_Parser Desugar
    Sexp_Reading Print_Parse Syntax_Results
begin

text \<open>
  A verification library for egglog: the e-graph language with Datalog-style rules.

  The program. The crate in \<open>src/src\<close> holds the language: syntax, typechecking, the driver
  \<open>EGraph\<close>, extraction of terms, and proofs. It uses \<open>egglog-ast\<close> (generic syntax trees),
  \<open>union-find\<close>, and one of several database backends (\<open>core-relations\<close> through
  \<open>egglog-bridge\<close>, or DuckDB, DBSP, differential dataflow), which it reaches through a trait.
  Terms leave the database through extraction into a term store; in proof mode extracted terms
  are proofs, which are parsed, converted, simplified and checked.

  Conventions. A Rust struct is a record, an enum a datatype. \<open>('e, 'a) outcome\<close> is the result
  of code that can return (\<open>Ok\<close>), fail with an error value (\<open>Err\<close>) or panic (\<open>Panic\<close>); the
  \<open>?\<close> operator and \<open>unwrap\<close> are binds. Mutation is passing of the changed state. Hash maps
  are partial functions, index maps and sets lists in insertion order. Machine integers are
  words where the code can overflow. Loops that may not end are partial functions, while
  loops with an optional result, or recursive functions with fuel; each has a lemma that
  says when it ends.

  Theories and sources (paths under \<open>src/\<close>):
  \<^item> \<open>Egg_Prelude\<close>: outcomes, folds over fallible bodies and their invariants, decimal
    numbers, index lookup.
  \<^item> \<open>Union_Find\<close>: \<open>union-find/src/lib.rs\<close>. Least ids of the classes that unions generate.
  \<^item> \<open>Generic_Ast\<close>, \<open>Ast_Traversal\<close>, \<open>Ast_Display\<close>: \<open>egglog-ast/src\<close>. Syntax trees with
    spans, traversals and substitution, text.
  \<^item> \<open>Symbol_Gen\<close>: \<open>src/util.rs\<close>. Fresh names and where they collide.
  \<^item> \<open>Term_Dag\<close>, \<open>Term_Print\<close>, \<open>Term_Pretty\<close>: \<open>src/termdag.rs\<close>. Hash-consed terms: round
    trip with expressions, maximal sharing, the iterative printer against the recursive one,
    sizes, the printer with let bindings.
  \<^item> \<open>Resolved_Ast\<close>: \<open>src/ast\<close>, \<open>src/core.rs\<close>, \<open>src/typechecking.rs\<close>: resolved calls and
    variables, normalized commands and their traversals.
  \<^item> \<open>Proof_Format\<close>, \<open>Proof_Conversion\<close>: \<open>src/proofs/proof_format.rs\<close>. Proof stores,
    parsing of extracted proofs, unification; the converted store is well formed.
  \<^item> \<open>Proof_Eval\<close>, \<open>Proof_Checker\<close>: \<open>src/proofs/proof_checker.rs\<close>.
  \<^item> \<open>Proof_Semantics\<close>, \<open>Proof_Soundness\<close>: the derivability relation as an inductive
    definition, and the checker's soundness for it.
  \<^item> \<open>Prim_Validators\<close>: the validators of the built-in primitives (\<open>src/sort\<close>, the
    procedural macro of \<open>add_primitive\<close>); they satisfy the contract the checker relies on.
  \<^item> \<open>Proof_Simplification\<close>: \<open>src/proofs/proof_simplification.rs\<close>.
  \<^item> \<open>Sort_Values\<close>, \<open>Sort_Terms\<close>: \<open>src/sort\<close>. What sorts tell extraction, and that values
    are rebuilt as the terms they stand for.
  \<^item> \<open>Extract_Model\<close>: \<open>src/extract.rs\<close>. \<open>Extract_Costs\<close> defines the terms an e-class contains
    (\<open>extracts\<close>) and shows that the tables of Bellman-Ford hold their least costs;
    \<open>Extract_Termination\<close> that the loop ends; \<open>Extract_Ranks\<close> and \<open>Extract_Edges\<close> that the
    saved edges lead to smaller ranks; \<open>Extract_Reconstruct\<close> that rebuilding along them ends
    with a term of the recorded cost; \<open>Extract_Reach\<close> that the search for tables ends and
    misses none; \<open>Extract_Correct\<close>, \<open>Extract_Variants\<close> and \<open>Extract_Props\<close> compose them.
  \<^item> \<open>Row_Offsets\<close>: \<open>core-relations/src/offsets\<close>. Subsets of a table's rows, galloping search,
    intersection. \<open>Row_Sets\<close>: they behave as ordered sets of row ids.
  \<^item> \<open>Row_Buffer\<close>: \<open>core-relations/src/row_buffer\<close>. The flat vector of a batch of rows is
    a list of rows; compaction in one pass over the values keeps the live rows.
  \<^item> \<open>Table_Spec\<close>: \<open>core-relations/src/table_spec.rs\<close>. Constraints, the default methods of
    tables, and the contract \<open>table_queries\<close> of a table towards the query planner.
  \<^item> \<open>Displaced_Table\<close>: \<open>core-relations/src/uf\<close>. The table over a union-find.
    \<open>Displaced_Correct\<close> shows that it is the equivalence its writes generate;
    \<open>Displaced_Props\<close> that it fulfils the contract and rebuilds rows right.
  \<^item> \<open>Sorted_Table\<close>: \<open>core-relations/src/table\<close>. Tables with keys, sharded hash tables and a sort
    column. \<open>Sorted_Rows\<close> and \<open>Sorted_Correct\<close> hold the invariants and insertion,
    \<open>Sorted_Rehash\<close> removal and compaction, \<open>Sorted_Merge\<close> staging and the loops over shards,
    \<open>Sorted_Props\<close> whole rounds as updates of a map, \<open>Sorted_Queries\<close> the contract of tables,
    \<open>Sorted_Results\<close> the properties.
  \<^item> \<open>Sexp_Parser\<close>, \<open>Command_Parser\<close>, \<open>Program_Parser\<close>: \<open>src/ast/parse.rs\<close>. Tokens and
    S-expressions with spans; expressions, facts, actions and schedules; commands and programs.
    \<open>Sexp_Reading\<close> shows what a text that spells an S-expression is read as, \<open>Print_Parse\<close> that
    printed expressions, facts, actions and rules spell what they are, \<open>Syntax_Results\<close> the
    properties of reading and desugaring.
  \<^item> \<open>Command_Ast\<close>: surface commands of \<open>src/ast/mod.rs\<close> and their text. \<open>Desugar\<close>:
    \<open>src/ast/desugar.rs\<close>.

  Interfaces as locales: \<open>table_queries\<close> is the contract of tables;
  \<open>validator_contract\<close> is the contract between the proof checker and
  the validators of primitives; \<open>merge_structure\<close> that of a union-find; \<open>monotone_cost\<close> and \<open>strict_cost\<close> are what the extractor
  needs of a cost model, interpreted on the default, saturating 64-bit costs.

  Fuel. The checker, the parsers of proofs, the conversion of a term to a proof and the
  reconstruction of terms take fuel where the code recurses: each unit is a nested call, and
  running out is a panic, as an exhausted stack is. \<open>proof_checker_depth\<close> gives the fuel a
  store needs; for reconstruction the properties say that enough fuel exists, and that any
  more gives the same result.

  Parameters. The rows of the tables, in iteration order, are part of the e-graph's record;
  which functions are views, and the functions with the union-find, are too. Floats are
  kept as their bits, since only their identity matters here; printing them is a parameter.

  Not modelled: most of the backends, and the driver (databases, threads, user closures), the
  typechecker, the encoding of proofs into tables, the
  command line, and sorts' primitives other than the validated ones.
\<close>

section \<open>Proofs: from the e-graph to the checker\<close>


text \<open>
  The running example: the rule \<open>r: F(x) \<leadsto> F(x) = x\<close>, the globals \<open>A = B\<close> and \<open>F(A)\<close>, and
  the extracted proof \<open>Sym(Trans(Rule r [Fiat F(A)], Fiat A = B))\<close> of \<open>B = F(A)\<close>.
\<close>

definition demo_fun :: "string \<Rightarrow> nat \<Rightarrow> resolved_call" where
  "demo_fun f n = (let T = \<lparr>sort_name = ''T'', sort_is_eq = True\<rparr> in
     RFunc \<lparr>ft_name = f, ft_subtype = Constructor, ft_input = replicate n T, ft_output = T, ft_extra_outputs = []\<rparr>)"

definition demo_app :: "string \<Rightarrow> rexpr list \<Rightarrow> rexpr" where
  "demo_app f as = ECall Span_Panic (demo_fun f (length as)) as"

definition demo_var :: "string \<Rightarrow> rexpr" where
  "demo_var x = EVar Span_Panic
     \<lparr>rv_name = x, rv_sort = \<lparr>sort_name = ''T'', sort_is_eq = True\<rparr>, rv_is_global_ref = False\<rparr>"

definition demo_rule :: rrule where
  "demo_rule = \<lparr>rule_span = Span_Panic,
     rule_head = [AUnion Span_Panic (demo_app ''F'' [demo_var ''x'']) (demo_var ''x'')],
     rule_body = [FFact (demo_app ''F'' [demo_var ''x''])], rule_name = ''r'', rule_ruleset = '''',
     rule_unsafe_seminaive = False, rule_naive = False, rule_no_decomp = False\<rparr>"

definition demo_prog :: "rncommand list" where
  "demo_prog = [NNormRule demo_rule,
     NCoreAction (AUnion Span_Panic (demo_app ''A'' []) (demo_app ''B'' [])),
     NCoreAction (AExpr Span_Panic (demo_app ''F'' [demo_app ''A'' []]))]"

definition demo_dag :: termdag where
  "demo_dag = \<lparr>nodes = [TApp ''A'' [], TApp ''B'' [], TApp ''F'' [0],
     TApp ''Ast'' [0], TApp ''Ast'' [1], TApp ''Ast'' [2],
     TApp ''Fiat'' [5, 5], TLit (LString ''r''), TApp ''PNil'' [], TApp ''PCons'' [6, 8],
     TApp ''Rule'' [7, 9, 5, 3], TApp ''Fiat'' [3, 4], TApp ''Trans'' [10, 11], TApp ''Sym'' [12]]\<rparr>"

definition demo_store :: proof_store where
  "demo_store = \<lparr>ps_dag = \<lparr>nodes = [TApp ''A'' [], TApp ''B'' [], TApp ''F'' [0]]\<rparr>, ps_ids = Map.empty,
     ps_proofs = [mk_proof 2 2 JFiat, mk_proof 2 0 (JRule ''r'' [0] [(''x'', 0)]), mk_proof 0 1 JFiat,
       mk_proof 2 1 (JTrans 1 2), mk_proof 1 2 (JSym 3)]\<rparr>"

lemma demo_store_wf: "store_wf demo_store"
  by (auto simp: demo_store_def store_wf_def wf_dag_def node_in_def mk_proof_def pf_lhs_def pf_rhs_def
      env_in_def nth_Cons split: nat.splits if_splits)

lemma demo_dag_wf: "wf_dag demo_dag"
  by (auto simp: demo_dag_def wf_dag_def nth_Cons split: nat.splits)

lemma demo_store_acyclic: "acyclic_proofs (ps_proofs demo_store)"
  by (auto simp: demo_store_def acyclic_proofs_def mk_proof_def nth_Cons split: nat.splits)




text \<open>
  C3: converting an extracted proof term gives a store the checker can work on: every
  term and proof id is in range, every proof refers to earlier proofs (so that checking,
  simplifying and printing end), the requested proof is there, and the terms of the
  extracted store keep their ids.
\<close>

theorem extracted_proof_store:
  assumes "validator_contract V S" "wf_dag d" "proof_store_from_term V d t prog = Ok (s, i)"
  shows "store_wf s \<and> acyclic_proofs (ps_proofs s) \<and> i < length (ps_proofs s) \<and> dag_le d (ps_dag s)"
  by (rule validator_contract.proof_store_from_term_ok [OF assms])

theorem extracted_proof_store_witness:
  "\<exists>s. proof_store_from_term builtin_validator demo_dag 13 demo_prog = Ok (s, 4)
    \<and> store_wf s \<and> acyclic_proofs (ps_proofs s) \<and> 4 < length (ps_proofs s) \<and> dag_le demo_dag (ps_dag s)"
proof -
  have "case proof_store_from_term builtin_validator demo_dag 13 demo_prog of Ok (s, i) \<Rightarrow> i = 4 | _ \<Rightarrow> False"
    by code_simp
  then obtain s where s: "proof_store_from_term builtin_validator demo_dag 13 demo_prog = Ok (s, 4)"
    by (auto split: outcome.splits)
  from extracted_proof_store [OF builtin.validator_contract_axioms demo_dag_wf this] s show ?thesis by blast
qed





end
